(* ===== verification/Prelude.thy ===== *)
theory Prelude
  imports Main "HOL-Library.Word" "HOL-Library.AList" "HOL-Library.Signed_Division"
    "HOL-Library.Multiset"
begin

text \<open>
  The shared vocabulary of the development: fixed-width signed arithmetic of Go, Go maps as
  association lists, the slice idioms that the balancers share (first index with a property,
  removal by swapping with the last element) and the loop of the standard library's
  \<^verbatim>\<open>sort.Search\<close>, each with the lemmas that the component theories use.
\<close>

unbundle bit_operations_syntax

named_theorems go_arith \<open>wrap-around arithmetic of Go's fixed-width integers\<close>
named_theorems gomap \<open>lookup, update and deletion on Go maps\<close>

section \<open>Fixed-width signed integers\<close>

text \<open>
  A Go \<^verbatim>\<open>int32\<close> or \<^verbatim>\<open>int64\<close> is an \<open>int\<close> in the range of its width; the result of an
  operation is brought back into that range by two's complement wrap-around.
\<close>

definition wrap_i32 :: "int \<Rightarrow> int" where
  "wrap_i32 x = (x + 2 ^ 31) mod 2 ^ 32 - 2 ^ 31"

definition wrap_i64 :: "int \<Rightarrow> int" where
  "wrap_i64 x = (x + 2 ^ 63) mod 2 ^ 64 - 2 ^ 63"

definition max_i64 :: int where
  "max_i64 = 2 ^ 63 - 1"

lemma wrap_i32_id [go_arith]: "- (2 ^ 31) \<le> x \<Longrightarrow> x < 2 ^ 31 \<Longrightarrow> wrap_i32 x = x"
  by (simp add: wrap_i32_def)

lemma wrap_i64_id [go_arith]: "- (2 ^ 63) \<le> x \<Longrightarrow> x < 2 ^ 63 \<Longrightarrow> wrap_i64 x = x"
  by (simp add: wrap_i64_def)

lemma wrap_i64_back: "- (2 ^ 63) \<le> x \<Longrightarrow> x < 2 ^ 63 \<Longrightarrow> wrap_i64 (wrap_i64 (x + 1) - 1) = x"
  by (simp add: wrap_i64_def mod_simps)

lemma wrap_i32_range: "- (2 ^ 31) \<le> wrap_i32 x \<and> wrap_i32 x < 2 ^ 31"
  using pos_mod_sign [of "2 ^ 32" "x + 2 ^ 31"] pos_mod_bound [of "2 ^ 32" "x + 2 ^ 31"]
  by (simp add: wrap_i32_def)

lemma wrap_i64_range: "- (2 ^ 63) \<le> wrap_i64 x \<and> wrap_i64 x < 2 ^ 63"
  using pos_mod_sign [of "2 ^ 64" "x + 2 ^ 63"] pos_mod_bound [of "2 ^ 64" "x + 2 ^ 63"]
  by (simp add: wrap_i64_def)

section \<open>Go maps\<close>

text \<open>
  A Go map is an association list with distinct keys. Go leaves the iteration order of a map
  unspecified; the order of the list stands for the order of one iteration, and since the
  theorems hold for every list they hold for every iteration order. Lookup is \<^const>\<open>map_of\<close>,
  insertion \<^const>\<open>AList.update\<close>, deletion \<^const>\<open>AList.delete\<close> and \<^verbatim>\<open>len\<close> is \<^const>\<open>length\<close>.
\<close>

type_synonym ('k, 'v) gomap = "('k \<times> 'v) list"

abbreviation gomap_wf :: "('k, 'v) gomap \<Rightarrow> bool" where
  "gomap_wf m \<equiv> distinct (map fst m)"

lemma map_of_update [gomap]: "map_of (AList.update k v m) = (map_of m)(k \<mapsto> v)"
  by (rule AList.update_conv')

lemma map_of_delete [gomap]: "map_of (AList.delete k m) = (map_of m)(k := None)"
  by (rule AList.delete_conv')

lemma gomap_wf_update [gomap]: "gomap_wf m \<Longrightarrow> gomap_wf (AList.update k v m)"
  by (rule AList.distinct_update)

lemma gomap_wf_delete [gomap]: "gomap_wf m \<Longrightarrow> gomap_wf (AList.delete k m)"
  by (rule AList.distinct_delete)

lemma keys_update [gomap]: "fst ` set (AList.update k v m) = insert k (fst ` set m)"
  by (simp add: AList.dom_update)

lemma keys_delete [gomap]: "fst ` set (AList.delete k m) = fst ` set m - {k}"
  by (auto simp: AList.delete_eq)

lemma set_delete_subset: "set (AList.delete k m) \<subseteq> set m"
  by (auto simp: AList.delete_eq)

lemma map_of_None_iff_key: "map_of m k = None \<longleftrightarrow> k \<notin> fst ` set m"
  by (simp add: map_of_eq_None_iff)

lemma length_update_new:
  "k \<notin> fst ` set m \<Longrightarrow> length (AList.update k v m) = Suc (length m)"
  by (induction m) auto

lemma length_update_old:
  "k \<in> fst ` set m \<Longrightarrow> length (AList.update k v m) = length m"
  by (induction m) auto

lemma update_new_append: "k \<notin> fst ` set m \<Longrightarrow> AList.update k v m = m @ [(k, v)]"
  by (induction m) auto

lemma length_delete_key:
  "gomap_wf m \<Longrightarrow> k \<in> fst ` set m \<Longrightarrow> Suc (length (AList.delete k m)) = length m"
proof (induction m)
  case (Cons a m)
  show ?case
  proof (cases "fst a = k")
    case True
    with Cons.prems have "k \<notin> fst ` set m" by auto
    then have "AList.delete k m = m" by (simp add: AList.delete_id)
    with True show ?thesis by (cases a) simp
  next
    case False
    with Cons show ?thesis by (cases a) auto
  qed
qed simp

section \<open>Slice idioms\<close>

text \<open>The index at which a \<^verbatim>\<open>for i, x := range xs\<close> loop first finds an element.\<close>

fun first_index :: "('a \<Rightarrow> bool) \<Rightarrow> 'a list \<Rightarrow> nat option" where
  "first_index p [] = None"
| "first_index p (x # xs) = (if p x then Some 0 else map_option Suc (first_index p xs))"

lemma first_index_SomeD:
  "first_index p xs = Some i \<Longrightarrow> i < length xs \<and> p (xs ! i) \<and> (\<forall>j<i. \<not> p (xs ! j))"
proof (induction xs arbitrary: i)
  case (Cons x xs)
  show ?case
  proof (cases "p x")
    case True
    with Cons.prems show ?thesis by simp
  next
    case False
    with Cons.prems obtain k where k: "first_index p xs = Some k" "i = Suc k" by auto
    from Cons.IH [OF k(1)] False k(2) show ?thesis by (auto simp: nth_Cons split: nat.split)
  qed
qed simp

lemma first_index_None: "first_index p xs = None \<longleftrightarrow> (\<forall>x\<in>set xs. \<not> p x)"
  by (induction xs) auto

text \<open>
  Removal by overwriting the found element with the last one and truncating the slice, as the
  balancers do it: \<^verbatim>\<open>xs[i] = xs[len(xs)-1]; xs = xs[:len(xs)-1]\<close>.
\<close>

definition swap_remove :: "('a \<Rightarrow> bool) \<Rightarrow> 'a list \<Rightarrow> 'a list" where
  "swap_remove p xs =
     (case first_index p xs of
        None \<Rightarrow> xs
      | Some i \<Rightarrow> butlast (xs[i := last xs]))"

lemma mset_swap_remove_at:
  assumes "i < length xs"
  shows "mset (butlast (xs[i := last xs])) = mset xs - {# xs ! i #}"
proof -
  from assms have "xs \<noteq> []" by auto
  then obtain ys y where xs: "xs = ys @ [y]" by (metis append_butlast_last_id)
  show ?thesis
  proof (cases "i = length ys")
    case True
    then show ?thesis by (simp add: xs)
  next
    case False
    with assms xs have i: "i < length ys" by simp
    then have "mset (ys[i := y]) = add_mset y (mset ys - {# ys ! i #})"
      by (simp add: mset_update)
    with i show ?thesis by (simp add: xs list_update_append nth_append butlast_append)
  qed
qed

lemma mset_swap_remove_subset: "mset (swap_remove p xs) \<subseteq># mset xs"
  by (auto simp: swap_remove_def mset_swap_remove_at dest: first_index_SomeD split: option.split)

lemma set_swap_remove_subset: "set (swap_remove p xs) \<subseteq> set xs"
  using mset_swap_remove_subset [of p xs] by (metis set_mset_mono set_mset_mset)

text \<open>
  On the keys of the elements (their identifiers) the removal acts like the removal on the
  list of the keys, so the facts are proved there.
\<close>

lemma first_index_map: "first_index p (map f xs) = first_index (\<lambda>x. p (f x)) xs"
  by (induction xs) auto

lemma map_swap_remove: "map f (swap_remove (\<lambda>x. p (f x)) xs) = swap_remove p (map f xs)"
proof (cases "first_index (\<lambda>x. p (f x)) xs")
  case None
  then show ?thesis by (simp add: swap_remove_def first_index_map)
next
  case (Some i)
  then have "xs \<noteq> []" by auto
  with Some show ?thesis
    by (simp add: swap_remove_def first_index_map map_butlast map_update last_map)
qed

lemma swap_remove_shape:
  assumes "distinct ks"
  shows "distinct (swap_remove (\<lambda>x. x = k) ks) \<and> set (swap_remove (\<lambda>x. x = k) ks) = set ks - {k}"
proof (cases "first_index (\<lambda>x. x = k) ks")
  case None
  then have "k \<notin> set ks" by (auto simp: first_index_None)
  with None assms show ?thesis by (simp add: swap_remove_def)
next
  case (Some i)
  then have i: "i < length ks" "ks ! i = k" by (auto dest: first_index_SomeD)
  then have "ks \<noteq> []" by auto
  then obtain ys y where ks: "ks = ys @ [y]" by (metis append_butlast_last_id)
  show ?thesis
  proof (cases "i = length ys")
    case True
    with Some i ks assms show ?thesis by (auto simp: swap_remove_def)
  next
    case False
    with i ks have i': "i < length ys" "ys ! i = k" by (auto simp: nth_append)
    have eq: "swap_remove (\<lambda>x. x = k) ks = ys[i := y]"
      using Some i' by (simp add: swap_remove_def ks list_update_append butlast_append)
    from assms ks have d: "distinct ys" "y \<notin> set ys" by auto
    have "distinct (ys[i := y])" using d by (simp add: distinct_list_update)
    moreover have "set (ys[i := y]) = insert y (set ys - {k})"
      using d i' by (simp add: set_update_distinct)
    moreover have "y \<noteq> k" using d i' by auto
    ultimately show ?thesis using ks eq by auto
  qed
qed

lemma distinct_swap_remove:
  "distinct (map f xs) \<Longrightarrow> distinct (map f (swap_remove (\<lambda>x. f x = k) xs))"
  using map_swap_remove [of f "\<lambda>y. y = k" xs] swap_remove_shape [of "map f xs" k] by simp

lemma swap_remove_keys:
  assumes "distinct (map f xs)"
  shows "f ` set (swap_remove (\<lambda>x. f x = k) xs) = f ` set xs - {k}"
proof -
  have "set (map f (swap_remove (\<lambda>x. f x = k) xs)) = set (map f xs) - {k}"
    using map_swap_remove [of f "\<lambda>y. y = k" xs] swap_remove_shape [OF assms, of k] by simp
  then show ?thesis by simp
qed

section \<open>Binary search\<close>

text \<open>
  The loop of \<^verbatim>\<open>sort.Search(n, f)\<close>: \<^verbatim>\<open>for i < j { h := (i+j)/2; if !f(h) { i = h+1 } else { j = h } }\<close>.
\<close>

function search_loop :: "(nat \<Rightarrow> bool) \<Rightarrow> nat \<Rightarrow> nat \<Rightarrow> nat" where
  "search_loop f i j =
     (if i < j
      then (let h = (i + j) div 2
            in if \<not> f h then search_loop f (Suc h) j else search_loop f i h)
      else i)"
  by pat_completeness auto
termination
  by (relation "measure (\<lambda>(f, i, j). j - i)") auto

declare search_loop.simps [simp del]

definition sort_Search :: "nat \<Rightarrow> (nat \<Rightarrow> bool) \<Rightarrow> nat" where
  "sort_Search n f = search_loop f 0 n"

lemma search_loop_spec:
  assumes "i \<le> j" and "\<forall>a b. a \<le> b \<longrightarrow> b < n \<longrightarrow> f a \<longrightarrow> f b" and "j \<le> n"
  shows "i \<le> search_loop f i j \<and> search_loop f i j \<le> j \<and>
         (\<forall>k. i \<le> k \<and> k < search_loop f i j \<longrightarrow> \<not> f k) \<and>
         (search_loop f i j < j \<longrightarrow> f (search_loop f i j))"
  using assms
proof (induction f i j rule: search_loop.induct)
  case (1 f i j)
  show ?case
  proof (cases "i < j")
    case False
    then have "search_loop f i j = i" by (simp add: search_loop.simps [of f i j])
    with "1.prems" False show ?thesis by auto
  next
    case True
    define h where "h = (i + j) div 2"
    have h: "i \<le> h" "h < j" using True by (auto simp: h_def)
    show ?thesis
    proof (cases "f h")
      case False
      have low: "\<not> f k" if "k \<le> h" for k
        using "1.prems" False h that by (meson dual_order.strict_trans1 less_le_trans)
      have IH: "Suc h \<le> search_loop f (Suc h) j \<and> search_loop f (Suc h) j \<le> j \<and>
        (\<forall>k. Suc h \<le> k \<and> k < search_loop f (Suc h) j \<longrightarrow> \<not> f k) \<and>
        (search_loop f (Suc h) j < j \<longrightarrow> f (search_loop f (Suc h) j))"
        using "1.IH"(1) [OF True h_def False] "1.prems" h by simp
      have eq: "search_loop f i j = search_loop f (Suc h) j"
        using True False by (simp add: search_loop.simps [of f i j] h_def Let_def)
      have "\<not> f k" if "k < search_loop f (Suc h) j" for k
        using that IH low by (cases "k \<le> h") auto
      with IH h show ?thesis unfolding eq by auto
    next
      case fh: True
      have IH: "i \<le> search_loop f i h \<and> search_loop f i h \<le> h \<and>
        (\<forall>k. i \<le> k \<and> k < search_loop f i h \<longrightarrow> \<not> f k) \<and>
        (search_loop f i h < h \<longrightarrow> f (search_loop f i h))"
        using "1.IH"(2) [OF True h_def] fh "1.prems" h by simp
      have eq: "search_loop f i j = search_loop f i h"
        using True fh by (simp add: search_loop.simps [of f i j] h_def Let_def)
      have "f (search_loop f i h)" using IH fh by (cases "search_loop f i h = h") auto
      with IH h show ?thesis unfolding eq by auto
    qed
  qed
qed

lemma sort_Search_spec:
  assumes "\<forall>a b. a \<le> b \<longrightarrow> b < n \<longrightarrow> f a \<longrightarrow> f b"
  shows "sort_Search n f \<le> n"
    and "k < sort_Search n f \<Longrightarrow> \<not> f k"
    and "sort_Search n f < n \<Longrightarrow> f (sort_Search n f)"
  using search_loop_spec [of 0 n n f] assms unfolding sort_Search_def by auto

section \<open>Lists\<close>

lemma find_SomeD: "find p xs = Some x \<Longrightarrow> x \<in> set xs \<and> p x"
  by (auto simp: find_Some_iff)

lemma find_None: "find p xs = None \<longleftrightarrow> (\<forall>x\<in>set xs. \<not> p x)"
  by (auto simp: find_None_iff)

text \<open>Scanning a slice cyclically from an index visits the slice rotated to that index.\<close>

lemma scan_from_index:
  assumes "xs \<noteq> []"
  shows "map (\<lambda>i. xs ! ((idx + i) mod length xs)) [0..<length xs] = rotate idx xs"
  using assms by (intro nth_equalityI) (auto simp: nth_rotate)

lemma mset_rotate1: "mset (rotate1 xs) = mset xs"
  by (cases xs) simp_all

lemma mset_rotate: "mset (rotate n xs) = mset xs"
  by (induction n) (simp_all add: mset_rotate1)

text \<open>A loop that returns the first hit of a partial function: \<^verbatim>\<open>for _, x := range xs { if y, ok := f(x); ok { return y } }\<close>.\<close>

fun find_map :: "('a \<Rightarrow> 'b option) \<Rightarrow> 'a list \<Rightarrow> 'b option" where
  "find_map f [] = None"
| "find_map f (x # xs) = (case f x of Some y \<Rightarrow> Some y | None \<Rightarrow> find_map f xs)"

lemma find_map_map: "find_map f (map g xs) = find_map (\<lambda>x. f (g x)) xs"
  by (induction xs) (auto split: option.split)

lemma find_map_SomeD: "find_map f xs = Some y \<Longrightarrow> \<exists>x\<in>set xs. f x = Some y"
  by (induction xs) (auto split: option.splits)

lemma find_map_None: "find_map f xs = None \<longleftrightarrow> (\<forall>x\<in>set xs. f x = None)"
  by (induction xs) (auto split: option.splits)

lemma find_map_cong: "(\<And>x. x \<in> set xs \<Longrightarrow> f x = g x) \<Longrightarrow> find_map f xs = find_map g xs"
  by (induction xs) (auto split: option.splits)

text \<open>
  Restricting both the list and the partial function keeps a hit that survives the restriction.
\<close>

lemma find_map_restrict:
  assumes "find_map f xs = Some y" and "\<And>x. x \<in> set xs \<Longrightarrow> f x = Some y \<Longrightarrow> p x \<and> g x = Some y"
    and "\<And>x. x \<in> set xs \<Longrightarrow> f x = None \<Longrightarrow> p x \<Longrightarrow> g x = None"
  shows "find_map g (filter p xs) = Some y"
  using assms by (induction xs) (auto split: option.splits)

section \<open>Strings\<close>

text \<open>\<^verbatim>\<open>strings.Split\<close> and \<^verbatim>\<open>strings.Join\<close> for a separator of one byte.\<close>

fun split_on :: "char \<Rightarrow> string \<Rightarrow> string list" where
  "split_on c [] = [[]]"
| "split_on c (x # xs) =
     (if x = c then [] # split_on c xs
      else case split_on c xs of [] \<Rightarrow> [[x]] | p # ps \<Rightarrow> (x # p) # ps)"

fun join_with :: "char \<Rightarrow> string list \<Rightarrow> string" where
  "join_with c [] = []"
| "join_with c [p] = p"
| "join_with c (p # q # ps) = p @ c # join_with c (q # ps)"

lemma split_on_nonempty [simp]: "split_on c xs \<noteq> []"
  by (induction xs) (auto split: list.split)

lemma split_on_snoc: "split_on c (xs @ [c]) = split_on c xs @ [[]]"
  by (induction xs) (auto split: list.split)

lemma split_on_no_sep: "p \<in> set (split_on c xs) \<Longrightarrow> c \<notin> set p"
  by (induction xs arbitrary: p) (auto split: list.splits if_splits)

lemma split_on_word: "c \<notin> set p \<Longrightarrow> split_on c (p @ c # q) = p # split_on c q"
  by (induction p) auto

lemma split_on_single: "c \<notin> set p \<Longrightarrow> split_on c p = [p]"
  by (induction p) auto

lemma split_join: "ps \<noteq> [] \<Longrightarrow> \<forall>p \<in> set ps. c \<notin> set p \<Longrightarrow> split_on c (join_with c ps) = ps"
  by (induction c ps rule: join_with.induct) (simp_all add: split_on_single split_on_word)

lemma split_on_append: "split_on c (xs @ c # ys) = split_on c xs @ split_on c ys"
  by (induction xs) (auto split: list.split simp: append_eq_Cons_conv)

end
