(* ===== verification/GoLib.thy ===== *)
theory GoLib
  imports Prelude Complex_Main "HOL-Library.Log_Nat"
begin

text \<open>
  What the modelled code uses of Go's standard library: the FNV-1a hashes of
  \<^verbatim>\<open>hash/fnv\<close>, \<^verbatim>\<open>crc32.ChecksumIEEE\<close>, decimal formatting of integers, and the rounding of
  IEEE 754 \<^verbatim>\<open>float64\<close> arithmetic. A string is the list of its bytes.
\<close>

section \<open>Hashes\<close>

definition fnv32a_step :: "32 word \<Rightarrow> char \<Rightarrow> 32 word" where
  "fnv32a_step h c = (h XOR of_char c) * 16777619"

definition fnv32a :: "string \<Rightarrow> 32 word" where
  "fnv32a s = foldl fnv32a_step 2166136261 s"

definition fnv64a_step :: "64 word \<Rightarrow> char \<Rightarrow> 64 word" where
  "fnv64a_step h c = (h XOR of_char c) * 1099511628211"

definition fnv64a :: "string \<Rightarrow> 64 word" where
  "fnv64a s = foldl fnv64a_step 14695981039346656037 s"

fun crc32_bits :: "nat \<Rightarrow> 32 word \<Rightarrow> 32 word" where
  "crc32_bits 0 c = c"
| "crc32_bits (Suc n) c =
     crc32_bits n (if bit c 0 then drop_bit 1 c XOR 0xEDB88320 else drop_bit 1 c)"

definition crc32_step :: "32 word \<Rightarrow> char \<Rightarrow> 32 word" where
  "crc32_step c b = crc32_bits 8 (c XOR of_char b)"

definition ChecksumIEEE :: "string \<Rightarrow> 32 word" where
  "ChecksumIEEE s = NOT (foldl crc32_step (NOT 0) s)"

section \<open>Decimal formatting\<close>

fun nat_dec :: "nat \<Rightarrow> string" where
  "nat_dec n =
     (if n < 10 then [char_of (48 + n)] else nat_dec (n div 10) @ [char_of (48 + n mod 10)])"

declare nat_dec.simps [simp del]

lemma nat_dec_nonempty [simp]: "nat_dec n \<noteq> []"
  by (subst nat_dec.simps) simp

lemma nat_dec_digits: "c \<in> set (nat_dec n) \<Longrightarrow> \<exists>d<10. c = char_of (48 + d :: nat)"
proof (induction n rule: nat_dec.induct)
  case (1 n)
  show ?case
  proof (cases "n < 10")
    case True
    with "1.prems" show ?thesis by (auto simp: nat_dec.simps [of n])
  next
    case False
    with "1.prems" have "c \<in> set (nat_dec (n div 10)) \<or> c = char_of (48 + n mod 10)"
      by (auto simp: nat_dec.simps [of n])
    with "1.IH" [OF False] show ?thesis by (metis mod_less_divisor zero_less_numeral)
  qed
qed

lemma nat_take_bit_digit: "a < 10 \<Longrightarrow> (48 + a :: nat) mod 256 = 48 + a"
  by simp

lemma char_of_digit_inj: "a < 10 \<Longrightarrow> b < 10 \<Longrightarrow> char_of (48 + a :: nat) = char_of (48 + b :: nat) \<Longrightarrow> a = b"
  by (metis of_char_of nat_take_bit_digit add_left_cancel)

lemma dec_val_nat_dec: "foldl (\<lambda>v c. 10 * v + (of_char c - 48)) 0 (nat_dec n) = (n::nat)"
proof (induction n rule: nat_dec.induct)
  case (1 n)
  then show ?case by (cases "n < 10") (simp_all add: nat_dec.simps [of n])
qed

lemma nat_dec_inject: "nat_dec m = nat_dec n \<longleftrightarrow> m = n"
  by (metis dec_val_nat_dec)

lemma nat_dec_0: "nat_dec 0 = ''0''" and nat_dec_1: "nat_dec 1 = ''1''" and nat_dec_2: "nat_dec 2 = ''2''"
  by code_simp+

definition int_dec :: "int \<Rightarrow> string" where
  "int_dec i = (if i < 0 then CHR ''-'' # nat_dec (nat (- i)) else nat_dec (nat i))"

text \<open>\<^verbatim>\<open>net.JoinHostPort\<close>: a host with a colon is put in brackets.\<close>

definition JoinHostPort :: "string \<Rightarrow> string \<Rightarrow> string" where
  "JoinHostPort host port =
     (if CHR '':'' \<in> set host then ''['' @ host @ '']:'' @ port else host @ '':'' @ port)"

section \<open>IEEE 754 rounding\<close>

text \<open>
  A finite \<^verbatim>\<open>float64\<close> is the rational number it denotes and an arithmetic operation is the
  exact operation followed by \<open>fl64\<close>, rounding to nearest with ties to even at 53 significant
  bits and the subnormal exponent \<open>-1074\<close>. Overflow to infinity is not modelled: no operation of
  the modelled code comes near \<open>2^1023\<close> on the values it is applied to.
\<close>

definition rhe :: "rat \<Rightarrow> int" where
  "rhe y =
     (let f = \<lfloor>y\<rfloor>; d = y - of_int f
      in if d < 1 / 2 then f else if d > 1 / 2 then f + 1 else if even f then f else f + 1)"

definition ilog2 :: "rat \<Rightarrow> int" where
  "ilog2 x =
     (let (p, q) = quotient_of x; e = bitlen p - bitlen q
      in if 2 powi e \<le> x then e else e - 1)"

definition ulp_exp :: "rat \<Rightarrow> int" where
  "ulp_exp x = max (ilog2 x - 52) (- 1074)"

definition fl64_pos :: "rat \<Rightarrow> rat" where
  "fl64_pos x = of_int (rhe (x / 2 powi ulp_exp x)) * 2 powi ulp_exp x"

definition fl64 :: "rat \<Rightarrow> rat" where
  "fl64 x = (if x = 0 then 0 else if x > 0 then fl64_pos x else - fl64_pos (- x))"

text \<open>Conversion of a \<^verbatim>\<open>float64\<close> to an integer type discards the fraction.\<close>

definition trunc_rat :: "rat \<Rightarrow> int" where
  "trunc_rat x = (if x \<ge> 0 then \<lfloor>x\<rfloor> else \<lceil>x\<rceil>)"

text \<open>Integer division of Go truncates; \<^verbatim>\<open>time.Duration.Seconds\<close> adds whole seconds and the fraction.\<close>

definition trunc_div :: "int \<Rightarrow> int \<Rightarrow> int" where
  "trunc_div a b = (if (a < 0) = (b < 0) then \<bar>a\<bar> div \<bar>b\<bar> else - (\<bar>a\<bar> div \<bar>b\<bar>))"

definition trunc_mod :: "int \<Rightarrow> int \<Rightarrow> int" where
  "trunc_mod a b = a - b * trunc_div a b"

definition Duration_Seconds :: "int \<Rightarrow> rat" where
  "Duration_Seconds d =
     fl64 (fl64 (of_int (trunc_div d 1000000000)) + fl64 (of_int (trunc_mod d 1000000000) / 1000000000))"

lemma rhe_of_int [simp]: "rhe (of_int n) = n"
  by (simp add: rhe_def)

lemma rhe_bounds: "\<lfloor>y\<rfloor> \<le> rhe y \<and> rhe y \<le> \<lfloor>y\<rfloor> + 1"
  by (simp add: rhe_def Let_def)

lemma rhe_mono: "x \<le> y \<Longrightarrow> rhe x \<le> rhe y"
proof (cases "\<lfloor>x\<rfloor> = \<lfloor>y\<rfloor>")
  case True
  assume "x \<le> y"
  then have "x - of_int \<lfloor>x\<rfloor> \<le> y - of_int \<lfloor>y\<rfloor>" using True by simp
  then show ?thesis using True by (auto simp: rhe_def Let_def)
next
  case False
  assume "x \<le> y"
  with False have "\<lfloor>x\<rfloor> + 1 \<le> \<lfloor>y\<rfloor>" using floor_mono [of x y] by linarith
  with rhe_bounds [of x] rhe_bounds [of y] show ?thesis by linarith
qed

lemma bitlen_powi:
  assumes "n > 0"
  shows "2 powi (bitlen n - 1) \<le> (of_int n :: rat)" and "(of_int n :: rat) < 2 powi bitlen n"
proof -
  have b: "bitlen n > 0"
    using bitlen_bounds [OF assms] assms by (cases "bitlen n > 0") auto
  have lo: "2 ^ nat (bitlen n - 1) \<le> n" and hi: "n < 2 ^ nat (bitlen n)"
    using bitlen_bounds [OF assms] by auto
  have "(2::rat) powi (bitlen n - 1) = of_int (2 ^ nat (bitlen n - 1))"
    using b by (simp add: power_int_def)
  with lo show "2 powi (bitlen n - 1) \<le> (of_int n :: rat)"
    by (metis of_int_le_iff)
  have "(2::rat) powi bitlen n = of_int (2 ^ nat (bitlen n))"
    using b by (simp add: power_int_def)
  with hi show "(of_int n :: rat) < 2 powi bitlen n"
    by (metis of_int_less_iff)
qed

lemma ilog2_bounds:
  assumes "x > 0"
  shows "2 powi ilog2 x \<le> x" and "x < 2 powi (ilog2 x + 1)"
proof -
  obtain p q where pq: "quotient_of x = (p, q)" by (cases "quotient_of x")
  have q: "q > 0" using pq by (rule quotient_of_denom_pos)
  have x: "x = of_int p / of_int q" using pq by (rule quotient_of_div)
  have p: "p > 0" using assms q x by (simp add: zero_less_divide_iff)
  define e where "e = bitlen p - bitlen q"
  have "of_int p / of_int q < 2 powi bitlen p / (2 powi (bitlen q - 1) :: rat)"
    using bitlen_powi [OF p] bitlen_powi [OF q] q p
    by (intro frac_less) auto
  also have "\<dots> = 2 powi (bitlen p - (bitlen q - 1))"
    by (simp add: power_int_diff)
  also have "\<dots> = 2 powi (e + 1)"
    by (rule arg_cong [where f = "\<lambda>k. 2 powi k"]) (simp add: e_def)
  finally have up: "x < 2 powi (e + 1)" using x by simp
  have "2 powi (bitlen p - 1) / 2 powi bitlen q < (of_int p / of_int q :: rat)"
    using bitlen_powi [OF p] bitlen_powi [OF q] q p
    by (intro frac_less2) auto
  moreover have "2 powi (bitlen p - 1) / 2 powi bitlen q = (2 powi ((bitlen p - 1) - bitlen q) :: rat)"
    by (simp add: power_int_diff)
  moreover have "bitlen p - 1 - bitlen q = e - 1"
    by (simp add: e_def)
  ultimately have lo: "2 powi (e - 1) < x" using x by simp
  have il: "ilog2 x = (if 2 powi e \<le> x then e else e - 1)"
    by (simp add: ilog2_def pq e_def)
  show "2 powi ilog2 x \<le> x" using il lo by auto
  show "x < 2 powi (ilog2 x + 1)" using il up by auto
qed

lemma powi2_mono: "a \<le> b \<Longrightarrow> (2::rat) powi a \<le> 2 powi b"
  by (simp add: power_int_increasing)

lemma powi2_less_imp: "(2::rat) powi a < 2 powi b \<Longrightarrow> a < b"
  by (meson leD leI powi2_mono)

lemma ilog2_mono: "0 < x \<Longrightarrow> x \<le> y \<Longrightarrow> ilog2 x \<le> ilog2 y"
  using ilog2_bounds(1) [of x] ilog2_bounds(2) [of y] powi2_less_imp [of "ilog2 x" "ilog2 y + 1"]
  by linarith

lemma fl64_pos_nonneg: "x > 0 \<Longrightarrow> 0 \<le> fl64_pos x"
proof -
  assume "x > 0"
  then have "0 \<le> rhe (x / 2 powi ulp_exp x)"
    using rhe_mono [of "of_int 0" "x / 2 powi ulp_exp x"] by (simp add: rhe_def)
  then show ?thesis by (simp add: fl64_pos_def)
qed

lemma fl64_pos_mono:
  assumes "0 < x" and "x \<le> y"
  shows "fl64_pos x \<le> fl64_pos y"
proof (cases "ulp_exp x = ulp_exp y")
  case True
  have "x / 2 powi ulp_exp y \<le> y / 2 powi ulp_exp y"
    using assms by (simp add: divide_right_mono)
  then show ?thesis
    using True by (simp add: fl64_pos_def rhe_mono)
next
  case False
  define ex ey where "ex = ulp_exp x" and "ey = ulp_exp y"
  have lt: "ex < ey" using False ilog2_mono [OF assms]
    unfolding ulp_exp_def ex_def ey_def by linarith
  then have ey: "ey = ilog2 y - 52" unfolding ulp_exp_def ex_def ey_def by linarith
  have "x < 2 powi (ilog2 x + 1)" using assms by (simp add: ilog2_bounds)
  also have "\<dots> \<le> 2 powi (ex + 53)" by (rule powi2_mono) (simp add: ex_def ulp_exp_def)
  also have "\<dots> = 2 ^ 53 * 2 powi ex" by (simp add: power_int_add)
  finally have "x / 2 powi ex \<le> of_int (2 ^ 53)" by (simp add: field_simps)
  then have "rhe (x / 2 powi ex) \<le> 2 ^ 53" using rhe_mono rhe_of_int by metis
  then have "(of_int (rhe (x / 2 powi ex)) :: rat) \<le> of_int (2 ^ 53)"
    by (rule of_int_le_iff [THEN iffD2])
  then have "fl64_pos x \<le> of_int (2 ^ 53) * 2 powi ex"
    unfolding fl64_pos_def ex_def by (intro mult_right_mono) auto
  also have "\<dots> = 2 powi (ex + 53)" by (simp add: power_int_add)
  also have "\<dots> \<le> 2 powi (ey + 52)" using lt by (intro powi2_mono) simp
  also have "\<dots> = of_int (2 ^ 52) * 2 powi ey" by (simp add: power_int_add)
  also have "\<dots> \<le> fl64_pos y"
  proof -
    have "2 powi (ey + 52) \<le> y" using assms ey by (simp add: ilog2_bounds)
    then have "of_int (2 ^ 52) \<le> y / 2 powi ey" by (simp add: power_int_add field_simps)
    then have "2 ^ 52 \<le> rhe (y / 2 powi ey)" using rhe_mono rhe_of_int by metis
    then have "(of_int (2 ^ 52) :: rat) \<le> of_int (rhe (y / 2 powi ey))"
      by (rule of_int_le_iff [THEN iffD2])
    then show ?thesis unfolding fl64_pos_def ey_def by (intro mult_right_mono) auto
  qed
  finally show ?thesis .
qed

theorem fl64_mono: "x \<le> y \<Longrightarrow> fl64 x \<le> fl64 y"
proof (cases "0 < x \<or> y < 0")
  case True
  assume "x \<le> y"
  with True fl64_pos_mono [of x y] fl64_pos_mono [of "- y" "- x"] show ?thesis
    by (auto simp: fl64_def)
next
  case False
  have "fl64 x \<le> 0" using False fl64_pos_nonneg [of "- x"] by (simp add: fl64_def)
  moreover have "0 \<le> fl64 y" using False fl64_pos_nonneg [of y] by (simp add: fl64_def)
  ultimately show ?thesis by simp
qed

lemma fl64_zero [simp]: "fl64 0 = 0"
  by (simp add: fl64_def)

lemma fl64_nonneg: "0 \<le> x \<Longrightarrow> 0 \<le> fl64 x"
  using fl64_mono [of 0 x] by simp

lemma fl64_pos_of_int:
  assumes "0 < n" and "n < 2 ^ 53"
  shows "fl64_pos (of_int n) = of_int n"
proof -
  have "(of_int n :: rat) < of_int (2 ^ 53)"
    using assms(2) by (rule of_int_less_iff [THEN iffD2])
  then have lt: "(of_int n :: rat) < 2 powi 53" by simp
  have "2 powi ilog2 (of_int n) \<le> (of_int n :: rat)" using assms by (simp add: ilog2_bounds)
  with lt have "ilog2 (of_int n) < 53" by (meson le_less_trans powi2_less_imp)
  then have e: "ulp_exp (of_int n) \<le> 0" by (simp add: ulp_exp_def)
  define k where "k = nat (- ulp_exp (of_int n))"
  have u: "(2::rat) powi ulp_exp (of_int n) = inverse (2 ^ k)"
    using e by (cases "ulp_exp (of_int n) = 0") (auto simp: k_def power_int_def power_one_over inverse_eq_divide)
  have "(of_int n :: rat) / 2 powi ulp_exp (of_int n) = of_int (n * 2 ^ k)"
    by (simp add: u divide_inverse)
  then show ?thesis unfolding fl64_pos_def by (simp only: rhe_of_int) (simp add: u)
qed

lemma fl64_of_int:
  assumes "\<bar>n\<bar> < 2 ^ 53"
  shows "fl64 (of_int n) = of_int n"
  using assms fl64_pos_of_int [of n] fl64_pos_of_int [of "- n"] by (auto simp: fl64_def)

lemma trunc_rat_of_int [simp]: "trunc_rat (of_int n) = n"
  by (simp add: trunc_rat_def)

lemma trunc_rat_mono: "x \<le> y \<Longrightarrow> trunc_rat x \<le> trunc_rat y"
  unfolding trunc_rat_def using floor_mono [of x y] ceiling_mono [of x y]
  by (auto simp: ceiling_le_iff le_floor_iff not_le intro: order_trans [of _ 0])

lemma trunc_rat_nonneg: "0 \<le> x \<Longrightarrow> 0 \<le> trunc_rat x"
  by (simp add: trunc_rat_def)


section \<open>Rounding errors\<close>

text \<open>The relative error of one rounding and a bound on the absolute error near zero.\<close>

definition float_eps :: rat where
  "float_eps = 1 / 2 ^ 53"

definition float_tiny :: rat where
  "float_tiny = 2 powi (- 1075)"

lemma float_eps_pos: "0 < float_eps" "0 < float_tiny"
  by (simp_all add: float_eps_def float_tiny_def)

lemma rhe_half: "of_int (rhe y) \<le> y + 1 / 2"
proof (cases "y - of_int \<lfloor>y\<rfloor> < 1 / 2")
  case True
  then have "rhe y = \<lfloor>y\<rfloor>" unfolding rhe_def Let_def by (rule if_P)
  then show ?thesis using of_int_floor_le [of y] by linarith
next
  case False
  have "(of_int (rhe y) :: rat) \<le> of_int (\<lfloor>y\<rfloor> + 1)" using rhe_bounds [of y] by (intro of_int_le_iff [THEN iffD2]) simp
  with False show ?thesis by simp
qed

lemma fl64_upper:
  assumes "0 \<le> x"
  shows "fl64 x \<le> x + x * float_eps + float_tiny"
proof (cases "x = 0")
  case True
  then show ?thesis using float_eps_pos by simp
next
  case False
  with assms have x: "x > 0" by simp
  define u :: rat where "u = 2 powi ulp_exp x"
  have u: "0 < u" by (simp add: u_def)
  have "fl64 x = of_int (rhe (x / u)) * u" using x by (simp add: fl64_def fl64_pos_def u_def)
  also have "\<dots> \<le> (x / u + 1 / 2) * u" using rhe_half [of "x / u"] u by (intro mult_right_mono) auto
  also have "\<dots> = x + u / 2" using u by (simp add: field_simps)
  also have "u / 2 \<le> x * float_eps + float_tiny"
  proof (cases "ilog2 x - 52 \<ge> - 1074")
    case True
    then have "u = 2 powi (ilog2 x - 52)" by (simp add: u_def ulp_exp_def)
    also have "\<dots> = 2 powi ilog2 x / 2 ^ 52" by (simp add: power_int_diff)
    also have "\<dots> \<le> x / 2 ^ 52" using ilog2_bounds(1) [OF x] by (intro divide_right_mono) auto
    finally have "u / 2 \<le> x * float_eps" by (simp add: float_eps_def)
    then show ?thesis using float_eps_pos(2) by linarith
  next
    case False
    then have "u = 2 powi (- 1074)" by (simp add: u_def ulp_exp_def)
    also have "(2::rat) powi (- 1074) / 2 = 2 powi (- 1074 - 1)" by (simp add: power_int_diff)
    finally have "u / 2 = float_tiny" by (simp add: float_tiny_def)
    then show ?thesis using x float_eps_pos(1) by simp
  qed
  finally show ?thesis by simp
qed

lemma trunc_div_nonneg: "0 \<le> d \<Longrightarrow> 0 < b \<Longrightarrow> trunc_div d b = d div b \<and> trunc_mod d b = d mod b"
  by (simp add: trunc_div_def trunc_mod_def minus_mult_div_eq_mod)

lemma Duration_Seconds_mono_pos: "0 \<le> d \<Longrightarrow> 0 \<le> Duration_Seconds d"
  unfolding Duration_Seconds_def using trunc_div_nonneg [of d 1000000000]
  by (intro fl64_nonneg add_nonneg_nonneg divide_nonneg_nonneg) (simp_all add: pos_imp_zdiv_nonneg_iff)

text \<open>The seconds of a duration that fits into 63 bits are at most its exact value, up to rounding.\<close>

lemma Duration_Seconds_upper:
  assumes "0 \<le> d" "d < 2 ^ 63"
  shows "Duration_Seconds d \<le> (of_int d / 1000000000) * (1 + float_eps) ^ 2 + 3 * float_tiny"
proof -
  define sec nsec where "sec = d div 1000000000" and "nsec = d mod 1000000000"
  define f :: rat where "f = of_int nsec / 1000000000"
  have td: "trunc_div d 1000000000 = sec" "trunc_mod d 1000000000 = nsec" using trunc_div_nonneg [of d 1000000000] assms by (simp_all add: sec_def nsec_def)
  have sec: "0 \<le> sec" "sec < 2 ^ 53" using assms by (auto simp: sec_def)
  have f0: "0 \<le> f" by (simp add: f_def nsec_def)
  have "of_int (1000000000 * sec + nsec) = (of_int d :: rat)" by (simp only: sec_def nsec_def mult_div_mod_eq)
  then have sum: "of_int sec + f = of_int d / 1000000000" by (simp add: f_def field_simps)
  have e: "Duration_Seconds d = fl64 (of_int sec + fl64 f)"
    unfolding Duration_Seconds_def td using fl64_of_int [of sec] sec by (simp add: f_def)
  have ff: "0 \<le> fl64 f" "fl64 f \<le> f + f * float_eps + float_tiny" using f0 by (simp_all add: fl64_nonneg fl64_upper)
  let ?s = "of_int sec :: rat"
  have s0: "0 \<le> ?s" using sec by simp
  have "Duration_Seconds d \<le> (?s + fl64 f) * (1 + float_eps) + float_tiny"
    unfolding e using fl64_upper [of "?s + fl64 f"] s0 ff(1) by (simp add: algebra_simps)
  also have "\<dots> \<le> (?s + (f + f * float_eps + float_tiny)) * (1 + float_eps) + float_tiny"
    using ff(2) float_eps_pos by (intro add_right_mono mult_right_mono add_left_mono) auto
  also have "\<dots> \<le> (?s * (1 + float_eps) + (f + f * float_eps + float_tiny)) * (1 + float_eps) + float_tiny"
    using s0 float_eps_pos by (intro add_right_mono mult_right_mono) (auto simp: algebra_simps)
  also have "\<dots> = (?s + f) * (1 + float_eps) ^ 2 + float_tiny * (2 + float_eps)"
    by (simp add: power2_eq_square algebra_simps)
  also have "\<dots> \<le> (?s + f) * (1 + float_eps) ^ 2 + 3 * float_tiny"
    using float_eps_pos by (simp add: float_eps_def)
  finally show ?thesis unfolding sum .
qed

end
