(* ===== verification/Fast_Rand.thy ===== *)
theory Fast_Rand
  imports GoLib
begin

text \<open>
  \<^verbatim>\<open>pkg/utils/fast_rand.go\<close>: the SplitMix64 generator that the random balancers draw from. Its
  only state is a 64-bit counter; every draw returns the value and the advanced counter.
\<close>

section \<open>The generator\<close>

type_synonym FastRand = "64 word"

definition NewFastRandWithSeed :: "64 word \<Rightarrow> FastRand" where
  "NewFastRandWithSeed seed = seed"

definition FastRand_Uint64 :: "FastRand \<Rightarrow> 64 word \<times> FastRand" where
  "FastRand_Uint64 fr =
     (let x = fr + 0x9e3779b97f4a7c15;
          z = (x XOR drop_bit 30 x) * 0xbf58476d1ce4e5b9;
          z = (z XOR drop_bit 27 z) * 0x94d049bb133111eb
      in (z XOR drop_bit 31 z, x))"

definition FastRand_Int63 :: "FastRand \<Rightarrow> int \<times> FastRand" where
  "FastRand_Int63 fr = (let (u, fr') = FastRand_Uint64 fr in (uint (drop_bit 1 u), fr'))"

definition FastRand_Int63n :: "FastRand \<Rightarrow> int \<Rightarrow> int \<times> FastRand" where
  "FastRand_Int63n fr n =
     (if n \<le> 0 then (0, fr) else (let (r, fr') = FastRand_Int63 fr in (r smod n, fr')))"

definition FastRand_Uint32 :: "FastRand \<Rightarrow> 32 word \<times> FastRand" where
  "FastRand_Uint32 fr = (let (u, fr') = FastRand_Uint64 fr in (ucast u, fr'))"

definition FastRand_Int31 :: "FastRand \<Rightarrow> int \<times> FastRand" where
  "FastRand_Int31 fr = (let (u, fr') = FastRand_Uint64 fr in (uint (drop_bit 33 u), fr'))"

definition FastRand_Int31n :: "FastRand \<Rightarrow> int \<Rightarrow> int \<times> FastRand" where
  "FastRand_Int31n fr n =
     (if n \<le> 0 then (0, fr) else (let (r, fr') = FastRand_Int31 fr in (r smod n, fr')))"

definition FastRand_Intn :: "FastRand \<Rightarrow> int \<Rightarrow> int \<times> FastRand" where
  "FastRand_Intn fr n = (if n \<le> 0 then (0, fr) else FastRand_Int63n fr n)"

definition FastRand_Float64 :: "FastRand \<Rightarrow> rat \<times> FastRand" where
  "FastRand_Float64 fr =
     (let (r, fr') = FastRand_Int63 fr in (fl64 (fl64 (of_int r) / 2 ^ 63), fr'))"

definition FastRand_Bool :: "FastRand \<Rightarrow> bool \<times> FastRand" where
  "FastRand_Bool fr = (let (u, fr') = FastRand_Uint64 fr in (u AND 1 = 0, fr'))"

text \<open>
  \<^verbatim>\<open>Shuffle(n, swap)\<close> with \<^verbatim>\<open>swap\<close> exchanging two elements of a slice: the loop index runs
  from \<open>n - 1\<close> down to 1.
\<close>

definition swap_elems :: "'a list \<Rightarrow> nat \<Rightarrow> nat \<Rightarrow> 'a list" where
  "swap_elems xs i j = xs[i := xs ! j, j := xs ! i]"

fun FastRand_Shuffle :: "FastRand \<Rightarrow> nat \<Rightarrow> 'a list \<Rightarrow> 'a list \<times> FastRand" where
  "FastRand_Shuffle fr 0 xs = (xs, fr)"
| "FastRand_Shuffle fr (Suc i) xs =
     (if i = 0 then (xs, fr)
      else let (j, fr') = FastRand_Intn fr (int i + 1)
           in FastRand_Shuffle fr' i (swap_elems xs i (nat j)))"

section \<open>Ranges\<close>

lemma Int63_range: "FastRand_Int63 fr = (r, fr') \<Longrightarrow> 0 \<le> r \<and> r < 2 ^ 63"
proof -
  assume "FastRand_Int63 fr = (r, fr')"
  then obtain u where r: "r = uint (drop_bit 1 (u :: 64 word))"
    by (auto simp: FastRand_Int63_def split: prod.splits)
  have "uint (drop_bit 1 u) = uint u div 2"
    by (simp add: drop_bit_eq_div uint_div)
  moreover have "uint u < 2 ^ 64" using uint_bounded [of u] by simp
  ultimately show ?thesis using r by simp
qed

lemma Int63n_range: "0 < n \<Longrightarrow> FastRand_Int63n fr n = (r, fr') \<Longrightarrow> 0 \<le> r \<and> r < n"
proof -
  assume n: "0 < n" and eq: "FastRand_Int63n fr n = (r, fr')"
  obtain q fq where q: "FastRand_Int63 fr = (q, fq)" by (cases "FastRand_Int63 fr")
  have "r = q smod n" using n eq q by (simp add: FastRand_Int63n_def)
  moreover have "q smod n = q mod n"
    using Int63_range [OF q] n by (simp add: signed_modulo_int_def signed_divide_int_def minus_mult_div_eq_mod sgn_if)
  ultimately show ?thesis using n by simp
qed

lemma Intn_range: "0 < n \<Longrightarrow> FastRand_Intn fr n = (r, fr') \<Longrightarrow> 0 \<le> r \<and> r < n"
  by (simp add: FastRand_Intn_def Int63n_range)

section \<open>Shuffle permutes\<close>

lemma mset_swap_elems: "i < length xs \<Longrightarrow> j < length xs \<Longrightarrow> mset (swap_elems xs i j) = mset xs"
  unfolding swap_elems_def by (rule mset_swap)

lemma mset_Shuffle: "n \<le> length xs \<Longrightarrow> mset (fst (FastRand_Shuffle fr n xs)) = mset xs"
proof (induction fr n xs rule: FastRand_Shuffle.induct)
  case (2 fr i xs)
  show ?case
  proof (cases "i = 0")
    case False
    obtain j fr' where j: "FastRand_Intn fr (int i + 1) = (j, fr')"
      by (cases "FastRand_Intn fr (int i + 1)")
    with Intn_range [OF _ j] have "nat j < length xs" and "i < length xs"
      using "2.prems" by auto
    then have "mset (swap_elems xs i (nat j)) = mset xs" by (simp add: mset_swap_elems)
    moreover have "length (swap_elems xs i (nat j)) = length xs" by (simp add: swap_elems_def)
    ultimately show ?thesis using "2.IH" [OF False j [symmetric] refl] "2.prems" False j by simp
  qed simp
qed simp

section \<open>Properties\<close>

text \<open>
  Bounded random numbers and shuffling: for a positive bound \<^verbatim>\<open>Int63n\<close> and \<^verbatim>\<open>Intn\<close> return a
  number from zero up to but excluding the bound, and \<^verbatim>\<open>Shuffle\<close> only permutes the elements.
\<close>

theorem FastRand_ranges:
  assumes "0 < n" and "k \<le> length xs"
  shows "0 \<le> fst (FastRand_Int63n fr n) \<and> fst (FastRand_Int63n fr n) < n \<and>
    0 \<le> fst (FastRand_Intn fr n) \<and> fst (FastRand_Intn fr n) < n \<and>
    mset (fst (FastRand_Shuffle fr k xs)) = mset xs"
  using Int63n_range [OF assms(1), of fr "fst (FastRand_Int63n fr n)" "snd (FastRand_Int63n fr n)"]
    Intn_range [OF assms(1), of fr "fst (FastRand_Intn fr n)" "snd (FastRand_Intn fr n)"] mset_Shuffle [OF assms(2)]
  by simp

theorem FastRand_ranges_witness:
  "fst (FastRand_Intn 42 10) < 10 \<and> mset (fst (FastRand_Shuffle 42 3 [1, 2, 3 :: nat])) = {#1, 2, 3#}"
  using FastRand_ranges [of 10 3 "[1, 2, 3 :: nat]" 42] by simp

text \<open>
  \<^verbatim>\<open>Float64\<close> can return 1: the quotient of the largest \<^verbatim>\<open>Int63\<close> and two to the 63rd rounds up.
\<close>

theorem FastRand_Float64_reaches_one:
  "fst (FastRand_Float64 (NewFastRandWithSeed 3558559446808474027)) = 1"
  by code_simp

end
