(* ===== verification/Errors.thy ===== *)
theory Errors
  imports GoLib
begin

text \<open>
  \<^verbatim>\<open>pkg/errors/errors.go\<close>: coded errors with a cause and context, and the matching of an error
  against a target along its chain of causes.
\<close>

section \<open>Codes\<close>

datatype Code =
  CodeUnknown
  | CodeInternal
  | CodeInvalidArg
  | CodeNotFound
  | CodeAlreadyExist
  | CodeUnavailable
  | CodeTimeout
  | CodeCanceled
  | CodeConfigInvalid
  | CodeConfigParseError
  | CodeConfigNotFound
  | CodeConfigValidation
  | CodeBackendNotFound
  | CodePoolNotFound
  | CodeRouteNotFound
  | CodeBackendUnavailable
  | CodeBackendUnhealthy
  | CodePoolEmpty
  | CodeConnectionRefused
  | CodeConnectionReset
  | CodeConnectionTimeout
  | CodeConnectionClosed
  | CodeTLSHandshake
  | CodeCertificate
  | CodeProtocolError
  | CodeInvalidRequest
  | CodeInvalidResponse
  | CodeHTTPError
  | CodeRateLimitExceeded
  | CodeCircuitOpen
  | CodeAuthRequired
  | CodeAuthFailed
  | CodeForbidden
  | CodeWAFBlocked
  | CodeClusterNotReady
  | CodeNodeNotFound
  | CodeRaftError
  | CodeGossipError
  | CodeOther int

fun Code_String :: "Code \<Rightarrow> string" where
  "Code_String CodeUnknown = ''UNKNOWN''"
| "Code_String CodeInternal = ''INTERNAL''"
| "Code_String CodeInvalidArg = ''INVALID_ARGUMENT''"
| "Code_String CodeNotFound = ''NOT_FOUND''"
| "Code_String CodeAlreadyExist = ''ALREADY_EXISTS''"
| "Code_String CodeUnavailable = ''UNAVAILABLE''"
| "Code_String CodeTimeout = ''TIMEOUT''"
| "Code_String CodeCanceled = ''CANCELED''"
| "Code_String CodeConfigInvalid = ''CONFIG_INVALID''"
| "Code_String CodeConfigParseError = ''CONFIG_PARSE_ERROR''"
| "Code_String CodeConfigNotFound = ''CONFIG_NOT_FOUND''"
| "Code_String CodeConfigValidation = ''CONFIG_VALIDATION''"
| "Code_String CodeBackendNotFound = ''BACKEND_NOT_FOUND''"
| "Code_String CodePoolNotFound = ''POOL_NOT_FOUND''"
| "Code_String CodeRouteNotFound = ''ROUTE_NOT_FOUND''"
| "Code_String CodeBackendUnavailable = ''BACKEND_UNAVAILABLE''"
| "Code_String CodeBackendUnhealthy = ''BACKEND_UNHEALTHY''"
| "Code_String CodePoolEmpty = ''POOL_EMPTY''"
| "Code_String CodeConnectionRefused = ''CONNECTION_REFUSED''"
| "Code_String CodeConnectionReset = ''CONNECTION_RESET''"
| "Code_String CodeConnectionTimeout = ''CONNECTION_TIMEOUT''"
| "Code_String CodeConnectionClosed = ''CONNECTION_CLOSED''"
| "Code_String CodeTLSHandshake = ''TLS_HANDSHAKE''"
| "Code_String CodeCertificate = ''CERTIFICATE''"
| "Code_String CodeProtocolError = ''PROTOCOL_ERROR''"
| "Code_String CodeInvalidRequest = ''INVALID_REQUEST''"
| "Code_String CodeInvalidResponse = ''INVALID_RESPONSE''"
| "Code_String CodeHTTPError = ''HTTP_ERROR''"
| "Code_String CodeRateLimitExceeded = ''RATE_LIMIT_EXCEEDED''"
| "Code_String CodeCircuitOpen = ''CIRCUIT_OPEN''"
| "Code_String CodeAuthRequired = ''AUTH_REQUIRED''"
| "Code_String CodeAuthFailed = ''AUTH_FAILED''"
| "Code_String CodeForbidden = ''FORBIDDEN''"
| "Code_String CodeWAFBlocked = ''WAF_BLOCKED''"
| "Code_String CodeClusterNotReady = ''CLUSTER_NOT_READY''"
| "Code_String CodeNodeNotFound = ''NODE_NOT_FOUND''"
| "Code_String CodeRaftError = ''RAFT_ERROR''"
| "Code_String CodeGossipError = ''GOSSIP_ERROR''"
| "Code_String (CodeOther n) = ''CODE_'' @ int_dec n"

fun code_num :: "Code \<Rightarrow> int" where
  "code_num CodeUnknown = 0"
| "code_num CodeInternal = 1"
| "code_num CodeInvalidArg = 2"
| "code_num CodeNotFound = 3"
| "code_num CodeAlreadyExist = 4"
| "code_num CodeUnavailable = 5"
| "code_num CodeTimeout = 6"
| "code_num CodeCanceled = 7"
| "code_num CodeConfigInvalid = 100"
| "code_num CodeConfigParseError = 101"
| "code_num CodeConfigNotFound = 102"
| "code_num CodeConfigValidation = 103"
| "code_num CodeBackendNotFound = 200"
| "code_num CodePoolNotFound = 201"
| "code_num CodeRouteNotFound = 202"
| "code_num CodeBackendUnavailable = 203"
| "code_num CodeBackendUnhealthy = 204"
| "code_num CodePoolEmpty = 205"
| "code_num CodeConnectionRefused = 300"
| "code_num CodeConnectionReset = 301"
| "code_num CodeConnectionTimeout = 302"
| "code_num CodeConnectionClosed = 303"
| "code_num CodeTLSHandshake = 304"
| "code_num CodeCertificate = 305"
| "code_num CodeProtocolError = 400"
| "code_num CodeInvalidRequest = 401"
| "code_num CodeInvalidResponse = 402"
| "code_num CodeHTTPError = 403"
| "code_num CodeRateLimitExceeded = 500"
| "code_num CodeCircuitOpen = 501"
| "code_num CodeAuthRequired = 502"
| "code_num CodeAuthFailed = 503"
| "code_num CodeForbidden = 504"
| "code_num CodeWAFBlocked = 505"
| "code_num CodeClusterNotReady = 600"
| "code_num CodeNodeNotFound = 601"
| "code_num CodeRaftError = 602"
| "code_num CodeGossipError = 603"
| "code_num (CodeOther n) = n"

section \<open>Errors\<close>

text \<open>
  A Go error value is nil (\<open>None\<close> where it is optional), an error of another package, identified
  by a name, or a \<^verbatim>\<open>*Error\<close> with code, message, cause and context.
\<close>

datatype gerror =
  ForeignError string
| Error (err_Code: Code) (err_Message: string) (err_Cause: "gerror option") (err_Context: "(string, string) gomap")

fun Error_Error :: "gerror \<Rightarrow> string" where
  "Error_Error (ForeignError n) = n"
| "Error_Error (Error c m None ctx) = Code_String c @ '': '' @ m"
| "Error_Error (Error c m (Some e) ctx) = Code_String c @ '': '' @ m @ '': '' @ Error_Error e"

fun Error_Unwrap :: "gerror \<Rightarrow> gerror option" where
  "Error_Unwrap (ForeignError n) = None"
| "Error_Unwrap (Error c m cause ctx) = cause"

definition New :: "Code \<Rightarrow> string \<Rightarrow> gerror" where
  "New code message = Error code message None []"

definition Wrap :: "gerror option \<Rightarrow> Code \<Rightarrow> string \<Rightarrow> gerror option" where
  "Wrap err code message =
     (case err of None \<Rightarrow> None | Some e \<Rightarrow> Some (Error code message (Some e) []))"

fun Error_WithContext :: "gerror \<Rightarrow> string \<Rightarrow> string \<Rightarrow> gerror" where
  "Error_WithContext (ForeignError n) k v = ForeignError n"
| "Error_WithContext (Error c m cause ctx) k v = Error c m cause (AList.update k v ctx)"

fun Error_WithContextMap :: "gerror \<Rightarrow> (string, string) gomap \<Rightarrow> gerror" where
  "Error_WithContextMap (ForeignError n) add = ForeignError n"
| "Error_WithContextMap (Error c m cause ctx) add =
     Error c m cause (foldl (\<lambda>acc (k, v). AList.update k v acc) ctx add)"

text \<open>
  The method \<^verbatim>\<open>Is\<close>. The direct comparison of pointers needs no case of its own: two equal
  pointers to an \<^verbatim>\<open>*Error\<close> have equal codes.
\<close>

fun Error_Is :: "gerror \<Rightarrow> gerror \<Rightarrow> bool" where
  "Error_Is (ForeignError n) target = (target = ForeignError n)"
| "Error_Is (Error c m cause ctx) target =
     ((case target of Error tc _ _ _ \<Rightarrow> c = tc | _ \<Rightarrow> False) \<or>
      (case cause of None \<Rightarrow> False | Some e \<Rightarrow> Error_Is e target))"

fun errors_Is :: "gerror option \<Rightarrow> gerror option \<Rightarrow> bool" where
  "errors_Is err None = False"
| "errors_Is None (Some target) = False"
| "errors_Is (Some (ForeignError n)) (Some target) = (ForeignError n = target)"
| "errors_Is (Some (Error c m cause ctx)) (Some target) =
     (Error_Is (Error c m cause ctx) target \<or> errors_Is cause (Some target))"

fun errors_As :: "gerror option \<Rightarrow> gerror option" where
  "errors_As None = None"
| "errors_As (Some (ForeignError n)) = None"
| "errors_As (Some (Error c m cause ctx)) = Some (Error c m cause ctx)"

fun CodeOf :: "gerror option \<Rightarrow> Code" where
  "CodeOf None = CodeUnknown"
| "CodeOf (Some (ForeignError n)) = CodeUnknown"
| "CodeOf (Some (Error c m cause ctx)) = c"

definition IsCode :: "gerror option \<Rightarrow> Code \<Rightarrow> bool" where
  "IsCode err code = (CodeOf err = code)"

section \<open>Sentinels\<close>

definition ErrUnknown :: gerror where
  "ErrUnknown = New CodeUnknown ''unknown error''"

definition ErrInternal :: gerror where
  "ErrInternal = New CodeInternal ''internal error''"

definition ErrInvalidArg :: gerror where
  "ErrInvalidArg = New CodeInvalidArg ''invalid argument''"

definition ErrNotFound :: gerror where
  "ErrNotFound = New CodeNotFound ''not found''"

definition ErrAlreadyExist :: gerror where
  "ErrAlreadyExist = New CodeAlreadyExist ''already exists''"

definition ErrUnavailable :: gerror where
  "ErrUnavailable = New CodeUnavailable ''unavailable''"

definition ErrTimeout :: gerror where
  "ErrTimeout = New CodeTimeout ''timeout''"

definition ErrCanceled :: gerror where
  "ErrCanceled = New CodeCanceled ''canceled''"

definition ErrConfigInvalid :: gerror where
  "ErrConfigInvalid = New CodeConfigInvalid ''invalid configuration''"

definition ErrConfigParseError :: gerror where
  "ErrConfigParseError = New CodeConfigParseError ''configuration parse error''"

definition ErrConfigNotFound :: gerror where
  "ErrConfigNotFound = New CodeConfigNotFound ''configuration not found''"

definition ErrConfigValidation :: gerror where
  "ErrConfigValidation = New CodeConfigValidation ''configuration validation failed''"

definition ErrBackendNotFound :: gerror where
  "ErrBackendNotFound = New CodeBackendNotFound ''backend not found''"

definition ErrPoolNotFound :: gerror where
  "ErrPoolNotFound = New CodePoolNotFound ''pool not found''"

definition ErrRouteNotFound :: gerror where
  "ErrRouteNotFound = New CodeRouteNotFound ''route not found''"

definition ErrBackendUnavailable :: gerror where
  "ErrBackendUnavailable = New CodeBackendUnavailable ''backend unavailable''"

definition ErrBackendUnhealthy :: gerror where
  "ErrBackendUnhealthy = New CodeBackendUnhealthy ''backend unhealthy''"

definition ErrPoolEmpty :: gerror where
  "ErrPoolEmpty = New CodePoolEmpty ''pool is empty''"

definition ErrConnectionRefused :: gerror where
  "ErrConnectionRefused = New CodeConnectionRefused ''connection refused''"

definition ErrConnectionReset :: gerror where
  "ErrConnectionReset = New CodeConnectionReset ''connection reset''"

definition ErrConnectionTimeout :: gerror where
  "ErrConnectionTimeout = New CodeConnectionTimeout ''connection timeout''"

definition ErrConnectionClosed :: gerror where
  "ErrConnectionClosed = New CodeConnectionClosed ''connection closed''"

definition ErrTLSHandshake :: gerror where
  "ErrTLSHandshake = New CodeTLSHandshake ''TLS handshake failed''"

definition ErrCertificate :: gerror where
  "ErrCertificate = New CodeCertificate ''certificate error''"

definition ErrProtocolError :: gerror where
  "ErrProtocolError = New CodeProtocolError ''protocol error''"

definition ErrInvalidRequest :: gerror where
  "ErrInvalidRequest = New CodeInvalidRequest ''invalid request''"

definition ErrInvalidResponse :: gerror where
  "ErrInvalidResponse = New CodeInvalidResponse ''invalid response''"

definition ErrHTTPError :: gerror where
  "ErrHTTPError = New CodeHTTPError ''HTTP error''"

definition ErrRateLimitExceeded :: gerror where
  "ErrRateLimitExceeded = New CodeRateLimitExceeded ''rate limit exceeded''"

definition ErrCircuitOpen :: gerror where
  "ErrCircuitOpen = New CodeCircuitOpen ''circuit breaker open''"

definition ErrAuthRequired :: gerror where
  "ErrAuthRequired = New CodeAuthRequired ''authentication required''"

definition ErrAuthFailed :: gerror where
  "ErrAuthFailed = New CodeAuthFailed ''authentication failed''"

definition ErrForbidden :: gerror where
  "ErrForbidden = New CodeForbidden ''forbidden''"

definition ErrWAFBlocked :: gerror where
  "ErrWAFBlocked = New CodeWAFBlocked ''blocked by WAF''"

definition ErrClusterNotReady :: gerror where
  "ErrClusterNotReady = New CodeClusterNotReady ''cluster not ready''"

definition ErrNodeNotFound :: gerror where
  "ErrNodeNotFound = New CodeNodeNotFound ''node not found''"

definition ErrRaftError :: gerror where
  "ErrRaftError = New CodeRaftError ''raft error''"

definition ErrGossipError :: gerror where
  "ErrGossipError = New CodeGossipError ''gossip error''"

section \<open>Matching\<close>

text \<open>The codes along the chain of causes.\<close>

fun err_chain :: "gerror \<Rightarrow> Code list" where
  "err_chain (ForeignError n) = []"
| "err_chain (Error c m cause ctx) = c # (case cause of None \<Rightarrow> [] | Some e \<Rightarrow> err_chain e)"

lemma Error_Is_chain:
  "Error_Is e (Error tc m cause ctx) \<longleftrightarrow> tc \<in> set (err_chain e)"
  by (induction e rule: err_chain.induct) (auto split: option.splits)

lemma errors_Is_method: "errors_Is (Some e) (Some t) \<longleftrightarrow> Error_Is e t"
proof (induction e rule: err_chain.induct)
  case (2 c m cause ctx)
  show ?case
  proof (cases cause)
    case None
    then show ?thesis by simp
  next
    case (Some e)
    then show ?thesis using 2 [OF Some] by simp
  qed
qed auto

text \<open>
  Matching by code: an error matches a coded target exactly when the target's code occurs in
  the chain of causes of the error, however deep; wrapping and adding context never lose a match.
\<close>

theorem errors_Is_iff_code_in_chain:
  "errors_Is (Some e) (Some (Error tc m cause ctx)) \<longleftrightarrow> tc \<in> set (err_chain e)"
  by (simp add: errors_Is_method Error_Is_chain)

lemma err_chain_WithContext [simp]: "err_chain (Error_WithContext e k v) = err_chain e"
  by (cases e) simp_all

end
