(* ===== verification/Backend.thy ===== *)
theory Backend
  imports GoLib
begin

text \<open>
  \<^verbatim>\<open>internal/backend/state.go\<close>, \<^verbatim>\<open>backend.go\<close> and \<^verbatim>\<open>stats.go\<close>: the state machine of a
  backend server, its connection slots and its statistics. Each operation is the sequential
  execution of the method; \<open>Backend_Conc\<close> models the compare-and-swap loops step by step.
\<close>

section \<open>The state of a backend\<close>

text \<open>\<open>StateUnknown\<close> stands for the \<^verbatim>\<open>int32\<close> values that are none of the five constants.\<close>

datatype State =
    StateStarting | StateUp | StateDown | StateDraining | StateMaintenance | StateUnknown int

fun State_String :: "State \<Rightarrow> string" where
  "State_String StateStarting = ''starting''"
| "State_String StateUp = ''up''"
| "State_String StateDown = ''down''"
| "State_String StateDraining = ''draining''"
| "State_String StateMaintenance = ''maintenance''"
| "State_String (StateUnknown n) = ''unknown('' @ int_dec n @ '')''"

definition State_IsAvailable :: "State \<Rightarrow> bool" where
  "State_IsAvailable s = (s = StateUp)"

definition State_IsActive :: "State \<Rightarrow> bool" where
  "State_IsActive s = (s = StateUp \<or> s = StateDraining \<or> s = StateMaintenance)"

fun CanTransitionTo :: "State \<Rightarrow> State \<Rightarrow> bool" where
  "CanTransitionTo StateStarting n = (n = StateUp \<or> n = StateDown \<or> n = StateMaintenance)"
| "CanTransitionTo StateUp n = (n = StateDown \<or> n = StateDraining \<or> n = StateMaintenance)"
| "CanTransitionTo StateDown n = (n = StateUp \<or> n = StateMaintenance)"
| "CanTransitionTo StateDraining n = (n = StateDown \<or> n = StateMaintenance)"
| "CanTransitionTo StateMaintenance n = (n = StateUp \<or> n = StateDown)"
| "CanTransitionTo (StateUnknown _) n = False"

fun_cases CanTransitionTo_DrainingE: "CanTransitionTo StateDraining n"

type_synonym AtomicState = State

definition NewAtomicState :: "State \<Rightarrow> AtomicState" where
  "NewAtomicState initial = initial"

definition AtomicState_CompareAndSwap :: "AtomicState \<Rightarrow> State \<Rightarrow> State \<Rightarrow> bool \<times> AtomicState" where
  "AtomicState_CompareAndSwap v old new = (if v = old then (True, new) else (False, v))"

definition AtomicState_Transition :: "AtomicState \<Rightarrow> State \<Rightarrow> bool \<times> AtomicState" where
  "AtomicState_Transition v newState =
     (let current = v
      in if \<not> CanTransitionTo current newState then (False, v)
         else AtomicState_CompareAndSwap v current newState)"

section \<open>The backend\<close>

record BackendStats =
  bs_ActiveConns :: int
  bs_TotalRequests :: int
  bs_TotalErrors :: int
  bs_TotalBytes :: int
  bs_AvgLatency :: int
  bs_LastLatency :: int

text \<open>Times are nanoseconds since the Unix epoch; \<open>None\<close> is the unset \<^verbatim>\<open>atomic.Value\<close>.\<close>

record Backend =
  b_ID :: string
  b_Address :: string
  b_Scheme :: string
  b_weight :: int
  b_maxConns :: int
  b_state :: AtomicState
  b_activeConns :: int
  b_totalConns :: int
  b_totalRequests :: int
  b_totalErrors :: int
  b_totalBytes :: int
  b_avgLatency :: int
  b_lastLatency :: int
  b_lastCheck :: "int option"
  b_checkFailCount :: int
  b_metadata :: "(string, string) gomap"

text \<open>
  The load balancer shares backends by pointer. A pointer is a number and the heap maps it to
  the backend it points to.
\<close>

type_synonym bref = nat
type_synonym heap = "bref \<Rightarrow> Backend"

abbreviation ref_ID :: "heap \<Rightarrow> bref \<Rightarrow> string" where
  "ref_ID h r \<equiv> b_ID (h r)"

definition Backend_SetWeight :: "Backend \<Rightarrow> int \<Rightarrow> Backend" where
  "Backend_SetWeight b w = b\<lparr>b_weight := w\<rparr>"

definition Backend_SetMaxConns :: "Backend \<Rightarrow> int \<Rightarrow> Backend" where
  "Backend_SetMaxConns b n = b\<lparr>b_maxConns := n\<rparr>"

definition NewBackend :: "string \<Rightarrow> string \<Rightarrow> Backend" where
  "NewBackend i address = Backend_SetWeight
     \<lparr>b_ID = i, b_Address = address, b_Scheme = ''http'', b_weight = 0, b_maxConns = 0,
      b_state = NewAtomicState StateStarting, b_activeConns = 0, b_totalConns = 0,
      b_totalRequests = 0, b_totalErrors = 0, b_totalBytes = 0, b_avgLatency = 0,
      b_lastLatency = 0, b_lastCheck = None, b_checkFailCount = 0, b_metadata = []\<rparr> 1"

lemma NewBackend_sel [simp]:
  "b_ID (NewBackend i a) = i" "b_weight (NewBackend i a) = 1" "b_maxConns (NewBackend i a) = 0"
  "b_state (NewBackend i a) = StateStarting" "b_activeConns (NewBackend i a) = 0"
  by (simp_all add: NewBackend_def Backend_SetWeight_def NewAtomicState_def)

definition Backend_SetState :: "Backend \<Rightarrow> State \<Rightarrow> Backend" where
  "Backend_SetState b s = b\<lparr>b_state := s\<rparr>"

definition Backend_TransitionState :: "Backend \<Rightarrow> State \<Rightarrow> bool \<times> Backend" where
  "Backend_TransitionState b newState =
     (let (ok, v) = AtomicState_Transition (b_state b) newState in (ok, b\<lparr>b_state := v\<rparr>))"

definition Backend_IsAvailable :: "Backend \<Rightarrow> bool" where
  "Backend_IsAvailable b = State_IsAvailable (b_state b)"

definition Backend_IsHealthy :: "Backend \<Rightarrow> bool" where
  "Backend_IsHealthy b = State_IsActive (b_state b)"

definition Backend_AcquireConn :: "Backend \<Rightarrow> bool \<times> Backend" where
  "Backend_AcquireConn b =
     (if b_maxConns b > 0
      then (if b_activeConns b \<ge> b_maxConns b then (False, b)
            else (True, b\<lparr>b_activeConns := wrap_i64 (b_activeConns b + 1),
                          b_totalConns := wrap_i64 (b_totalConns b + 1)\<rparr>))
      else (True, b\<lparr>b_activeConns := wrap_i64 (b_activeConns b + 1),
                    b_totalConns := wrap_i64 (b_totalConns b + 1)\<rparr>))"

definition Backend_ReleaseConn :: "Backend \<Rightarrow> Backend" where
  "Backend_ReleaseConn b = b\<lparr>b_activeConns := wrap_i64 (b_activeConns b - 1)\<rparr>"

text \<open>The exponential moving average of \<^verbatim>\<open>RecordRequest\<close>, in \<^verbatim>\<open>float64\<close> arithmetic.\<close>

definition ema_latency :: "int \<Rightarrow> int \<Rightarrow> int" where
  "ema_latency currentAvg latency =
     trunc_rat (fl64 (fl64 (fl64 (9 / 10) * fl64 (of_int currentAvg)) +
                      fl64 (fl64 (1 / 10) * fl64 (of_int latency))))"

definition Backend_RecordRequest :: "Backend \<Rightarrow> int \<Rightarrow> int \<Rightarrow> Backend" where
  "Backend_RecordRequest b latency bytes =
     (let b = b\<lparr>b_totalRequests := wrap_i64 (b_totalRequests b + 1),
                b_totalBytes := wrap_i64 (b_totalBytes b + bytes),
                b_lastLatency := latency\<rparr>
      in if b_avgLatency b = 0 then b\<lparr>b_avgLatency := latency\<rparr>
         else b\<lparr>b_avgLatency := ema_latency (b_avgLatency b) latency\<rparr>)"

definition Backend_RecordError :: "Backend \<Rightarrow> Backend" where
  "Backend_RecordError b = b\<lparr>b_totalErrors := wrap_i64 (b_totalErrors b + 1)\<rparr>"

definition Backend_RecordHealthCheck :: "int \<Rightarrow> Backend \<Rightarrow> bool \<Rightarrow> Backend" where
  "Backend_RecordHealthCheck now b success =
     (let b = b\<lparr>b_lastCheck := Some now\<rparr>
      in if success then b\<lparr>b_checkFailCount := 0\<rparr>
         else b\<lparr>b_checkFailCount := wrap_i32 (b_checkFailCount b + 1)\<rparr>)"

text \<open>The zero \<^verbatim>\<open>time.Time\<close> is January 1 of year 1.\<close>

definition zero_time :: int where
  "zero_time = - 62135596800 * 1000000000"

definition Backend_LastCheck :: "Backend \<Rightarrow> int" where
  "Backend_LastCheck b = (case b_lastCheck b of None \<Rightarrow> zero_time | Some t \<Rightarrow> t)"

definition Backend_GetMetadata :: "Backend \<Rightarrow> string \<Rightarrow> string" where
  "Backend_GetMetadata b key =
     (case map_of (b_metadata b) key of None \<Rightarrow> '''' | Some v \<Rightarrow> v)"

definition Backend_SetMetadata :: "Backend \<Rightarrow> string \<Rightarrow> string \<Rightarrow> Backend" where
  "Backend_SetMetadata b key val = b\<lparr>b_metadata := AList.update key val (b_metadata b)\<rparr>"

definition Backend_GetAllMetadata :: "Backend \<Rightarrow> (string, string) gomap" where
  "Backend_GetAllMetadata b = foldl (\<lambda>m (k, v). AList.update k v m) [] (b_metadata b)"

definition Backend_Stats :: "Backend \<Rightarrow> BackendStats" where
  "Backend_Stats b =
     \<lparr>bs_ActiveConns = b_activeConns b, bs_TotalRequests = b_totalRequests b,
      bs_TotalErrors = b_totalErrors b, bs_TotalBytes = b_totalBytes b,
      bs_AvgLatency = b_avgLatency b, bs_LastLatency = b_lastLatency b\<rparr>"

definition Backend_String :: "Backend \<Rightarrow> string" where
  "Backend_String b = b_ID b @ ''@'' @ b_Address b"

section \<open>Facts about the operations\<close>

named_theorems backend_defs \<open>definitions of the backend operations\<close>

lemmas [backend_defs] =
  State_IsAvailable_def State_IsActive_def Backend_IsAvailable_def Backend_IsHealthy_def
  Backend_SetState_def Backend_AcquireConn_def Backend_ReleaseConn_def

lemma available_imp_healthy: "Backend_IsAvailable b \<Longrightarrow> Backend_IsHealthy b"
  by (simp add: backend_defs)

text \<open>\<^verbatim>\<open>Transition\<close> succeeds exactly on the edges of the state machine and then sets the state.\<close>

lemma AtomicState_Transition_eq:
  "AtomicState_Transition v n = (if CanTransitionTo v n then (True, n) else (False, v))"
  by (simp add: AtomicState_Transition_def AtomicState_CompareAndSwap_def)

lemma ema_latency_mono:
  assumes "a \<le> a'" and "l \<le> l'"
  shows "ema_latency a l \<le> ema_latency a' l'"
proof -
  have c: "0 \<le> fl64 (9 / 10)" "0 \<le> fl64 (1 / 10)" by (simp_all add: fl64_nonneg)
  have "fl64 (fl64 (9 / 10) * fl64 (of_int a)) \<le> fl64 (fl64 (9 / 10) * fl64 (of_int a'))"
    using assms c by (intro fl64_mono mult_left_mono) auto
  moreover have "fl64 (fl64 (1 / 10) * fl64 (of_int l)) \<le> fl64 (fl64 (1 / 10) * fl64 (of_int l'))"
    using assms c by (intro fl64_mono mult_left_mono) auto
  ultimately have "fl64 (fl64 (fl64 (9 / 10) * fl64 (of_int a)) + fl64 (fl64 (1 / 10) * fl64 (of_int l)))
    \<le> fl64 (fl64 (fl64 (9 / 10) * fl64 (of_int a')) + fl64 (fl64 (1 / 10) * fl64 (of_int l')))"
    by (intro fl64_mono) simp
  then show ?thesis unfolding ema_latency_def by (rule trunc_rat_mono)
qed

lemma ema_latency_nonneg: "0 \<le> a \<Longrightarrow> 0 \<le> l \<Longrightarrow> 0 \<le> ema_latency a l"
  using ema_latency_mono [of 0 a 0 l] by (simp add: ema_latency_def trunc_rat_def)

text \<open>A stored metadata value is read back, and the other keys keep their values.\<close>

lemma GetMetadata_SetMetadata:
  "Backend_GetMetadata (Backend_SetMetadata b k v) k' = (if k' = k then v else Backend_GetMetadata b k')"
  by (simp add: Backend_GetMetadata_def Backend_SetMetadata_def gomap)

text \<open>The copy of the metadata holds exactly the entries of the backend.\<close>

lemma foldl_update_map_of:
  "gomap_wf m \<Longrightarrow> map_of (foldl (\<lambda>m (k, v). AList.update k v m) acc m) = map_of acc ++ map_of m"
proof (induction m arbitrary: acc)
  case (Cons e m)
  obtain k v where e: "e = (k, v)" by (cases e)
  have "k \<notin> dom (map_of m)" using Cons.prems e by (simp add: dom_map_of_conv_image_fst)
  moreover have "map_of (foldl (\<lambda>m (k, v). AList.update k v m) acc (e # m)) =
      (map_of acc)(k \<mapsto> v) ++ map_of m"
    using Cons.IH [of "AList.update k v acc"] Cons.prems e by (simp add: gomap fun_upd_def)
  ultimately show ?case by (auto simp: e map_add_def dom_def fun_eq_iff split: option.splits)
qed simp

lemma GetAllMetadata_copy:
  "gomap_wf (b_metadata b) \<Longrightarrow> map_of (Backend_GetAllMetadata b) = map_of (b_metadata b)"
  by (simp add: Backend_GetAllMetadata_def foldl_update_map_of)

end
