(* ===== verification/Backend_Conc.thy ===== *)
theory Backend_Conc
  imports Backend
begin

text \<open>
  The two compare-and-swap loops of the backend, \<^verbatim>\<open>AtomicState.Transition\<close> (\<^verbatim>\<open>state.go\<close>) and
  \<^verbatim>\<open>Backend.AcquireConn\<close> with \<^verbatim>\<open>ReleaseConn\<close> (\<^verbatim>\<open>backend.go\<close>), as step relations: any number
  of goroutines (numbered by \<open>nat\<close>) run the loop, a step is one atomic load, one
  compare-and-swap or one atomic add of one goroutine, and the scheduler is arbitrary.
\<close>

section \<open>Transition under interleaving\<close>

text \<open>
  \<open>TStart n\<close> is the head of the loop of a call \<^verbatim>\<open>Transition(n)\<close>, \<open>TLoaded c n\<close> the point
  after the load of \<open>c\<close> that passed the check and before the compare-and-swap.
\<close>

datatype tpc = TIdle | TStart State | TLoaded State State | TDone bool

record tsys =
  t_v :: AtomicState
  t_pc :: "nat \<Rightarrow> tpc"
  t_hist :: "State list" \<comment> \<open>the values the cell has held, newest first\<close>

definition tsys_init :: "State \<Rightarrow> tsys" where
  "tsys_init s = \<lparr>t_v = NewAtomicState s, t_pc = (\<lambda>_. TIdle), t_hist = [s]\<rparr>"

inductive Transition_step :: "tsys \<Rightarrow> tsys \<Rightarrow> bool" where
  call: "t_pc s i = TIdle \<Longrightarrow> Transition_step s (s\<lparr>t_pc := (t_pc s)(i := TStart n)\<rparr>)"
| load_reject: "t_pc s i = TStart n \<Longrightarrow> \<not> CanTransitionTo (t_v s) n \<Longrightarrow>
    Transition_step s (s\<lparr>t_pc := (t_pc s)(i := TDone False)\<rparr>)"
| load_ok: "t_pc s i = TStart n \<Longrightarrow> CanTransitionTo (t_v s) n \<Longrightarrow>
    Transition_step s (s\<lparr>t_pc := (t_pc s)(i := TLoaded (t_v s) n)\<rparr>)"
| cas: "t_pc s i = TLoaded c n \<Longrightarrow> AtomicState_CompareAndSwap (t_v s) c n = (ok, v') \<Longrightarrow>
    Transition_step s (s\<lparr>t_v := v', t_pc := (t_pc s)(i := if ok then TDone True else TStart n),
                         t_hist := if ok then n # t_hist s else t_hist s\<rparr>)"
| return: "t_pc s i = TDone r \<Longrightarrow> Transition_step s (s\<lparr>t_pc := (t_pc s)(i := TIdle)\<rparr>)"

inductive Transition_reach :: "State \<Rightarrow> tsys \<Rightarrow> bool" for s0 where
  start: "Transition_reach s0 (tsys_init s0)"
| step: "Transition_reach s0 s \<Longrightarrow> Transition_step s t \<Longrightarrow> Transition_reach s0 t"

fun legal_history :: "State list \<Rightarrow> bool" where
  "legal_history [] = True"
| "legal_history [s] = True"
| "legal_history (n # c # hs) = (CanTransitionTo c n \<and> legal_history (c # hs))"

definition tsys_inv :: "tsys \<Rightarrow> bool" where
  "tsys_inv s \<longleftrightarrow>
     legal_history (t_hist s) \<and> t_hist s \<noteq> [] \<and> hd (t_hist s) = t_v s \<and>
     (\<forall>i c n. t_pc s i = TLoaded c n \<longrightarrow> CanTransitionTo c n)"

lemma legal_history_Cons:
  "legal_history hs \<Longrightarrow> hs \<noteq> [] \<Longrightarrow> CanTransitionTo (hd hs) n \<Longrightarrow> legal_history (n # hs)"
  by (cases hs) auto

lemma Transition_step_inv: "Transition_step s t \<Longrightarrow> tsys_inv s \<Longrightarrow> tsys_inv t"
proof (induction rule: Transition_step.induct)
  case (cas s i c n ok v')
  show ?case
  proof (cases "t_v s = c")
    case True
    then have ok: "ok" "v' = n" using cas.hyps(2) by (simp_all add: AtomicState_CompareAndSwap_def)
    have "CanTransitionTo (hd (t_hist s)) n"
      using cas.prems cas.hyps(1) True by (auto simp: tsys_inv_def)
    with cas.prems ok show ?thesis by (auto simp: tsys_inv_def legal_history_Cons)
  next
    case False
    then have "\<not> ok" "v' = t_v s"
      using cas.hyps(2) by (auto simp: AtomicState_CompareAndSwap_def)
    with cas.prems show ?thesis by (auto simp: tsys_inv_def)
  qed
qed (auto simp: tsys_inv_def)

lemma Transition_reach_inv: "Transition_reach s0 s \<Longrightarrow> tsys_inv s"
proof (induction rule: Transition_reach.induct)
  case start
  show ?case by (simp add: tsys_inv_def tsys_init_def NewAtomicState_def)
next
  case (step s t)
  then show ?case by (blast intro: Transition_step_inv)
qed

section \<open>Connection slots under interleaving\<close>

text \<open>
  The backend has a positive \<^verbatim>\<open>maxConns\<close> that does not change. \<open>ALoop\<close> is the head of the loop
  of \<^verbatim>\<open>AcquireConn\<close>, \<open>ALoaded c\<close> the point before the compare-and-swap of \<open>c\<close> to \<open>c + 1\<close>,
  \<open>ACount\<close> the point between the successful compare-and-swap and \<^verbatim>\<open>totalConns.Add(1)\<close>, and
  \<open>AHold\<close> a goroutine that was granted a slot and has not called \<^verbatim>\<open>ReleaseConn\<close> yet.
\<close>

datatype apc = AIdle | ALoop | ALoaded int | ACount | AHold

record asys =
  a_active :: int
  a_total :: int
  a_pc :: "nat \<Rightarrow> apc"

definition asys_init :: asys where
  "asys_init = \<lparr>a_active = 0, a_total = 0, a_pc = (\<lambda>_. AIdle)\<rparr>"

inductive AcquireConn_step :: "int \<Rightarrow> asys \<Rightarrow> asys \<Rightarrow> bool" for maxConns where
  acq_call: "a_pc s i = AIdle \<Longrightarrow> AcquireConn_step maxConns s (s\<lparr>a_pc := (a_pc s)(i := ALoop)\<rparr>)"
| acq_full: "a_pc s i = ALoop \<Longrightarrow> a_active s \<ge> maxConns \<Longrightarrow>
    AcquireConn_step maxConns s (s\<lparr>a_pc := (a_pc s)(i := AIdle)\<rparr>)"
| acq_load: "a_pc s i = ALoop \<Longrightarrow> \<not> a_active s \<ge> maxConns \<Longrightarrow>
    AcquireConn_step maxConns s (s\<lparr>a_pc := (a_pc s)(i := ALoaded (a_active s))\<rparr>)"
| acq_cas_ok: "a_pc s i = ALoaded c \<Longrightarrow> a_active s = c \<Longrightarrow>
    AcquireConn_step maxConns s (s\<lparr>a_active := wrap_i64 (c + 1), a_pc := (a_pc s)(i := ACount)\<rparr>)"
| acq_cas_fail: "a_pc s i = ALoaded c \<Longrightarrow> a_active s \<noteq> c \<Longrightarrow>
    AcquireConn_step maxConns s (s\<lparr>a_pc := (a_pc s)(i := ALoop)\<rparr>)"
| acq_count: "a_pc s i = ACount \<Longrightarrow>
    AcquireConn_step maxConns s (s\<lparr>a_total := wrap_i64 (a_total s + 1), a_pc := (a_pc s)(i := AHold)\<rparr>)"
| rel: "a_pc s i = AHold \<Longrightarrow>
    AcquireConn_step maxConns s (s\<lparr>a_active := wrap_i64 (a_active s - 1), a_pc := (a_pc s)(i := AIdle)\<rparr>)"

inductive AcquireConn_reach :: "int \<Rightarrow> asys \<Rightarrow> bool" for maxConns where
  a_start: "AcquireConn_reach maxConns asys_init"
| a_step: "AcquireConn_reach maxConns s \<Longrightarrow> AcquireConn_step maxConns s t \<Longrightarrow>
    AcquireConn_reach maxConns t"

text \<open>The goroutines that own a slot: granted and not yet released.\<close>

definition slot_holders :: "asys \<Rightarrow> nat set" where
  "slot_holders s = {i. a_pc s i = ACount \<or> a_pc s i = AHold}"

definition asys_inv :: "int \<Rightarrow> asys \<Rightarrow> bool" where
  "asys_inv m s \<longleftrightarrow>
     finite (slot_holders s) \<and> a_active s = int (card (slot_holders s)) \<and> a_active s \<le> m \<and>
     (\<forall>i c. a_pc s i = ALoaded c \<longrightarrow> c < m)"

lemma slot_holders_gain:
  "a_pc s i \<noteq> ACount \<Longrightarrow> a_pc s i \<noteq> AHold \<Longrightarrow>
   slot_holders (s\<lparr>a_active := x, a_pc := (a_pc s)(i := ACount)\<rparr>) = insert i (slot_holders s)"
  by (auto simp: slot_holders_def)

lemma slot_holders_keep:
  "(a_pc s i = ACount \<or> a_pc s i = AHold) = (p = ACount \<or> p = AHold) \<Longrightarrow>
   a_pc t = (a_pc s)(i := p) \<Longrightarrow> slot_holders t = slot_holders s"
  by (auto simp: slot_holders_def)

lemma slot_holders_drop:
  "slot_holders (s\<lparr>a_active := x, a_pc := (a_pc s)(i := AIdle)\<rparr>) = slot_holders s - {i}"
  by (auto simp: slot_holders_def)

lemma AcquireConn_step_inv:
  assumes "AcquireConn_step m s t" and "asys_inv m s" and m: "0 < m" "m < 2 ^ 31"
  shows "asys_inv m t"
  using assms(1,2)
proof (induction rule: AcquireConn_step.induct)
  case (acq_cas_ok s i c)
  have notin: "i \<notin> slot_holders s" using acq_cas_ok.hyps by (simp add: slot_holders_def)
  have c: "0 \<le> c" "c < m" using acq_cas_ok by (auto simp: asys_inv_def)
  then have w: "wrap_i64 (c + 1) = c + 1" using m by (intro wrap_i64_id) auto
  have "slot_holders (s\<lparr>a_active := wrap_i64 (c + 1), a_pc := (a_pc s)(i := ACount)\<rparr>)
      = insert i (slot_holders s)"
    using acq_cas_ok.hyps by (intro slot_holders_gain) auto
  moreover have "c + 1 \<le> m" using c by simp
  ultimately show ?case using acq_cas_ok notin w by (simp add: asys_inv_def)
next
  case (rel s i)
  have "i \<in> slot_holders s" using rel.hyps by (simp add: slot_holders_def)
  moreover from this rel.prems have pos: "0 < a_active s"
    by (auto simp: asys_inv_def card_gt_0_iff)
  moreover have "wrap_i64 (a_active s - 1) = a_active s - 1"
    using pos rel.prems m by (intro wrap_i64_id) (auto simp: asys_inv_def)
  ultimately show ?case using rel.prems
    by (auto simp: asys_inv_def slot_holders_drop of_nat_diff Suc_leI card_gt_0_iff)
next
  case (acq_count s i)
  have "slot_holders (s\<lparr>a_total := wrap_i64 (a_total s + 1), a_pc := (a_pc s)(i := AHold)\<rparr>) = slot_holders s"
    using acq_count.hyps by (intro slot_holders_keep [where i = i and p = AHold]) auto
  with acq_count.prems show ?case by (auto simp: asys_inv_def)
next
  case (acq_call s i)
  then have "slot_holders (s\<lparr>a_pc := (a_pc s)(i := ALoop)\<rparr>) = slot_holders s"
    by (intro slot_holders_keep [where i = i and p = ALoop]) auto
  with acq_call.prems show ?case by (auto simp: asys_inv_def)
next
  case (acq_full s i)
  then have "slot_holders (s\<lparr>a_pc := (a_pc s)(i := AIdle)\<rparr>) = slot_holders s"
    by (intro slot_holders_keep [where i = i and p = AIdle]) auto
  with acq_full.prems show ?case by (auto simp: asys_inv_def)
next
  case (acq_load s i)
  then have "slot_holders (s\<lparr>a_pc := (a_pc s)(i := ALoaded (a_active s))\<rparr>) = slot_holders s"
    by (intro slot_holders_keep [where i = i and p = "ALoaded (a_active s)"]) auto
  with acq_load show ?case by (auto simp: asys_inv_def)
next
  case (acq_cas_fail s i c)
  then have "slot_holders (s\<lparr>a_pc := (a_pc s)(i := ALoop)\<rparr>) = slot_holders s"
    by (intro slot_holders_keep [where i = i and p = ALoop]) auto
  with acq_cas_fail.prems show ?case by (auto simp: asys_inv_def)
qed

lemma AcquireConn_reach_inv:
  "AcquireConn_reach m s \<Longrightarrow> 0 < m \<Longrightarrow> m < 2 ^ 31 \<Longrightarrow> asys_inv m s"
proof (induction rule: AcquireConn_reach.induct)
  case a_start
  then show ?case by (simp add: asys_inv_def asys_init_def slot_holders_def)
next
  case (a_step s t)
  then show ?case by (blast intro: AcquireConn_step_inv)
qed

text \<open>
  The sequential \<open>Backend_AcquireConn\<close> is what one goroutine does when no other goroutine
  takes a step between its load and its compare-and-swap.
\<close>

lemma AcquireConn_refines:
  assumes "0 < b_maxConns b" and "Backend_AcquireConn b = (True, b')" and "a_pc s i = ALoop"
    and "a_active s = b_activeConns b" and "a_total s = b_totalConns b"
  shows "\<exists>t. (AcquireConn_step (b_maxConns b))\<^sup>*\<^sup>* s t \<and> a_pc t = (a_pc s)(i := AHold) \<and>
      a_active t = b_activeConns b' \<and> a_total t = b_totalConns b'"
proof -
  let ?S = "AcquireConn_step (b_maxConns b)"
  let ?s1 = "s\<lparr>a_pc := (a_pc s)(i := ALoaded (a_active s))\<rparr>"
  let ?s2 = "?s1\<lparr>a_active := wrap_i64 (a_active s + 1), a_pc := (a_pc ?s1)(i := ACount)\<rparr>"
  let ?s3 = "?s2\<lparr>a_total := wrap_i64 (a_total s + 1), a_pc := (a_pc ?s2)(i := AHold)\<rparr>"
  have lt: "\<not> b_activeConns b \<ge> b_maxConns b"
    and b': "b' = b\<lparr>b_activeConns := wrap_i64 (b_activeConns b + 1),
                    b_totalConns := wrap_i64 (b_totalConns b + 1)\<rparr>"
    using assms(1,2) by (auto simp: backend_defs split: if_splits)
  have "?S s ?s1" using assms lt by (intro acq_load) auto
  moreover have "?S ?s1 ?s2" by (rule acq_cas_ok) simp_all
  moreover have "?S ?s2 ?s3"
    using acq_count [of ?s2 i "b_maxConns b"] by simp
  ultimately have "?S\<^sup>*\<^sup>* s ?s3" by (meson rtranclp.intros)
  then show ?thesis using assms b' by (intro exI [of _ ?s3]) auto
qed

section \<open>Properties\<close>

text \<open>
  C6. State transitions under concurrency: however the goroutines that call \<^verbatim>\<open>Transition\<close> on one
  backend interleave at their atomic loads and compare-and-swaps, the state is always the last of a
  history in which every step from one state to the next is permitted by \<^verbatim>\<open>CanTransitionTo\<close>.
\<close>

theorem Transition_interleavings_legal:
  assumes "Transition_reach s0 s"
  shows "legal_history (t_hist s) \<and> t_hist s \<noteq> [] \<and> hd (t_hist s) = t_v s"
  using Transition_reach_inv [OF assms] by (simp add: tsys_inv_def)

theorem Transition_interleavings_legal_witness:
  "\<exists>s :: tsys. t_hist s = [StateUp, StateStarting] \<and> legal_history (t_hist s) \<and> t_v s = StateUp"
proof -
  let ?s0 = "tsys_init StateStarting"
  let ?s1 = "?s0\<lparr>t_pc := (t_pc ?s0)(0 := TStart StateUp)\<rparr>"
  let ?s2 = "?s1\<lparr>t_pc := (t_pc ?s1)(0 := TLoaded (t_v ?s1) StateUp)\<rparr>"
  let ?s3 = "?s2\<lparr>t_v := StateUp, t_pc := (t_pc ?s2)(0 := if True then TDone True else TStart StateUp),
                  t_hist := if True then StateUp # t_hist ?s2 else t_hist ?s2\<rparr>"
  have st1: "Transition_step ?s0 ?s1" by (rule Transition_step.call) (simp add: tsys_init_def)
  have st2: "Transition_step ?s1 ?s2"
    by (rule Transition_step.load_ok) (simp_all add: tsys_init_def NewAtomicState_def)
  have st3: "Transition_step ?s2 ?s3"
    by (rule Transition_step.cas [where c = StateStarting])
      (simp_all add: tsys_init_def NewAtomicState_def AtomicState_CompareAndSwap_def)
  have r: "Transition_reach StateStarting ?s3"
    by (rule Transition_reach.step [OF Transition_reach.step [OF Transition_reach.step [OF Transition_reach.start st1] st2] st3])
  have h: "t_hist ?s3 = [StateUp, StateStarting]" by (simp add: tsys_init_def)
  have v: "t_v ?s3 = StateUp" by simp
  show ?thesis
  proof (rule exI [of _ ?s3], intro conjI)
    show "t_hist ?s3 = [StateUp, StateStarting]" by (rule h)
    show "legal_history (t_hist ?s3)" using Transition_interleavings_legal [OF r] by (rule conjunct1)
    show "t_v ?s3 = StateUp" by (rule v)
  qed
qed

text \<open>
  C5. The connection limit holds under concurrency: however the goroutines that acquire and
  release connections of one backend interleave, the counter of active connections is exactly the
  number of goroutines that hold a connection and never exceeds a positive \<^verbatim>\<open>maxConns\<close>.
\<close>

theorem AcquireConn_interleavings_bounded:
  assumes "AcquireConn_reach m s" and "0 < m" and "m < 2 ^ 31"
  shows "a_active s = int (card (slot_holders s)) \<and> a_active s \<le> m"
  using AcquireConn_reach_inv [OF assms] by (simp add: asys_inv_def)

theorem AcquireConn_interleavings_bounded_witness:
  "\<exists>s :: asys. a_active s = 1 \<and> a_active s = int (card (slot_holders s))"
proof -
  let ?s0 = asys_init
  let ?s1 = "?s0\<lparr>a_pc := (a_pc ?s0)(0 := ALoop)\<rparr>"
  let ?s2 = "?s1\<lparr>a_pc := (a_pc ?s1)(0 := ALoaded (a_active ?s1))\<rparr>"
  let ?s3 = "?s2\<lparr>a_active := wrap_i64 (0 + 1), a_pc := (a_pc ?s2)(0 := ACount)\<rparr>"
  have st1: "AcquireConn_step 1 ?s0 ?s1" by (rule AcquireConn_step.acq_call) (simp add: asys_init_def)
  have st2: "AcquireConn_step 1 ?s1 ?s2" by (rule AcquireConn_step.acq_load) (simp_all add: asys_init_def)
  have st3: "AcquireConn_step 1 ?s2 ?s3" by (rule AcquireConn_step.acq_cas_ok) (simp_all add: asys_init_def)
  have r: "AcquireConn_reach 1 ?s3"
    by (rule AcquireConn_reach.a_step [OF AcquireConn_reach.a_step [OF AcquireConn_reach.a_step [OF AcquireConn_reach.a_start st1] st2] st3])
  have "a_active ?s3 = 1" by (simp add: wrap_i64_def)
  moreover have "a_active ?s3 = int (card (slot_holders ?s3))"
    using AcquireConn_interleavings_bounded [OF r] by simp
  ultimately show ?thesis by (intro exI [of _ ?s3] conjI)
qed

end
