(* ===== verification/Http.thy ===== *)
theory Http
  imports GoLib
begin

text \<open>
  The parts of \<^verbatim>\<open>net/http\<close> that the router and the balancers read of a request: method, host,
  path, headers, cookies, query parameters and the address of the peer. Header names are stored in
  canonical form.
\<close>

record Request =
  req_Method :: string
  req_Host :: string
  req_URL_Host :: string
  req_URL_Path :: string
  req_Header :: "(string, string list) gomap"
  req_Cookies :: "(string, string) gomap"
  req_Query :: "(string, string list) gomap"
  req_RemoteAddr :: string

text \<open>
  \<^verbatim>\<open>textproto.CanonicalMIMEHeaderKey\<close>: a name with a byte that is not a token character is
  left as it is; otherwise the first letter and every letter after a hyphen is upper case.
\<close>

definition is_upper :: "char \<Rightarrow> bool" where
  "is_upper c = (65 \<le> (of_char c :: nat) \<and> (of_char c :: nat) \<le> 90)"

definition is_lower :: "char \<Rightarrow> bool" where
  "is_lower c = (97 \<le> (of_char c :: nat) \<and> (of_char c :: nat) \<le> 122)"

definition is_digit :: "char \<Rightarrow> bool" where
  "is_digit c = (48 \<le> (of_char c :: nat) \<and> (of_char c :: nat) \<le> 57)"

definition is_token_char :: "char \<Rightarrow> bool" where
  "is_token_char c =
     (is_upper c \<or> is_lower c \<or> is_digit c \<or> List.member ''!#$%&*+-.^_|~'' c \<or>
      c = CHR 0x27 \<or> c = CHR 0x60)"

definition to_upper :: "char \<Rightarrow> char" where
  "to_upper c = (if is_lower c then char_of ((of_char c :: nat) - 32) else c)"

definition to_lower :: "char \<Rightarrow> char" where
  "to_lower c = (if is_upper c then char_of ((of_char c :: nat) + 32) else c)"

fun canon_header :: "bool \<Rightarrow> string \<Rightarrow> string" where
  "canon_header up [] = []"
| "canon_header up (c # cs) =
     (if up then to_upper c else to_lower c) # canon_header (c = CHR ''-'') cs"

definition CanonicalMIMEHeaderKey :: "string \<Rightarrow> string" where
  "CanonicalMIMEHeaderKey s = (if list_all is_token_char s then canon_header True s else s)"

definition first_value :: "(string, string list) gomap \<Rightarrow> string \<Rightarrow> string" where
  "first_value m k = (case map_of m k of Some (v # _) \<Rightarrow> v | _ \<Rightarrow> '''')"

definition Header_Get :: "Request \<Rightarrow> string \<Rightarrow> string" where
  "Header_Get r key = first_value (req_Header r) (CanonicalMIMEHeaderKey key)"

definition Query_Get :: "Request \<Rightarrow> string \<Rightarrow> string" where
  "Query_Get r key = first_value (req_Query r) key"

definition Cookie_value :: "Request \<Rightarrow> string \<Rightarrow> string option" where
  "Cookie_value r name = (if name = '''' then None else map_of (req_Cookies r) name)"

section \<open>Hosts and ports\<close>

text \<open>\<^verbatim>\<open>strings.LastIndexByte\<close>.\<close>

fun last_index :: "char \<Rightarrow> string \<Rightarrow> nat option" where
  "last_index c [] = None"
| "last_index c (x # xs) =
     (case last_index c xs of
        Some i \<Rightarrow> Some (Suc i)
      | None \<Rightarrow> if x = c then Some 0 else None)"

text \<open>
  \<^verbatim>\<open>net.SplitHostPort\<close>: the host and port of \<^verbatim>\<open>host:port\<close> or \<^verbatim>\<open>[host]:port\<close>, or an error.
\<close>

definition SplitHostPort :: "string \<Rightarrow> (string \<times> string) option" where
  "SplitHostPort hp =
     (case last_index CHR '':'' hp of
        None \<Rightarrow> None
      | Some i \<Rightarrow>
          if hd hp = CHR ''['' then
            (case first_index (\<lambda>c. c = CHR '']'') hp of
               None \<Rightarrow> None
             | Some e \<Rightarrow>
                 if e + 1 = length hp \<or> e + 1 \<noteq> i then None
                 else if CHR ''['' \<in> set (drop 1 hp) then None
                 else if CHR '']'' \<in> set (drop (e + 1) hp) then None
                 else Some (take (e - 1) (drop 1 hp), drop (i + 1) hp))
          else if CHR '':'' \<in> set (take i hp) then None
          else if CHR ''['' \<in> set hp then None
          else if CHR '']'' \<in> set hp then None
          else Some (take i hp, drop (i + 1) hp))"

lemma last_index_SomeD:
  "last_index c s = Some i \<Longrightarrow> i < length s \<and> s = take i s @ c # drop (Suc i) s \<and> c \<notin> set (drop (Suc i) s)"
proof (induction s arbitrary: i)
  case (Cons x xs)
  show ?case
  proof (cases "last_index c xs")
    case None
    have "last_index c ys = None \<Longrightarrow> c \<notin> set ys" for ys
      by (induction ys) (auto split: option.splits if_splits)
    with None Cons.prems show ?thesis by (auto split: if_splits)
  next
    case (Some j)
    with Cons.prems Cons.IH [OF Some] show ?thesis by auto
  qed
qed simp

lemma last_index_None: "last_index c s = None \<longleftrightarrow> c \<notin> set s"
  by (induction s) (auto split: option.splits)

end
