(* ===== verification/Balancer.thy ===== *)
theory Balancer
  imports Backend Http
begin

text \<open>
  The interface of the load balancing algorithms (\<^verbatim>\<open>internal/balancer/balancer.go\<close> and the
  \<^verbatim>\<open>Balancer\<close> interface of \<^verbatim>\<open>internal/backend/pool.go\<close>) as a method table and as locales
  that state what every algorithm promises, and the round-robin algorithm
  (\<^verbatim>\<open>round_robin.go\<close>), which is the first to keep that promise.
\<close>

section \<open>The interface\<close>

record RequestContext =
  ctx_ClientIP :: string
  ctx_Request :: "Request option"

text \<open>
  A Go interface value is a method table with a receiver; \<open>'s\<close> is the receiver's type. The
  methods take the heap because they read the backends they are given pointers to.
\<close>

record 's Balancer =
  bal_Next :: "RequestContext option \<Rightarrow> heap \<Rightarrow> bref list \<Rightarrow> 's \<Rightarrow> bref option \<times> 's"
  bal_Add :: "heap \<Rightarrow> bref \<Rightarrow> 's \<Rightarrow> 's"
  bal_Remove :: "heap \<Rightarrow> string \<Rightarrow> 's \<Rightarrow> 's"
  bal_Update :: "heap \<Rightarrow> bref \<Rightarrow> 's \<Rightarrow> 's"

definition ctx_key :: "RequestContext option \<Rightarrow> string" where
  "ctx_key ctx = (case ctx of None \<Rightarrow> '''' | Some c \<Rightarrow> ctx_ClientIP c)"

text \<open>
  What a client of the interface relies on: a selected backend is one of those offered, and an
  empty offer selects nothing. The second locale adds that under a condition of its own
  (\<open>ready\<close>) an algorithm does select a backend.
\<close>

locale balancer =
  fixes ops :: "('s, 'z) Balancer_scheme"
  assumes next_mem: "bal_Next ops ctx h bs s = (Some r, s') \<Longrightarrow> r \<in> set bs"
    and next_Nil: "fst (bal_Next ops ctx h [] s) = None"
begin

lemma next_subset:
  assumes "bal_Next ops ctx h (filter P bs) s = (Some r, s')"
  shows "r \<in> set bs \<and> P r"
  using next_mem [OF assms] by simp

end

locale live_balancer = balancer ops
  for ops :: "('s, 'z) Balancer_scheme" +
  fixes ready :: "RequestContext option \<Rightarrow> heap \<Rightarrow> bref list \<Rightarrow> 's \<Rightarrow> bool"
  assumes next_some: "ready ctx h bs s \<Longrightarrow> bs \<noteq> [] \<Longrightarrow> fst (bal_Next ops ctx h bs s) \<noteq> None"
begin

lemma next_selects:
  assumes "ready ctx h bs s" and "bs \<noteq> []"
  obtains r s' where "bal_Next ops ctx h bs s = (Some r, s')" and "r \<in> set bs"
  using next_some [OF assms] next_mem by (metis not_None_eq prod.collapse)

end

text \<open>Consecutive calls of an operation, with the results in order.\<close>

fun run_next :: "('s \<Rightarrow> 'r \<times> 's) \<Rightarrow> nat \<Rightarrow> 's \<Rightarrow> 'r list \<times> 's" where
  "run_next f 0 s = ([], s)"
| "run_next f (Suc k) s =
     (let (r, s1) = f s; (rs, s2) = run_next f k s1 in (r # rs, s2))"

text \<open>A heap of available backends \<^verbatim>\<open>b0\<close>, \<^verbatim>\<open>b1\<close>, ... on which the witnesses are evaluated.\<close>

definition example_heap :: heap where
  "example_heap r = (NewBackend (''b'' @ nat_dec r) [])\<lparr>b_state := StateUp\<rparr>"

section \<open>Lists of tracked backends\<close>

text \<open>
  Several algorithms track the registered backends in a slice with the same three loops:
  append unless the ID is present, swap-remove by ID, replace the entry with the same ID.
\<close>

definition track_add :: "heap \<Rightarrow> bref \<Rightarrow> bref list \<Rightarrow> bref list" where
  "track_add h b bs =
     (if \<exists>x \<in> set bs. ref_ID h x = ref_ID h b then bs else bs @ [b])"

definition track_remove :: "heap \<Rightarrow> string \<Rightarrow> bref list \<Rightarrow> bref list" where
  "track_remove h i bs = swap_remove (\<lambda>x. ref_ID h x = i) bs"

definition track_update :: "heap \<Rightarrow> bref \<Rightarrow> bref list \<Rightarrow> bref list" where
  "track_update h b bs =
     (case first_index (\<lambda>x. ref_ID h x = ref_ID h b) bs of
        None \<Rightarrow> bs
      | Some i \<Rightarrow> bs[i := b])"

abbreviation tracked_ids :: "heap \<Rightarrow> bref list \<Rightarrow> string list" where
  "tracked_ids h bs \<equiv> map (ref_ID h) bs"

lemma track_add_distinct: "distinct (tracked_ids h bs) \<Longrightarrow> distinct (tracked_ids h (track_add h b bs))"
  by (auto simp: track_add_def)

lemma track_add_ids: "set (tracked_ids h (track_add h b bs)) = insert (ref_ID h b) (set (tracked_ids h bs))"
  by (auto simp: track_add_def image_iff) metis

lemma track_remove_distinct:
  "distinct (tracked_ids h bs) \<Longrightarrow> distinct (tracked_ids h (track_remove h i bs))"
  unfolding track_remove_def by (rule distinct_swap_remove)

lemma track_remove_ids:
  "distinct (tracked_ids h bs) \<Longrightarrow> set (tracked_ids h (track_remove h i bs)) = set (tracked_ids h bs) - {i}"
  unfolding track_remove_def by (simp add: swap_remove_keys)

lemma track_update_ids: "tracked_ids h (track_update h b bs) = tracked_ids h bs"
proof (cases "first_index (\<lambda>x. ref_ID h x = ref_ID h b) bs")
  case (Some i)
  then have "i < length bs" "ref_ID h (bs ! i) = ref_ID h b" by (auto dest: first_index_SomeD)
  then have "(tracked_ids h bs)[i := ref_ID h b] = tracked_ids h bs"
    by (metis length_map list_update_id nth_map)
  with Some show ?thesis by (simp add: track_update_def map_update)
qed (simp add: track_update_def)

section \<open>Round robin\<close>

type_synonym RoundRobin = "64 word"

definition NewRoundRobin :: RoundRobin where
  "NewRoundRobin = 0"

definition RoundRobin_Next ::
  "RequestContext option \<Rightarrow> heap \<Rightarrow> bref list \<Rightarrow> RoundRobin \<Rightarrow> bref option \<times> RoundRobin" where
  "RoundRobin_Next ctx h backends rr =
     (if backends = [] then (None, rr)
      else let count = rr + 1;
               index = unat ((count - 1) mod of_nat (length backends))
           in (Some (backends ! index), count))"

definition RoundRobin_methods :: "RoundRobin Balancer" where
  "RoundRobin_methods =
     \<lparr>bal_Next = RoundRobin_Next, bal_Add = (\<lambda>h b s. s), bal_Remove = (\<lambda>h i s. s),
      bal_Update = (\<lambda>h b s. s)\<rparr>"

text \<open>Reducing an unsigned counter modulo the length of a slice gives a valid index.\<close>

lemma unat_mod_length:
  fixes x :: "64 word"
  assumes "0 < n"
  shows "unat (x mod of_nat n) < n"
proof (cases "n < 2 ^ 64")
  case True
  then have "unat (of_nat n :: 64 word) = n" by (simp add: unat_of_nat)
  then have "unat (x mod of_nat n) = unat x mod n" by (simp add: unat_mod)
  with assms show ?thesis by simp
next
  case False
  have "unat (x mod of_nat n) < 2 ^ 64" using unsigned_less [of "x mod of_nat n"] by simp
  with False show ?thesis by linarith
qed

lemma RoundRobin_Next_eq:
  assumes "backends \<noteq> []" and "length backends < 2 ^ 64"
  shows "RoundRobin_Next ctx h backends rr = (Some (backends ! (unat rr mod length backends)), rr + 1)"
proof -
  have "unat (of_nat (length backends) :: 64 word) = length backends"
    using assms(2) by (simp add: unat_of_nat)
  then show ?thesis using assms(1) by (simp add: RoundRobin_Next_def unat_mod)
qed

interpretation rr: live_balancer RoundRobin_methods "\<lambda>ctx h bs s. True"
proof unfold_locales
  fix ctx h bs s r s'
  assume "bal_Next RoundRobin_methods ctx h bs s = (Some r, s')"
  then show "r \<in> set bs"
    using unat_mod_length [of "length bs"]
    by (auto simp: RoundRobin_methods_def RoundRobin_Next_def Let_def split: if_splits)
qed (auto simp: RoundRobin_methods_def RoundRobin_Next_def Let_def)

lemma run_RoundRobin:
  assumes "backends \<noteq> []" and "length backends < 2 ^ 64" and "unat rr + k < 2 ^ 64"
  shows "run_next (RoundRobin_Next ctx h backends) k rr =
    (map (\<lambda>i. Some (backends ! ((unat rr + i) mod length backends))) [0..<k], rr + of_nat k)"
  using assms(3)
proof (induction k arbitrary: rr)
  case (Suc k)
  have u: "unat (rr + 1) = unat rr + 1"
    using Suc.prems by (simp add: unat_word_ariths)
  then have "run_next (RoundRobin_Next ctx h backends) k (rr + 1) =
    (map (\<lambda>i. Some (backends ! ((unat rr + 1 + i) mod length backends))) [0..<k], rr + 1 + of_nat k)"
    using Suc.IH [of "rr + 1"] Suc.prems by simp
  then show ?case
    using RoundRobin_Next_eq [OF assms(1,2), of ctx h rr]
    by (simp add: upt_conv_Cons map_Suc_upt [symmetric] comp_def add.assoc del: upt_Suc)
qed simp

text \<open>
  Fairness of round robin: as many consecutive calls as there are backends select every
  backend exactly once (as a multiset), from whatever value the shared counter has, until the
  64-bit counter wraps around.
\<close>

theorem RoundRobin_fair:
  assumes ne: "backends \<noteq> []" and len: "length backends < 2 ^ 64" and cnt: "unat rr + length backends < 2 ^ 64"
  shows "mset (fst (run_next (RoundRobin_Next ctx h backends) (length backends) rr)) = mset (map Some backends)"
proof -
  have "fst (run_next (RoundRobin_Next ctx h backends) (length backends) rr) =
      map Some (map (\<lambda>i. backends ! ((unat rr + i) mod length backends)) [0..<length backends])"
    using run_RoundRobin [OF assms] by simp
  also have "\<dots> = map Some (rotate (unat rr) backends)" using ne by (simp add: scan_from_index)
  also have "mset \<dots> = mset (map Some backends)"
    by (simp add: mset_rotate)
  finally show ?thesis .
qed

theorem RoundRobin_fair_witness:
  "mset (fst (run_next (RoundRobin_Next None example_heap [0, 1, 2]) 3 5)) = {#Some 0, Some 1, Some 2#}"
  using RoundRobin_fair [of "[0, 1, 2]" 5 None example_heap] by (simp add: numeral_3_eq_3)

end
