(* ===== verification/Bal_Random.thy ===== *)
theory Bal_Random
  imports Balancer Fast_Rand
begin

text \<open>
  \<^verbatim>\<open>internal/balancer/random.go\<close> (\<^verbatim>\<open>Random\<close>, \<^verbatim>\<open>WeightedRandom\<close>) and \<^verbatim>\<open>power_of_two.go\<close>:
  the algorithms that draw from the SplitMix64 generator.
\<close>

section \<open>Uniform random\<close>

record Random =
  rnd_backends :: "bref list"
  rnd_rnd :: FastRand

definition NewRandom :: "64 word \<Rightarrow> Random" where
  "NewRandom seed = \<lparr>rnd_backends = [], rnd_rnd = NewFastRandWithSeed seed\<rparr>"

definition Random_Next ::
  "RequestContext option \<Rightarrow> heap \<Rightarrow> bref list \<Rightarrow> Random \<Rightarrow> bref option \<times> Random" where
  "Random_Next ctx h backends r =
     (if backends = [] then (None, r)
      else let (random, g) = FastRand_Int63 (rnd_rnd r);
               index = nat (random smod int (length backends))
           in (Some (backends ! index), r\<lparr>rnd_rnd := g\<rparr>))"

definition Random_Add :: "heap \<Rightarrow> bref \<Rightarrow> Random \<Rightarrow> Random" where
  "Random_Add h b r = r\<lparr>rnd_backends := track_add h b (rnd_backends r)\<rparr>"

definition Random_Remove :: "heap \<Rightarrow> string \<Rightarrow> Random \<Rightarrow> Random" where
  "Random_Remove h i r = r\<lparr>rnd_backends := track_remove h i (rnd_backends r)\<rparr>"

definition Random_methods :: "Random Balancer" where
  "Random_methods =
     \<lparr>bal_Next = Random_Next, bal_Add = Random_Add, bal_Remove = Random_Remove,
      bal_Update = (\<lambda>h b r. r)\<rparr>"

lemma smod_index:
  assumes "0 \<le> r" and "xs \<noteq> []"
  shows "nat (r smod int (length xs)) < length xs"
proof -
  have "r smod int (length xs) = r mod int (length xs)"
    using assms by (simp add: signed_modulo_int_def signed_divide_int_def sgn_if minus_mult_div_eq_mod)
  moreover have "0 < int (length xs)" using assms by simp
  ultimately show ?thesis by (simp add: nat_less_iff)
qed

interpretation rnd: live_balancer Random_methods "\<lambda>ctx h bs s. True"
proof unfold_locales
  fix ctx h bs s r s'
  assume "bal_Next Random_methods ctx h bs s = (Some r, s')"
  then show "r \<in> set bs"
    using Int63_range smod_index [of _ bs]
    by (fastforce simp: Random_methods_def Random_Next_def split: if_splits prod.splits)
qed (auto simp: Random_methods_def Random_Next_def split: prod.splits)

section \<open>Power of two choices\<close>

record PowerOfTwo =
  p2_backends :: "bref list"
  p2_rnd :: FastRand

definition NewPowerOfTwo :: "64 word \<Rightarrow> PowerOfTwo" where
  "NewPowerOfTwo seed = \<lparr>p2_backends = [], p2_rnd = NewFastRandWithSeed seed\<rparr>"

definition PowerOfTwo_Next ::
  "RequestContext option \<Rightarrow> heap \<Rightarrow> bref list \<Rightarrow> PowerOfTwo \<Rightarrow> bref option \<times> PowerOfTwo" where
  "PowerOfTwo_Next ctx h backends p =
     (let n = length backends
      in if n = 0 then (None, p)
         else if n = 1 then (Some (backends ! 0), p)
         else let (random1, g1) = FastRand_Int63 (p2_rnd p);
                  idx1 = nat (random1 smod int n); b1 = backends ! idx1;
                  (random2, g2) = FastRand_Int63 g1;
                  idx2 = nat (random2 smod int n); b2 = backends ! idx2
              in if idx1 = idx2 then (Some b1, p\<lparr>p2_rnd := g2\<rparr>)
                 else let conns1 = b_activeConns (h b1); conns2 = b_activeConns (h b2)
                      in if conns1 < conns2 then (Some b1, p\<lparr>p2_rnd := g2\<rparr>)
                         else if conns2 < conns1 then (Some b2, p\<lparr>p2_rnd := g2\<rparr>)
                         else let (random3, g3) = FastRand_Int63 g2
                              in (Some (if random3 smod 2 = 0 then b1 else b2), p\<lparr>p2_rnd := g3\<rparr>))"

definition PowerOfTwo_Add :: "heap \<Rightarrow> bref \<Rightarrow> PowerOfTwo \<Rightarrow> PowerOfTwo" where
  "PowerOfTwo_Add h b p = p\<lparr>p2_backends := track_add h b (p2_backends p)\<rparr>"

definition PowerOfTwo_Remove :: "heap \<Rightarrow> string \<Rightarrow> PowerOfTwo \<Rightarrow> PowerOfTwo" where
  "PowerOfTwo_Remove h i p = p\<lparr>p2_backends := track_remove h i (p2_backends p)\<rparr>"

definition PowerOfTwo_methods :: "PowerOfTwo Balancer" where
  "PowerOfTwo_methods =
     \<lparr>bal_Next = PowerOfTwo_Next, bal_Add = PowerOfTwo_Add, bal_Remove = PowerOfTwo_Remove,
      bal_Update = (\<lambda>h b p. p)\<rparr>"

text \<open>
  With two or more backends the choice is the less loaded of two sampled positions of the
  slice.
\<close>

lemma PowerOfTwo_Next_samples:
  assumes "length backends \<ge> 2"
  shows "\<exists>i j p'. i < length backends \<and> j < length backends \<and>
    PowerOfTwo_Next ctx h backends p = (Some (backends ! i), p') \<and>
    b_activeConns (h (backends ! i)) \<le> b_activeConns (h (backends ! j)) \<and>
    {i, j} = {nat (fst (FastRand_Int63 (p2_rnd p)) smod int (length backends)),
              nat (fst (FastRand_Int63 (snd (FastRand_Int63 (p2_rnd p)))) smod int (length backends))}"
proof -
  obtain r1 g1 where r1: "FastRand_Int63 (p2_rnd p) = (r1, g1)" by (cases "FastRand_Int63 (p2_rnd p)")
  obtain r2 g2 where r2: "FastRand_Int63 g1 = (r2, g2)" by (cases "FastRand_Int63 g1")
  obtain r3 g3 where r3: "FastRand_Int63 g2 = (r3, g3)" by (cases "FastRand_Int63 g2")
  define i1 where "i1 = nat (r1 smod int (length backends))"
  define i2 where "i2 = nat (r2 smod int (length backends))"
  have ne: "backends \<noteq> []" "length backends \<noteq> 0" "length backends \<noteq> 1" using assms by auto
  have b: "i1 < length backends" "i2 < length backends"
    using Int63_range [OF r1] Int63_range [OF r2] smod_index [OF _ ne(1)] by (simp_all add: i1_def i2_def)
  define c where "c i = b_activeConns (h (backends ! i))" for i
  have nxt: "PowerOfTwo_Next ctx h backends p =
      (if i1 = i2 then (Some (backends ! i1), p\<lparr>p2_rnd := g2\<rparr>)
       else if c i1 < c i2 then (Some (backends ! i1), p\<lparr>p2_rnd := g2\<rparr>)
       else if c i2 < c i1 then (Some (backends ! i2), p\<lparr>p2_rnd := g2\<rparr>)
       else (Some (if r3 smod 2 = 0 then backends ! i1 else backends ! i2), p\<lparr>p2_rnd := g3\<rparr>))"
    using ne r1 r2 r3 by (simp add: PowerOfTwo_Next_def Let_def i1_def i2_def c_def)
  consider "c i1 < c i2" | "c i2 < c i1" | "c i1 = c i2" "i1 = i2 \<or> r3 smod 2 = 0"
    | "c i1 = c i2" "i1 \<noteq> i2" "r3 smod 2 \<noteq> 0" by linarith
  then have "\<exists>i j p'. {i, j} = {i1, i2} \<and> PowerOfTwo_Next ctx h backends p = (Some (backends ! i), p')
      \<and> c i \<le> c j"
  proof cases
    case 1
    then show ?thesis unfolding nxt by (intro exI [of _ i1] exI [of _ i2]) auto
  next
    case 2
    then show ?thesis unfolding nxt by (intro exI [of _ i2] exI [of _ i1]) auto
  next
    case 3
    then show ?thesis unfolding nxt by (intro exI [of _ i1] exI [of _ i2]) auto
  next
    case 4
    then show ?thesis unfolding nxt by (intro exI [of _ i2] exI [of _ i1]) auto
  qed
  then obtain i j p' where ij: "{i, j} = {i1, i2}"
    and N: "PowerOfTwo_Next ctx h backends p = (Some (backends ! i), p')" and le: "c i \<le> c j" by blast
  have "i < length backends" "j < length backends" using ij b by (auto simp: doubleton_eq_iff)
  with ij N le show ?thesis by (auto simp: r1 r2 i1_def i2_def c_def)
qed

lemma PowerOfTwo_Next_mem:
  assumes "backends \<noteq> []"
  obtains b p' where "PowerOfTwo_Next ctx h backends p = (Some b, p')" and "b \<in> set backends"
proof (cases "length backends = 1")
  case True
  then have "PowerOfTwo_Next ctx h backends p = (Some (backends ! 0), p)"
    by (simp add: PowerOfTwo_Next_def)
  with True that show thesis by (metis nth_mem zero_less_one)
next
  case False
  with assms have "length backends \<ge> 2"
    by (metis One_nat_def Suc_1 Suc_leI length_0_conv nat_less_le not_less_eq_eq le0)
  from PowerOfTwo_Next_samples [OF this, of ctx h p] that show thesis by (metis nth_mem)
qed

interpretation p2c: live_balancer PowerOfTwo_methods "\<lambda>ctx h bs s. True"
proof unfold_locales
  fix ctx h bs s r s'
  assume *: "bal_Next PowerOfTwo_methods ctx h bs s = (Some r, s')"
  then have "bs \<noteq> []" by (auto simp: PowerOfTwo_methods_def PowerOfTwo_Next_def)
  then obtain b p' where "PowerOfTwo_Next ctx h bs s = (Some b, p')" "b \<in> set bs"
    by (rule PowerOfTwo_Next_mem)
  with * show "r \<in> set bs" by (simp add: PowerOfTwo_methods_def)
next
  fix ctx h s and bs :: "bref list"
  assume "bs \<noteq> []"
  then obtain b p' where "PowerOfTwo_Next ctx h bs s = (Some b, p')"
    by (rule PowerOfTwo_Next_mem)
  then show "fst (bal_Next PowerOfTwo_methods ctx h bs s) \<noteq> None"
    by (simp add: PowerOfTwo_methods_def)
qed (simp add: PowerOfTwo_methods_def PowerOfTwo_Next_def)

section \<open>Weighted random\<close>

record WeightedRandom =
  wr_backends :: "(bref \<times> int) list"
  wr_total :: int
  wr_rnd :: FastRand

definition NewWeightedRandom :: "64 word \<Rightarrow> WeightedRandom" where
  "NewWeightedRandom seed =
     \<lparr>wr_backends = [], wr_total = 0, wr_rnd = NewFastRandWithSeed seed\<rparr>"

definition pos_weight :: "heap \<Rightarrow> bref \<Rightarrow> int" where
  "pos_weight h b = (let w = b_weight (h b) in if w \<le> 0 then 1 else w)"

definition wr_sum :: "heap \<Rightarrow> bref list \<Rightarrow> int" where
  "wr_sum h bs = foldl (\<lambda>total b. wrap_i64 (total + pos_weight h b)) 0 bs"

fun wr_walk :: "heap \<Rightarrow> int \<Rightarrow> bref list \<Rightarrow> bref option" where
  "wr_walk h random [] = None"
| "wr_walk h random (b # bs) =
     (let random = wrap_i64 (random - pos_weight h b)
      in if random < 0 then Some b else wr_walk h random bs)"

definition WeightedRandom_Next ::
  "RequestContext option \<Rightarrow> heap \<Rightarrow> bref list \<Rightarrow> WeightedRandom \<Rightarrow> bref option \<times> WeightedRandom" where
  "WeightedRandom_Next ctx h backends wr =
     (if backends = [] then (None, wr)
      else let total = wr_sum h backends
           in if total = 0 then (None, wr)
              else let (random, g) = FastRand_Int63n (wr_rnd wr) total
                   in (case wr_walk h random backends of
                         Some b \<Rightarrow> (Some b, wr\<lparr>wr_rnd := g\<rparr>)
                       | None \<Rightarrow> (Some (last backends), wr\<lparr>wr_rnd := g\<rparr>)))"

definition WeightedRandom_Add :: "heap \<Rightarrow> bref \<Rightarrow> WeightedRandom \<Rightarrow> WeightedRandom" where
  "WeightedRandom_Add h b wr =
     (if \<exists>e \<in> set (wr_backends wr). ref_ID h (fst e) = ref_ID h b then wr
      else let weight = pos_weight h b
           in wr\<lparr>wr_backends := wr_backends wr @ [(b, weight)],
                 wr_total := wrap_i64 (wr_total wr + weight)\<rparr>)"

definition WeightedRandom_Remove :: "heap \<Rightarrow> string \<Rightarrow> WeightedRandom \<Rightarrow> WeightedRandom" where
  "WeightedRandom_Remove h i wr =
     (case first_index (\<lambda>e. ref_ID h (fst e) = i) (wr_backends wr) of
        None \<Rightarrow> wr
      | Some k \<Rightarrow>
          wr\<lparr>wr_total := wrap_i64 (wr_total wr - snd (wr_backends wr ! k)),
             wr_backends := butlast ((wr_backends wr)[k := last (wr_backends wr)])\<rparr>)"

definition WeightedRandom_Update :: "heap \<Rightarrow> bref \<Rightarrow> WeightedRandom \<Rightarrow> WeightedRandom" where
  "WeightedRandom_Update h b wr =
     (case first_index (\<lambda>e. ref_ID h (fst e) = ref_ID h b) (wr_backends wr) of
        None \<Rightarrow> wr
      | Some k \<Rightarrow>
          let (ref, w) = wr_backends wr ! k;
              total = wrap_i64 (wr_total wr - w);
              newWeight = pos_weight h b
          in wr\<lparr>wr_backends := (wr_backends wr)[k := (ref, newWeight)],
                wr_total := wrap_i64 (total + newWeight)\<rparr>)"

definition WeightedRandom_methods :: "WeightedRandom Balancer" where
  "WeightedRandom_methods =
     \<lparr>bal_Next = WeightedRandom_Next, bal_Add = WeightedRandom_Add,
      bal_Remove = WeightedRandom_Remove, bal_Update = WeightedRandom_Update\<rparr>"

declare wr_walk.simps(2) [simp del]

lemma wr_walk_mem: "wr_walk h r bs = Some b \<Longrightarrow> b \<in> set bs"
  by (induction bs arbitrary: r) (auto simp: Let_def wr_walk.simps split: if_splits)

lemma pos_weight_pos: "0 < pos_weight h b"
  by (simp add: pos_weight_def Let_def)

text \<open>Without overflow the 64-bit sum is the sum of the weights.\<close>

lemma sum_pos_weight_nonneg: "0 \<le> (\<Sum>b\<leftarrow>bs. pos_weight h b)"
  by (induction bs) (use pos_weight_pos [of h] in \<open>auto simp: add_nonneg_nonneg less_imp_le\<close>)

lemma wr_sum_aux:
  "0 \<le> t \<Longrightarrow> t + (\<Sum>b\<leftarrow>bs. pos_weight h b) < 2 ^ 63 \<Longrightarrow>
   foldl (\<lambda>total b. wrap_i64 (total + pos_weight h b)) t bs = t + (\<Sum>b\<leftarrow>bs. pos_weight h b)"
proof (induction bs arbitrary: t)
  case (Cons b bs)
  have "wrap_i64 (t + pos_weight h b) = t + pos_weight h b"
    using Cons.prems pos_weight_pos [of h b] sum_pos_weight_nonneg [of h bs]
    by (intro wrap_i64_id) auto
  then show ?case
    using Cons.IH [of "t + pos_weight h b"] Cons.prems pos_weight_pos [of h b] by (simp add: add.assoc)
qed simp

lemma wr_sum_eq:
  "(\<Sum>b\<leftarrow>bs. pos_weight h b) < 2 ^ 63 \<Longrightarrow> wr_sum h bs = (\<Sum>b\<leftarrow>bs. pos_weight h b)"
  using wr_sum_aux [of 0 h bs] by (simp add: wr_sum_def)

text \<open>
  The walk splits the range of the draw into one interval per backend, as long as its weight.
\<close>

lemma wr_walk_Cons:
  assumes "0 \<le> r" and "r < 2 ^ 63" and "pos_weight h b < 2 ^ 63"
  shows "wr_walk h r (b # bs) = (if r < pos_weight h b then Some b else wr_walk h (r - pos_weight h b) bs)"
proof -
  have "wrap_i64 (r - pos_weight h b) = r - pos_weight h b"
    using assms pos_weight_pos [of h b] by (intro wrap_i64_id) auto
  then show ?thesis by (simp add: wr_walk.simps)
qed

lemma wr_walk_total:
  "0 \<le> r \<Longrightarrow> r < (\<Sum>x\<leftarrow>bs. pos_weight h x) \<Longrightarrow> (\<Sum>x\<leftarrow>bs. pos_weight h x) < 2 ^ 63 \<Longrightarrow> wr_walk h r bs \<noteq> None"
proof (induction bs arbitrary: r)
  case (Cons b bs)
  have pos: "0 < pos_weight h b" "0 \<le> (\<Sum>x\<leftarrow>bs. pos_weight h x)"
    using pos_weight_pos sum_pos_weight_nonneg by auto
  with Cons.prems have "wr_walk h r (b # bs) = (if r < pos_weight h b then Some b else wr_walk h (r - pos_weight h b) bs)"
    by (intro wr_walk_Cons) auto
  moreover have "wr_walk h (r - pos_weight h b) bs \<noteq> None" if "\<not> r < pos_weight h b"
    using that Cons.prems pos by (intro Cons.IH) auto
  ultimately show ?case by simp
qed simp

lemma card_wr_walk:
  assumes "distinct bs" and "b \<in> set bs" and "(\<Sum>x\<leftarrow>bs. pos_weight h x) < 2 ^ 63"
  shows "int (card {r. 0 \<le> r \<and> r < (\<Sum>x\<leftarrow>bs. pos_weight h x) \<and> wr_walk h r bs = Some b}) = pos_weight h b"
  using assms
proof (induction bs)
  case (Cons a bs)
  let ?W = "\<Sum>x\<leftarrow>bs. pos_weight h x" and ?w = "pos_weight h a"
  have pos: "0 < ?w" "0 \<le> ?W" using pos_weight_pos sum_pos_weight_nonneg by auto
  have step: "wr_walk h r (a # bs) = (if r < ?w then Some a else wr_walk h (r - ?w) bs)"
    if "0 \<le> r" "r < ?w + ?W" for r
    using that Cons.prems pos by (intro wr_walk_Cons) auto
  show ?case
  proof (cases "b = a")
    case True
    have "a \<notin> set bs" using Cons.prems by simp
    then have no: "wr_walk h r bs \<noteq> Some a" for r using wr_walk_mem by metis
    have "{r. 0 \<le> r \<and> r < (\<Sum>x\<leftarrow>a # bs. pos_weight h x) \<and> wr_walk h r (a # bs) = Some a} = {0..<?w}"
      using step no pos by (auto split: if_splits)
    with True pos show ?thesis by simp
  next
    case False
    with Cons.prems have b: "b \<in> set bs" "distinct bs" "?W < 2 ^ 63" using pos by auto
    let ?R = "{r. 0 \<le> r \<and> r < ?W \<and> wr_walk h r bs = Some b}"
    have "{r. 0 \<le> r \<and> r < (\<Sum>x\<leftarrow>a # bs. pos_weight h x) \<and> wr_walk h r (a # bs) = Some b} =
        (\<lambda>r. r + ?w) ` ?R" (is "?L = _")
    proof (intro set_eqI iffI)
      fix r
      assume "r \<in> ?L"
      then have "0 \<le> r - ?w" "r - ?w < ?W" "wr_walk h (r - ?w) bs = Some b"
        using step False by (auto split: if_splits)
      then show "r \<in> (\<lambda>r. r + ?w) ` ?R" by (intro image_eqI [of _ _ "r - ?w"]) auto
    next
      fix r
      assume "r \<in> (\<lambda>r. r + ?w) ` ?R"
      then show "r \<in> ?L" using step pos by (auto simp del: wr_walk.simps)
    qed
    then have "card ?L = card ?R" by (simp add: card_image inj_on_def)
    with Cons.IH [OF b(2,1,3)] show ?thesis by simp
  qed
qed simp

interpretation wr: balancer WeightedRandom_methods
proof unfold_locales
  fix ctx h bs s r s'
  assume "bal_Next WeightedRandom_methods ctx h bs s = (Some r, s')"
  then show "r \<in> set bs"
    by (auto simp: WeightedRandom_methods_def WeightedRandom_Next_def Let_def
        split: if_splits prod.splits option.splits dest: wr_walk_mem)
qed (simp add: WeightedRandom_methods_def WeightedRandom_Next_def)

text \<open>The cached total is the sum of the cached weights, as long as nothing overflows.\<close>

definition wr_inv :: "heap \<Rightarrow> WeightedRandom \<Rightarrow> bool" where
  "wr_inv h wr \<longleftrightarrow>
     distinct (map (\<lambda>e. ref_ID h (fst e)) (wr_backends wr)) \<and>
     (\<forall>e \<in> set (wr_backends wr). 0 < snd e) \<and>
     wr_total wr = (\<Sum>e\<leftarrow>wr_backends wr. snd e)"

lemma sum_snd_nonneg: "\<forall>e \<in> set xs. 0 < snd e \<Longrightarrow> 0 \<le> (\<Sum>e\<leftarrow>xs. snd e :: int)"
  by (induction xs) auto

lemma wr_inv_total_nonneg: "wr_inv h wr \<Longrightarrow> 0 \<le> wr_total wr"
  by (simp add: wr_inv_def sum_snd_nonneg)

lemma WeightedRandom_Add_inv:
  assumes "wr_inv h wr" and "wr_total wr + pos_weight h b < 2 ^ 63"
  shows "wr_inv h (WeightedRandom_Add h b wr)"
proof -
  have "wrap_i64 (wr_total wr + pos_weight h b) = wr_total wr + pos_weight h b"
    using assms pos_weight_pos [of h b] wr_inv_total_nonneg [OF assms(1)] by (intro wrap_i64_id) auto
  with assms(1) pos_weight_pos [of h b] show ?thesis
    by (auto simp: WeightedRandom_Add_def wr_inv_def Let_def)
qed

lemma sum_list_swap_remove_at:
  fixes f :: "'a \<Rightarrow> int"
  assumes "k < length xs"
  shows "(\<Sum>e\<leftarrow>butlast (xs[k := last xs]). f e) = (\<Sum>e\<leftarrow>xs. f e) - f (xs ! k)"
proof -
  have "sum_mset (image_mset f (mset (butlast (xs[k := last xs])))) =
      sum_mset (image_mset f (mset xs)) - f (xs ! k)"
    using assms by (simp add: mset_swap_remove_at image_mset_Diff sum_mset_diff)
  then show ?thesis by (metis mset_map sum_mset_sum_list)
qed

lemma WeightedRandom_Remove_inv:
  assumes inv: "wr_inv h wr" and "wr_total wr < 2 ^ 63"
  shows "wr_inv h (WeightedRandom_Remove h i wr)"
proof (cases "first_index (\<lambda>e. ref_ID h (fst e) = i) (wr_backends wr)")
  case None
  with inv show ?thesis by (simp add: WeightedRandom_Remove_def)
next
  case (Some k)
  let ?xs = "wr_backends wr" and ?f = "\<lambda>e. ref_ID h (fst e)"
  let ?ys = "butlast (?xs[k := last ?xs])"
  have k: "k < length ?xs" using Some by (auto dest: first_index_SomeD)
  have ys: "swap_remove (\<lambda>e. ?f e = i) ?xs = ?ys" using Some by (simp add: swap_remove_def)
  have sum: "(\<Sum>e\<leftarrow>?ys. snd e) = wr_total wr - snd (?xs ! k)"
    using sum_list_swap_remove_at [OF k, of snd] inv by (simp add: wr_inv_def)
  have pos: "\<forall>e \<in> set ?ys. 0 < snd e"
    using inv set_swap_remove_subset [of "\<lambda>e. ?f e = i" ?xs] ys by (auto simp: wr_inv_def)
  then have "0 \<le> (\<Sum>e\<leftarrow>?ys. snd e)" by (rule sum_snd_nonneg)
  moreover have "0 < snd (?xs ! k)" using inv k by (auto simp: wr_inv_def)
  ultimately have "wrap_i64 (wr_total wr - snd (?xs ! k)) = wr_total wr - snd (?xs ! k)"
    using assms(2) sum by (intro wrap_i64_id) auto
  moreover have "distinct (map ?f ?ys)"
    using distinct_swap_remove [of ?f ?xs i] inv ys by (simp add: wr_inv_def)
  ultimately show ?thesis using Some pos sum by (simp add: WeightedRandom_Remove_def wr_inv_def)
qed

section \<open>Properties\<close>

text \<open>
  Power of two choices: with at least two backends, \<^verbatim>\<open>Next\<close> draws two indices from the
  generator and returns, of the two backends there, one with no more active connections than the
  other.
\<close>

theorem PowerOfTwo_less_loaded_of_two:
  assumes "length backends \<ge> 2"
  shows "\<exists>i j p'. i < length backends \<and> j < length backends \<and>
    PowerOfTwo_Next ctx h backends p = (Some (backends ! i), p') \<and>
    b_activeConns (h (backends ! i)) \<le> b_activeConns (h (backends ! j)) \<and>
    {i, j} = {nat (fst (FastRand_Int63 (p2_rnd p)) smod int (length backends)),
              nat (fst (FastRand_Int63 (snd (FastRand_Int63 (p2_rnd p)))) smod int (length backends))}"
  using PowerOfTwo_Next_samples [OF assms] .

theorem PowerOfTwo_less_loaded_of_two_witness:
  "\<exists>i p'. i < length [0, 1::bref] \<and> PowerOfTwo_Next None example_heap [0, 1] (NewPowerOfTwo 7) = (Some ([0, 1] ! i), p')"
proof -
  have "2 \<le> length [0, 1::bref]" by simp
  from PowerOfTwo_less_loaded_of_two [OF this, of None example_heap "NewPowerOfTwo 7"] show ?thesis by blast
qed

text \<open>
  Weighted random is proportional to the weights: \<^verbatim>\<open>Next\<close> draws a number below the sum of the
  weights, and of the possible draws exactly as many select a backend as its weight says (a weight
  that is not positive counts as one).
\<close>

theorem WeightedRandom_proportional:
  assumes "distinct bs" and "b \<in> set bs" and "(\<Sum>x\<leftarrow>bs. pos_weight h x) < 2 ^ 63"
  shows "fst (WeightedRandom_Next ctx h bs wr) =
      wr_walk h (fst (FastRand_Int63n (wr_rnd wr) (\<Sum>x\<leftarrow>bs. pos_weight h x))) bs \<and>
    0 \<le> fst (FastRand_Int63n (wr_rnd wr) (\<Sum>x\<leftarrow>bs. pos_weight h x)) \<and>
    fst (FastRand_Int63n (wr_rnd wr) (\<Sum>x\<leftarrow>bs. pos_weight h x)) < (\<Sum>x\<leftarrow>bs. pos_weight h x) \<and>
    int (card {r. 0 \<le> r \<and> r < (\<Sum>x\<leftarrow>bs. pos_weight h x) \<and> wr_walk h r bs = Some b}) = pos_weight h b"
proof -
  let ?W = "\<Sum>x\<leftarrow>bs. pos_weight h x"
  have W: "0 < ?W"
    using assms(2) pos_weight_pos [of h b] sum_pos_weight_nonneg [of h "remove1 b bs"]
    by (simp add: sum_list_map_remove1)
  obtain r g where r: "FastRand_Int63n (wr_rnd wr) ?W = (r, g)" by fastforce
  have rng: "0 \<le> r" "r < ?W" using Int63n_range [OF W r] by auto
  have "wr_walk h r bs \<noteq> None" using rng assms(3) by (rule wr_walk_total)
  then have "fst (WeightedRandom_Next ctx h bs wr) = wr_walk h r bs"
    using assms(2) W r wr_sum_eq [OF assms(3)] by (auto simp: WeightedRandom_Next_def)
  with r rng card_wr_walk [OF assms] show ?thesis by simp
qed

theorem WeightedRandom_proportional_witness:
  "int (card {r. 0 \<le> r \<and> r < 2 \<and> wr_walk example_heap r [0, 1] = Some 0}) = 1"
  using WeightedRandom_proportional [of "[0, 1]" 0 example_heap None "NewWeightedRandom 7"]
  by (simp add: pos_weight_def example_heap_def)

end
