(* ===== verification/Bal_Least.thy ===== *)
theory Bal_Least
  imports Balancer
begin

text \<open>
  \<^verbatim>\<open>internal/balancer/least_connections.go\<close>: \<^verbatim>\<open>LeastConnections\<close> and
  \<^verbatim>\<open>WeightedLeastConnections\<close>. Both scan the offered backends for the smallest load and break
  ties round robin, so the scan and the tie break are shared.
\<close>

section \<open>Scanning for a minimum\<close>

definition scan_step :: "('b \<Rightarrow> 'k::linorder) \<Rightarrow> 'b option \<times> 'k \<times> nat \<Rightarrow> 'b \<Rightarrow> 'b option \<times> 'k \<times> nat" where
  "scan_step f acc b =
     (case acc of (best, mn, tieCount) \<Rightarrow>
        if f b < mn then (Some b, f b, 1)
        else if f b = mn then (best, mn, tieCount + 1)
        else (best, mn, tieCount))"

definition min_scan :: "('b \<Rightarrow> 'k::linorder) \<Rightarrow> 'k \<Rightarrow> 'b list \<Rightarrow> 'b option \<times> 'k \<times> nat" where
  "min_scan f bnd bs = foldl (scan_step f) (None, bnd, 0) bs"

definition tie_break ::
  "('b \<Rightarrow> 'k::linorder) \<Rightarrow> 'b option \<times> 'k \<times> nat \<Rightarrow> 'b list \<Rightarrow> 64 word \<Rightarrow> 'b option \<times> 64 word" where
  "tie_break f scan bs counter =
     (case scan of (best, mn, tieCount) \<Rightarrow>
        if tieCount > 1 \<and> best \<noteq> None
        then let tied = filter (\<lambda>b. f b = mn) bs;
                 count = counter + 1;
                 index = unat ((count - 1) mod of_nat (length tied))
             in (Some (tied ! index), count)
        else (best, counter))"

lemma min_scan_spec:
  assumes "min_scan f bnd bs = (best, mn, t)"
  shows "(\<forall>b\<in>set bs. mn \<le> f b) \<and> mn \<le> bnd \<and>
    (case best of None \<Rightarrow> mn = bnd | Some r \<Rightarrow> r \<in> set bs \<and> f r = mn \<and> mn < bnd)"
  using assms
proof (induction bs arbitrary: best mn t rule: rev_induct)
  case Nil
  then show ?case by (simp add: min_scan_def)
next
  case (snoc x xs)
  obtain best' mn' t' where IH: "min_scan f bnd xs = (best', mn', t')"
    by (metis prod_cases3)
  then have "scan_step f (best', mn', t') x = (best, mn, t)"
    using snoc.prems by (simp add: min_scan_def)
  with snoc.IH [OF IH] show ?case
    by (auto simp: scan_step_def split: if_splits option.splits)
qed

lemma tie_break_min:
  assumes scan: "min_scan f bnd bs = (best, mn, t)" and best: "best = Some b0"
  obtains r c where "tie_break f (best, mn, t) bs counter = (Some r, c)"
    and "r \<in> set bs" and "\<forall>b\<in>set bs. f r \<le> f b"
proof (cases "t > 1")
  case True
  let ?tied = "filter (\<lambda>b. f b = mn) bs"
  let ?i = "unat ((counter + 1 - 1) mod of_nat (length ?tied))"
  have "b0 \<in> set ?tied" using min_scan_spec [OF scan] best by simp
  then have "0 < length ?tied" by (metis length_pos_if_in_set)
  then have "?i < length ?tied" by (rule unat_mod_length)
  then have "?tied ! ?i \<in> set ?tied" by (rule nth_mem)
  moreover have "tie_break f (best, mn, t) bs counter = (Some (?tied ! ?i), counter + 1)"
    using True best by (simp add: tie_break_def Let_def)
  ultimately show thesis using that min_scan_spec [OF scan] by auto
next
  case False
  then have "tie_break f (best, mn, t) bs counter = (Some b0, counter)"
    using best by (simp add: tie_break_def)
  with that min_scan_spec [OF scan] best show thesis by auto
qed

lemma scan_select:
  assumes "bs \<noteq> []" and "\<forall>b\<in>set bs. f b < bnd"
  obtains r c where "tie_break f (min_scan f bnd bs) bs counter = (Some r, c)"
    and "r \<in> set bs" and "\<forall>b\<in>set bs. f r \<le> f b"
proof -
  obtain best mn t where scan: "min_scan f bnd bs = (best, mn, t)" by (metis prod_cases3)
  have "best \<noteq> None"
    using min_scan_spec [OF scan] assms by (cases bs) (auto split: option.splits)
  then obtain b0 where "best = Some b0" by auto
  from tie_break_min [OF scan this, of counter] that show thesis unfolding scan by metis
qed

lemma scan_select_mem:
  assumes "tie_break f (min_scan f bnd bs) bs counter = (Some r, c)"
  shows "r \<in> set bs"
proof -
  obtain best mn t where scan: "min_scan f bnd bs = (best, mn, t)" by (metis prod_cases3)
  with assms have "best \<noteq> None" by (auto simp: tie_break_def split: if_splits)
  then obtain b0 where "best = Some b0" by auto
  from tie_break_min [OF scan this, of counter] assms show ?thesis unfolding scan by (metis prod.inject option.inject)
qed

section \<open>Least connections\<close>

record LeastConnections =
  lc_backends :: "bref list"
  lc_counter :: "64 word"

definition NewLeastConnections :: LeastConnections where
  "NewLeastConnections = \<lparr>lc_backends = [], lc_counter = 0\<rparr>"

definition LeastConnections_Next ::
  "RequestContext option \<Rightarrow> heap \<Rightarrow> bref list \<Rightarrow> LeastConnections \<Rightarrow> bref option \<times> LeastConnections" where
  "LeastConnections_Next ctx h backends lc =
     (if backends = [] then (None, lc)
      else let conns = (\<lambda>b. b_activeConns (h b));
               (best, c) = tie_break conns (min_scan conns max_i64 backends) backends (lc_counter lc)
           in (best, lc\<lparr>lc_counter := c\<rparr>))"

definition LeastConnections_Add :: "heap \<Rightarrow> bref \<Rightarrow> LeastConnections \<Rightarrow> LeastConnections" where
  "LeastConnections_Add h b lc = lc\<lparr>lc_backends := track_add h b (lc_backends lc)\<rparr>"

definition LeastConnections_Remove :: "heap \<Rightarrow> string \<Rightarrow> LeastConnections \<Rightarrow> LeastConnections" where
  "LeastConnections_Remove h i lc = lc\<lparr>lc_backends := track_remove h i (lc_backends lc)\<rparr>"

definition LeastConnections_Update :: "heap \<Rightarrow> bref \<Rightarrow> LeastConnections \<Rightarrow> LeastConnections" where
  "LeastConnections_Update h b lc = lc\<lparr>lc_backends := track_update h b (lc_backends lc)\<rparr>"

definition LeastConnections_methods :: "LeastConnections Balancer" where
  "LeastConnections_methods =
     \<lparr>bal_Next = LeastConnections_Next, bal_Add = LeastConnections_Add,
      bal_Remove = LeastConnections_Remove, bal_Update = LeastConnections_Update\<rparr>"

definition conns_bounded :: "RequestContext option \<Rightarrow> heap \<Rightarrow> bref list \<Rightarrow> 's \<Rightarrow> bool" where
  "conns_bounded ctx h bs s = (\<forall>b\<in>set bs. b_activeConns (h b) < max_i64)"

lemma LeastConnections_Next_min:
  assumes "backends \<noteq> []" and "\<forall>b\<in>set backends. b_activeConns (h b) < max_i64"
  obtains r lc' where "LeastConnections_Next ctx h backends lc = (Some r, lc')"
    and "r \<in> set backends" and "\<forall>b\<in>set backends. b_activeConns (h r) \<le> b_activeConns (h b)"
proof (rule scan_select [of backends "\<lambda>b. b_activeConns (h b)" max_i64 "lc_counter lc"])
  fix r c
  assume "tie_break (\<lambda>b. b_activeConns (h b)) (min_scan (\<lambda>b. b_activeConns (h b)) max_i64 backends)
      backends (lc_counter lc) = (Some r, c)"
    and r: "r \<in> set backends" "\<forall>b\<in>set backends. b_activeConns (h r) \<le> b_activeConns (h b)"
  then have "LeastConnections_Next ctx h backends lc = (Some r, lc\<lparr>lc_counter := c\<rparr>)"
    using assms by (simp add: LeastConnections_Next_def Let_def)
  then show thesis using r by (rule that)
qed (use assms in auto)

interpretation lc: live_balancer LeastConnections_methods conns_bounded
proof unfold_locales
  fix ctx h bs s r s'
  assume "bal_Next LeastConnections_methods ctx h bs s = (Some r, s')"
  then show "r \<in> set bs"
    by (auto simp: LeastConnections_methods_def LeastConnections_Next_def Let_def
        split: if_splits prod.splits dest: scan_select_mem)
next
  fix ctx h and s :: LeastConnections and bs :: "bref list"
  assume "conns_bounded ctx h bs s" and "bs \<noteq> []"
  then obtain r lc' where "LeastConnections_Next ctx h bs s = (Some r, lc')"
    using LeastConnections_Next_min [of bs h] unfolding conns_bounded_def by metis
  then show "fst (bal_Next LeastConnections_methods ctx h bs s) \<noteq> None"
    by (simp add: LeastConnections_methods_def)
qed (simp add: LeastConnections_methods_def LeastConnections_Next_def)

section \<open>Weighted least connections\<close>

text \<open>The state maps a backend ID to the backend and its weight at registration.\<close>

record WeightedLeastConnections =
  wlc_backends :: "(string, bref \<times> int) gomap"
  wlc_counter :: "64 word"

definition NewWeightedLeastConnections :: WeightedLeastConnections where
  "NewWeightedLeastConnections = \<lparr>wlc_backends = [], wlc_counter = 0\<rparr>"

definition MaxFloat64 :: rat where
  "MaxFloat64 = (2 - 1 / 2 ^ 52) * 2 ^ 1023"

definition wlc_ensure :: "heap \<Rightarrow> (string, bref \<times> int) gomap \<Rightarrow> bref \<Rightarrow> (string, bref \<times> int) gomap" where
  "wlc_ensure h m b =
     (case map_of m (ref_ID h b) of
        None \<Rightarrow> AList.update (ref_ID h b) (b, b_weight (h b)) m
      | Some _ \<Rightarrow> m)"

definition wlc_ratio :: "heap \<Rightarrow> (string, bref \<times> int) gomap \<Rightarrow> bref \<Rightarrow> rat" where
  "wlc_ratio h m b =
     (let weight = (case map_of m (ref_ID h b) of None \<Rightarrow> 1 | Some (_, w) \<Rightarrow> if w \<le> 0 then 1 else w)
      in fl64 (fl64 (of_int (b_activeConns (h b))) / fl64 (of_int weight)))"

definition WeightedLeastConnections_Next ::
  "RequestContext option \<Rightarrow> heap \<Rightarrow> bref list \<Rightarrow> WeightedLeastConnections
   \<Rightarrow> bref option \<times> WeightedLeastConnections" where
  "WeightedLeastConnections_Next ctx h backends wlc =
     (if backends = [] then (None, wlc)
      else let m = foldl (wlc_ensure h) (wlc_backends wlc) backends;
               known = filter (\<lambda>b. map_of m (ref_ID h b) \<noteq> None) backends;
               ratio = wlc_ratio h m;
               (best, c) = tie_break ratio (min_scan ratio MaxFloat64 known) known (wlc_counter wlc)
           in (best, wlc\<lparr>wlc_backends := m, wlc_counter := c\<rparr>))"

definition WeightedLeastConnections_Add ::
  "heap \<Rightarrow> bref \<Rightarrow> WeightedLeastConnections \<Rightarrow> WeightedLeastConnections" where
  "WeightedLeastConnections_Add h b wlc = wlc\<lparr>wlc_backends := wlc_ensure h (wlc_backends wlc) b\<rparr>"

definition WeightedLeastConnections_Remove ::
  "heap \<Rightarrow> string \<Rightarrow> WeightedLeastConnections \<Rightarrow> WeightedLeastConnections" where
  "WeightedLeastConnections_Remove h i wlc = wlc\<lparr>wlc_backends := AList.delete i (wlc_backends wlc)\<rparr>"

definition WeightedLeastConnections_Update ::
  "heap \<Rightarrow> bref \<Rightarrow> WeightedLeastConnections \<Rightarrow> WeightedLeastConnections" where
  "WeightedLeastConnections_Update h b wlc =
     (case map_of (wlc_backends wlc) (ref_ID h b) of
        None \<Rightarrow> wlc
      | Some _ \<Rightarrow> wlc\<lparr>wlc_backends := AList.update (ref_ID h b) (b, b_weight (h b)) (wlc_backends wlc)\<rparr>)"

definition WeightedLeastConnections_methods :: "WeightedLeastConnections Balancer" where
  "WeightedLeastConnections_methods =
     \<lparr>bal_Next = WeightedLeastConnections_Next, bal_Add = WeightedLeastConnections_Add,
      bal_Remove = WeightedLeastConnections_Remove, bal_Update = WeightedLeastConnections_Update\<rparr>"

lemma wlc_ensure_keys: "fst ` set (wlc_ensure h m b) = insert (ref_ID h b) (fst ` set m)"
proof (cases "map_of m (ref_ID h b)")
  case None
  then show ?thesis by (simp add: wlc_ensure_def keys_update)
next
  case (Some e)
  then have "ref_ID h b \<in> fst ` set m" by (metis map_of_None_iff_key option.distinct(1))
  with Some show ?thesis by (simp add: wlc_ensure_def insert_absorb)
qed

lemma wlc_ensure_all_keys:
  "fst ` set (foldl (wlc_ensure h) m bs) = fst ` set m \<union> ref_ID h ` set bs"
  by (induction bs arbitrary: m) (auto simp: wlc_ensure_keys)

text \<open>A load of at most \<open>2^63\<close> connections has a ratio below the initial bound.\<close>

lemma fl64_two63: "fl64 (2 ^ 63) = 2 ^ 63"
  by code_simp

lemma wlc_ratio_bound:
  assumes "b_activeConns (h b) < 2 ^ 63"
    and "\<forall>e\<in>set m. snd (snd e) < 2 ^ 31"
  shows "wlc_ratio h m b < MaxFloat64"
proof -
  define w where "w = (case map_of m (ref_ID h b) of None \<Rightarrow> 1 | Some (_, w) \<Rightarrow> if w \<le> 0 then 1 else w)"
  have w: "1 \<le> w" "w < 2 ^ 31"
    using assms(2) by (auto simp: w_def dest!: map_of_SomeD split: option.splits)
  then have fw: "fl64 (of_int w) = of_int w" by (intro fl64_of_int) auto
  have "(of_int (b_activeConns (h b)) :: rat) \<le> of_int (2 ^ 63)"
    using assms(1) by (intro of_int_le_iff [THEN iffD2]) simp
  then have c: "fl64 (of_int (b_activeConns (h b))) \<le> 2 ^ 63"
    using fl64_mono [of "of_int (b_activeConns (h b))" "2 ^ 63"] fl64_two63 by simp
  have "fl64 (of_int (b_activeConns (h b))) / of_int w \<le> 2 ^ 63"
  proof (cases "0 \<le> fl64 (of_int (b_activeConns (h b)))")
    case True
    with w have "fl64 (of_int (b_activeConns (h b))) / of_int w \<le> fl64 (of_int (b_activeConns (h b))) / 1"
      by (intro divide_left_mono) auto
    with c show ?thesis by simp
  next
    case False
    with w have "fl64 (of_int (b_activeConns (h b))) / of_int w \<le> 0"
      by (simp add: divide_nonpos_pos)
    then show ?thesis by (rule order_trans) simp
  qed
  then have "wlc_ratio h m b \<le> fl64 (2 ^ 63)"
    unfolding wlc_ratio_def w_def [symmetric] Let_def fw by (rule fl64_mono)
  also have "\<dots> < MaxFloat64" unfolding fl64_two63 MaxFloat64_def by simp
  finally show ?thesis .
qed

definition wlc_ready ::
  "RequestContext option \<Rightarrow> heap \<Rightarrow> bref list \<Rightarrow> WeightedLeastConnections \<Rightarrow> bool" where
  "wlc_ready ctx h bs wlc =
     ((\<forall>b\<in>set bs. b_activeConns (h b) < 2 ^ 63 \<and> b_weight (h b) < 2 ^ 31) \<and>
      (\<forall>e\<in>set (wlc_backends wlc). snd (snd e) < 2 ^ 31))"

lemma set_update_subset: "set (AList.update k v m) \<subseteq> insert (k, v) (set m)"
  by (induction m) auto

lemma wlc_ensure_weights:
  "\<forall>e\<in>set m. snd (snd e) < (W::int) \<Longrightarrow> \<forall>b\<in>set bs. b_weight (h b) < W \<Longrightarrow>
   \<forall>e\<in>set (foldl (wlc_ensure h) m bs). snd (snd e) < W"
proof (induction bs arbitrary: m)
  case (Cons b bs)
  have "\<forall>e\<in>set (wlc_ensure h m b). snd (snd e) < W"
    using Cons.prems set_update_subset [of "ref_ID h b" "(b, b_weight (h b))" m]
    by (fastforce simp: wlc_ensure_def split: option.splits)
  with Cons show ?case by simp
qed simp

lemma WeightedLeastConnections_Next_min:
  assumes "backends \<noteq> []" and ready: "wlc_ready ctx h backends wlc"
  obtains r wlc' where "WeightedLeastConnections_Next ctx h backends wlc = (Some r, wlc')"
    and "r \<in> set backends"
    and "\<forall>b\<in>set backends. wlc_ratio h (wlc_backends wlc') r \<le> wlc_ratio h (wlc_backends wlc') b"
proof -
  let ?m = "foldl (wlc_ensure h) (wlc_backends wlc) backends"
  have "map_of ?m (ref_ID h b) \<noteq> None" if "b \<in> set backends" for b
    using that wlc_ensure_all_keys [of h "wlc_backends wlc" backends]
    by (auto simp: map_of_eq_None_iff)
  then have known: "filter (\<lambda>b. map_of ?m (ref_ID h b) \<noteq> None) backends = backends"
    by (simp add: filter_id_conv)
  have w: "\<forall>e\<in>set ?m. snd (snd e) < 2 ^ 31"
    using ready by (intro wlc_ensure_weights) (auto simp: wlc_ready_def)
  have bnd: "\<forall>b\<in>set backends. wlc_ratio h ?m b < MaxFloat64"
    using ready by (intro ballI wlc_ratio_bound w) (auto simp: wlc_ready_def)
  obtain r c where r: "tie_break (wlc_ratio h ?m) (min_scan (wlc_ratio h ?m) MaxFloat64 backends)
      backends (wlc_counter wlc) = (Some r, c)"
    "r \<in> set backends" "\<forall>b\<in>set backends. wlc_ratio h ?m r \<le> wlc_ratio h ?m b"
    by (rule scan_select [OF assms(1) bnd])
  have "WeightedLeastConnections_Next ctx h backends wlc =
      (Some r, wlc\<lparr>wlc_backends := ?m, wlc_counter := c\<rparr>)"
    using assms(1) known r(1) by (simp add: WeightedLeastConnections_Next_def Let_def)
  then show thesis using r(2,3) by (intro that) auto
qed

interpretation wlc: live_balancer WeightedLeastConnections_methods wlc_ready
proof unfold_locales
  fix ctx h bs s r s'
  assume "bal_Next WeightedLeastConnections_methods ctx h bs s = (Some r, s')"
  then show "r \<in> set bs"
    by (auto simp: WeightedLeastConnections_methods_def WeightedLeastConnections_Next_def Let_def
        split: if_splits prod.splits dest!: scan_select_mem)
next
  fix ctx h s and bs :: "bref list"
  assume "wlc_ready ctx h bs s" and "bs \<noteq> []"
  then obtain r s' where "WeightedLeastConnections_Next ctx h bs s = (Some r, s')"
    using WeightedLeastConnections_Next_min by metis
  then show "fst (bal_Next WeightedLeastConnections_methods ctx h bs s) \<noteq> None"
    by (simp add: WeightedLeastConnections_methods_def)
qed (simp add: WeightedLeastConnections_methods_def WeightedLeastConnections_Next_def)

section \<open>Properties\<close>

text \<open>
  Least connections selects a least loaded backend: for a non-empty offer whose connection
  counts are below the largest \<^verbatim>\<open>int64\<close>, \<^verbatim>\<open>Next\<close> returns an offered backend that has no more
  active connections than any other, also when it breaks a tie.
\<close>

theorem LeastConnections_selects_minimum:
  assumes "backends \<noteq> []" and "\<forall>b\<in>set backends. b_activeConns (h b) < max_i64"
  shows "\<exists>r lc'. LeastConnections_Next ctx h backends lc = (Some r, lc') \<and> r \<in> set backends \<and>
    (\<forall>b\<in>set backends. b_activeConns (h r) \<le> b_activeConns (h b))"
  by (rule LeastConnections_Next_min [OF assms]) blast

theorem LeastConnections_selects_minimum_witness:
  "\<exists>r lc'. LeastConnections_Next None example_heap [0, 1] NewLeastConnections = (Some r, lc') \<and>
    b_activeConns (example_heap r) \<le> b_activeConns (example_heap 0) \<and>
    b_activeConns (example_heap r) \<le> b_activeConns (example_heap 1)"
  using LeastConnections_selects_minimum [of "[0, 1]" example_heap None NewLeastConnections]
  by (auto simp: example_heap_def max_i64_def)

text \<open>
  Weighted least connections selects a backend of least load per weight, with the load per
  weight computed in floating point as the code does and the weights as registered; the offer must
  not be empty.
\<close>

theorem WeightedLeastConnections_selects_minimum:
  assumes "backends \<noteq> []" and "wlc_ready ctx h backends wlc"
  shows "\<exists>r wlc'. WeightedLeastConnections_Next ctx h backends wlc = (Some r, wlc') \<and> r \<in> set backends \<and>
    (\<forall>b\<in>set backends. wlc_ratio h (wlc_backends wlc') r \<le> wlc_ratio h (wlc_backends wlc') b)"
  by (rule WeightedLeastConnections_Next_min [OF assms]) blast

theorem WeightedLeastConnections_selects_minimum_witness:
  "\<exists>r wlc'. WeightedLeastConnections_Next None example_heap [0, 1] NewWeightedLeastConnections = (Some r, wlc') \<and>
    wlc_ratio example_heap (wlc_backends wlc') r \<le> wlc_ratio example_heap (wlc_backends wlc') 0 \<and>
    wlc_ratio example_heap (wlc_backends wlc') r \<le> wlc_ratio example_heap (wlc_backends wlc') 1"
proof -
  have "wlc_ready None example_heap [0, 1] NewWeightedLeastConnections"
    by (simp add: wlc_ready_def example_heap_def NewWeightedLeastConnections_def)
  from WeightedLeastConnections_selects_minimum [OF _ this] show ?thesis by simp blast
qed

end
