(* ===== verification/Bal_WRR.thy ===== *)
theory Bal_WRR
  imports Balancer
begin

text \<open>
  \<^verbatim>\<open>internal/balancer/weighted_round_robin.go\<close>: the smooth weighted round-robin algorithm. The
  code is refined to an abstract round on a weight vector, and on that round the fairness of the
  algorithm is proved: in as many calls as the weights sum to, every backend is selected exactly
  as often as its weight says.
\<close>

section \<open>The algorithm\<close>

record weightedBackend =
  wb_backend :: bref
  wb_weight :: int
  wb_currentWeight :: int

record WeightedRoundRobin =
  wrr_backends :: "(string, weightedBackend) gomap"
  wrr_callCount :: "64 word"

definition NewWeightedRoundRobin :: WeightedRoundRobin where
  "NewWeightedRoundRobin = \<lparr>wrr_backends = [], wrr_callCount = 0\<rparr>"

definition wb_new :: "heap \<Rightarrow> bref \<Rightarrow> weightedBackend" where
  "wb_new h b = \<lparr>wb_backend = b, wb_weight = b_weight (h b), wb_currentWeight = 0\<rparr>"

text \<open>
  The slice \<^verbatim>\<open>weighted\<close> holds pointers into the map, so it is modelled by the keys of the
  entries. The first loop collects the entries, creating the missing ones, and sums the weights.
\<close>

definition wrr_gather ::
  "heap \<Rightarrow> (string, weightedBackend) gomap \<times> string list \<times> int \<Rightarrow> bref
   \<Rightarrow> (string, weightedBackend) gomap \<times> string list \<times> int" where
  "wrr_gather h acc b =
     (case acc of (m, weighted, totalWeight) \<Rightarrow>
        let wb = (case map_of m (ref_ID h b) of
                    Some wb \<Rightarrow> wb\<lparr>wb_backend := b\<rparr>
                  | None \<Rightarrow> wb_new h b)
        in (AList.update (ref_ID h b) wb m, weighted @ [ref_ID h b],
            wrap_i32 (totalWeight + wb_weight wb)))"

definition wb_cw :: "(string, weightedBackend) gomap \<Rightarrow> string \<Rightarrow> int" where
  "wb_cw m i = (case map_of m i of None \<Rightarrow> 0 | Some wb \<Rightarrow> wb_currentWeight wb)"

text \<open>The second loop adds each weight and keeps the entry with the greatest current weight.\<close>

definition wrr_pick ::
  "(string, weightedBackend) gomap \<times> string option \<Rightarrow> string
   \<Rightarrow> (string, weightedBackend) gomap \<times> string option" where
  "wrr_pick acc i =
     (case acc of (m, best) \<Rightarrow>
        case map_of m i of
          None \<Rightarrow> (m, best)
        | Some wb \<Rightarrow>
            let wb = wb\<lparr>wb_currentWeight := wrap_i32 (wb_currentWeight wb + wb_weight wb)\<rparr>;
                m = AList.update i wb m
            in (m, case best of
                     None \<Rightarrow> Some i
                   | Some j \<Rightarrow> if wb_currentWeight wb > wb_cw m j then Some i else Some j))"

text \<open>Every millionth call halves the current weights, truncating towards zero.\<close>

definition wrr_halve :: "(string, weightedBackend) gomap \<Rightarrow> string \<Rightarrow> (string, weightedBackend) gomap" where
  "wrr_halve m i =
     (case map_of m i of
        None \<Rightarrow> m
      | Some wb \<Rightarrow> AList.update i (wb\<lparr>wb_currentWeight := wb_currentWeight wb sdiv 2\<rparr>) m)"

definition WeightedRoundRobin_Next ::
  "RequestContext option \<Rightarrow> heap \<Rightarrow> bref list \<Rightarrow> WeightedRoundRobin \<Rightarrow> bref option \<times> WeightedRoundRobin" where
  "WeightedRoundRobin_Next ctx h backends wrr =
     (if backends = [] then (None, wrr)
      else let (m, weighted, totalWeight) = foldl (wrr_gather h) (wrr_backends wrr, [], 0) backends;
               (m, best) = foldl wrr_pick (m, None) weighted
           in (case best of
                 None \<Rightarrow> (None, wrr\<lparr>wrr_backends := m\<rparr>)
               | Some i \<Rightarrow>
                   (case map_of m i of
                      None \<Rightarrow> (None, wrr\<lparr>wrr_backends := m\<rparr>)
                    | Some wb \<Rightarrow>
                        let wb = wb\<lparr>wb_currentWeight := wrap_i32 (wb_currentWeight wb - totalWeight)\<rparr>;
                            m = AList.update i wb m;
                            callCount = wrr_callCount wrr + 1
                        in if callCount \<ge> 1000000
                           then (Some (wb_backend wb),
                                 wrr\<lparr>wrr_backends := foldl wrr_halve m weighted, wrr_callCount := 0\<rparr>)
                           else (Some (wb_backend wb),
                                 wrr\<lparr>wrr_backends := m, wrr_callCount := callCount\<rparr>))))"

definition WeightedRoundRobin_Add :: "heap \<Rightarrow> bref \<Rightarrow> WeightedRoundRobin \<Rightarrow> WeightedRoundRobin" where
  "WeightedRoundRobin_Add h b wrr =
     (case map_of (wrr_backends wrr) (ref_ID h b) of
        None \<Rightarrow> wrr\<lparr>wrr_backends := AList.update (ref_ID h b) (wb_new h b) (wrr_backends wrr)\<rparr>
      | Some _ \<Rightarrow> wrr)"

definition WeightedRoundRobin_Remove :: "heap \<Rightarrow> string \<Rightarrow> WeightedRoundRobin \<Rightarrow> WeightedRoundRobin" where
  "WeightedRoundRobin_Remove h i wrr = wrr\<lparr>wrr_backends := AList.delete i (wrr_backends wrr)\<rparr>"

definition WeightedRoundRobin_Update :: "heap \<Rightarrow> bref \<Rightarrow> WeightedRoundRobin \<Rightarrow> WeightedRoundRobin" where
  "WeightedRoundRobin_Update h b wrr =
     (case map_of (wrr_backends wrr) (ref_ID h b) of
        None \<Rightarrow> wrr
      | Some wb \<Rightarrow>
          wrr\<lparr>wrr_backends := AList.update (ref_ID h b)
                (wb\<lparr>wb_weight := b_weight (h b), wb_backend := b\<rparr>) (wrr_backends wrr)\<rparr>)"

definition WeightedRoundRobin_Reset :: "WeightedRoundRobin \<Rightarrow> WeightedRoundRobin" where
  "WeightedRoundRobin_Reset wrr =
     wrr\<lparr>wrr_backends := map (\<lambda>(i, wb). (i, wb\<lparr>wb_currentWeight := 0\<rparr>)) (wrr_backends wrr)\<rparr>"

definition WeightedRoundRobin_methods :: "WeightedRoundRobin Balancer" where
  "WeightedRoundRobin_methods =
     \<lparr>bal_Next = WeightedRoundRobin_Next, bal_Add = WeightedRoundRobin_Add,
      bal_Remove = WeightedRoundRobin_Remove, bal_Update = WeightedRoundRobin_Update\<rparr>"

section \<open>The abstract round\<close>

text \<open>The first element with the greatest value, as the loop with a strict comparison finds it.\<close>

definition first_max :: "('a \<Rightarrow> int) \<Rightarrow> 'a list \<Rightarrow> 'a option" where
  "first_max f xs =
     foldl (\<lambda>best x. case best of None \<Rightarrow> Some x | Some y \<Rightarrow> if f x > f y then Some x else Some y) None xs"

lemma first_max_spec:
  "xs \<noteq> [] \<Longrightarrow> \<exists>y. first_max f xs = Some y \<and> y \<in> set xs \<and> (\<forall>x\<in>set xs. f x \<le> f y)"
proof (induction xs rule: rev_induct)
  case (snoc x xs)
  show ?case
  proof (cases "xs = []")
    case True
    then show ?thesis by (simp add: first_max_def)
  next
    case False
    with snoc.IH obtain y where "first_max f xs = Some y" "y \<in> set xs" "\<forall>x\<in>set xs. f x \<le> f y"
      by blast
    then show ?thesis by (auto simp: first_max_def)
  qed
qed simp

lemma first_max_map: "first_max f (map g xs) = map_option g (first_max (\<lambda>x. f (g x)) xs)"
  by (induction xs rule: rev_induct) (auto simp: first_max_def split: option.splits)

lemma first_max_cong: "(\<And>x. x \<in> set xs \<Longrightarrow> f x = g x) \<Longrightarrow> first_max f xs = first_max g xs"
proof (induction xs rule: rev_induct)
  case (snoc x xs)
  then have IH: "first_max f xs = first_max g xs" by simp
  show ?case
  proof (cases "xs = []")
    case False
    then obtain y where "first_max f xs = Some y" "y \<in> set xs"
      using first_max_spec [of xs f] by blast
    with IH snoc.prems show ?thesis by (simp add: first_max_def)
  qed (simp add: first_max_def)
qed (simp add: first_max_def)

text \<open>One round: every value grows by its weight, the greatest is selected and pays the total.\<close>

definition swrr_next :: "('a \<Rightarrow> int) \<Rightarrow> 'a list \<Rightarrow> ('a \<Rightarrow> int) \<Rightarrow> 'a option \<times> ('a \<Rightarrow> int)" where
  "swrr_next w bs c =
     (let c' = (\<lambda>b. c b + w b)
      in case first_max c' bs of
           None \<Rightarrow> (None, c)
         | Some y \<Rightarrow> (Some y, c'(y := c' y - (\<Sum>b\<leftarrow>bs. w b))))"

definition swrr_inv :: "('a \<Rightarrow> int) \<Rightarrow> 'a list \<Rightarrow> ('a \<Rightarrow> int) \<Rightarrow> bool" where
  "swrr_inv w bs c \<longleftrightarrow>
     (\<Sum>b\<leftarrow>bs. c b) = 0 \<and> (\<forall>b\<in>set bs. - (\<Sum>b\<leftarrow>bs. w b) < c b)"

lemma sum_list_upd:
  fixes c :: "'a \<Rightarrow> int"
  shows "distinct bs \<Longrightarrow> y \<in> set bs \<Longrightarrow> (\<Sum>b\<leftarrow>bs. (c(y := v)) b) = (\<Sum>b\<leftarrow>bs. c b) - c y + v"
proof (induction bs)
  case (Cons a bs)
  show ?case
  proof (cases "a = y")
    case True
    with Cons.prems have "map (c(y := v)) bs = map c bs" by (intro map_cong) auto
    then have "(\<Sum>b\<leftarrow>bs. (c(y := v)) b) = (\<Sum>b\<leftarrow>bs. c b)" by (rule arg_cong)
    with True show ?thesis by (simp del: fun_upd_apply add: fun_upd_same)
  next
    case False
    with Cons show ?thesis by simp
  qed
qed simp

lemma swrr_round:
  assumes inv: "swrr_inv w bs c" and d: "distinct bs" and ne: "bs \<noteq> []"
    and w: "\<forall>b\<in>set bs. 0 \<le> w b" and W: "0 < (\<Sum>b\<leftarrow>bs. w b)"
  obtains y c' where "swrr_next w bs c = (Some y, c')" and "y \<in> set bs" and "swrr_inv w bs c'"
    and "\<forall>b. c' b = c b + w b - (if b = y then \<Sum>b\<leftarrow>bs. w b else 0)"
proof -
  let ?W = "\<Sum>b\<leftarrow>bs. w b" and ?c = "\<lambda>b. c b + w b"
  obtain y where y: "first_max ?c bs = Some y" "y \<in> set bs" "\<forall>x\<in>set bs. ?c x \<le> ?c y"
    using first_max_spec [OF ne, of ?c] by (elim exE conjE) (rule that)
  let ?c' = "?c(y := ?c y - ?W)"
  have sum: "(\<Sum>b\<leftarrow>bs. ?c b) = ?W" using inv by (simp add: swrr_inv_def sum_list_addf)
  have "0 < ?c y"
  proof (rule ccontr)
    assume "\<not> 0 < ?c y"
    then have "(\<Sum>b\<leftarrow>bs. ?c b) \<le> (\<Sum>b\<leftarrow>bs. 0)" using y(3) by (intro sum_list_mono) force
    with sum W show False by simp
  qed
  moreover have "(\<Sum>b\<leftarrow>bs. ?c' b) = 0" using sum_list_upd [OF d y(2), of ?c] sum by simp
  moreover have "- ?W < ?c b" if "b \<in> set bs" for b
    using that inv w unfolding swrr_inv_def by force
  ultimately have "swrr_inv w bs ?c'" by (auto simp: swrr_inv_def)
  moreover have "swrr_next w bs c = (Some y, ?c')" using y(1) by (simp add: swrr_next_def Let_def)
  ultimately show thesis using y(2) by (intro that) auto
qed

lemma swrr_run:
  assumes d: "distinct bs" and ne: "bs \<noteq> []" and w: "\<forall>b\<in>set bs. 0 \<le> w b" and W: "0 < (\<Sum>b\<leftarrow>bs. w b)"
    and inv: "swrr_inv w bs c"
  obtains ps c' where "run_next (swrr_next w bs) k c = (map Some ps, c')" and "set ps \<subseteq> set bs"
    and "length ps = k" and "swrr_inv w bs c'"
    and "\<forall>b. c' b = c b + int k * w b - int (count_list ps b) * (\<Sum>b\<leftarrow>bs. w b)"
  using inv
proof (induction k arbitrary: c thesis)
  case 0
  from "0.prems"(1) [of "[]" c] "0.prems"(2) show ?case by simp
next
  case (Suc k)
  let ?W = "\<Sum>b\<leftarrow>bs. w b"
  obtain y c1 where r: "swrr_next w bs c = (Some y, c1)" "y \<in> set bs" "swrr_inv w bs c1"
    "\<forall>b. c1 b = c b + w b - (if b = y then ?W else 0)"
    using swrr_round [OF Suc.prems(2) d ne w W] by metis
  obtain ps c' where s: "run_next (swrr_next w bs) k c1 = (map Some ps, c')" "set ps \<subseteq> set bs"
    "length ps = k" "swrr_inv w bs c'"
    "\<forall>b. c' b = c1 b + int k * w b - int (count_list ps b) * ?W"
    using Suc.IH [OF _ r(3)] by metis
  have c': "c' b = c b + int (Suc k) * w b - int (count_list (y # ps) b) * ?W" for b
    using r(4) [rule_format, of b] s(5) [rule_format, of b]
    by (cases "b = y") (simp_all add: algebra_simps)
  show ?case
  proof (rule Suc.prems(1))
    show "run_next (swrr_next w bs) (Suc k) c = (map Some (y # ps), c')" using r(1) s(1) by simp
    show "\<forall>b. c' b = c b + int (Suc k) * w b - int (count_list (y # ps) b) * ?W" using c' by blast
  qed (use r(2) s(2-4) in simp_all)
qed

text \<open>
  After \<open>W\<close> rounds from the zero vector each value is \<open>W\<close> times its weight minus \<open>W\<close> times its
  selections and still above \<open>- W\<close>, so no backend is selected more often than its weight, and
  since the selections add up to \<open>W\<close> none is selected less often.
\<close>

lemma sum_count_list: "distinct bs \<Longrightarrow> set ps \<subseteq> set bs \<Longrightarrow> (\<Sum>b\<leftarrow>bs. count_list ps b) = length ps"
proof -
  assume d: "distinct bs" and sub: "set ps \<subseteq> set bs"
  have "(\<Sum>b\<in>set bs. count_list ps b) = length ps"
    using sub by (intro sum_count_set) auto
  then show ?thesis using d by (simp add: sum_list_distinct_conv_sum_set)
qed

lemma sum_list_le_eq:
  fixes f g :: "'a \<Rightarrow> int"
  assumes "\<forall>b\<in>set bs. f b \<le> g b" and "(\<Sum>b\<leftarrow>bs. f b) = (\<Sum>b\<leftarrow>bs. g b)"
  shows "\<forall>b\<in>set bs. f b = g b"
  using assms
proof (induction bs)
  case (Cons a bs)
  have "(\<Sum>b\<leftarrow>bs. f b) \<le> (\<Sum>b\<leftarrow>bs. g b)" using Cons.prems(1) by (intro sum_list_mono) auto
  with Cons.prems have "f a = g a" "(\<Sum>b\<leftarrow>bs. f b) = (\<Sum>b\<leftarrow>bs. g b)" by auto
  with Cons show ?case by auto
qed simp

lemma swrr_fair:
  assumes d: "distinct bs" and w: "\<forall>b\<in>set bs. 0 \<le> w b" and W: "0 < (\<Sum>b\<leftarrow>bs. w b)"
    and zero: "\<forall>b\<in>set bs. c b = 0"
    and run: "run_next (swrr_next w bs) (nat (\<Sum>b\<leftarrow>bs. w b)) c = (map Some ps, c')" and b: "b \<in> set bs"
  shows "int (count_list ps b) = w b"
proof -
  let ?W = "\<Sum>b\<leftarrow>bs. w b"
  have ne: "bs \<noteq> []" using b by auto
  have "(\<Sum>b\<leftarrow>bs. c b) = 0" using zero by (induction bs) auto
  then have inv: "swrr_inv w bs c" using zero W by (simp add: swrr_inv_def)
  obtain qs d' where q: "run_next (swrr_next w bs) (nat ?W) c = (map Some qs, d')"
    "set qs \<subseteq> set bs" "length qs = nat ?W" "swrr_inv w bs d'"
    "\<forall>b. d' b = c b + int (nat ?W) * w b - int (count_list qs b) * ?W"
    by (rule swrr_run [OF d ne w W inv])
  from q(1) run have "map Some qs = map Some ps" and "d' = c'" by simp_all
  then have "qs = ps" by (simp add: inj_map_eq_map)
  with q \<open>d' = c'\<close> have ps: "set ps \<subseteq> set bs" "length ps = nat ?W" "swrr_inv w bs c'"
    and c': "\<And>b. c' b = c b + int (nat ?W) * w b - int (count_list ps b) * ?W"
    by blast+
  have "int (count_list ps x) \<le> w x" if "x \<in> set bs" for x
  proof -
    have "- ?W < c' x" using ps(3) that by (simp add: swrr_inv_def)
    moreover have "c' x = ?W * (w x - int (count_list ps x))"
      using c' [of x] zero that W by (simp add: algebra_simps)
    ultimately have "?W * (-1) < ?W * (w x - int (count_list ps x))" by simp
    then have "-1 < w x - int (count_list ps x)" using W by (simp only: mult_less_cancel_left_pos)
    then show ?thesis by simp
  qed
  moreover have "(\<Sum>x\<leftarrow>bs. int (count_list ps x)) = ?W"
  proof -
    have "(\<Sum>x\<leftarrow>bs. int (count_list ps x)) = int (\<Sum>x\<leftarrow>bs. count_list ps x)"
      by (induction bs) auto
    then show ?thesis using sum_count_list [OF d ps(1)] ps(2) W by simp
  qed
  ultimately have "\<forall>b\<in>set bs. int (count_list ps b) = w b" by (intro sum_list_le_eq) blast
  with b show ?thesis by blast
qed

section \<open>The interface laws\<close>

text \<open>
  Whatever the IDs are, the entries that a call collects point into the slice it was given, so
  the selected backend comes from there and the call always selects one.
\<close>

abbreviation wrr_points :: "bref set \<Rightarrow> (string, weightedBackend) gomap \<Rightarrow> string set \<Rightarrow> bool" where
  "wrr_points S m ks \<equiv> \<forall>i\<in>ks. \<exists>wb. map_of m i = Some wb \<and> wb_backend wb \<in> S"

lemma wrr_gather_points:
  "wrr_points S m (set ws) \<Longrightarrow> set bs \<subseteq> S \<Longrightarrow>
   \<exists>m' t'. foldl (wrr_gather h) (m, ws, t) bs = (m', ws @ map (ref_ID h) bs, t') \<and>
           wrr_points S m' (set (ws @ map (ref_ID h) bs))"
proof (induction bs arbitrary: m ws t)
  case (Cons b bs)
  obtain m1 t1 where 1: "wrr_gather h (m, ws, t) b = (m1, ws @ [ref_ID h b], t1)"
    "wrr_points S m1 (set (ws @ [ref_ID h b]))"
    using Cons.prems
    by (auto simp: wrr_gather_def Let_def wb_new_def map_of_update split: option.split)
  show ?case using Cons.IH [where m = m1 and ws = "ws @ [ref_ID h b]" and t = t1] 1 Cons.prems(2) by auto
qed simp

lemma wrr_pick_points:
  "wrr_points S m (set ws) \<Longrightarrow> wrr_points S m (set_option best) \<Longrightarrow> ws \<noteq> [] \<or> best \<noteq> None \<Longrightarrow>
   \<exists>m' i. foldl wrr_pick (m, best) ws = (m', Some i) \<and> wrr_points S m' {i}"
proof (induction ws arbitrary: m best)
  case (Cons x ws)
  from Cons.prems(1) obtain wb where wb: "map_of m x = Some wb" "wb_backend wb \<in> S" by auto
  then obtain m1 best1 where 1: "wrr_pick (m, best) x = (m1, best1)" "best1 \<noteq> None"
    "wrr_points S m1 (set ws)" "wrr_points S m1 (set_option best1)"
    using Cons.prems
    by (auto simp: wrr_pick_def Let_def map_of_update split: option.split)
  show ?case using Cons.IH [OF 1(3,4)] 1(1,2) by simp
qed auto

lemma WeightedRoundRobin_Next_mem:
  assumes "bs \<noteq> []"
  shows "\<exists>r\<in>set bs. fst (WeightedRoundRobin_Next ctx h bs s) = Some r"
proof -
  obtain m t where 1: "foldl (wrr_gather h) (wrr_backends s, [], 0) bs = (m, map (ref_ID h) bs, t)"
    "wrr_points (set bs) m (set (map (ref_ID h) bs))"
    using wrr_gather_points [where S = "set bs" and m = "wrr_backends s" and ws = "[]" and bs = bs and h = h and t = 0]
    by auto
  obtain m' i where 2: "foldl wrr_pick (m, None) (map (ref_ID h) bs) = (m', Some i)"
    "wrr_points (set bs) m' {i}"
    using wrr_pick_points [OF 1(2), of None] assms by auto
  then obtain wb where "map_of m' i = Some wb" "wb_backend wb \<in> set bs" by auto
  with 1(1) 2(1) assms show ?thesis by (simp add: WeightedRoundRobin_Next_def Let_def)
qed

interpretation wrr: live_balancer WeightedRoundRobin_methods "\<lambda>ctx h bs s. True"
proof unfold_locales
  fix ctx h s r s' and bs :: "bref list"
  assume a: "bal_Next WeightedRoundRobin_methods ctx h bs s = (Some r, s')"
  then have "bs \<noteq> []" by (auto simp: WeightedRoundRobin_methods_def WeightedRoundRobin_Next_def)
  with a WeightedRoundRobin_Next_mem [of bs ctx h s] show "r \<in> set bs"
    by (auto simp: WeightedRoundRobin_methods_def)
next
  fix ctx h s and bs :: "bref list"
  assume "bs \<noteq> []"
  with WeightedRoundRobin_Next_mem [of bs ctx h s]
  show "fst (bal_Next WeightedRoundRobin_methods ctx h bs s) \<noteq> None"
    by (auto simp: WeightedRoundRobin_methods_def)
qed (simp add: WeightedRoundRobin_methods_def WeightedRoundRobin_Next_def)

section \<open>The code implements the abstract round\<close>

text \<open>The entry that a call works with: the stored one with the pointer refreshed, or a new one.\<close>

definition wrr_entry :: "heap \<Rightarrow> (string, weightedBackend) gomap \<Rightarrow> bref \<Rightarrow> weightedBackend" where
  "wrr_entry h m b =
     (case map_of m (ref_ID h b) of Some wb \<Rightarrow> wb\<lparr>wb_backend := b\<rparr> | None \<Rightarrow> wb_new h b)"

lemma wrr_entry_backend [simp]: "wb_backend (wrr_entry h m b) = b"
  by (simp add: wrr_entry_def wb_new_def split: option.split)

lemma wrr_gather_run:
  assumes "distinct (tracked_ids h bs)"
  shows "\<exists>m'. foldl (wrr_gather h) (m, ws, t) bs =
           (m', ws @ tracked_ids h bs, foldl (\<lambda>t b. wrap_i32 (t + wb_weight (wrr_entry h m b))) t bs) \<and>
     (\<forall>i. i \<notin> set (tracked_ids h bs) \<longrightarrow> map_of m' i = map_of m i) \<and>
     (\<forall>b\<in>set bs. map_of m' (ref_ID h b) = Some (wrr_entry h m b))"
  using assms
proof (induction bs arbitrary: m ws t)
  case (Cons b bs)
  let ?m = "AList.update (ref_ID h b) (wrr_entry h m b) m"
  let ?t = "wrap_i32 (t + wb_weight (wrr_entry h m b))"
  have 1: "wrr_gather h (m, ws, t) b = (?m, ws @ [ref_ID h b], ?t)"
    by (simp add: wrr_gather_def wrr_entry_def Let_def)
  have e: "wrr_entry h ?m x = wrr_entry h m x" if "x \<in> set bs" for x
  proof -
    have "ref_ID h x \<noteq> ref_ID h b" using that Cons.prems by (auto intro: rev_image_eqI)
    then show ?thesis by (simp add: wrr_entry_def map_of_update)
  qed
  obtain m' where 2: "foldl (wrr_gather h) (?m, ws @ [ref_ID h b], ?t) bs =
      (m', (ws @ [ref_ID h b]) @ tracked_ids h bs,
       foldl (\<lambda>t b. wrap_i32 (t + wb_weight (wrr_entry h ?m b))) ?t bs)"
    "\<forall>i. i \<notin> set (tracked_ids h bs) \<longrightarrow> map_of m' i = map_of ?m i"
    "\<forall>b\<in>set bs. map_of m' (ref_ID h b) = Some (wrr_entry h ?m b)"
    using Cons.IH [of ?m "ws @ [ref_ID h b]" ?t] Cons.prems by auto
  have t: "foldl (\<lambda>t b. wrap_i32 (t + wb_weight (wrr_entry h ?m b))) ?t bs =
      foldl (\<lambda>t b. wrap_i32 (t + wb_weight (wrr_entry h m b))) ?t bs"
    using e by (intro foldl_cong) simp_all
  have "map_of m' (ref_ID h b) = Some (wrr_entry h m b)"
    using 2(2) Cons.prems by (simp add: map_of_update)
  with 1 2 e t show ?case by (intro exI [of _ m']) (auto simp: map_of_update)
qed simp

lemma wrap_sum_id:
  assumes "\<forall>b\<in>set bs. 0 \<le> w b" and "0 \<le> t" and "t + (\<Sum>b\<leftarrow>bs. w b) < 2 ^ 31"
  shows "foldl (\<lambda>t b. wrap_i32 (t + w b)) t bs = t + (\<Sum>b\<leftarrow>bs. w b)"
  using assms
proof (induction bs arbitrary: t)
  case (Cons b bs)
  have "0 \<le> (\<Sum>b\<leftarrow>bs. w b)" using Cons.prems(1) by (intro sum_list_nonneg) auto
  with Cons.prems have "wrap_i32 (t + w b) = t + w b" by (intro wrap_i32_id) auto
  with Cons show ?case by simp
qed simp

text \<open>The second loop adds its weight to every entry and finds the first maximum.\<close>

definition wb_bump :: "weightedBackend \<Rightarrow> weightedBackend" where
  "wb_bump wb = wb\<lparr>wb_currentWeight := wrap_i32 (wb_currentWeight wb + wb_weight wb)\<rparr>"

lemma wrr_pick_run:
  assumes "distinct ks" and "\<forall>i\<in>set ks. map_of m i \<noteq> None"
  shows "\<exists>m'. foldl wrr_pick (m, None) ks =
      (m', first_max (\<lambda>i. wb_currentWeight (wb_bump (the (map_of m i)))) ks) \<and>
    (\<forall>i. map_of m' i = (if i \<in> set ks then map_option wb_bump (map_of m i) else map_of m i))"
  using assms
proof (induction ks rule: rev_induct)
  case (snoc k ks)
  let ?f = "\<lambda>i. wb_currentWeight (wb_bump (the (map_of m i)))"
  obtain m1 where 1: "foldl wrr_pick (m, None) ks = (m1, first_max ?f ks)"
    "\<And>i. map_of m1 i = (if i \<in> set ks then map_option wb_bump (map_of m i) else map_of m i)"
    using snoc by auto
  obtain wb where wb: "map_of m k = Some wb" using snoc.prems(2) by auto
  let ?m = "AList.update k (wb_bump wb) m1"
  have m1k: "map_of m1 k = Some wb" using 1(2) wb snoc.prems(1) by simp
  have cw: "wb_cw ?m j = ?f j" if "j \<in> set ks" for j
  proof -
    have "j \<noteq> k" "map_of m j \<noteq> None" using that snoc.prems by auto
    then show ?thesis using 1(2) [of j] that by (auto simp: wb_cw_def map_of_update)
  qed
  have "wrr_pick (m1, first_max ?f ks) k = (?m, first_max ?f (ks @ [k]))"
  proof (cases "ks = []")
    case True
    then show ?thesis using m1k by (simp add: wrr_pick_def wb_bump_def first_max_def Let_def)
  next
    case False
    from first_max_spec [OF False, of ?f]
    obtain j where j: "first_max ?f ks = Some j" "j \<in> set ks" by auto
    then show ?thesis using m1k wb cw [OF j(2)]
      by (simp add: wrr_pick_def wb_bump_def [symmetric] first_max_def Let_def)
  qed
  moreover have "map_of ?m i = (if i \<in> set (ks @ [k]) then map_option wb_bump (map_of m i) else map_of m i)" for i
    using 1(2) [of i] wb by (simp add: map_of_update)
  ultimately show ?case using 1(1) by (intro exI [of _ ?m]) simp
qed (simp add: first_max_def)

text \<open>
  The simulation: the abstract weights and values of the offered backends are those of their
  entries. The invariant of the abstract round bounds the values, so that with weights that sum
  to \<open>W\<close> over \<open>n\<close> backends nothing overflows as long as \<open>n * W\<close> stays below \<open>2 ^ 31\<close>.
\<close>

definition wrr_sim ::
  "heap \<Rightarrow> bref list \<Rightarrow> (bref \<Rightarrow> int) \<Rightarrow> WeightedRoundRobin \<Rightarrow> (bref \<Rightarrow> int) \<Rightarrow> bool" where
  "wrr_sim h bs w s c \<longleftrightarrow>
     (\<forall>b\<in>set bs. wb_weight (wrr_entry h (wrr_backends s) b) = w b \<and>
                wb_currentWeight (wrr_entry h (wrr_backends s) b) = c b)"

lemma swrr_inv_upper:
  assumes inv: "swrr_inv w bs c" and d: "distinct bs" and b: "b \<in> set bs"
  shows "c b \<le> (int (length bs) - 1) * (\<Sum>b\<leftarrow>bs. w b)"
proof -
  let ?W = "\<Sum>b\<leftarrow>bs. w b"
  have s: "(\<Sum>x\<in>set bs. c x) = 0" using inv d by (simp add: swrr_inv_def sum_list_distinct_conv_sum_set)
  have "(\<Sum>x\<in>set bs - {b}. - ?W) \<le> (\<Sum>x\<in>set bs - {b}. c x)"
    using inv by (intro sum_mono) (auto simp: swrr_inv_def less_imp_le)
  moreover have "(\<Sum>x\<in>set bs. c x) = c b + (\<Sum>x\<in>set bs - {b}. c x)" using b by (simp add: sum.remove)
  moreover have "card (set bs - {b}) = length bs - 1" using b d by (simp add: distinct_card)
  moreover have "int (length bs - 1) = int (length bs) - 1" using b by (cases bs) auto
  ultimately show ?thesis using s by simp
qed

lemma swrr_no_overflow:
  assumes inv: "swrr_inv w bs c" and d: "distinct bs" and b: "b \<in> set bs"
    and w: "\<forall>b\<in>set bs. 0 \<le> w b" and lt: "int (length bs) * (\<Sum>b\<leftarrow>bs. w b) < 2 ^ 31"
  shows "wrap_i32 (c b + w b) = c b + w b" and "wrap_i32 (c b) = c b" and "(\<Sum>b\<leftarrow>bs. w b) < 2 ^ 31"
proof -
  let ?W = "\<Sum>b\<leftarrow>bs. w b"
  have wb: "0 \<le> w b" "w b \<le> ?W"
    using w b sum_list_nonneg [of "map w (remove1 b bs)"]
    by (auto simp: sum_list_map_remove1 [OF b] dest: notin_set_remove1)
  have up: "c b \<le> int (length bs) * ?W - ?W" using swrr_inv_upper [OF inv d b] by (simp add: algebra_simps)
  have lo: "- ?W < c b" using inv b by (simp add: swrr_inv_def)
  have "1 * ?W \<le> int (length bs) * ?W" using wb b by (intro mult_right_mono) (auto simp: Suc_le_eq)
  then show W: "?W < 2 ^ 31" using lt by simp
  show "wrap_i32 (c b + w b) = c b + w b" using up lo wb lt W by (intro wrap_i32_id) linarith+
  show "wrap_i32 (c b) = c b" using up lo wb lt W by (intro wrap_i32_id) linarith+
qed

lemma wrr_step:
  assumes sim: "wrr_sim h bs w s c" and inv: "swrr_inv w bs c" and ids: "distinct (tracked_ids h bs)"
    and ne: "bs \<noteq> []" and w: "\<forall>b\<in>set bs. 0 \<le> w b" and W: "0 < (\<Sum>b\<leftarrow>bs. w b)"
    and lt: "int (length bs) * (\<Sum>b\<leftarrow>bs. w b) < 2 ^ 31"
    and cnt: "wrr_callCount s + 1 < 1000000"
  obtains y s' c' where "WeightedRoundRobin_Next ctx h bs s = (Some y, s')"
    and "swrr_next w bs c = (Some y, c')" and "wrr_sim h bs w s' c'" and "swrr_inv w bs c'"
    and "wrr_callCount s' = wrr_callCount s + 1"
proof -
  let ?W = "\<Sum>b\<leftarrow>bs. w b" and ?e = "wrr_entry h (wrr_backends s)"
  have d: "distinct bs" using ids by (simp add: distinct_map)
  have inj: "ref_ID h a = ref_ID h b \<longleftrightarrow> a = b" if "a \<in> set bs" "b \<in> set bs" for a b
    using ids that by (auto simp: distinct_map inj_on_def)
  have e: "wb_weight (?e b) = w b" "wb_currentWeight (?e b) = c b" if "b \<in> set bs" for b
    using sim that by (auto simp: wrr_sim_def)
  obtain m where m: "foldl (wrr_gather h) (wrr_backends s, [], 0) bs =
      (m, tracked_ids h bs, foldl (\<lambda>t b. wrap_i32 (t + wb_weight (?e b))) 0 bs)"
    "\<forall>b\<in>set bs. map_of m (ref_ID h b) = Some (?e b)"
    using wrr_gather_run [OF ids, of "wrr_backends s" "[]" 0] by auto
  have "foldl (\<lambda>t b. wrap_i32 (t + wb_weight (?e b))) 0 bs = foldl (\<lambda>t b. wrap_i32 (t + w b)) 0 bs"
    using e by (intro foldl_cong) simp_all
  also have "\<dots> = ?W"
    using swrr_no_overflow(3) [OF inv d hd_in_set [OF ne] w lt] w by (simp add: wrap_sum_id)
  finally have t: "foldl (\<lambda>t b. wrap_i32 (t + wb_weight (?e b))) 0 bs = ?W" .
  obtain y c' where r: "swrr_next w bs c = (Some y, c')" "y \<in> set bs" "swrr_inv w bs c'"
    "\<forall>b. c' b = c b + w b - (if b = y then ?W else 0)"
    by (rule swrr_round [OF inv d ne w W])
  obtain m' where m': "foldl wrr_pick (m, None) (tracked_ids h bs) =
      (m', first_max (\<lambda>i. wb_currentWeight (wb_bump (the (map_of m i)))) (tracked_ids h bs))"
    "\<forall>i. map_of m' i = (if i \<in> set (tracked_ids h bs) then map_option wb_bump (map_of m i) else map_of m i)"
    using wrr_pick_run [OF ids, of m] m(2) by auto
  have bump: "wb_currentWeight (wb_bump (?e b)) = c b + w b" if "b \<in> set bs" for b
    using e [OF that] swrr_no_overflow(1) [OF inv d that w lt] by (simp add: wb_bump_def)
  have "first_max (\<lambda>i. wb_currentWeight (wb_bump (the (map_of m i)))) (tracked_ids h bs) =
      map_option (ref_ID h) (first_max (\<lambda>b. c b + w b) bs)"
    unfolding first_max_map using m(2) bump by (intro arg_cong [where f = "map_option _"] first_max_cong) simp
  also have "\<dots> = Some (ref_ID h y)"
    using r(1) by (simp add: swrr_next_def Let_def split: option.splits)
  finally have best: "foldl wrr_pick (m, None) (tracked_ids h bs) = (m', Some (ref_ID h y))"
    using m'(1) by simp
  have my: "map_of m' (ref_ID h b) = Some (wb_bump (?e b))" if "b \<in> set bs" for b
    using m'(2) m(2) that by auto
  let ?wb = "(wb_bump (?e y))\<lparr>wb_currentWeight := c' y\<rparr>"
  let ?s = "s\<lparr>wrr_backends := AList.update (ref_ID h y) ?wb m', wrr_callCount := wrr_callCount s + 1\<rparr>"
  have cy: "wrap_i32 (wb_currentWeight (wb_bump (?e y)) - ?W) = c' y"
    using swrr_no_overflow(2) [OF r(3) d r(2) w lt] r(4) bump [OF r(2)] by simp
  have "WeightedRoundRobin_Next ctx h bs s = (Some y, ?s)"
    using ne m(1) t best my [OF r(2)] cy cnt
    by (simp add: WeightedRoundRobin_Next_def Let_def wb_bump_def not_le)
  moreover have "wrr_sim h bs w ?s c'"
    unfolding wrr_sim_def
  proof
    fix b assume b: "b \<in> set bs"
    show "wb_weight (wrr_entry h (wrr_backends ?s) b) = w b \<and>
          wb_currentWeight (wrr_entry h (wrr_backends ?s) b) = c' b"
      using my [OF b] inj [OF b r(2)] e [OF b] bump [OF b] r(4)
      by (cases "b = y") (simp_all add: wrr_entry_def [of h "AList.update _ _ _"] map_of_update wb_bump_def)
  qed
  moreover have "wrr_callCount ?s = wrr_callCount s + 1" by (cases s) simp
  ultimately show thesis using r(1,3) by (intro that)
qed

lemma wrr_run:
  assumes "wrr_sim h bs w s c" and "swrr_inv w bs c" and ids: "distinct (tracked_ids h bs)"
    and ne: "bs \<noteq> []" and w: "\<forall>b\<in>set bs. 0 \<le> w b" and W: "0 < (\<Sum>b\<leftarrow>bs. w b)"
    and lt: "int (length bs) * (\<Sum>b\<leftarrow>bs. w b) < 2 ^ 31" and "unat (wrr_callCount s) + k < 1000000"
  shows "fst (run_next (WeightedRoundRobin_Next ctx h bs) k s) = fst (run_next (swrr_next w bs) k c)"
  using assms(1,2,8)
proof (induction k arbitrary: s c)
  case (Suc k)
  have cnt: "unat (wrr_callCount s + 1) = unat (wrr_callCount s) + 1"
    using Suc.prems(3) by (simp add: unat_word_ariths)
  then have "wrr_callCount s + 1 < 1000000" using Suc.prems(3) by (simp add: word_less_nat_alt)
  then obtain y s' c' where st: "WeightedRoundRobin_Next ctx h bs s = (Some y, s')"
    "swrr_next w bs c = (Some y, c')" "wrr_sim h bs w s' c'" "swrr_inv w bs c'"
    "wrr_callCount s' = wrr_callCount s + 1"
    by (rule wrr_step [OF Suc.prems(1,2) ids ne w W lt])
  have "unat (wrr_callCount s') + k < 1000000" using Suc.prems(3) st(5) cnt by simp
  then show ?case using Suc.IH [OF st(3,4)] st(1,2) by (simp add: case_prod_beta)
qed simp

definition wrr_weight :: "heap \<Rightarrow> WeightedRoundRobin \<Rightarrow> bref \<Rightarrow> int" where
  "wrr_weight h s b = wb_weight (wrr_entry h (wrr_backends s) b)"

text \<open>
  C24. Fairness of the smooth weighted round robin: starting from current weights of zero, as many
  consecutive calls of \<^verbatim>\<open>Next\<close> as the weights sum to (\<open>W\<close>) select every offered backend exactly
  as often as its weight says, provided the backends have distinct IDs, the weights are not
  negative and not all zero, no \<^verbatim>\<open>int32\<close> overflows (\<open>n * W < 2 ^ 31\<close>) and the calls stay below
  the millionth, which normalises the weights.
\<close>

theorem WeightedRoundRobin_fair:
  assumes ids: "distinct (tracked_ids h bs)" and b: "b \<in> set bs"
    and zero: "\<forall>b\<in>set bs. wb_cw (wrr_backends s) (ref_ID h b) = 0"
    and w: "\<forall>b\<in>set bs. 0 \<le> wrr_weight h s b" and W: "0 < (\<Sum>b\<leftarrow>bs. wrr_weight h s b)"
    and lt: "int (length bs) * (\<Sum>b\<leftarrow>bs. wrr_weight h s b) < 2 ^ 31"
    and cnt: "unat (wrr_callCount s) + nat (\<Sum>b\<leftarrow>bs. wrr_weight h s b) < 1000000"
  shows "int (count_list (fst (run_next (WeightedRoundRobin_Next ctx h bs)
           (nat (\<Sum>b\<leftarrow>bs. wrr_weight h s b)) s)) (Some b)) = wrr_weight h s b"
proof -
  let ?w = "wrr_weight h s"
  let ?W = "\<Sum>b\<leftarrow>bs. ?w b"
  have d: "distinct bs" and ne: "bs \<noteq> []" using ids b by (auto simp: distinct_map)
  have sim: "wrr_sim h bs ?w s (\<lambda>_. 0)"
    using zero by (auto simp: wrr_sim_def wrr_weight_def wrr_entry_def wb_new_def wb_cw_def split: option.splits)
  have inv: "swrr_inv ?w bs (\<lambda>_. 0)" using W by (simp add: swrr_inv_def)
  obtain ps c' where ps: "run_next (swrr_next ?w bs) (nat ?W) (\<lambda>_. 0) = (map Some ps, c')"
    by (rule swrr_run [OF d ne w W inv])
  then have "fst (run_next (WeightedRoundRobin_Next ctx h bs) (nat ?W) s) = map Some ps"
    using wrr_run [OF sim inv ids ne w W lt cnt, of ctx] by simp
  moreover have "int (count_list ps b) = ?w b" using swrr_fair [OF d w W _ ps b] by simp
  moreover have "count_list (map Some ps) (Some b) = count_list ps b" by (induction ps) auto
  ultimately show ?thesis by simp
qed

text \<open>Three backends with the weights 5, 1 and 1.\<close>

definition wrr_example_heap :: heap where
  "wrr_example_heap r =
     (NewBackend (nat_dec r) [])\<lparr>b_weight := (if r = 0 then 5 else 1)\<rparr>"

theorem WeightedRoundRobin_fair_witness:
  "int (count_list (fst (run_next (WeightedRoundRobin_Next None wrr_example_heap [0, 1, 2]) 7
     NewWeightedRoundRobin)) (Some 0)) = 5"
  using WeightedRoundRobin_fair
    [of wrr_example_heap "[0, 1, 2]" 0 NewWeightedRoundRobin None]
  by (simp add: wrr_example_heap_def NewWeightedRoundRobin_def wrr_weight_def wrr_entry_def
      wb_new_def wb_cw_def nat_dec.simps)

end
