(* ===== verification/Hash_Ring.thy ===== *)
theory Hash_Ring
  imports Balancer
begin

text \<open>
  What the two ring algorithms share: the order in which a sorted ring is searched from the hash
  of a key, the contract of \<^verbatim>\<open>sort.Slice\<close>, which sorts but promises nothing about the order of
  equal keys, and the maps of available backends.
\<close>

section \<open>Sorting\<close>

locale slice_sort =
  fixes srt :: "'n list \<Rightarrow> 'n list" and key :: "'n \<Rightarrow> 'k::linorder"
  assumes mset_srt [simp]: "mset (srt xs) = mset xs"
    and sorted_srt [simp]: "sorted (map key (srt xs))"
begin

lemma set_srt [simp]: "set (srt xs) = set xs"
  using mset_srt by (rule mset_eq_setD)

text \<open>When the keys identify the elements, the result does not depend on the sorting algorithm.\<close>

lemma srt_unique:
  assumes inj: "inj_on key (set xs)" and "mset ys = mset xs" and "sorted (map key ys)"
  shows "srt xs = ys"
proof -
  have "map key (srt xs) = map key ys"
    using assms(2,3) by (metis mset_map mset_srt properties_for_sort sorted_srt)
  moreover have "set (srt xs) \<union> set ys = set xs"
    using assms(2) by (metis mset_eq_setD set_srt sup.idem)
  ultimately show ?thesis using inj by (metis inj_on_map_eq_map)
qed

end

section \<open>The search order\<close>

text \<open>
  Clockwise from a hash: first the nodes at or after it, then, wrapping around, those before it.
\<close>

definition ring_order :: "('n \<Rightarrow> 'k::linorder) \<Rightarrow> 'k \<Rightarrow> 'n list \<Rightarrow> 'n list" where
  "ring_order key x nodes = filter (\<lambda>n. x \<le> key n) nodes @ filter (\<lambda>n. key n < x) nodes"

lemma set_ring_order [simp]: "set (ring_order key x nodes) = set nodes"
  by (auto simp: ring_order_def)

lemma ring_order_filter: "filter p (ring_order key x nodes) = ring_order key x (filter p nodes)"
  by (simp add: ring_order_def conj_commute)

text \<open>The index that the binary search of the code finds, wrapped around at the end.\<close>

definition ring_search :: "('n \<Rightarrow> 'k::linorder) \<Rightarrow> 'k \<Rightarrow> 'n list \<Rightarrow> nat" where
  "ring_search key x nodes =
     (let idx = sort_Search (length nodes) (\<lambda>i. x \<le> key (nodes ! i))
      in if length nodes \<le> idx then 0 else idx)"

lemma ring_search_less: "nodes \<noteq> [] \<Longrightarrow> ring_search key x nodes < length nodes"
  by (simp add: ring_search_def Let_def)

lemma filter_split_at:
  assumes "i \<le> length xs" and "\<forall>k<i. \<not> p (xs ! k)" and "\<forall>k. i \<le> k \<longrightarrow> k < length xs \<longrightarrow> p (xs ! k)"
  shows "filter p xs = drop i xs" and "filter (\<lambda>x. \<not> p x) xs = take i xs"
proof -
  have t: "\<forall>x\<in>set (take i xs). \<not> p x" using assms(1,2) by (auto simp: in_set_conv_nth)
  have d: "\<forall>x\<in>set (drop i xs). p x" using assms(1,3) by (auto simp: in_set_conv_nth)
  have "filter p xs = filter p (take i xs) @ filter p (drop i xs)"
    by (metis append_take_drop_id filter_append)
  with t d show "filter p xs = drop i xs" by (simp add: filter_empty_conv)
  have "filter (\<lambda>x. \<not> p x) xs = filter (\<lambda>x. \<not> p x) (take i xs) @ filter (\<lambda>x. \<not> p x) (drop i xs)"
    by (metis append_take_drop_id filter_append)
  with t d show "filter (\<lambda>x. \<not> p x) xs = take i xs" by (simp add: filter_empty_conv)
qed

lemma rotate_ring_search:
  assumes s: "sorted (map key nodes)"
  shows "rotate (ring_search key x nodes) nodes = ring_order key x nodes"
proof -
  let ?f = "\<lambda>i. x \<le> key (nodes ! i)" and ?n = "length nodes"
  let ?i = "sort_Search ?n ?f"
  have mono: "\<forall>a b. a \<le> b \<longrightarrow> b < ?n \<longrightarrow> ?f a \<longrightarrow> ?f b"
  proof (intro allI impI)
    fix a b assume ab: "a \<le> b" "b < ?n" and fa: "?f a"
    have "key (nodes ! a) \<le> key (nodes ! b)" using sorted_nth_mono [OF s ab(1)] ab by simp
    with fa show "?f b" by (rule order_trans)
  qed
  note spec = sort_Search_spec [OF mono]
  have i: "?i \<le> ?n" "\<forall>k<?i. \<not> ?f k" using spec(1,2) by blast+
  have up: "\<forall>k. ?i \<le> k \<longrightarrow> k < ?n \<longrightarrow> ?f k"
  proof (intro allI impI)
    fix k assume k: "?i \<le> k" "k < ?n"
    then have "?i < ?n" by (rule order_le_less_trans)
    then have "?f ?i" by (rule spec(3))
    then show "?f k" by (rule mono [rule_format, OF k])
  qed
  have "ring_order key x nodes = drop ?i nodes @ take ?i nodes"
    using filter_split_at [where p = "\<lambda>n. x \<le> key n", OF i up] unfolding ring_order_def not_le by simp
  moreover have "rotate (ring_search key x nodes) nodes = drop ?i nodes @ take ?i nodes"
  proof (cases "?i = ?n")
    case True
    then have "ring_search key x nodes = 0" by (simp add: ring_search_def)
    with True show ?thesis by simp
  next
    case False
    with i(1) have lt: "?i < ?n" by (rule le_neq_implies_less)
    then have "ring_search key x nodes = ?i" by (simp add: ring_search_def)
    with lt show ?thesis by (simp add: rotate_drop_take)
  qed
  ultimately show ?thesis by metis
qed

lemma hd_ring_order:
  assumes "sorted (map key nodes)" and "nodes \<noteq> []"
  shows "ring_order key x nodes = nodes ! ring_search key x nodes # tl (ring_order key x nodes)"
proof -
  let ?i = "ring_search key x nodes"
  have r: "rotate ?i nodes = ring_order key x nodes" by (rule rotate_ring_search [OF assms(1)])
  have "hd (rotate ?i nodes) = nodes ! ?i"
    using assms(2) ring_search_less [OF assms(2), of key x] by (simp add: hd_rotate_conv_nth)
  moreover have "ring_order key x nodes \<noteq> []" using assms(2) r by (metis rotate_is_Nil_conv)
  ultimately show ?thesis using r by (metis list.collapse)
qed

section \<open>Available backends\<close>

definition available_map :: "heap \<Rightarrow> bref list \<Rightarrow> (string, bref) gomap" where
  "available_map h bs =
     foldl (\<lambda>m b. if Backend_IsAvailable (h b) then AList.update (ref_ID h b) b m else m) [] bs"

definition find_available :: "heap \<Rightarrow> bref list \<Rightarrow> string \<Rightarrow> bref option" where
  "find_available h bs i = find (\<lambda>b. ref_ID h b = i \<and> Backend_IsAvailable (h b)) bs"

lemma find_available_SomeD:
  "find_available h bs i = Some b \<Longrightarrow> b \<in> set bs \<and> ref_ID h b = i \<and> Backend_IsAvailable (h b)"
  unfolding find_available_def by (rule find_SomeD)

lemma find_available_None:
  "find_available h bs i = None \<longleftrightarrow> (\<forall>b\<in>set bs. ref_ID h b = i \<longrightarrow> \<not> Backend_IsAvailable (h b))"
  by (auto simp: find_available_def find_None)

lemma map_of_available_SomeD:
  "map_of (available_map h bs) i = Some b \<Longrightarrow> b \<in> set bs \<and> ref_ID h b = i \<and> Backend_IsAvailable (h b)"
  by (induction bs rule: rev_induct) (auto simp: available_map_def map_of_update split: if_splits)

lemma map_of_available_None:
  "map_of (available_map h bs) i = None \<longleftrightarrow> find_available h bs i = None"
  by (induction bs rule: rev_induct)
    (auto simp: available_map_def find_available_None map_of_update split: if_splits)

lemma map_of_available_map:
  assumes "distinct (tracked_ids h bs)"
  shows "map_of (available_map h bs) i = find_available h bs i"
proof (cases "find_available h bs i")
  case None
  then show ?thesis using map_of_available_None by metis
next
  case (Some b)
  then obtain b' where b': "map_of (available_map h bs) i = Some b'"
    using map_of_available_None by (metis not_None_eq)
  with Some have "ref_ID h b = ref_ID h b'" "b \<in> set bs" "b' \<in> set bs"
    using find_available_SomeD map_of_available_SomeD by metis+
  with assms have "b = b'" by (auto simp: distinct_map inj_on_def)
  with Some b' show ?thesis by simp
qed

text \<open>The backend that a search along the ring finds.\<close>

definition ring_pick :: "heap \<Rightarrow> bref list \<Rightarrow> ('n \<Rightarrow> string) \<Rightarrow> 'n list \<Rightarrow> bref option" where
  "ring_pick h bs nid nodes = find_map (\<lambda>n. find_available h bs (nid n)) nodes"

lemma ring_pick_SomeD: "ring_pick h bs nid nodes = Some b \<Longrightarrow> b \<in> set bs \<and> Backend_IsAvailable (h b)"
  unfolding ring_pick_def using find_map_SomeD find_available_SomeD by metis

lemma ring_pick_remove:
  assumes pick: "ring_pick h bs nid (ring_order key x nodes) = Some r" and r: "ref_ID h r \<noteq> i"
  shows "ring_pick h (filter (\<lambda>b. ref_ID h b \<noteq> i) bs) nid
           (ring_order key x (filter (\<lambda>n. nid n \<noteq> i) nodes)) = Some r"
proof -
  let ?bs = "filter (\<lambda>b. ref_ID h b \<noteq> i) bs"
  have eq: "find_available h ?bs j = find_available h bs j" if "j \<noteq> i" for j
    using that unfolding find_available_def by (induction bs) auto
  show ?thesis
    using pick unfolding ring_pick_def ring_order_filter [symmetric]
  proof (rule find_map_restrict)
    fix n
    assume "find_available h bs (nid n) = Some r"
    moreover from this have "nid n \<noteq> i" using r find_available_SomeD by metis
    ultimately show "nid n \<noteq> i \<and> find_available h ?bs (nid n) = Some r" using eq by simp
  next
    fix n
    assume "find_available h bs (nid n) = None" and "nid n \<noteq> i"
    then show "find_available h ?bs (nid n) = None" using eq by simp
  qed
qed

end
