(* ===== verification/Bal_Ring.thy ===== *)
theory Bal_Ring
  imports Hash_Ring GoLib
begin

text \<open>
  The two consistent hashing rings: \<^verbatim>\<open>internal/balancer/consistent_hash.go\<close> (CRC-32, incremental
  ring) and \<^verbatim>\<open>internal/balancer/ring_hash.go\<close> (FNV-1a or a configured hash, weighted ring rebuilt
  on every change). \<^verbatim>\<open>sort.Slice\<close> is the parameter \<open>srt\<close> under the contract \<open>slice_sort\<close>.
\<close>

section \<open>Decimal strings\<close>

function itoa_loop :: "int \<Rightarrow> string \<Rightarrow> string" where
  "itoa_loop n buf = (if n > 0 then itoa_loop (n div 10) (char_of (48 + nat (n mod 10)) # buf) else buf)"
  by pat_completeness auto
termination
  by (relation "measure (\<lambda>(n, _). nat n)") auto

declare itoa_loop.simps [simp del]

definition intToString :: "int \<Rightarrow> string" where
  "intToString n =
     (if n = 0 then ''0''
      else let negative = n < 0;
               n = (if negative then wrap_i64 (- n) else n);
               buf = itoa_loop n []
           in if negative then CHR ''-'' # buf else buf)"

definition intToStr :: "int \<Rightarrow> string" where
  "intToStr n =
     (if n = 0 then ''0''
      else let isNegative = n < 0;
               n = (if isNegative then wrap_i64 (- n) else n);
               buf = itoa_loop n []
           in if isNegative then CHR ''-'' # buf else buf)"

lemma itoa_loop_eq: "0 < n \<Longrightarrow> itoa_loop n buf = nat_dec (nat n) @ buf"
proof (induction n buf rule: itoa_loop.induct)
  case (1 n buf)
  show ?case
  proof (cases "n < 10")
    case True
    with "1.prems" have "n div 10 = 0" "n mod 10 = n" by simp_all
    then have "itoa_loop n buf = char_of (48 + nat n) # buf"
      using "1.prems" by (simp add: itoa_loop.simps [of n] itoa_loop.simps [of 0])
    moreover have "nat_dec (nat n) = [char_of (48 + nat n)]"
      using True by (simp add: nat_dec.simps [of "nat n"] nat_less_iff)
    ultimately show ?thesis by simp
  next
    case False
    then have "itoa_loop (n div 10) (char_of (48 + nat (n mod 10)) # buf) =
        nat_dec (nat (n div 10)) @ char_of (48 + nat (n mod 10)) # buf"
      using "1.IH" "1.prems" by simp
    moreover have "nat_dec (nat n) = nat_dec (nat (n div 10)) @ [char_of (48 + nat (n mod 10))]"
      using False by (simp add: nat_dec.simps [of "nat n"] nat_div_distrib nat_mod_distrib)
    ultimately show ?thesis using "1.prems" by (simp add: itoa_loop.simps [of n])
  qed
qed



lemma intToString_eq: "- (2 ^ 63) < n \<Longrightarrow> n < 2 ^ 63 \<Longrightarrow> intToString n = int_dec n"
  by (simp add: intToString_def int_dec_def itoa_loop_eq wrap_i64_id Let_def nat_dec_0)

lemma intToStr_eq: "intToStr n = intToString n"
  by (simp add: intToStr_def intToString_def)

section \<open>The Ketama ring\<close>

record ringNode =
  rn_hash :: "32 word"
  rn_backend :: string

record ConsistentHash =
  ch_nodes :: "ringNode list"
  ch_backends :: "(string, bref) gomap"
  ch_vnodes :: int

definition DefaultVirtualNodes :: int where
  "DefaultVirtualNodes = 150"

definition NewConsistentHash :: "int \<Rightarrow> ConsistentHash" where
  "NewConsistentHash vnodes =
     \<lparr>ch_nodes = [], ch_backends = [],
      ch_vnodes = (if vnodes \<le> 0 then DefaultVirtualNodes else vnodes)\<rparr>"

definition ConsistentHash_hashKey :: "string \<Rightarrow> 32 word" where
  "ConsistentHash_hashKey key = ChecksumIEEE key"

definition ConsistentHash_search :: "32 word \<Rightarrow> ConsistentHash \<Rightarrow> nat" where
  "ConsistentHash_search hash ch =
     (if ch_nodes ch = [] then 0 else ring_search rn_hash hash (ch_nodes ch))"

definition ConsistentHash_getNode :: "32 word \<Rightarrow> ConsistentHash \<Rightarrow> string" where
  "ConsistentHash_getNode hash ch =
     (if ch_nodes ch = [] then ''''
      else rn_backend (ch_nodes ch ! ConsistentHash_search hash ch))"

definition ConsistentHash_findNextAvailable ::
  "heap \<Rightarrow> 32 word \<Rightarrow> bref list \<Rightarrow> ConsistentHash \<Rightarrow> bref option" where
  "ConsistentHash_findNextAvailable h hash backends ch =
     (let available = available_map h backends
      in if available = [] then None
         else let idx = ConsistentHash_search hash ch; nodes = ch_nodes ch
              in find_map (\<lambda>i. map_of available (rn_backend (nodes ! ((idx + i) mod length nodes))))
                   [0..<length nodes])"

definition ConsistentHash_NextWithKey :: "heap \<Rightarrow> bref list \<Rightarrow> string \<Rightarrow> ConsistentHash \<Rightarrow> bref option" where
  "ConsistentHash_NextWithKey h backends key ch =
     (if ch_nodes ch = [] \<or> backends = [] then None
      else let hash = ConsistentHash_hashKey key;
               backendID = ConsistentHash_getNode hash ch
           in if backendID = '''' then None
              else (case find_available h backends backendID of
                      Some b \<Rightarrow> Some b
                    | None \<Rightarrow> ConsistentHash_findNextAvailable h hash backends ch))"

definition ConsistentHash_Next ::
  "RequestContext option \<Rightarrow> heap \<Rightarrow> bref list \<Rightarrow> ConsistentHash \<Rightarrow> bref option \<times> ConsistentHash" where
  "ConsistentHash_Next ctx h backends ch =
     (if backends = [] then (None, ch)
      else let key = ctx_key ctx;
               key = (if key = '''' then b_Address (h (backends ! 0)) else key)
           in (ConsistentHash_NextWithKey h backends key ch, ch))"

definition ch_vnode_list :: "int \<Rightarrow> string \<Rightarrow> ringNode list" where
  "ch_vnode_list vnodes i =
     map (\<lambda>k. \<lparr>rn_hash = ConsistentHash_hashKey (i @ '':'' @ intToString (int k)), rn_backend = i\<rparr>)
       [0..<nat vnodes]"

definition ConsistentHash_removeLocked :: "string \<Rightarrow> ConsistentHash \<Rightarrow> ConsistentHash" where
  "ConsistentHash_removeLocked i ch =
     ch\<lparr>ch_backends := AList.delete i (ch_backends ch),
        ch_nodes := filter (\<lambda>node. rn_backend node \<noteq> i) (ch_nodes ch)\<rparr>"

definition ConsistentHash_Add ::
  "(ringNode list \<Rightarrow> ringNode list) \<Rightarrow> heap \<Rightarrow> bref \<Rightarrow> ConsistentHash \<Rightarrow> ConsistentHash" where
  "ConsistentHash_Add srt h b ch =
     (let ch = ConsistentHash_removeLocked (ref_ID h b) ch
      in ch\<lparr>ch_backends := AList.update (ref_ID h b) b (ch_backends ch),
            ch_nodes := srt (ch_nodes ch @ ch_vnode_list (ch_vnodes ch) (ref_ID h b))\<rparr>)"

definition ConsistentHash_Remove :: "heap \<Rightarrow> string \<Rightarrow> ConsistentHash \<Rightarrow> ConsistentHash" where
  "ConsistentHash_Remove h i ch = ConsistentHash_removeLocked i ch"

definition ConsistentHash_Update :: "heap \<Rightarrow> bref \<Rightarrow> ConsistentHash \<Rightarrow> ConsistentHash" where
  "ConsistentHash_Update h b ch =
     (case map_of (ch_backends ch) (ref_ID h b) of
        None \<Rightarrow> ch
      | Some _ \<Rightarrow> ch\<lparr>ch_backends := AList.update (ref_ID h b) b (ch_backends ch)\<rparr>)"

definition ConsistentHash_SetVirtualNodes ::
  "(ringNode list \<Rightarrow> ringNode list) \<Rightarrow> heap \<Rightarrow> int \<Rightarrow> ConsistentHash \<Rightarrow> ConsistentHash" where
  "ConsistentHash_SetVirtualNodes srt h vnodes ch =
     (let vnodes = (if vnodes \<le> 0 then DefaultVirtualNodes else vnodes)
      in ch\<lparr>ch_vnodes := vnodes,
            ch_nodes := srt (concat (map (\<lambda>(_, b). ch_vnode_list vnodes (ref_ID h b)) (ch_backends ch)))\<rparr>)"

definition ConsistentHash_RingSize :: "ConsistentHash \<Rightarrow> nat" where
  "ConsistentHash_RingSize ch = length (ch_nodes ch)"

definition ConsistentHash_BackendCount :: "ConsistentHash \<Rightarrow> nat" where
  "ConsistentHash_BackendCount ch = length (ch_backends ch)"

definition ConsistentHash_methods :: "(ringNode list \<Rightarrow> ringNode list) \<Rightarrow> ConsistentHash Balancer" where
  "ConsistentHash_methods srt =
     \<lparr>bal_Next = ConsistentHash_Next, bal_Add = ConsistentHash_Add srt,
      bal_Remove = ConsistentHash_Remove, bal_Update = ConsistentHash_Update\<rparr>"

text \<open>The stable sort of the library is one sorting algorithm that keeps the contract.\<close>

interpretation ring_sort: slice_sort "sort_key rn_hash" rn_hash
  by unfold_locales simp_all

subsection \<open>The ring invariant\<close>

text \<open>The ring is sorted and holds exactly the virtual nodes of the registered backends.\<close>

definition ch_inv :: "heap \<Rightarrow> ConsistentHash \<Rightarrow> bool" where
  "ch_inv h ch \<longleftrightarrow>
     0 < ch_vnodes ch \<and> gomap_wf (ch_backends ch) \<and>
     (\<forall>(k, b) \<in> set (ch_backends ch). ref_ID h b = k) \<and>
     sorted (map rn_hash (ch_nodes ch)) \<and>
     mset (ch_nodes ch) = mset (concat (map (\<lambda>(k, _). ch_vnode_list (ch_vnodes ch) k) (ch_backends ch)))"

lemma ch_vnode_list_backend [simp]: "n \<in> set (ch_vnode_list v i) \<Longrightarrow> rn_backend n = i"
  by (auto simp: ch_vnode_list_def)

lemma length_ch_vnode_list [simp]: "length (ch_vnode_list v i) = nat v"
  by (simp add: ch_vnode_list_def)

lemma filter_vnodes:
  "filter (\<lambda>n. rn_backend n \<noteq> i) (concat (map (\<lambda>(k, _). ch_vnode_list v k) m)) =
   concat (map (\<lambda>(k, _). ch_vnode_list v k) (AList.delete i m))"
proof (induction m)
  case (Cons a m)
  obtain k x where a: "a = (k, x)" by (cases a)
  have "filter (\<lambda>n. rn_backend n \<noteq> i) (ch_vnode_list v k) = (if k = i then [] else ch_vnode_list v k)"
    by (auto simp: filter_empty_conv filter_id_conv)
  with Cons a show ?case by simp
qed simp

lemma NewConsistentHash_inv: "ch_inv h (NewConsistentHash v)"
  by (simp add: ch_inv_def NewConsistentHash_def DefaultVirtualNodes_def)

lemma removeLocked_inv:
  assumes "ch_inv h ch"
  shows "ch_inv h (ConsistentHash_removeLocked i ch)"
proof -
  have "mset (filter (\<lambda>n. rn_backend n \<noteq> i) (ch_nodes ch)) =
      mset (concat (map (\<lambda>(k, _). ch_vnode_list (ch_vnodes ch) k) (AList.delete i (ch_backends ch))))"
    unfolding filter_vnodes [symmetric] mset_filter using assms by (auto simp only: ch_inv_def)
  moreover have "sorted (map rn_hash (filter (\<lambda>n. rn_backend n \<noteq> i) (ch_nodes ch)))"
    using assms by (auto simp: ch_inv_def intro: sorted_filter)
  moreover have "set (AList.delete i (ch_backends ch)) \<subseteq> set (ch_backends ch)"
    by (auto simp: AList.delete_eq)
  ultimately show ?thesis
    using assms by (auto simp: ch_inv_def ConsistentHash_removeLocked_def gomap)
qed

lemma ConsistentHash_Add_inv:
  assumes srt: "slice_sort srt rn_hash" and inv: "ch_inv h ch"
  shows "ch_inv h (ConsistentHash_Add srt h b ch)"
proof -
  let ?ch = "ConsistentHash_removeLocked (ref_ID h b) ch" and ?i = "ref_ID h b"
  have r: "ch_inv h ?ch" using inv by (rule removeLocked_inv)
  have "?i \<notin> fst ` set (ch_backends ?ch)" by (simp add: ConsistentHash_removeLocked_def gomap)
  then have u: "AList.update ?i b (ch_backends ?ch) = ch_backends ?ch @ [(?i, b)]"
    by (rule update_new_append)
  from r \<open>?i \<notin> _\<close> show ?thesis
    unfolding ConsistentHash_Add_def Let_def u ch_inv_def
    by (auto simp: slice_sort.mset_srt [OF srt] slice_sort.sorted_srt [OF srt])
qed

lemma ConsistentHash_Update_inv:
  assumes "ch_inv h ch"
  shows "ch_inv h (ConsistentHash_Update h b ch)"
proof (cases "map_of (ch_backends ch) (ref_ID h b)")
  case (Some x)
  then have "ref_ID h b \<in> set (map fst (ch_backends ch))" by (metis image_set domI dom_map_of_conv_image_fst)
  then have ks: "map fst (AList.update (ref_ID h b) b (ch_backends ch)) = map fst (ch_backends ch)"
    by (simp add: AList.update_keys)
  have f: "map (\<lambda>(k, _). ch_vnode_list v k) m = map (ch_vnode_list v) (map fst m)" for v and m :: "(string \<times> bref) list"
    by (simp add: case_prod_beta comp_def)
  have "ref_ID h c = k" if "(k, c) \<in> set (AList.update (ref_ID h b) b (ch_backends ch))" for k c
    using that assms gomap_wf_update [of "ch_backends ch" "ref_ID h b" b]
    by (auto simp: ch_inv_def map_of_update fun_upd_def dest!: map_of_is_SomeI dest: map_of_SomeD split: if_splits)
  then show ?thesis
    using assms Some unfolding ch_inv_def ConsistentHash_Update_def f ks
    by (auto simp: f ks simp del: map_map)
qed (use assms in \<open>simp add: ConsistentHash_Update_def\<close>)

lemma SetVirtualNodes_inv:
  assumes srt: "slice_sort srt rn_hash" and inv: "ch_inv h ch"
  shows "ch_inv h (ConsistentHash_SetVirtualNodes srt h v ch)"
proof -
  have e: "map (\<lambda>(_, b). ch_vnode_list w (ref_ID h b)) (ch_backends ch) =
      map (\<lambda>(k, _). ch_vnode_list w k) (ch_backends ch)" for w
    using inv by (auto simp: ch_inv_def)
  show ?thesis
    using inv by (simp add: ch_inv_def ConsistentHash_SetVirtualNodes_def DefaultVirtualNodes_def Let_def e
        slice_sort.mset_srt [OF srt] slice_sort.sorted_srt [OF srt] del: map_eq_conv)
qed

lemma ch_RingSize:
  assumes "ch_inv h ch"
  shows "ConsistentHash_RingSize ch = nat (ch_vnodes ch) * ConsistentHash_BackendCount ch"
proof -
  have "length (concat (map (\<lambda>(k, _). ch_vnode_list v k) m)) = nat v * length m" for v m
    by (induction m) auto
  then show ?thesis
    using assms mset_eq_length by (fastforce simp: ch_inv_def ConsistentHash_RingSize_def ConsistentHash_BackendCount_def)
qed

subsection \<open>Selection\<close>

lemma find_map_available:
  assumes "distinct (tracked_ids h bs)"
  shows "find_map (\<lambda>n. map_of (available_map h bs) (nid n)) nodes = ring_pick h bs nid nodes"
  unfolding ring_pick_def map_of_available_map [OF assms] ..

text \<open>
  On a sorted ring without empty IDs the two lookups of the code, the binary search with its
  shortcut and the scan that follows, are one search along the ring.
\<close>

lemma NextWithKey_eq_ring_pick:
  assumes s: "sorted (map rn_hash (ch_nodes ch))" and ids: "distinct (tracked_ids h bs)"
    and ne: "\<forall>n\<in>set (ch_nodes ch). rn_backend n \<noteq> ''''"
  shows "ConsistentHash_NextWithKey h bs key ch =
    ring_pick h bs rn_backend (ring_order rn_hash (ConsistentHash_hashKey key) (ch_nodes ch))"
proof (cases "ch_nodes ch = [] \<or> bs = []")
  case True
  then have "ring_pick h bs rn_backend (ring_order rn_hash (ConsistentHash_hashKey key) (ch_nodes ch)) = None"
    by (auto simp: ring_pick_def find_map_None find_available_None)
  with True show ?thesis by (auto simp: ConsistentHash_NextWithKey_def)
next
  case False
  let ?x = "ConsistentHash_hashKey key" and ?nodes = "ch_nodes ch"
  let ?i = "ring_search rn_hash ?x ?nodes" and ?o = "ring_order rn_hash ?x ?nodes"
  have i: "ConsistentHash_search ?x ch = ?i" using False by (simp add: ConsistentHash_search_def)
  have hd: "?o = ?nodes ! ?i # tl ?o" using False by (intro hd_ring_order [OF s]) simp
  have mem: "?nodes ! ?i \<in> set ?nodes" using False by (simp add: ring_search_less)
  have "ConsistentHash_findNextAvailable h ?x bs ch = ring_pick h bs rn_backend ?o"
  proof (cases "available_map h bs = []")
    case True
    then have "find_available h bs j = None" for j
      using map_of_available_map [OF ids, of j] by simp
    then have "ring_pick h bs rn_backend ?o = None" by (simp add: ring_pick_def find_map_None)
    with True show ?thesis by (simp add: ConsistentHash_findNextAvailable_def)
  next
    case av: False
    have "ConsistentHash_findNextAvailable h ?x bs ch =
        find_map (\<lambda>n. map_of (available_map h bs) (rn_backend n))
          (map (\<lambda>i. ?nodes ! ((?i + i) mod length ?nodes)) [0..<length ?nodes])"
      using av i by (simp add: ConsistentHash_findNextAvailable_def find_map_map Let_def)
    also have "\<dots> = ring_pick h bs rn_backend ?o"
      using False by (simp add: scan_from_index rotate_ring_search [OF s] find_map_available [OF ids])
    finally show ?thesis .
  qed
  moreover have "ConsistentHash_getNode ?x ch = rn_backend (?nodes ! ?i)"
    using False i by (simp add: ConsistentHash_getNode_def)
  moreover have "ring_pick h bs rn_backend ?o =
      (case find_available h bs (rn_backend (?nodes ! ?i)) of
         Some b \<Rightarrow> Some b | None \<Rightarrow> ring_pick h bs rn_backend ?o)"
    unfolding ring_pick_def by (subst (1 2) hd) (simp split: option.split)
  ultimately show ?thesis
    using False ne mem by (auto simp: ConsistentHash_NextWithKey_def Let_def split: option.splits)
qed

lemma NextWithKey_cong:
  "ch_nodes ch = ch_nodes ch' \<Longrightarrow>
   ConsistentHash_NextWithKey h bs key ch = ConsistentHash_NextWithKey h bs key ch'"
  by (simp add: ConsistentHash_NextWithKey_def ConsistentHash_getNode_def ConsistentHash_search_def
      ConsistentHash_findNextAvailable_def Let_def split: option.split)

lemma ConsistentHash_Next_mem:
  assumes "ConsistentHash_NextWithKey h bs key ch = Some r"
  shows "r \<in> set bs \<and> Backend_IsAvailable (h r)"
  using assms
  by (auto simp: ConsistentHash_NextWithKey_def ConsistentHash_findNextAvailable_def Let_def
      split: if_splits option.splits dest: find_available_SomeD dest!: find_map_SomeD map_of_available_SomeD)

text \<open>
  A backend is selected as soon as one of the offered backends is available and has a node on the
  ring, unless a backend with an empty ID is registered.
\<close>

definition ch_ready :: "RequestContext option \<Rightarrow> heap \<Rightarrow> bref list \<Rightarrow> ConsistentHash \<Rightarrow> bool" where
  "ch_ready ctx h bs ch \<longleftrightarrow>
     sorted (map rn_hash (ch_nodes ch)) \<and> distinct (tracked_ids h bs) \<and>
     (\<forall>n\<in>set (ch_nodes ch). rn_backend n \<noteq> '''') \<and>
     (\<exists>b\<in>set bs. Backend_IsAvailable (h b) \<and> ref_ID h b \<in> rn_backend ` set (ch_nodes ch))"

lemma NextWithKey_ready:
  assumes "ch_ready ctx h bs ch"
  shows "ConsistentHash_NextWithKey h bs key ch \<noteq> None"
proof -
  obtain b n where b: "b \<in> set bs" "Backend_IsAvailable (h b)" "n \<in> set (ch_nodes ch)" "rn_backend n = ref_ID h b"
    using assms by (auto simp: ch_ready_def)
  then have "find_available h bs (rn_backend n) \<noteq> None"
    unfolding find_available_None by auto
  with b(3) assms show ?thesis
    by (simp add: ch_ready_def NextWithKey_eq_ring_pick ring_pick_def find_map_None) blast
qed

interpretation ch: live_balancer "ConsistentHash_methods srt" ch_ready
proof unfold_locales
  fix ctx h s r s' and bs :: "bref list"
  assume "bal_Next (ConsistentHash_methods srt) ctx h bs s = (Some r, s')"
  then show "r \<in> set bs"
    using ConsistentHash_Next_mem
    by (auto simp: ConsistentHash_methods_def ConsistentHash_Next_def Let_def split: if_splits)
next
  fix ctx h s and bs :: "bref list"
  assume "ch_ready ctx h bs s" "bs \<noteq> []"
  then show "fst (bal_Next (ConsistentHash_methods srt) ctx h bs s) \<noteq> None"
    using NextWithKey_ready by (simp add: ConsistentHash_methods_def ConsistentHash_Next_def Let_def)
qed (simp add: ConsistentHash_methods_def ConsistentHash_Next_def)

text \<open>
  Removing a backend moves only the keys that were mapped to it.
\<close>

lemma NextWithKey_removeLocked:
  assumes s: "sorted (map rn_hash (ch_nodes ch))" and ids: "distinct (tracked_ids h bs)"
    and ne: "\<forall>n\<in>set (ch_nodes ch). rn_backend n \<noteq> ''''"
    and sel: "ConsistentHash_NextWithKey h bs key ch = Some r" and r: "ref_ID h r \<noteq> i"
  shows "ConsistentHash_NextWithKey h (filter (\<lambda>b. ref_ID h b \<noteq> i) bs) key
           (ConsistentHash_removeLocked i ch) = Some r"
proof -
  let ?ch = "ConsistentHash_removeLocked i ch" and ?bs = "filter (\<lambda>b. ref_ID h b \<noteq> i) bs"
  have nodes: "ch_nodes ?ch = filter (\<lambda>n. rn_backend n \<noteq> i) (ch_nodes ch)"
    by (simp add: ConsistentHash_removeLocked_def)
  have s': "sorted (map rn_hash (ch_nodes ?ch))" using s unfolding nodes by (rule sorted_filter)
  have ids': "distinct (tracked_ids h ?bs)" using ids by (rule distinct_map_filter)
  have ne': "\<forall>n\<in>set (ch_nodes ?ch). rn_backend n \<noteq> ''''" using ne nodes by simp
  from sel have "ring_pick h bs rn_backend (ring_order rn_hash (ConsistentHash_hashKey key) (ch_nodes ch)) = Some r"
    using NextWithKey_eq_ring_pick [OF s ids ne] by simp
  from ring_pick_remove [OF this r] show ?thesis
    using NextWithKey_eq_ring_pick [OF s' ids' ne'] nodes by simp
qed

text \<open>Adding a backend moves keys only to it, when no two backends have a node at one position.\<close>

lemma removeLocked_Add:
  assumes srt: "slice_sort srt rn_hash" and s: "sorted (map rn_hash (ch_nodes ch))"
    and fresh: "\<forall>n\<in>set (ch_nodes ch). rn_backend n \<noteq> ref_ID h b"
    and inj: "inj_on rn_hash (set (ch_nodes ch) \<union> set (ch_vnode_list (ch_vnodes ch) (ref_ID h b)))"
  shows "ch_nodes (ConsistentHash_removeLocked (ref_ID h b) (ConsistentHash_Add srt h b ch)) = ch_nodes ch"
proof -
  let ?i = "ref_ID h b" and ?v = "ch_vnode_list (ch_vnodes ch) (ref_ID h b)"
  have old: "filter (\<lambda>n. rn_backend n \<noteq> ?i) (ch_nodes ch) = ch_nodes ch"
    using fresh by (simp add: filter_id_conv)
  have "filter (\<lambda>n. rn_backend n \<noteq> ?i) (srt (ch_nodes ch @ ?v)) = ch_nodes ch" (is "?l = _")
  proof -
    have "mset ?l = mset (filter (\<lambda>n. rn_backend n \<noteq> ?i) (ch_nodes ch @ ?v))"
      by (simp only: mset_filter slice_sort.mset_srt [OF srt])
    moreover have "filter (\<lambda>n. rn_backend n \<noteq> ?i) ?v = []" by (auto simp: filter_empty_conv)
    ultimately have m: "mset ?l = mset (ch_nodes ch)" using old by simp
    have "sorted (map rn_hash ?l)" using slice_sort.sorted_srt [OF srt] by (rule sorted_filter)
    then have "sort (map rn_hash (ch_nodes ch)) = map rn_hash ?l"
      using arg_cong [OF m, of "image_mset rn_hash"] by (intro properties_for_sort) simp_all
    moreover have "sort (map rn_hash (ch_nodes ch)) = map rn_hash (ch_nodes ch)"
      using s by (rule sort_key_id_if_sorted [of "\<lambda>x. x", unfolded list.map_ident])
    ultimately have "map rn_hash ?l = map rn_hash (ch_nodes ch)" by simp
    moreover have "inj_on rn_hash (set ?l \<union> set (ch_nodes ch))"
      using inj mset_eq_setD [OF m] by (auto intro: inj_on_subset)
    ultimately show ?thesis by (metis inj_on_map_eq_map)
  qed
  then show ?thesis using old by (simp add: ConsistentHash_removeLocked_def ConsistentHash_Add_def Let_def)
qed

subsection \<open>Properties of the Ketama ring\<close>

inductive ConsistentHash_reach :: "(ringNode list \<Rightarrow> ringNode list) \<Rightarrow> heap \<Rightarrow> ConsistentHash \<Rightarrow> bool"
  for srt h where
  new: "ConsistentHash_reach srt h (NewConsistentHash v)"
| add: "ConsistentHash_reach srt h ch \<Longrightarrow> ConsistentHash_reach srt h (ConsistentHash_Add srt h b ch)"
| remove: "ConsistentHash_reach srt h ch \<Longrightarrow> ConsistentHash_reach srt h (ConsistentHash_Remove h i ch)"
| update: "ConsistentHash_reach srt h ch \<Longrightarrow> ConsistentHash_reach srt h (ConsistentHash_Update h b ch)"
| vnodes: "ConsistentHash_reach srt h ch \<Longrightarrow>
    ConsistentHash_reach srt h (ConsistentHash_SetVirtualNodes srt h v ch)"

lemma ConsistentHash_reach_inv:
  assumes srt: "slice_sort srt rn_hash" and "ConsistentHash_reach srt h ch"
  shows "ch_inv h ch"
  using assms(2)
proof induction
  case (remove ch i)
  then show ?case by (simp add: ConsistentHash_Remove_def removeLocked_inv)
qed (simp_all add: NewConsistentHash_inv ConsistentHash_Add_inv [OF srt] ConsistentHash_Update_inv
    SetVirtualNodes_inv [OF srt])

lemma ch_inv_nodes:
  assumes "ch_inv h ch" and "n \<in> set (ch_nodes ch)"
  shows "rn_backend n \<in> fst ` set (ch_backends ch)"
proof -
  have "set (ch_nodes ch) = set (concat (map (\<lambda>(k, _). ch_vnode_list (ch_vnodes ch) k) (ch_backends ch)))"
    using assms(1) unfolding ch_inv_def by (metis mset_eq_setD)
  with assms(2) show ?thesis by force
qed

text \<open>
  After any sequence of \<^verbatim>\<open>Add\<close>, \<^verbatim>\<open>Remove\<close>, \<^verbatim>\<open>Update\<close> and \<^verbatim>\<open>SetVirtualNodes\<close> the
  ring is sorted by hash, every node on it belongs to a registered backend and the ring has exactly
  \<^verbatim>\<open>vnodes\<close> nodes per registered backend.
\<close>

theorem ConsistentHash_ring_complete:
  assumes srt: "slice_sort srt rn_hash" and reach: "ConsistentHash_reach srt h ch"
  shows "sorted (map rn_hash (ch_nodes ch)) \<and>
    (\<forall>n\<in>set (ch_nodes ch). rn_backend n \<in> fst ` set (ch_backends ch)) \<and>
    ConsistentHash_RingSize ch = nat (ch_vnodes ch) * ConsistentHash_BackendCount ch"
proof -
  have "ch_inv h ch" using assms by (rule ConsistentHash_reach_inv)
  then show ?thesis using ch_inv_nodes ch_RingSize by (auto simp: ch_inv_def)
qed

definition example_ring :: ConsistentHash where
  "example_ring =
     ConsistentHash_Add (sort_key rn_hash) example_heap 1
       (ConsistentHash_Add (sort_key rn_hash) example_heap 0 (NewConsistentHash 1))"

lemma example_ring_eq [code]:
  "example_ring =
     \<lparr>ch_nodes = [\<lparr>rn_hash = 2528281062, rn_backend = ''b1''\<rparr>, \<lparr>rn_hash = 2540760017, rn_backend = ''b0''\<rparr>],
      ch_backends = [(''b0'', 0), (''b1'', 1)], ch_vnodes = 1\<rparr>"
  by code_simp

theorem ConsistentHash_ring_complete_witness:
  "ConsistentHash_RingSize example_ring = 2"
proof -
  have "ConsistentHash_reach (sort_key rn_hash) example_heap example_ring"
    by (simp add: example_ring_def ConsistentHash_reach.intros)
  from ConsistentHash_ring_complete [OF ring_sort.slice_sort_axioms this]
  have "ConsistentHash_RingSize example_ring =
      nat (ch_vnodes example_ring) * ConsistentHash_BackendCount example_ring" by blast
  moreover have "nat (ch_vnodes example_ring) * ConsistentHash_BackendCount example_ring = 2" by code_simp
  ultimately show ?thesis by simp
qed

text \<open>
  C27. Minimal disruption of \<^verbatim>\<open>Remove\<close>: a client whose requests the ring sends to a backend other
  than the removed one is sent to the same backend afterwards, whatever the availability of the
  backends and however the sort orders equal hashes.
\<close>

theorem ConsistentHash_Remove_minimal:
  assumes srt: "slice_sort srt rn_hash" and reach: "ConsistentHash_reach srt h ch"
    and ids: "distinct (tracked_ids h bs)" and ne: "'''' \<notin> fst ` set (ch_backends ch)"
    and key: "ctx_key ctx \<noteq> ''''"
    and sel: "fst (ConsistentHash_Next ctx h bs ch) = Some r" and r: "ref_ID h r \<noteq> i"
  shows "fst (ConsistentHash_Next ctx h (filter (\<lambda>b. ref_ID h b \<noteq> i) bs) (ConsistentHash_Remove h i ch)) = Some r"
proof -
  have inv: "ch_inv h ch" using srt reach by (rule ConsistentHash_reach_inv)
  have s: "sorted (map rn_hash (ch_nodes ch))" using inv by (simp add: ch_inv_def)
  have nn: "\<forall>n\<in>set (ch_nodes ch). rn_backend n \<noteq> ''''" using ch_inv_nodes [OF inv] ne by metis
  have sel': "ConsistentHash_NextWithKey h bs (ctx_key ctx) ch = Some r"
    using sel key by (simp add: ConsistentHash_Next_def Let_def split: if_splits)
  then have "filter (\<lambda>b. ref_ID h b \<noteq> i) bs \<noteq> []"
    using r ConsistentHash_Next_mem by (metis (mono_tags, lifting) filter_empty_conv)
  moreover have "ConsistentHash_NextWithKey h (filter (\<lambda>b. ref_ID h b \<noteq> i) bs) (ctx_key ctx)
      (ConsistentHash_removeLocked i ch) = Some r"
    by (rule NextWithKey_removeLocked [OF s ids nn sel' r])
  ultimately show ?thesis using key by (simp add: ConsistentHash_Next_def ConsistentHash_Remove_def Let_def)
qed

theorem ConsistentHash_Remove_minimal_witness:
  "fst (ConsistentHash_Next (Some \<lparr>ctx_ClientIP = ''k'', ctx_Request = None\<rparr>) example_heap
     (filter (\<lambda>b. ref_ID example_heap b \<noteq> ''b0'') [0, 1])
     (ConsistentHash_Remove example_heap ''b0'' example_ring)) = Some 1"
proof (rule ConsistentHash_Remove_minimal [OF ring_sort.slice_sort_axioms])
  show "ConsistentHash_reach (sort_key rn_hash) example_heap example_ring"
    by (simp add: example_ring_def ConsistentHash_reach.intros)
qed code_simp+

text \<open>
  Minimal disruption of \<^verbatim>\<open>Add\<close>: if no two nodes of the new ring share a hash, a client that
  is not sent to the added backend is sent where it was sent before.
\<close>

theorem ConsistentHash_Add_minimal:
  assumes srt: "slice_sort srt rn_hash" and reach: "ConsistentHash_reach srt h ch"
    and ids: "distinct (tracked_ids h (bs @ [b]))" and ne: "'''' \<notin> fst ` set (ch_backends ch)"
    and nb: "ref_ID h b \<noteq> ''''" and fresh: "ref_ID h b \<notin> fst ` set (ch_backends ch)"
    and inj: "inj_on rn_hash (set (ch_nodes ch) \<union> set (ch_vnode_list (ch_vnodes ch) (ref_ID h b)))"
    and key: "ctx_key ctx \<noteq> ''''"
    and sel: "fst (ConsistentHash_Next ctx h (bs @ [b]) (ConsistentHash_Add srt h b ch)) = Some r" and r: "r \<noteq> b"
  shows "fst (ConsistentHash_Next ctx h bs ch) = Some r"
proof -
  let ?i = "ref_ID h b" and ?ch = "ConsistentHash_Add srt h b ch"
  have inv: "ch_inv h ch" "ch_inv h ?ch"
    using ConsistentHash_reach_inv [OF srt] reach ConsistentHash_reach.add by blast+
  have keys: "fst ` set (ch_backends ?ch) = insert ?i (fst ` set (ch_backends ch))"
    using fresh by (auto simp: ConsistentHash_Add_def ConsistentHash_removeLocked_def Let_def gomap)
  have sel': "ConsistentHash_NextWithKey h (bs @ [b]) (ctx_key ctx) ?ch = Some r"
    using sel key by (simp add: ConsistentHash_Next_def Let_def split: if_splits)
  then have mem: "r \<in> set bs" using r ConsistentHash_Next_mem by fastforce
  have rb: "ref_ID h r \<noteq> ?i" using ids mem by (auto simp: image_iff)
  have bs: "filter (\<lambda>x. ref_ID h x \<noteq> ?i) (bs @ [b]) = bs"
    using ids by (auto simp: filter_id_conv intro: rev_image_eqI)
  have sorted: "sorted (map rn_hash (ch_nodes ?ch))" "sorted (map rn_hash (ch_nodes ch))"
    using inv by (auto simp: ch_inv_def)
  have nodes: "ch_nodes (ConsistentHash_removeLocked ?i ?ch) = ch_nodes ch"
    using fresh ch_inv_nodes [OF inv(1)] by (intro removeLocked_Add srt sorted inj) force
  have nn: "\<forall>n\<in>set (ch_nodes ?ch). rn_backend n \<noteq> ''''"
    using ch_inv_nodes [OF inv(2)] keys ne nb by (metis insertE)
  have "ConsistentHash_NextWithKey h bs (ctx_key ctx) (ConsistentHash_removeLocked ?i ?ch) = Some r"
    using NextWithKey_removeLocked [OF sorted(1) ids nn sel' rb] unfolding bs .
  then have "ConsistentHash_NextWithKey h bs (ctx_key ctx) ch = Some r"
    using NextWithKey_cong [OF nodes] by simp
  with mem key show ?thesis by (auto simp: ConsistentHash_Next_def Let_def)
qed

theorem ConsistentHash_Add_minimal_witness:
  "fst (ConsistentHash_Next (Some \<lparr>ctx_ClientIP = ''l'', ctx_Request = None\<rparr>) example_heap [0, 1] example_ring) = Some 1"
proof (rule ConsistentHash_Add_minimal [OF ring_sort.slice_sort_axioms])
  show "ConsistentHash_reach (sort_key rn_hash) example_heap example_ring"
    by (simp add: example_ring_def ConsistentHash_reach.intros)
  show "fst (ConsistentHash_Next (Some \<lparr>ctx_ClientIP = ''l'', ctx_Request = None\<rparr>) example_heap ([0, 1] @ [2])
     (ConsistentHash_Add (sort_key rn_hash) example_heap 2 example_ring)) = Some 1"
    by code_simp
  have "map rn_hash (ch_nodes example_ring @ ch_vnode_list (ch_vnodes example_ring) (ref_ID example_heap 2)) =
      [2528281062, 2540760017, 2499035071]" by code_simp
  then have "distinct (map rn_hash (ch_nodes example_ring @
      ch_vnode_list (ch_vnodes example_ring) (ref_ID example_heap 2)))" by simp
  then show "inj_on rn_hash (set (ch_nodes example_ring) \<union>
      set (ch_vnode_list (ch_vnodes example_ring) (ref_ID example_heap 2)))"
    unfolding distinct_map set_append by (rule conjunct2)
qed code_simp+

section \<open>The weighted ring\<close>

record ringHashNode =
  rhn_hash :: "32 word"
  rhn_backendID :: string

record RingHash =
  rh_ring :: "ringHashNode list"
  rh_backends :: "(string, bref) gomap"
  rh_vnodes :: int
  rh_hashFunc :: "string \<Rightarrow> 32 word"
  rh_counter :: "64 word"

definition DefaultRingVirtualNodes :: int where
  "DefaultRingVirtualNodes = 150"

definition defaultRingHashFunc :: "string \<Rightarrow> 32 word" where
  "defaultRingHashFunc data = fnv32a data"

definition NewRingHashWithConfig :: "int \<Rightarrow> (string \<Rightarrow> 32 word) option \<Rightarrow> RingHash" where
  "NewRingHashWithConfig vnodes hashFunc =
     \<lparr>rh_ring = [], rh_backends = [],
      rh_vnodes = (if vnodes \<le> 0 then DefaultRingVirtualNodes else vnodes),
      rh_hashFunc = (case hashFunc of None \<Rightarrow> defaultRingHashFunc | Some f \<Rightarrow> f),
      rh_counter = 0\<rparr>"

definition NewRingHash :: RingHash where
  "NewRingHash = NewRingHashWithConfig DefaultRingVirtualNodes None"

definition RingHash_generateKey :: "RingHash \<Rightarrow> string \<times> RingHash" where
  "RingHash_generateKey rh =
     (let counter = rh_counter rh + 1
      in (''request-'' @ nat_dec (unat counter), rh\<lparr>rh_counter := counter\<rparr>))"

definition RingHash_findNextAvailable :: "heap \<Rightarrow> nat \<Rightarrow> bref list \<Rightarrow> RingHash \<Rightarrow> bref option" where
  "RingHash_findNextAvailable h startIdx backends rh =
     (if rh_ring rh = [] then None
      else let available = map (ref_ID h) (filter (\<lambda>b. Backend_IsAvailable (h b)) backends);
               n = length (rh_ring rh)
           in if available = [] then None
              else find_map (\<lambda>i. let bid = rhn_backendID (rh_ring rh ! ((startIdx + i) mod n))
                                in if bid \<in> set available then find (\<lambda>b. ref_ID h b = bid) backends else None)
                     [0..<n])"

definition RingHash_Next ::
  "RequestContext option \<Rightarrow> heap \<Rightarrow> bref list \<Rightarrow> RingHash \<Rightarrow> bref option \<times> RingHash" where
  "RingHash_Next ctx h backends rh =
     (if rh_ring rh = [] \<or> backends = [] then (None, rh)
      else let (key, rh) = (if ctx_key ctx = '''' then RingHash_generateKey rh else (ctx_key ctx, rh));
               idx = ring_search rhn_hash (rh_hashFunc rh key) (rh_ring rh);
               backendID = rhn_backendID (rh_ring rh ! idx)
           in (case find_available h backends backendID of
                 Some b \<Rightarrow> (Some b, rh)
               | None \<Rightarrow> (RingHash_findNextAvailable h idx backends rh, rh)))"

definition rh_vnode_list :: "heap \<Rightarrow> RingHash \<Rightarrow> bref \<Rightarrow> ringHashNode list" where
  "rh_vnode_list h rh b =
     (let weight = b_weight (h b);
          weight = (if weight \<le> 0 then 1 else weight);
          numVNodes = min (wrap_i64 (rh_vnodes rh * weight)) 10000
      in map (\<lambda>k. \<lparr>rhn_hash = rh_hashFunc rh (ref_ID h b @ ''#'' @ intToStr (int k)), rhn_backendID = ref_ID h b\<rparr>)
           [0..<nat numVNodes])"

definition RingHash_rebuildRing ::
  "(ringHashNode list \<Rightarrow> ringHashNode list) \<Rightarrow> heap \<Rightarrow> RingHash \<Rightarrow> RingHash" where
  "RingHash_rebuildRing srt h rh =
     rh\<lparr>rh_ring := srt (concat (map (\<lambda>(_, b). rh_vnode_list h rh b) (rh_backends rh)))\<rparr>"

definition RingHash_Add ::
  "(ringHashNode list \<Rightarrow> ringHashNode list) \<Rightarrow> heap \<Rightarrow> bref \<Rightarrow> RingHash \<Rightarrow> RingHash" where
  "RingHash_Add srt h b rh =
     (case map_of (rh_backends rh) (ref_ID h b) of
        Some _ \<Rightarrow> rh
      | None \<Rightarrow> RingHash_rebuildRing srt h (rh\<lparr>rh_backends := AList.update (ref_ID h b) b (rh_backends rh)\<rparr>))"

definition RingHash_Remove ::
  "(ringHashNode list \<Rightarrow> ringHashNode list) \<Rightarrow> heap \<Rightarrow> string \<Rightarrow> RingHash \<Rightarrow> RingHash" where
  "RingHash_Remove srt h i rh =
     (case map_of (rh_backends rh) i of
        None \<Rightarrow> rh
      | Some _ \<Rightarrow> RingHash_rebuildRing srt h (rh\<lparr>rh_backends := AList.delete i (rh_backends rh)\<rparr>))"

definition RingHash_Update ::
  "(ringHashNode list \<Rightarrow> ringHashNode list) \<Rightarrow> heap \<Rightarrow> bref \<Rightarrow> RingHash \<Rightarrow> RingHash" where
  "RingHash_Update srt h b rh =
     (case map_of (rh_backends rh) (ref_ID h b) of
        None \<Rightarrow> rh
      | Some oldBackend \<Rightarrow>
          let rh' = rh\<lparr>rh_backends := AList.update (ref_ID h b) b (rh_backends rh)\<rparr>
          in if b_weight (h oldBackend) \<noteq> b_weight (h b) then RingHash_rebuildRing srt h rh' else rh')"

definition RingHash_methods :: "(ringHashNode list \<Rightarrow> ringHashNode list) \<Rightarrow> RingHash Balancer" where
  "RingHash_methods srt =
     \<lparr>bal_Next = RingHash_Next, bal_Add = RingHash_Add srt,
      bal_Remove = RingHash_Remove srt, bal_Update = RingHash_Update srt\<rparr>"

interpretation weighted_ring_sort: slice_sort "sort_key rhn_hash" rhn_hash
  by unfold_locales simp_all

text \<open>A ring that is up to date with the registered backends and their weights in the heap.\<close>

definition rh_inv :: "heap \<Rightarrow> RingHash \<Rightarrow> bool" where
  "rh_inv h rh \<longleftrightarrow>
     gomap_wf (rh_backends rh) \<and> (\<forall>(k, b) \<in> set (rh_backends rh). ref_ID h b = k) \<and>
     sorted (map rhn_hash (rh_ring rh)) \<and>
     mset (rh_ring rh) = mset (concat (map (\<lambda>(_, b). rh_vnode_list h rh b) (rh_backends rh)))"

lemma rh_vnode_list_backend [simp]: "n \<in> set (rh_vnode_list h rh b) \<Longrightarrow> rhn_backendID n = ref_ID h b"
  by (auto simp: rh_vnode_list_def Let_def)

lemma rh_vnode_list_upd [simp]:
  "rh_vnode_list h (rh\<lparr>rh_backends := m\<rparr>) b = rh_vnode_list h rh b"
  "rh_vnode_list h (rh\<lparr>rh_ring := r\<rparr>) b = rh_vnode_list h rh b"
  by (simp_all add: rh_vnode_list_def)

lemma rebuildRing_inv:
  assumes srt: "slice_sort srt rhn_hash" and "gomap_wf (rh_backends rh)"
    and "\<forall>(k, b) \<in> set (rh_backends rh). ref_ID h b = k"
  shows "rh_inv h (RingHash_rebuildRing srt h rh)"
  using assms(2,3)
  by (simp add: rh_inv_def RingHash_rebuildRing_def slice_sort.mset_srt [OF srt] slice_sort.sorted_srt [OF srt])

lemma RingHash_Add_inv:
  assumes srt: "slice_sort srt rhn_hash" and inv: "rh_inv h rh"
  shows "rh_inv h (RingHash_Add srt h b rh)"
proof (cases "map_of (rh_backends rh) (ref_ID h b)")
  case None
  then have "AList.update (ref_ID h b) b (rh_backends rh) = rh_backends rh @ [(ref_ID h b, b)]"
    by (intro update_new_append) (simp add: map_of_eq_None_iff)
  moreover have "rh_inv h (RingHash_rebuildRing srt h (rh\<lparr>rh_backends := rh_backends rh @ [(ref_ID h b, b)]\<rparr>))"
    using inv None by (intro rebuildRing_inv [OF srt]) (auto simp: rh_inv_def map_of_eq_None_iff)
  ultimately show ?thesis using None by (simp add: RingHash_Add_def)
qed (simp add: RingHash_Add_def inv)

lemma RingHash_Remove_inv:
  assumes srt: "slice_sort srt rhn_hash" and inv: "rh_inv h rh"
  shows "rh_inv h (RingHash_Remove srt h i rh)"
proof (cases "map_of (rh_backends rh) i")
  case (Some x)
  have "rh_inv h (RingHash_rebuildRing srt h (rh\<lparr>rh_backends := AList.delete i (rh_backends rh)\<rparr>))"
    using inv set_delete_subset [of i "rh_backends rh"]
    by (intro rebuildRing_inv [OF srt]) (auto simp: rh_inv_def gomap)
  with Some show ?thesis by (simp add: RingHash_Remove_def)
qed (simp add: RingHash_Remove_def inv)

lemma RingHash_find_eq:
  assumes "distinct (tracked_ids h bs)"
  shows "(if i \<in> set (map (ref_ID h) (filter (\<lambda>b. Backend_IsAvailable (h b)) bs))
          then find (\<lambda>b. ref_ID h b = i) bs else None) = find_available h bs i"
  using assms
proof (induction bs)
  case (Cons b bs)
  then show ?case
    by (cases "ref_ID h b = i") (auto simp: find_available_def find_None_iff intro: rev_image_eqI)
qed (simp add: find_available_def)

lemma RingHash_findNextAvailable_eq:
  assumes s: "sorted (map rhn_hash (rh_ring rh))" and ids: "distinct (tracked_ids h bs)"
  shows "RingHash_findNextAvailable h (ring_search rhn_hash x (rh_ring rh)) bs rh =
    ring_pick h bs rhn_backendID (ring_order rhn_hash x (rh_ring rh))"
proof (cases "rh_ring rh = [] \<or> filter (\<lambda>b. Backend_IsAvailable (h b)) bs = []")
  case True
  then have "ring_pick h bs rhn_backendID (ring_order rhn_hash x (rh_ring rh)) = None"
    by (auto simp: ring_pick_def find_map_None find_available_None filter_empty_conv)
  with True show ?thesis by (auto simp: RingHash_findNextAvailable_def)
next
  case False
  let ?ring = "rh_ring rh" and ?i = "ring_search rhn_hash x (rh_ring rh)"
  have "RingHash_findNextAvailable h ?i bs rh =
      find_map (\<lambda>n. find_available h bs (rhn_backendID n))
        (map (\<lambda>i. ?ring ! ((?i + i) mod length ?ring)) [0..<length ?ring])"
    using False unfolding RingHash_findNextAvailable_def find_map_map RingHash_find_eq [OF ids, symmetric]
    by (simp add: Let_def)
  then show ?thesis
    using False by (simp add: scan_from_index rotate_ring_search [OF s] ring_pick_def)
qed

lemma RingHash_Next_eq_ring_pick:
  assumes s: "sorted (map rhn_hash (rh_ring rh))" and ids: "distinct (tracked_ids h bs)"
    and key: "ctx_key ctx \<noteq> ''''"
  shows "RingHash_Next ctx h bs rh =
    (ring_pick h bs rhn_backendID (ring_order rhn_hash (rh_hashFunc rh (ctx_key ctx)) (rh_ring rh)), rh)"
proof (cases "rh_ring rh = [] \<or> bs = []")
  case True
  then have "ring_pick h bs rhn_backendID (ring_order rhn_hash (rh_hashFunc rh (ctx_key ctx)) (rh_ring rh)) = None"
    by (auto simp: ring_pick_def find_map_None find_available_None)
  with True show ?thesis by (auto simp: RingHash_Next_def)
next
  case False
  let ?x = "rh_hashFunc rh (ctx_key ctx)"
  let ?o = "ring_order rhn_hash ?x (rh_ring rh)" and ?n = "rh_ring rh ! ring_search rhn_hash ?x (rh_ring rh)"
  have hd: "?o = ?n # tl ?o" using False by (intro hd_ring_order [OF s]) simp
  have "ring_pick h bs rhn_backendID ?o =
      (case find_available h bs (rhn_backendID ?n) of
         Some b \<Rightarrow> Some b | None \<Rightarrow> ring_pick h bs rhn_backendID ?o)"
    unfolding ring_pick_def by (subst (1 2) hd) (simp split: option.split)
  with False key RingHash_findNextAvailable_eq [OF s ids, of ?x] show ?thesis
    by (auto simp: RingHash_Next_def Let_def split: option.splits)
qed

lemma RingHash_Next_mem:
  assumes "RingHash_Next ctx h bs rh = (Some r, rh')"
  shows "r \<in> set bs"
proof -
  have f: "find_map (\<lambda>i. if P i then find (Q i) bs else None) xs = Some r \<Longrightarrow> r \<in> set bs"
    for P :: "nat \<Rightarrow> bool" and Q xs
    by (auto dest!: find_map_SomeD find_SomeD split: if_splits)
  show ?thesis
    using assms
    by (auto simp: RingHash_Next_def RingHash_findNextAvailable_def Let_def case_prod_beta
        split: if_splits option.splits dest: find_available_SomeD f)
qed

definition rh_ready :: "RequestContext option \<Rightarrow> heap \<Rightarrow> bref list \<Rightarrow> RingHash \<Rightarrow> bool" where
  "rh_ready ctx h bs rh \<longleftrightarrow>
     ctx_key ctx \<noteq> '''' \<and> sorted (map rhn_hash (rh_ring rh)) \<and> distinct (tracked_ids h bs) \<and>
     (\<exists>b\<in>set bs. Backend_IsAvailable (h b) \<and> ref_ID h b \<in> rhn_backendID ` set (rh_ring rh))"

interpretation rh: live_balancer "RingHash_methods srt" rh_ready
proof unfold_locales
  fix ctx h s r s' and bs :: "bref list"
  assume "bal_Next (RingHash_methods srt) ctx h bs s = (Some r, s')"
  then show "r \<in> set bs" using RingHash_Next_mem by (simp add: RingHash_methods_def)
next
  fix ctx h s and bs :: "bref list"
  assume r: "rh_ready ctx h bs s"
  then obtain b n where b: "b \<in> set bs" "Backend_IsAvailable (h b)" "n \<in> set (rh_ring s)" "rhn_backendID n = ref_ID h b"
    by (auto simp: rh_ready_def)
  then have "find_available h bs (rhn_backendID n) \<noteq> None" unfolding find_available_None by auto
  with b(3) have "ring_pick h bs rhn_backendID (ring_order rhn_hash x (rh_ring s)) \<noteq> None" for x
    unfolding ring_pick_def find_map_None by auto
  with r show "fst (bal_Next (RingHash_methods srt) ctx h bs s) \<noteq> None"
    by (simp add: RingHash_methods_def rh_ready_def RingHash_Next_eq_ring_pick)
qed (simp add: RingHash_methods_def RingHash_Next_def)

lemma RingHash_Remove_ring:
  assumes srt: "slice_sort srt rhn_hash" and inv: "rh_inv h rh" and inj: "inj_on rhn_hash (set (rh_ring rh))"
  shows "rh_ring (RingHash_Remove srt h i rh) = filter (\<lambda>n. rhn_backendID n \<noteq> i) (rh_ring rh)"
proof -
  let ?V = "\<lambda>m. concat (map (\<lambda>(_, b). rh_vnode_list h rh b) m)"
  have del: "filter (\<lambda>n. rhn_backendID n \<noteq> i) (?V m) = ?V (AList.delete i m)"
    if "\<forall>(k, b) \<in> set m. ref_ID h b = k" for m
    using that
  proof (induction m)
    case (Cons a m)
    obtain k b where a: "a = (k, b)" "ref_ID h b = k" using Cons.prems by (cases a) auto
    then have "filter (\<lambda>n. rhn_backendID n \<noteq> i) (rh_vnode_list h rh b) = (if k = i then [] else rh_vnode_list h rh b)"
      by (auto simp: filter_empty_conv filter_id_conv)
    with Cons a show ?case by simp
  qed simp
  have ids: "\<forall>(k, b) \<in> set (rh_backends rh). ref_ID h b = k" using inv by (simp add: rh_inv_def)
  let ?r = "filter (\<lambda>n. rhn_backendID n \<noteq> i) (rh_ring rh)"
  have m: "mset ?r = mset (?V (AList.delete i (rh_backends rh)))"
    unfolding del [OF ids, symmetric] mset_filter using inv by (auto simp only: rh_inv_def)
  have s: "sorted (map rhn_hash ?r)" using inv unfolding rh_inv_def by (auto intro: sorted_filter)
  have "set (?V (AList.delete i (rh_backends rh))) \<subseteq> set (rh_ring rh)"
    using mset_eq_setD [OF m] by auto
  then have "inj_on rhn_hash (set (?V (AList.delete i (rh_backends rh))))"
    using inj by (rule inj_on_subset [rotated])
  then have eq: "srt (?V (AList.delete i (rh_backends rh))) = ?r"
    using m s by (intro slice_sort.srt_unique [OF srt])
  show ?thesis
  proof (cases "map_of (rh_backends rh) i")
    case None
    then have "AList.delete i (rh_backends rh) = rh_backends rh"
      by (simp add: map_of_eq_None_iff AList.delete_id)
    then have "set ?r = set (rh_ring rh)"
      using m inv unfolding rh_inv_def by (metis mset_eq_setD)
    then have "?r = rh_ring rh" by (auto simp: filter_id_conv)
    with None show ?thesis by (simp add: RingHash_Remove_def)
  next
    case (Some b)
    then show ?thesis using eq by (simp add: RingHash_Remove_def RingHash_rebuildRing_def)
  qed
qed

text \<open>
  Minimal disruption of the weighted ring: although \<^verbatim>\<open>Remove\<close> rebuilds the whole ring, a
  client that is not sent to the removed backend keeps its backend, provided the ring was up to
  date with the weights and no two of its nodes share a hash.
\<close>

theorem RingHash_Remove_minimal:
  assumes srt: "slice_sort srt rhn_hash" and inv: "rh_inv h rh" and inj: "inj_on rhn_hash (set (rh_ring rh))"
    and ids: "distinct (tracked_ids h bs)" and key: "ctx_key ctx \<noteq> ''''"
    and sel: "fst (RingHash_Next ctx h bs rh) = Some r" and r: "ref_ID h r \<noteq> i"
  shows "fst (RingHash_Next ctx h (filter (\<lambda>b. ref_ID h b \<noteq> i) bs) (RingHash_Remove srt h i rh)) = Some r"
proof -
  let ?x = "rh_hashFunc rh (ctx_key ctx)" and ?rh = "RingHash_Remove srt h i rh"
  have s: "sorted (map rhn_hash (rh_ring rh))" "sorted (map rhn_hash (rh_ring ?rh))"
    using inv RingHash_Remove_inv [OF srt inv, of i] by (simp_all add: rh_inv_def)
  have "ring_pick h bs rhn_backendID (ring_order rhn_hash ?x (rh_ring rh)) = Some r"
    using sel RingHash_Next_eq_ring_pick [OF s(1) ids key] by simp
  from ring_pick_remove [OF this r]
  have "ring_pick h (filter (\<lambda>b. ref_ID h b \<noteq> i) bs) rhn_backendID (ring_order rhn_hash ?x (rh_ring ?rh)) = Some r"
    using RingHash_Remove_ring [OF srt inv inj] by simp
  moreover have "rh_hashFunc ?rh = rh_hashFunc rh"
    by (simp add: RingHash_Remove_def RingHash_rebuildRing_def split: option.split)
  ultimately show ?thesis
    using RingHash_Next_eq_ring_pick [OF s(2) distinct_map_filter [OF ids] key] by simp
qed

definition example_weighted_ring :: RingHash where
  "example_weighted_ring =
     RingHash_Add (sort_key rhn_hash) example_heap 1
       (RingHash_Add (sort_key rhn_hash) example_heap 0 (NewRingHashWithConfig 1 None))"

lemma example_weighted_ring_inv: "rh_inv example_heap example_weighted_ring"
  unfolding example_weighted_ring_def
  by (intro RingHash_Add_inv weighted_ring_sort.slice_sort_axioms)
    (simp add: rh_inv_def NewRingHashWithConfig_def)

theorem RingHash_Remove_minimal_witness:
  "fst (RingHash_Next (Some \<lparr>ctx_ClientIP = ''k'', ctx_Request = None\<rparr>) example_heap
     (filter (\<lambda>b. ref_ID example_heap b \<noteq> ''b1'') [0, 1])
     (RingHash_Remove (sort_key rhn_hash) example_heap ''b1'' example_weighted_ring)) = Some 0"
proof (rule RingHash_Remove_minimal [OF weighted_ring_sort.slice_sort_axioms example_weighted_ring_inv])
  have "distinct (map rhn_hash (rh_ring example_weighted_ring))" by code_simp
  then show "inj_on rhn_hash (set (rh_ring example_weighted_ring))" unfolding distinct_map ..
qed code_simp+

end
