(* ===== verification/Bal_Maglev.thy ===== *)
theory Bal_Maglev
  imports Hash_Ring GoLib
begin

text \<open>
  \<^verbatim>\<open>internal/balancer/maglev.go\<close>: the lookup table that the permutations of the backends fill. The
  table size is a parameter of the operations; the code uses \<open>MaglevTableSize\<close>, and that it is
  prime is what makes every permutation reach every position.
\<close>

section \<open>The algorithm\<close>

definition MaglevTableSize :: nat where
  "MaglevTableSize = 65537"

record Maglev =
  ml_backends :: "bref list"
  ml_backendMap :: "(string, nat) gomap"
  ml_lookupTable :: "int list"
  ml_permutations :: "64 word list list"
  ml_needRebuild :: bool
  ml_counter :: "64 word"

definition NewMaglev :: "nat \<Rightarrow> Maglev" where
  "NewMaglev M =
     \<lparr>ml_backends = [], ml_backendMap = [], ml_lookupTable = replicate M 0, ml_permutations = [],
      ml_needRebuild = False, ml_counter = 0\<rparr>"

definition Maglev_hashKey :: "string \<Rightarrow> 64 word" where
  "Maglev_hashKey key = fnv64a key"

definition Maglev_computeHashPair :: "nat \<Rightarrow> string \<Rightarrow> 64 word \<times> 64 word" where
  "Maglev_computeHashPair M backendID =
     (let offset = fnv64a (backendID @ ''offset'') mod of_nat M;
          skip = fnv64a (backendID @ ''skip'') mod (of_nat M - 1)
      in (offset, if skip = 0 then 1 else skip))"

definition Maglev_generatePermutation :: "nat \<Rightarrow> string \<Rightarrow> 64 word list" where
  "Maglev_generatePermutation M i =
     (let (offset, skip) = Maglev_computeHashPair M i
      in map (\<lambda>k. (offset + of_nat k * skip) mod of_nat M) [0..<M])"

text \<open>The innermost loop moves a backend's cursor to its next free position.\<close>

function ml_advance :: "nat \<Rightarrow> int list \<Rightarrow> 64 word list \<Rightarrow> nat \<Rightarrow> nat" where
  "ml_advance M tbl perm k =
     (if k < M then if tbl ! unat (perm ! k) = -1 then k else ml_advance M tbl perm (Suc k) else k)"
  by pat_completeness auto
termination
  by (relation "measure (\<lambda>(M, _, _, k). M - k)") auto

declare ml_advance.simps [simp del]

definition ml_scan ::
  "nat \<Rightarrow> int list \<Rightarrow> 64 word list list \<Rightarrow> 64 word \<times> int \<times> nat list \<Rightarrow> nat \<Rightarrow> 64 word \<times> int \<times> nat list" where
  "ml_scan M tbl perms acc j =
     (case acc of (minPos, minBackend, next) \<Rightarrow>
        let k = ml_advance M tbl (perms ! j) (next ! j);
            next = next[j := k]
        in if k < M \<and> perms ! j ! k < minPos then (perms ! j ! k, int j, next)
           else (minPos, minBackend, next))"

definition ml_fill :: "nat \<Rightarrow> 64 word list list \<Rightarrow> int list \<times> nat list \<Rightarrow> int list \<times> nat list" where
  "ml_fill M perms st =
     (case st of (tbl, next) \<Rightarrow>
        let (minPos, minBackend, next) = foldl (ml_scan M tbl perms) (NOT 0, -1, next) [0..<length perms]
        in if minBackend \<ge> 0
           then (tbl[unat minPos := minBackend],
                 next[nat minBackend := Suc (next ! nat minBackend)])
           else (tbl, next))"

definition Maglev_rebuildLocked :: "nat \<Rightarrow> heap \<Rightarrow> Maglev \<Rightarrow> Maglev" where
  "Maglev_rebuildLocked M h m =
     (if \<not> ml_needRebuild m then m
      else if ml_backends m = []
      then m\<lparr>ml_lookupTable := map (\<lambda>_. -1) (ml_lookupTable m), ml_needRebuild := False\<rparr>
      else let perms = map (\<lambda>b. Maglev_generatePermutation M (ref_ID h b)) (ml_backends m);
               (tbl, _) = (ml_fill M perms ^^ M)
                            (map (\<lambda>_. -1) (ml_lookupTable m), replicate (length (ml_backends m)) 0)
           in m\<lparr>ml_permutations := perms, ml_lookupTable := tbl, ml_needRebuild := False\<rparr>)"

definition Maglev_generateKey :: "Maglev \<Rightarrow> string \<times> Maglev" where
  "Maglev_generateKey m =
     (let counter = ml_counter m + 1
      in (''request-'' @ nat_dec (unat counter), m\<lparr>ml_counter := counter\<rparr>))"

definition Maglev_findNextAvailable :: "nat \<Rightarrow> heap \<Rightarrow> nat \<Rightarrow> bref list \<Rightarrow> Maglev \<Rightarrow> bref option" where
  "Maglev_findNextAvailable M h startPos backends m =
     (if ml_backends m = [] then None
      else let available = map (ref_ID h) (filter (\<lambda>b. Backend_IsAvailable (h b)) backends)
           in if available = [] then None
              else find_map (\<lambda>i. let idx = ml_lookupTable m ! ((startPos + i) mod M)
                                in if 0 \<le> idx \<and> idx < int (length (ml_backends m))
                                   then let bid = ref_ID h (ml_backends m ! nat idx)
                                        in if bid \<in> set available then find (\<lambda>b. ref_ID h b = bid) backends else None
                                   else None)
                     [0..<M])"

definition Maglev_Next ::
  "nat \<Rightarrow> RequestContext option \<Rightarrow> heap \<Rightarrow> bref list \<Rightarrow> Maglev \<Rightarrow> bref option \<times> Maglev" where
  "Maglev_Next M ctx h backends m =
     (if ml_backends m = [] \<or> backends = [] then (None, m)
      else let m = (if ml_needRebuild m then Maglev_rebuildLocked M h m else m);
               (key, m) = (if ctx_key ctx = '''' then Maglev_generateKey m else (ctx_key ctx, m));
               pos = unat (Maglev_hashKey key mod of_nat M);
               backendIdx = ml_lookupTable m ! pos
           in if backendIdx < 0 \<or> int (length (ml_backends m)) \<le> backendIdx then (None, m)
              else (case find_available h backends (ref_ID h (ml_backends m ! nat backendIdx)) of
                      Some b \<Rightarrow> (Some b, m)
                    | None \<Rightarrow> (Maglev_findNextAvailable M h pos backends m, m)))"

definition Maglev_Add :: "nat \<Rightarrow> heap \<Rightarrow> bref \<Rightarrow> Maglev \<Rightarrow> Maglev" where
  "Maglev_Add M h b m =
     (case map_of (ml_backendMap m) (ref_ID h b) of
        Some idx \<Rightarrow> m\<lparr>ml_backends := (ml_backends m)[idx := b], ml_needRebuild := True\<rparr>
      | None \<Rightarrow>
          m\<lparr>ml_backendMap := AList.update (ref_ID h b) (length (ml_backends m)) (ml_backendMap m),
            ml_backends := ml_backends m @ [b],
            ml_permutations := ml_permutations m @ [Maglev_generatePermutation M (ref_ID h b)],
            ml_needRebuild := True\<rparr>)"

definition Maglev_Remove :: "heap \<Rightarrow> string \<Rightarrow> Maglev \<Rightarrow> Maglev" where
  "Maglev_Remove h i m =
     (case map_of (ml_backendMap m) i of
        None \<Rightarrow> m
      | Some idx \<Rightarrow>
          let backends = take idx (ml_backends m) @ drop (Suc idx) (ml_backends m)
          in m\<lparr>ml_backends := backends,
               ml_permutations := take idx (ml_permutations m) @ drop (Suc idx) (ml_permutations m),
               ml_backendMap := foldl (\<lambda>bm (j, b). AList.update (ref_ID h b) j bm)
                                  (AList.delete i (ml_backendMap m)) (enumerate 0 backends),
               ml_needRebuild := True\<rparr>)"

definition Maglev_Update :: "heap \<Rightarrow> bref \<Rightarrow> Maglev \<Rightarrow> Maglev" where
  "Maglev_Update h b m =
     (case map_of (ml_backendMap m) (ref_ID h b) of
        None \<Rightarrow> m
      | Some idx \<Rightarrow> m\<lparr>ml_backends := (ml_backends m)[idx := b]\<rparr>)"

definition Maglev_methods :: "nat \<Rightarrow> Maglev Balancer" where
  "Maglev_methods M =
     \<lparr>bal_Next = Maglev_Next M, bal_Add = Maglev_Add M, bal_Remove = Maglev_Remove, bal_Update = Maglev_Update\<rparr>"

section \<open>Every permutation reaches every position\<close>

definition ml_size_ok :: "nat \<Rightarrow> bool" where
  "ml_size_ok M \<longleftrightarrow> 1 < M \<and> M * M < 2 ^ 63 \<and> (\<forall>s. 0 < s \<longrightarrow> s < M \<longrightarrow> coprime s M)"

lemma no_small_divisor_coprime:
  fixes M :: nat
  assumes small: "\<forall>d\<in>{2..<257}. \<not> d dvd M" and M: "M < 257 * 257" and s: "0 < s" "s < M"
  shows "coprime s M"
proof (rule ccontr)
  assume "\<not> coprime s M"
  then have g1: "gcd s M \<noteq> 1" by (simp add: coprime_iff_gcd_eq_1)
  obtain k where k: "M = gcd s M * k" using gcd_dvd2 dvdE by blast
  have g0: "gcd s M \<noteq> 0" using s by simp
  have "gcd s M \<le> s" using s by (intro gcd_le1_nat) simp
  with s k have "k \<noteq> 1" by (metis mult_1_right not_le)
  moreover have "k \<noteq> 0" using s k by (metis mult_0_right not_less_zero)
  ultimately have k1: "2 \<le> k" by simp
  have big: "257 \<le> d" if "2 \<le> d" "d dvd M" for d
    using that small by (meson atLeastLessThan_iff not_le)
  have "2 \<le> gcd s M" using g0 g1 by linarith
  then have "257 \<le> gcd s M" by (rule big) (rule gcd_dvd2)
  moreover have "257 \<le> k" using k1 by (rule big) (metis k dvd_triv_right)
  ultimately have "257 * 257 \<le> gcd s M * k" by (rule mult_le_mono)
  with k M show False by simp
qed

lemma MaglevTableSize_ok: "ml_size_ok MaglevTableSize"
proof -
  have i: "\<forall>d\<in>set [2..256]. \<not> d dvd (65537::int)" by code_simp
  have "\<not> d dvd (65537::nat)" if d: "d \<in> {2..<257}" for d
  proof -
    have "int d \<in> set [2..256]" using d unfolding set_upto by simp
    then have "\<not> int d dvd int 65537" using i by (metis of_nat_numeral)
    then show ?thesis by (simp only: int_dvd_int_iff not_False_eq_True)
  qed
  then have "coprime s 65537" if "0 < s" "s < 65537" for s :: nat
    using that by (intro no_small_divisor_coprime) simp_all
  then show ?thesis by (simp add: ml_size_ok_def MaglevTableSize_def)
qed

lemma ml_size_unat:
  assumes "ml_size_ok M"
  shows "unat (of_nat M :: 64 word) = M" and "unat (of_nat M - 1 :: 64 word) = M - 1"
proof -
  have "M * M < 2 ^ 63" using assms by (simp add: ml_size_ok_def)
  then have "M < 2 ^ 63" by (rule order_le_less_trans [OF le_square])
  then show 1: "unat (of_nat M :: 64 word) = M" by (simp add: unat_of_nat)
  have "(1 :: 64 word) \<le> of_nat M" using assms 1 by (simp add: word_le_nat_alt ml_size_ok_def)
  then show "unat (of_nat M - 1 :: 64 word) = M - 1" using 1 by (simp add: unat_sub)
qed

lemma affine_inj:
  fixes M s :: nat
  assumes "coprime s M" and "a < M" and "b < M" and "(q + a * s) mod M = (q + b * s) mod M"
  shows "a = b"
  using assms
proof (induction a b rule: linorder_wlog)
  case (le a b)
  then have "M dvd (q + b * s) - (q + a * s)"
    by (metis le_add2 mod_eq_dvd_iff_nat add_le_mono1 mult_le_mono1 nat_add_left_cancel_le)
  also have "(q + b * s) - (q + a * s) = (b - a) * s" by (simp add: diff_mult_distrib)
  finally have "M dvd b - a" using le.prems(1) by (simp add: coprime_dvd_mult_left_iff coprime_commute)
  with le show ?case by (metis diff_is_0_eq dual_order.antisym less_imp_diff_less nat_dvd_not_less neq0_conv)
next
  case (sym a b)
  then show ?case by metis
qed

lemma generatePermutation_surj:
  assumes M: "ml_size_ok M"
  shows "length (Maglev_generatePermutation M i) = M"
    and "\<forall>p\<in>set (Maglev_generatePermutation M i). unat p < M"
    and "\<forall>q<M. \<exists>k<M. unat (Maglev_generatePermutation M i ! k) = q"
proof -
  obtain off skip where hp: "Maglev_computeHashPair M i = (off, skip)" by (cases "Maglev_computeHashPair M i")
  have u: "unat (of_nat M :: 64 word) = M" "unat (of_nat M - 1 :: 64 word) = M - 1"
    by (rule ml_size_unat [OF M])+
  have M1: "1 < M" "M * M < 2 ^ 63" using M by (auto simp: ml_size_ok_def)
  have off: "unat off < M"
    using hp M1 u by (auto simp: Maglev_computeHashPair_def Let_def unat_mod)
  have skip: "0 < unat skip" "unat skip < M"
  proof -
    define z where "z = fnv64a (i @ ''skip'') mod (of_nat M - 1)"
    have sk: "skip = (if z = 0 then 1 else z)"
      using hp unfolding Maglev_computeHashPair_def Let_def z_def by (rule Pair_inject) (rule sym)
    have "unat z = unat (fnv64a (i @ ''skip'')) mod (M - 1)" unfolding z_def unat_mod u ..
    moreover have "\<dots> < M - 1" using M1 by (intro mod_less_divisor) simp
    ultimately have "unat z < M" by simp
    then show "0 < unat skip" "unat skip < M" using sk M1 by (auto simp: unat_gt_0)
  qed
  have nth: "unat (Maglev_generatePermutation M i ! k) = (unat off + k * unat skip) mod M" if "k < M" for k
  proof -
    have "k * unat skip \<le> M * M" using that skip by (intro mult_le_mono) auto
    moreover have "(2::nat) ^ 64 = 2 ^ 63 + 2 ^ 63" by simp
    ultimately have "unat off + k * unat skip < 2 ^ 64" using off M1(2) le_square [of M] by linarith
    moreover have "unat (of_nat k :: 64 word) = k"
    proof -
      have "k < 2 ^ 63" using that M1(2) le_square [of M] by linarith
      then show ?thesis by (simp add: unat_of_nat)
    qed
    ultimately have "unat (off + of_nat k * skip) = unat off + k * unat skip"
      by (simp add: unat_word_ariths mod_simps)
    then show ?thesis using that hp u by (simp add: Maglev_generatePermutation_def unat_mod)
  qed
  show len: "length (Maglev_generatePermutation M i) = M"
    by (simp add: Maglev_generatePermutation_def hp)
  show "\<forall>p\<in>set (Maglev_generatePermutation M i). unat p < M"
    using nth len M1 by (auto simp: in_set_conv_nth)
  let ?f = "\<lambda>k. (unat off + k * unat skip) mod M"
  have "inj_on ?f {..<M}"
    using affine_inj [of "unat skip" M] M skip unfolding inj_on_def ml_size_ok_def by blast
  moreover have "?f ` {..<M} \<subseteq> {..<M}" using M1 by auto
  ultimately have "?f ` {..<M} = {..<M}" by (intro endo_inj_surj) auto
  then show "\<forall>q<M. \<exists>k<M. unat (Maglev_generatePermutation M i ! k) = q"
    using nth by (metis (no_types, lifting) imageE lessThan_iff)
qed

section \<open>The table is filled\<close>

lemma ml_advance_spec:
  "k \<le> M \<Longrightarrow> k \<le> ml_advance M tbl perm k \<and> ml_advance M tbl perm k \<le> M \<and>
   (\<forall>i. k \<le> i \<and> i < ml_advance M tbl perm k \<longrightarrow> tbl ! unat (perm ! i) \<noteq> -1) \<and>
   (ml_advance M tbl perm k < M \<longrightarrow> tbl ! unat (perm ! ml_advance M tbl perm k) = -1)"
proof (induction M tbl perm k rule: ml_advance.induct)
  case (1 M tbl perm k)
  show ?case
  proof (cases "k < M \<and> tbl ! unat (perm ! k) \<noteq> -1")
    case True
    then have eq: "ml_advance M tbl perm k = ml_advance M tbl perm (Suc k)"
      by (simp add: ml_advance.simps [of M tbl perm k])
    have IH: "Suc k \<le> ml_advance M tbl perm (Suc k) \<and> ml_advance M tbl perm (Suc k) \<le> M \<and>
      (\<forall>i. Suc k \<le> i \<and> i < ml_advance M tbl perm (Suc k) \<longrightarrow> tbl ! unat (perm ! i) \<noteq> -1) \<and>
      (ml_advance M tbl perm (Suc k) < M \<longrightarrow> tbl ! unat (perm ! ml_advance M tbl perm (Suc k)) = -1)"
      using "1.IH" True by simp
    have "tbl ! unat (perm ! i) \<noteq> -1" if "k \<le> i" "i < ml_advance M tbl perm (Suc k)" for i
      using that IH True by (cases "i = k") auto
    with IH show ?thesis unfolding eq by auto
  next
    case False
    then have "ml_advance M tbl perm k = k" by (auto simp: ml_advance.simps [of M tbl perm k])
    with False "1.prems" show ?thesis by auto
  qed
qed

definition ml_perms_ok :: "nat \<Rightarrow> 64 word list list \<Rightarrow> bool" where
  "ml_perms_ok M perms \<longleftrightarrow>
     (\<forall>perm\<in>set perms. length perm = M \<and> (\<forall>p\<in>set perm. unat p < M) \<and> (\<forall>q<M. \<exists>k<M. unat (perm ! k) = q))"

definition ml_next_ok :: "nat \<Rightarrow> 64 word list list \<Rightarrow> int list \<Rightarrow> nat list \<Rightarrow> bool" where
  "ml_next_ok M perms tbl nxt \<longleftrightarrow>
     length nxt = length perms \<and>
     (\<forall>j<length perms. nxt ! j \<le> M \<and> (\<forall>k<nxt ! j. tbl ! unat (perms ! j ! k) \<noteq> -1))"

definition ml_fill_inv :: "nat \<Rightarrow> 64 word list list \<Rightarrow> int list \<times> nat list \<Rightarrow> bool" where
  "ml_fill_inv M perms st \<longleftrightarrow>
     length (fst st) = M \<and> (\<forall>v\<in>set (fst st). -1 \<le> v \<and> v < int (length perms)) \<and>
     ml_next_ok M perms (fst st) (snd st)"

definition ml_scan_inv ::
  "nat \<Rightarrow> int list \<Rightarrow> 64 word list list \<Rightarrow> nat \<Rightarrow> 64 word \<times> int \<times> nat list \<Rightarrow> bool" where
  "ml_scan_inv M tbl perms j acc \<longleftrightarrow>
     (case acc of (minPos, mb, nxt) \<Rightarrow>
        ml_next_ok M perms tbl nxt \<and>
        ((mb = -1 \<and> minPos = NOT 0 \<and> (j = 0 \<or> (-1 :: int) \<notin> set tbl)) \<or>
         (0 \<le> mb \<and> mb < int (length perms) \<and> nxt ! nat mb < M \<and>
          minPos = perms ! nat mb ! (nxt ! nat mb) \<and> unat minPos < M \<and> tbl ! unat minPos = -1)))"

lemma ml_scan_step:
  assumes M: "M < 2 ^ 63" and ok: "ml_perms_ok M perms" and len: "length tbl = M"
    and j: "j < length perms" and inv: "ml_scan_inv M tbl perms j acc"
    and fresh: "\<forall>mb. fst (snd acc) = mb \<longrightarrow> mb < int j"
  shows "ml_scan_inv M tbl perms (Suc j) (ml_scan M tbl perms acc j) \<and>
    fst (snd (ml_scan M tbl perms acc j)) < int (Suc j)"
proof -
  obtain minPos mb nxt where acc: "acc = (minPos, mb, nxt)" by (cases acc)
  have nxt: "ml_next_ok M perms tbl nxt" using inv acc by (simp add: ml_scan_inv_def)
  let ?k = "ml_advance M tbl (perms ! j) (nxt ! j)" and ?p = "perms ! j"
  have perm: "length ?p = M" "\<forall>p\<in>set ?p. unat p < M" "\<forall>q<M. \<exists>k<M. unat (?p ! k) = q"
    using ok j by (auto simp: ml_perms_ok_def)
  have "nxt ! j \<le> M" using nxt j by (simp add: ml_next_ok_def)
  note adv = ml_advance_spec [OF this, of tbl ?p]
  have filled: "\<forall>k<?k. tbl ! unat (?p ! k) \<noteq> -1"
    using adv nxt j unfolding ml_next_ok_def by (metis not_le)
  have nxt': "ml_next_ok M perms tbl (nxt[j := ?k])"
    using nxt j adv filled by (auto simp: ml_next_ok_def nth_list_update)
  have kp: "unat (?p ! ?k) < M" if "?k < M" using that perm by simp
  have max: "?p ! ?k < NOT 0" if "?k < M"
  proof -
    have "unat (?p ! ?k) < unat (NOT 0 :: 64 word)" using kp [OF that] M by (simp add: unsigned_minus_1_eq_mask mask_eq_exp_minus_1)
    then show ?thesis by (simp only: word_less_nat_alt)
  qed
  have full: "(-1 :: int) \<notin> set tbl" if "\<not> ?k < M"
  proof
    assume "(-1 :: int) \<in> set tbl"
    then obtain q where q: "q < M" "tbl ! q = -1" using len by (auto simp: in_set_conv_nth)
    then obtain k where "k < M" "unat (?p ! k) = q" using perm(3) by blast
    with filled q adv that show False by (metis le_antisym not_le)
  qed
  have mbj: "mb < int j" using fresh acc by simp
  show ?thesis
  proof (cases "?k < M \<and> ?p ! ?k < minPos")
    case True
    then show ?thesis
      using acc nxt' kp adv j nxt
      by (auto simp: ml_scan_def ml_scan_inv_def Let_def ml_next_ok_def)
  next
    case False
    have res: "ml_scan M tbl perms acc j = (minPos, mb, nxt[j := ?k])"
      using False acc by (auto simp: ml_scan_def Let_def)
    show ?thesis
    proof (cases "mb = -1")
      case True
      then have "minPos = NOT 0" using inv acc by (simp add: ml_scan_inv_def)
      then have "(-1 :: int) \<notin> set tbl" using False full max by auto
      with True \<open>minPos = NOT 0\<close> nxt' res mbj show ?thesis by (simp add: ml_scan_inv_def)
    next
      case mb: False
      then have "0 \<le> mb \<and> mb < int (length perms) \<and> nxt ! nat mb < M \<and>
          minPos = perms ! nat mb ! (nxt ! nat mb) \<and> unat minPos < M \<and> tbl ! unat minPos = -1"
        using inv acc by (auto simp: ml_scan_inv_def)
      moreover have "nat mb \<noteq> j" using mbj calculation by auto
      ultimately show ?thesis using nxt' res mbj by (auto simp: ml_scan_inv_def)
    qed
  qed
qed

lemma ml_scan_run:
  assumes M: "M < 2 ^ 63" and ok: "ml_perms_ok M perms" and len: "length tbl = M"
    and nxt: "ml_next_ok M perms tbl nxt" and "j \<le> length perms"
  shows "ml_scan_inv M tbl perms j (foldl (ml_scan M tbl perms) (NOT 0, -1, nxt) [0..<j]) \<and>
    fst (snd (foldl (ml_scan M tbl perms) (NOT 0, -1, nxt) [0..<j])) < int j"
  using assms(5)
proof (induction j)
  case 0
  then show ?case using nxt by (simp add: ml_scan_inv_def)
next
  case (Suc j)
  then show ?case using ml_scan_step [OF M ok len, of j] by simp
qed

lemma ml_fill_step:
  assumes M: "M < 2 ^ 63" and ok: "ml_perms_ok M perms" and ne: "perms \<noteq> []" and inv: "ml_fill_inv M perms st"
  shows "ml_fill_inv M perms (ml_fill M perms st) \<and>
    count_list (fst (ml_fill M perms st)) (-1) = count_list (fst st) (-1) - 1"
proof -
  obtain tbl nxt where st: "st = (tbl, nxt)" by (cases st)
  obtain minPos mb nxt' where r: "foldl (ml_scan M tbl perms) (NOT 0, -1, nxt) [0..<length perms] = (minPos, mb, nxt')"
    by (metis prod_cases3)
  have len: "length tbl = M" and nx: "ml_next_ok M perms tbl nxt" using inv st by (auto simp: ml_fill_inv_def)
  have s: "ml_scan_inv M tbl perms (length perms) (minPos, mb, nxt')"
    using ml_scan_run [OF M ok len nx, of "length perms"] r by simp
  show ?thesis
  proof (cases "mb \<ge> 0")
    case False
    then have "(-1 :: int) \<notin> set tbl" "ml_next_ok M perms tbl nxt'"
      using s ne by (auto simp: ml_scan_inv_def)
    moreover have "ml_fill M perms st = (tbl, nxt')" using False r st by (simp add: ml_fill_def)
    ultimately show ?thesis using inv st by (simp add: ml_fill_inv_def count_list_0_iff)
  next
    case True
    let ?t = "tbl[unat minPos := mb]" and ?j = "nat mb"
    have m: "mb < int (length perms)" "nxt' ! ?j < M" "minPos = perms ! ?j ! (nxt' ! ?j)" "unat minPos < M"
      "tbl ! unat minPos = -1" "ml_next_ok M perms tbl nxt'"
      using s True by (auto simp: ml_scan_inv_def)
    have f: "ml_fill M perms st = (?t, nxt'[?j := Suc (nxt' ! ?j)])"
      using True r st by (simp add: ml_fill_def)
    have t: "?t ! q \<noteq> -1" if "tbl ! q \<noteq> -1 \<or> q = unat minPos" for q
      using that True m(4) len by (cases "q = unat minPos") auto
    have "ml_next_ok M perms ?t (nxt'[?j := Suc (nxt' ! ?j)])"
      unfolding ml_next_ok_def
    proof (intro conjI allI impI)
      show "length (nxt'[?j := Suc (nxt' ! ?j)]) = length perms" using m(6) by (simp add: ml_next_ok_def)
      fix j assume j: "j < length perms"
      show "nxt'[?j := Suc (nxt' ! ?j)] ! j \<le> M"
        using m(2,6) j by (cases "j = ?j") (auto simp: ml_next_ok_def)
      fix k assume "k < nxt'[?j := Suc (nxt' ! ?j)] ! j"
      then have "k < nxt' ! j \<or> (j = ?j \<and> k = nxt' ! ?j)"
        using m(6) j by (cases "j = ?j") (auto simp: ml_next_ok_def)
      then show "?t ! unat (perms ! j ! k) \<noteq> -1"
        using m(3,6) j by (intro t) (auto simp: ml_next_ok_def)
    qed
    moreover have "\<forall>v\<in>set ?t. -1 \<le> v \<and> v < int (length perms)"
      using inv st True m(1) by (auto simp: ml_fill_inv_def dest!: set_update_subset_insert [THEN subsetD])
    moreover have "count_list ?t (-1) = count_list tbl (-1) - 1"
    proof -
      have "mset ?t = add_mset mb (mset tbl - {# -1 #})" using m(4,5) len by (simp add: mset_update)
      then have "count (mset ?t) (-1) = count (mset tbl) (-1) - 1" using True by simp
      then show ?thesis by (simp only: count_mset)
    qed
    ultimately show ?thesis using f len st by (simp add: ml_fill_inv_def)
  qed
qed

lemma ml_fill_all:
  assumes M: "ml_size_ok M" and ok: "ml_perms_ok M perms" and ne: "perms \<noteq> []"
    and len: "length tbl = M"
  shows "\<forall>v\<in>set (fst ((ml_fill M perms ^^ M) (map (\<lambda>_. -1) tbl, replicate (length perms) 0))).
           0 \<le> v \<and> v < int (length perms)"
    and "length (fst ((ml_fill M perms ^^ M) (map (\<lambda>_. -1) tbl, replicate (length perms) 0))) = M"
proof -
  let ?st = "(map (\<lambda>_. -1 :: int) tbl, replicate (length perms) (0::nat))"
  have M63: "M < 2 ^ 63" using M le_square [of M] unfolding ml_size_ok_def by linarith
  have i0: "ml_fill_inv M perms ?st"
    using len by (auto simp: ml_fill_inv_def ml_next_ok_def)
  have step: "ml_fill_inv M perms ((ml_fill M perms ^^ k) ?st) \<and>
      count_list (fst ((ml_fill M perms ^^ k) ?st)) (-1) = M - k" for k
  proof (induction k)
    case 0
    have "count_list (map (\<lambda>_. -1 :: int) tbl) (-1) = length tbl" by (induction tbl) auto
    then show ?case using i0 len by simp
  next
    case (Suc k)
    then show ?case using ml_fill_step [OF M63 ok ne] by simp
  qed
  let ?t = "fst ((ml_fill M perms ^^ M) ?st)"
  have inv: "ml_fill_inv M perms ((ml_fill M perms ^^ M) ?st)" and "(-1 :: int) \<notin> set ?t"
    using step [of M] by (simp_all add: count_list_0_iff)
  show "\<forall>v\<in>set ?t. 0 \<le> v \<and> v < int (length perms)"
  proof
    fix v assume v: "v \<in> set ?t"
    then have "v \<noteq> -1" using \<open>(-1 :: int) \<notin> set ?t\<close> by metis
    moreover have "-1 \<le> v \<and> v < int (length perms)" using inv v unfolding ml_fill_inv_def by blast
    ultimately show "0 \<le> v \<and> v < int (length perms)" by linarith
  qed
  show "length ?t = M" using inv by (simp add: ml_fill_inv_def)
qed

section \<open>The registered backends\<close>

definition ml_map_ok :: "heap \<Rightarrow> Maglev \<Rightarrow> bool" where
  "ml_map_ok h m \<longleftrightarrow>
     (\<forall>i idx. map_of (ml_backendMap m) i = Some idx \<longleftrightarrow>
        idx < length (ml_backends m) \<and> ref_ID h (ml_backends m ! idx) = i)"

definition ml_inv :: "nat \<Rightarrow> heap \<Rightarrow> Maglev \<Rightarrow> bool" where
  "ml_inv M h m \<longleftrightarrow>
     ml_map_ok h m \<and> length (ml_lookupTable m) = M \<and>
     (\<not> ml_needRebuild m \<longrightarrow> ml_backends m \<noteq> [] \<longrightarrow>
        (\<forall>v\<in>set (ml_lookupTable m). 0 \<le> v \<and> v < int (length (ml_backends m))))"

lemma ml_map_distinct: "ml_map_ok h m \<Longrightarrow> distinct (tracked_ids h (ml_backends m))"
  unfolding distinct_conv_nth ml_map_ok_def by (metis length_map nth_map option.inject)

lemma ml_reindex:
  assumes "distinct (tracked_ids h bs)"
  shows "map_of (foldl (\<lambda>bm (j, b). AList.update (ref_ID h b) j bm) bm (enumerate n bs)) i =
    (case first_index (\<lambda>b. ref_ID h b = i) bs of Some k \<Rightarrow> Some (n + k) | None \<Rightarrow> map_of bm i)"
  using assms
proof (induction bs arbitrary: bm n)
  case (Cons b bs)
  have "first_index (\<lambda>b. ref_ID h b = i) bs = None" if "ref_ID h b = i"
    using Cons.prems that by (auto simp: first_index_None intro: rev_image_eqI)
  with Cons show ?case by (auto simp: map_of_update split: option.split)
qed simp

lemma first_index_distinct:
  assumes "distinct (map f xs)"
  shows "first_index (\<lambda>x. f x = i) xs = Some k \<longleftrightarrow> k < length xs \<and> f (xs ! k) = i"
proof
  assume "first_index (\<lambda>x. f x = i) xs = Some k"
  then show "k < length xs \<and> f (xs ! k) = i" by (auto dest: first_index_SomeD)
next
  assume k: "k < length xs \<and> f (xs ! k) = i"
  then obtain k' where k': "first_index (\<lambda>x. f x = i) xs = Some k'"
    by (metis (mono_tags, lifting) first_index_None not_None_eq nth_mem)
  then have "k' < length xs \<and> f (xs ! k') = i" by (auto dest: first_index_SomeD)
  with k have "k' = k" using assms by (metis length_map nth_eq_iff_index_eq nth_map)
  with k' show "first_index (\<lambda>x. f x = i) xs = Some k" by simp
qed

lemma Maglev_Add_map_ok:
  assumes "ml_map_ok h m"
  shows "ml_map_ok h (Maglev_Add M h b m)"
proof (cases "map_of (ml_backendMap m) (ref_ID h b)")
  case None
  have new: "ref_ID h (ml_backends m ! idx) \<noteq> ref_ID h b" if "idx < length (ml_backends m)" for idx
    using None assms that unfolding ml_map_ok_def by (metis option.distinct(1))
  have "Maglev_Add M h b m =
      m\<lparr>ml_backendMap := AList.update (ref_ID h b) (length (ml_backends m)) (ml_backendMap m),
        ml_backends := ml_backends m @ [b],
        ml_permutations := ml_permutations m @ [Maglev_generatePermutation M (ref_ID h b)],
        ml_needRebuild := True\<rparr>"
    using None by (simp add: Maglev_Add_def)
  then show ?thesis using assms new
    by (auto simp: ml_map_ok_def map_of_update nth_append less_Suc_eq)
next
  case (Some idx)
  then have "idx < length (ml_backends m)" "ref_ID h (ml_backends m ! idx) = ref_ID h b"
    using assms by (auto simp: ml_map_ok_def)
  moreover have "Maglev_Add M h b m = m\<lparr>ml_backends := (ml_backends m)[idx := b], ml_needRebuild := True\<rparr>"
    using Some by (simp add: Maglev_Add_def)
  ultimately show ?thesis using assms by (simp add: ml_map_ok_def nth_list_update)
qed

lemma Maglev_Update_map_ok:
  assumes "ml_map_ok h m"
  shows "ml_map_ok h (Maglev_Update h b m)"
proof (cases "map_of (ml_backendMap m) (ref_ID h b)")
  case (Some idx)
  then have "idx < length (ml_backends m)" "ref_ID h (ml_backends m ! idx) = ref_ID h b"
    using assms by (auto simp: ml_map_ok_def)
  moreover have "Maglev_Update h b m = m\<lparr>ml_backends := (ml_backends m)[idx := b]\<rparr>"
    using Some by (simp add: Maglev_Update_def)
  ultimately show ?thesis using assms by (simp add: ml_map_ok_def nth_list_update)
qed (simp add: Maglev_Update_def assms)

lemma Maglev_Remove_map_ok:
  assumes ok: "ml_map_ok h m"
  shows "ml_map_ok h (Maglev_Remove h i m)"
proof (cases "map_of (ml_backendMap m) i")
  case (Some idx)
  let ?bs = "take idx (ml_backends m) @ drop (Suc idx) (ml_backends m)"
  have idx: "idx < length (ml_backends m)" "ref_ID h (ml_backends m ! idx) = i"
    using Some ok by (auto simp: ml_map_ok_def)
  have full: "tracked_ids h (ml_backends m) = tracked_ids h (take idx (ml_backends m)) @ i # tracked_ids h (drop (Suc idx) (ml_backends m))"
    using arg_cong [OF id_take_nth_drop [OF idx(1)], of "map (ref_ID h)"] idx(2) by simp
  have d: "distinct (tracked_ids h (ml_backends m))" using ok by (rule ml_map_distinct)
  then have d': "distinct (tracked_ids h ?bs)" and i: "i \<notin> set (tracked_ids h ?bs)"
    unfolding full by auto
  have ids: "set (tracked_ids h ?bs) = set (tracked_ids h (ml_backends m)) - {i}"
    using d unfolding full by auto
  have old: "map_of (ml_backendMap m) j = None" if "j \<noteq> i" "j \<notin> set (tracked_ids h ?bs)" for j
  proof (rule ccontr)
    assume "map_of (ml_backendMap m) j \<noteq> None"
    then obtain k where "k < length (ml_backends m)" "ref_ID h (ml_backends m ! k) = j"
      using ok by (auto simp: ml_map_ok_def)
    then have "j \<in> set (tracked_ids h (ml_backends m))" by auto
    with that ids show False by blast
  qed
  have "map_of (foldl (\<lambda>bm (j, b). AList.update (ref_ID h b) j bm) (AList.delete i (ml_backendMap m))
      (enumerate 0 ?bs)) j = first_index (\<lambda>b. ref_ID h b = j) ?bs" for j
  proof (cases "first_index (\<lambda>b. ref_ID h b = j) ?bs")
    case None
    then have "j \<notin> set (tracked_ids h ?bs)" unfolding first_index_None by auto
    then show ?thesis
      using old [of j] None by (cases "j = i") (auto simp: ml_reindex [OF d'] map_of_delete)
  qed (simp add: ml_reindex [OF d'])
  then show ?thesis
    using Some first_index_distinct [OF d'] by (simp add: ml_map_ok_def Maglev_Remove_def Let_def)
qed (simp add: Maglev_Remove_def ok)

lemma Maglev_rebuild_table:
  assumes M: "ml_size_ok M" and len: "length (ml_lookupTable m) = M" and r: "ml_needRebuild m"
    and ne: "ml_backends m \<noteq> []"
  shows "\<forall>v\<in>set (ml_lookupTable (Maglev_rebuildLocked M h m)). 0 \<le> v \<and> v < int (length (ml_backends m))"
    and "length (ml_lookupTable (Maglev_rebuildLocked M h m)) = M"
    and "\<not> ml_needRebuild (Maglev_rebuildLocked M h m)"
    and "ml_backends (Maglev_rebuildLocked M h m) = ml_backends m"
    and "ml_backendMap (Maglev_rebuildLocked M h m) = ml_backendMap m"
proof -
  let ?perms = "map (\<lambda>b. Maglev_generatePermutation M (ref_ID h b)) (ml_backends m)"
  have ok: "ml_perms_ok M ?perms"
    using generatePermutation_surj [OF M] by (simp add: ml_perms_ok_def)
  have "?perms \<noteq> []" using ne by simp
  note f = ml_fill_all [OF M ok this len, simplified]
  show "\<forall>v\<in>set (ml_lookupTable (Maglev_rebuildLocked M h m)). 0 \<le> v \<and> v < int (length (ml_backends m))"
    and "length (ml_lookupTable (Maglev_rebuildLocked M h m)) = M"
    and "\<not> ml_needRebuild (Maglev_rebuildLocked M h m)"
    and "ml_backends (Maglev_rebuildLocked M h m) = ml_backends m"
    and "ml_backendMap (Maglev_rebuildLocked M h m) = ml_backendMap m"
    using f r ne by (simp_all add: Maglev_rebuildLocked_def Let_def case_prod_beta)
qed

section \<open>Selection\<close>

lemma Maglev_findNextAvailable_mem:
  "Maglev_findNextAvailable M h p bs m = Some r \<Longrightarrow> r \<in> set bs"
  by (auto simp: Maglev_findNextAvailable_def Let_def split: if_splits dest!: find_map_SomeD find_SomeD)

lemma Maglev_Next_mem:
  "Maglev_Next M ctx h bs m = (Some r, m') \<Longrightarrow> r \<in> set bs"
  by (auto simp: Maglev_Next_def Let_def case_prod_beta split: if_splits option.splits
      dest: find_available_SomeD Maglev_findNextAvailable_mem)

text \<open>The table that a call consults, and the condition under which the call finds a backend.\<close>

definition ml_current :: "nat \<Rightarrow> heap \<Rightarrow> Maglev \<Rightarrow> Maglev" where
  "ml_current M h m = (if ml_needRebuild m then Maglev_rebuildLocked M h m else m)"

definition ml_ready :: "nat \<Rightarrow> RequestContext option \<Rightarrow> heap \<Rightarrow> bref list \<Rightarrow> Maglev \<Rightarrow> bool" where
  "ml_ready M ctx h bs m \<longleftrightarrow>
     ml_size_ok M \<and> ml_inv M h m \<and> ml_backends m \<noteq> [] \<and>
     (\<forall>b\<in>set (ml_backends m). find_available h bs (ref_ID h b) \<noteq> None)"

lemma ml_inv_current:
  assumes M: "ml_size_ok M" and inv: "ml_inv M h m" and ne: "ml_backends m \<noteq> []"
  shows "ml_backends (ml_current M h m) = ml_backends m" and "ml_inv M h (ml_current M h m)"
    and "\<not> ml_needRebuild (ml_current M h m)"
proof -
  have len: "length (ml_lookupTable m) = M" using inv by (simp add: ml_inv_def)
  show "ml_backends (ml_current M h m) = ml_backends m"
    and "\<not> ml_needRebuild (ml_current M h m)"
    using Maglev_rebuild_table(3,4) [OF M len _ ne] by (simp_all add: ml_current_def)
  show "ml_inv M h (ml_current M h m)"
    using inv Maglev_rebuild_table [OF M len _ ne] by (auto simp: ml_inv_def ml_current_def ml_map_ok_def)
qed

lemma Maglev_Next_ready:
  assumes r: "ml_ready M ctx h bs m" and bs: "bs \<noteq> []"
  shows "\<exists>b m'. Maglev_Next M ctx h bs m = (Some b, m') \<and> b \<in> set bs \<and> Backend_IsAvailable (h b)"
proof -
  have M: "ml_size_ok M" and inv: "ml_inv M h m" and ne: "ml_backends m \<noteq> []"
    and av: "\<forall>b\<in>set (ml_backends m). find_available h bs (ref_ID h b) \<noteq> None"
    using r by (auto simp: ml_ready_def)
  note cur = ml_inv_current [OF M inv ne]
  let ?m = "ml_current M h m"
  obtain key m1 where k: "(if ctx_key ctx = '''' then Maglev_generateKey ?m else (ctx_key ctx, ?m)) = (key, m1)"
    by (cases "if ctx_key ctx = '''' then Maglev_generateKey ?m else (ctx_key ctx, ?m)")
  then have m1: "ml_backends m1 = ml_backends m" "ml_lookupTable m1 = ml_lookupTable ?m"
    using cur(1) by (auto simp: Maglev_generateKey_def Let_def split: if_splits)
  let ?pos = "unat (Maglev_hashKey key mod of_nat M)"
  have "?pos < M" using M unat_mod_length [of M] by (simp add: ml_size_ok_def)
  then have "ml_lookupTable ?m ! ?pos \<in> set (ml_lookupTable ?m)"
    using cur(2) by (simp add: ml_inv_def)
  then have idx: "0 \<le> ml_lookupTable ?m ! ?pos" "ml_lookupTable ?m ! ?pos < int (length (ml_backends m))"
    using cur ne by (auto simp: ml_inv_def)
  let ?b = "ml_backends m ! nat (ml_lookupTable ?m ! ?pos)"
  have "?b \<in> set (ml_backends m)" using idx by (simp add: nat_less_iff)
  with av obtain b where b: "find_available h bs (ref_ID h ?b) = Some b" by auto
  then have "Maglev_Next M ctx h bs m = (Some b, m1)"
    using ne bs idx m1 k by (simp add: Maglev_Next_def Let_def ml_current_def [symmetric])
  with find_available_SomeD [OF b] show ?thesis by blast
qed

interpretation ml: live_balancer "Maglev_methods M" "ml_ready M"
proof unfold_locales
  fix ctx h s r s' and bs :: "bref list"
  assume "bal_Next (Maglev_methods M) ctx h bs s = (Some r, s')"
  then show "r \<in> set bs" using Maglev_Next_mem by (simp add: Maglev_methods_def)
next
  fix ctx h s and bs :: "bref list"
  assume "ml_ready M ctx h bs s" "bs \<noteq> []"
  from Maglev_Next_ready [OF this] show "fst (bal_Next (Maglev_methods M) ctx h bs s) \<noteq> None"
    by (auto simp: Maglev_methods_def)
qed (simp add: Maglev_methods_def Maglev_Next_def)

inductive Maglev_reach :: "nat \<Rightarrow> heap \<Rightarrow> Maglev \<Rightarrow> bool" for M h where
  new: "Maglev_reach M h (NewMaglev M)"
| add: "Maglev_reach M h m \<Longrightarrow> Maglev_reach M h (Maglev_Add M h b m)"
| remove: "Maglev_reach M h m \<Longrightarrow> Maglev_reach M h (Maglev_Remove h i m)"
| update: "Maglev_reach M h m \<Longrightarrow> Maglev_reach M h (Maglev_Update h b m)"
| select: "Maglev_reach M h m \<Longrightarrow> Maglev_Next M ctx h bs m = (r, m') \<Longrightarrow> Maglev_reach M h m'"

lemma Maglev_Next_state:
  "Maglev_Next M ctx h bs m = (r, m') \<Longrightarrow>
   m' = m \<or> (\<exists>c. ml_backends m \<noteq> [] \<and> m' = (ml_current M h m)\<lparr>ml_counter := c\<rparr>)"
proof -
  assume a: "Maglev_Next M ctx h bs m = (r, m')"
  have same: "\<exists>c. ml_current M h m = (ml_current M h m)\<lparr>ml_counter := c\<rparr>"
    by (rule exI [of _ "ml_counter (ml_current M h m)"]) simp
  show ?thesis
    using a same
    by (auto simp: Maglev_Next_def Let_def ml_current_def [symmetric] Maglev_generateKey_def
        split: if_splits option.splits)
qed

lemma Maglev_reach_inv:
  assumes M: "ml_size_ok M" and "Maglev_reach M h m"
  shows "ml_inv M h m"
  using assms(2)
proof induction
  case new
  show ?case by (simp add: ml_inv_def ml_map_ok_def NewMaglev_def)
next
  case (add m b)
  then show ?case
    using Maglev_Add_map_ok [of h m M b] by (auto simp: ml_inv_def Maglev_Add_def split: option.split)
next
  case (remove m i)
  then show ?case
    using Maglev_Remove_map_ok [of h m i] by (auto simp: ml_inv_def Maglev_Remove_def Let_def split: option.split)
next
  case (update m b)
  then show ?case
    using Maglev_Update_map_ok [of h m b] by (auto simp: ml_inv_def Maglev_Update_def split: option.split)
next
  case (select m ctx bs r m')
  from Maglev_Next_state [OF select.hyps(2)] show ?case
  proof (elim disjE exE conjE)
    fix c
    assume "ml_backends m \<noteq> []" "m' = (ml_current M h m)\<lparr>ml_counter := c\<rparr>"
    then show ?case
      using ml_inv_current(2) [OF M select.IH] by (simp add: ml_inv_def ml_map_ok_def)
  qed (use select.IH in simp)
qed

section \<open>Properties\<close>

text \<open>
  Rebuilding the lookup table ends with every one of its 65537 slots assigned to a registered
  backend, whatever the backends: no slot is left at \<open>-1\<close> and no index is out of range.
\<close>

theorem Maglev_rebuild_complete:
  assumes "Maglev_reach MaglevTableSize h m" and "ml_needRebuild m" and "ml_backends m \<noteq> []"
  shows "length (ml_lookupTable (Maglev_rebuildLocked MaglevTableSize h m)) = MaglevTableSize \<and>
    (\<forall>v\<in>set (ml_lookupTable (Maglev_rebuildLocked MaglevTableSize h m)). 0 \<le> v \<and> v < int (length (ml_backends m)))"
proof -
  have "ml_inv MaglevTableSize h m" using MaglevTableSize_ok assms(1) by (rule Maglev_reach_inv)
  then show ?thesis
    using Maglev_rebuild_table(1,2) [OF MaglevTableSize_ok _ assms(2,3)] by (simp add: ml_inv_def)
qed

definition example_maglev :: Maglev where
  "example_maglev = Maglev_Add MaglevTableSize example_heap 1 (Maglev_Add MaglevTableSize example_heap 0 (NewMaglev MaglevTableSize))"

theorem Maglev_rebuild_complete_witness:
  "0 \<le> ml_lookupTable (Maglev_rebuildLocked MaglevTableSize example_heap example_maglev) ! 42 \<and>
   ml_lookupTable (Maglev_rebuildLocked MaglevTableSize example_heap example_maglev) ! 42 < 2"
proof -
  have r: "Maglev_reach MaglevTableSize example_heap example_maglev"
    by (simp add: example_maglev_def Maglev_reach.intros)
  have "ml_needRebuild example_maglev" "ml_backends example_maglev = [0, 1]"
    by (simp_all add: example_maglev_def Maglev_Add_def NewMaglev_def example_heap_def nat_dec_inject)
  with Maglev_rebuild_complete [OF r] show ?thesis by (simp add: all_set_conv_all_nth MaglevTableSize_def)
qed

text \<open>
  Availability of Maglev: when every registered backend is among the offered ones and
  available, \<^verbatim>\<open>Next\<close> selects an available offered backend in every reachable state and for every
  client; it never returns nil because of an empty slot.
\<close>

theorem Maglev_Next_selects:
  assumes "Maglev_reach MaglevTableSize h m" and "ml_backends m \<noteq> []"
    and "\<forall>b\<in>set (ml_backends m). find_available h bs (ref_ID h b) \<noteq> None"
  shows "\<exists>b m'. Maglev_Next MaglevTableSize ctx h bs m = (Some b, m') \<and> b \<in> set bs \<and> Backend_IsAvailable (h b)"
proof (rule Maglev_Next_ready)
  show "ml_ready MaglevTableSize ctx h bs m"
    using assms MaglevTableSize_ok Maglev_reach_inv [OF MaglevTableSize_ok assms(1)] by (simp add: ml_ready_def)
  show "bs \<noteq> []" using assms(2,3) by (cases "ml_backends m") (auto simp: find_available_def)
qed

theorem Maglev_Next_selects_witness:
  "\<exists>b m'. Maglev_Next MaglevTableSize None example_heap [0, 1] example_maglev = (Some b, m') \<and>
     b \<in> set [0, 1] \<and> Backend_IsAvailable (example_heap b)"
proof (rule Maglev_Next_selects)
  show "Maglev_reach MaglevTableSize example_heap example_maglev"
    by (simp add: example_maglev_def Maglev_reach.intros)
  have "ml_backends example_maglev = [0, 1]"
    by (simp add: example_maglev_def Maglev_Add_def NewMaglev_def example_heap_def nat_dec_inject)
  then show "ml_backends example_maglev \<noteq> []"
    and "\<forall>b\<in>set (ml_backends example_maglev). find_available example_heap [0, 1] (ref_ID example_heap b) \<noteq> None"
    by (auto simp: find_available_None example_heap_def Backend_IsAvailable_def State_IsAvailable_def)
qed

end
