(* ===== verification/Bal_Rendezvous.thy ===== *)
theory Bal_Rendezvous
  imports Balancer GoLib
begin

text \<open>
  \<^verbatim>\<open>internal/balancer/rendezvous_hash.go\<close>: highest random weight hashing. The selection is
  characterised as the first healthy backend of greatest weight, from which the minimal
  disruption of the algorithm follows; the book-keeping of the seeds is shown to keep every
  registered backend's seed.
\<close>

section \<open>The algorithm\<close>

text \<open>\<open>rv_keyCounter\<close> is the package variable \<^verbatim>\<open>keyCounter\<close>, which \<^verbatim>\<open>generateKey\<close> counts up.\<close>

record RendezvousHash =
  rv_seeds :: "32 word list"
  rv_backends :: "(string, nat) gomap"
  rv_keyCounter :: "64 word"

definition NewRendezvousHash :: RendezvousHash where
  "NewRendezvousHash = \<lparr>rv_seeds = [], rv_backends = [], rv_keyCounter = 0\<rparr>"

definition hashString :: "string \<Rightarrow> 32 word" where
  "hashString s = fnv32a s"

definition RendezvousHash_computeWeight :: "string \<Rightarrow> string \<Rightarrow> 64 word" where
  "RendezvousHash_computeWeight key backendID =
     (let v = fnv64a (key @ backendID);
          v = v XOR drop_bit 33 v;
          v = v * 0xff51afd7ed558ccd;
          v = v XOR drop_bit 33 v;
          v = v * 0xc4ceb9fe1a85ec53
      in v XOR drop_bit 33 v)"

definition rv_generateKey :: "RendezvousHash \<Rightarrow> string \<times> RendezvousHash" where
  "rv_generateKey rv =
     (let v = rv_keyCounter rv + 1 in (nat_dec (unat v), rv\<lparr>rv_keyCounter := v\<rparr>))"

definition rv_scan_step ::
  "heap \<Rightarrow> (bref \<Rightarrow> 64 word) \<Rightarrow> bref option \<times> 64 word \<Rightarrow> bref \<Rightarrow> bref option \<times> 64 word" where
  "rv_scan_step h w acc be =
     (if \<not> Backend_IsHealthy (h be) then acc
      else if w be > snd acc then (Some be, w be) else acc)"

definition RendezvousHash_Next ::
  "RequestContext option \<Rightarrow> heap \<Rightarrow> bref list \<Rightarrow> RendezvousHash \<Rightarrow> bref option \<times> RendezvousHash" where
  "RendezvousHash_Next ctx h backends rv =
     (if backends = [] then (None, rv)
      else let (key, rv) = (if ctx_key ctx = '''' then rv_generateKey rv else (ctx_key ctx, rv));
               (bestBackend, _) = foldl (rv_scan_step h (\<lambda>be. RendezvousHash_computeWeight key (ref_ID h be))) (None, 0) backends
           in (case bestBackend of
                 None \<Rightarrow> (Some (backends ! 0), rv)
               | Some b \<Rightarrow> (Some b, rv)))"

definition RendezvousHash_Add :: "heap \<Rightarrow> bref \<Rightarrow> RendezvousHash \<Rightarrow> RendezvousHash" where
  "RendezvousHash_Add h be rv =
     (case map_of (rv_backends rv) (ref_ID h be) of
        Some _ \<Rightarrow> rv
      | None \<Rightarrow> rv\<lparr>rv_backends := AList.update (ref_ID h be) (length (rv_seeds rv)) (rv_backends rv),
                    rv_seeds := rv_seeds rv @ [hashString (ref_ID h be)]\<rparr>)"

text \<open>The loop that re-indexes the backend whose seed was last stops at the first one it finds.\<close>

definition rv_reindex :: "nat \<Rightarrow> nat \<Rightarrow> (string, nat) gomap \<Rightarrow> (string, nat) gomap" where
  "rv_reindex lastIdx idx m =
     (case find (\<lambda>(_, movedIdx). movedIdx = lastIdx) m of
        None \<Rightarrow> m
      | Some (movedID, _) \<Rightarrow> AList.update movedID idx m)"

definition RendezvousHash_Remove :: "heap \<Rightarrow> string \<Rightarrow> RendezvousHash \<Rightarrow> RendezvousHash" where
  "RendezvousHash_Remove h i rv =
     (case map_of (rv_backends rv) i of
        None \<Rightarrow> rv
      | Some idx \<Rightarrow>
          let lastIdx = length (rv_seeds rv) - 1;
              (seeds, m) = (if idx \<noteq> lastIdx
                            then ((rv_seeds rv)[idx := rv_seeds rv ! lastIdx], rv_reindex lastIdx idx (rv_backends rv))
                            else (rv_seeds rv, rv_backends rv))
          in rv\<lparr>rv_seeds := take lastIdx seeds, rv_backends := AList.delete i m\<rparr>)"

definition RendezvousHash_methods :: "RendezvousHash Balancer" where
  "RendezvousHash_methods =
     \<lparr>bal_Next = RendezvousHash_Next, bal_Add = RendezvousHash_Add, bal_Remove = RendezvousHash_Remove,
      bal_Update = (\<lambda>h b s. s)\<rparr>"

section \<open>Selection\<close>

definition rv_first_max :: "(bref \<Rightarrow> bool) \<Rightarrow> (bref \<Rightarrow> 64 word) \<Rightarrow> bref list \<Rightarrow> bref \<Rightarrow> bool" where
  "rv_first_max ok w bs r \<longleftrightarrow>
     (\<exists>xs ys. bs = xs @ r # ys \<and> ok r \<and> 0 < w r \<and>
        (\<forall>x\<in>set xs. ok x \<longrightarrow> w x < w r) \<and> (\<forall>y\<in>set ys. ok y \<longrightarrow> w y \<le> w r))"

lemma rv_scan_spec:
  fixes h :: heap
  defines "ok \<equiv> \<lambda>b. Backend_IsHealthy (h b)"
  shows "(case foldl (rv_scan_step h w) (None, 0) bs of
    (None, m) \<Rightarrow> m = 0 \<and> (\<forall>b\<in>set bs. ok b \<longrightarrow> w b = 0)
  | (Some r, m) \<Rightarrow> m = w r \<and> rv_first_max ok w bs r)"
proof (induction bs rule: rev_induct)
  case Nil
  then show ?case by simp
next
  case (snoc b bs)
  obtain best m where acc: "foldl (rv_scan_step h w) (None, 0) bs = (best, m)" by fastforce
  then have step: "foldl (rv_scan_step h w) (None, 0) (bs @ [b]) = rv_scan_step h w (best, m) b" by simp
  show ?case
  proof (cases best)
    case None
    with snoc acc have z: "m = 0" "\<forall>b\<in>set bs. ok b \<longrightarrow> w b = 0" by simp_all
    show ?thesis
    proof (cases "ok b \<and> 0 < w b")
      case True
      then have "rv_first_max ok w (bs @ [b]) b"
        unfolding rv_first_max_def using z by (intro exI [of _ bs] exI [of _ "[]"]) auto
      moreover have r: "foldl (rv_scan_step h w) (None, 0) (bs @ [b]) = (Some b, w b)"
        unfolding step using True None z by (auto simp: rv_scan_step_def ok_def)
      ultimately show ?thesis unfolding r using True by simp
    next
      case False
      then have r: "foldl (rv_scan_step h w) (None, 0) (bs @ [b]) = (None, 0)"
        unfolding step using None z by (auto simp: rv_scan_step_def ok_def)
      show ?thesis unfolding r using z False by (auto simp: word_neq_0_conv [symmetric])
    qed
  next
    case (Some r)
    with snoc acc have m: "m = w r" "rv_first_max ok w bs r" by simp_all
    then obtain xs ys where d: "bs = xs @ r # ys" "ok r" "0 < w r"
      "\<forall>x\<in>set xs. ok x \<longrightarrow> w x < w r" "\<forall>y\<in>set ys. ok y \<longrightarrow> w y \<le> w r"
      by (auto simp: rv_first_max_def)
    show ?thesis
    proof (cases "ok b \<and> w r < w b")
      case True
      then have "rv_first_max ok w (bs @ [b]) b"
        unfolding rv_first_max_def using d
        by (intro exI [of _ bs] exI [of _ "[]"]) (auto dest: less_trans intro: le_less_trans)
      moreover have r: "foldl (rv_scan_step h w) (None, 0) (bs @ [b]) = (Some b, w b)"
        unfolding step using True Some m by (auto simp: rv_scan_step_def ok_def)
      ultimately show ?thesis unfolding r using True by simp
    next
      case False
      then have "rv_first_max ok w (bs @ [b]) r"
        unfolding rv_first_max_def using d
        by (intro exI [of _ xs] exI [of _ "ys @ [b]"]) auto
      moreover have r: "foldl (rv_scan_step h w) (None, 0) (bs @ [b]) = (Some r, w r)"
        unfolding step using False Some m by (auto simp: rv_scan_step_def ok_def)
      ultimately show ?thesis unfolding r using m by simp
    qed
  qed
qed

lemma rv_first_max_unique:
  assumes "rv_first_max ok w bs r" and "rv_first_max ok w bs r'"
  shows "r = r'"
proof -
  obtain xs ys where r: "bs = xs @ r # ys" "ok r" "\<forall>x\<in>set xs. ok x \<longrightarrow> w x < w r" "\<forall>y\<in>set ys. ok y \<longrightarrow> w y \<le> w r"
    using assms(1) by (auto simp: rv_first_max_def)
  obtain xs' ys' where r': "bs = xs' @ r' # ys'" "ok r'" "\<forall>x\<in>set xs'. ok x \<longrightarrow> w x < w r'" "\<forall>y\<in>set ys'. ok y \<longrightarrow> w y \<le> w r'"
    using assms(2) by (auto simp: rv_first_max_def)
  have "xs @ r # ys = xs' @ r' # ys'" using r(1) r'(1) by simp
  then show ?thesis
    using r r' by (auto simp: append_eq_append_conv2 Cons_eq_append_conv)
qed

lemma rv_first_max_filter:
  assumes "rv_first_max ok w bs r" and "P r"
  shows "rv_first_max ok w (filter P bs) r"
proof -
  obtain xs ys where d: "bs = xs @ r # ys" "ok r" "0 < w r"
      "\<forall>x\<in>set xs. ok x \<longrightarrow> w x < w r" "\<forall>y\<in>set ys. ok y \<longrightarrow> w y \<le> w r"
    using assms(1) by (auto simp: rv_first_max_def)
  then show ?thesis
    unfolding rv_first_max_def using assms(2)
    by (intro exI [of _ "filter P xs"] exI [of _ "filter P ys"]) auto
qed

lemma rv_scan_first_max:
  assumes "rv_first_max (\<lambda>b. Backend_IsHealthy (h b)) w bs r"
  shows "fst (foldl (rv_scan_step h w) (None, 0) bs) = Some r"
proof -
  obtain best m where acc: "foldl (rv_scan_step h w) (None, 0) bs = (best, m)" by fastforce
  show ?thesis
  proof (cases best)
    case None
    then have "\<forall>b\<in>set bs. Backend_IsHealthy (h b) \<longrightarrow> w b = 0" using rv_scan_spec [where h = h and w = w and bs = bs] acc by simp
    moreover have "r \<in> set bs" "Backend_IsHealthy (h r)" "0 < w r" using assms(1) by (auto simp: rv_first_max_def)
    ultimately show ?thesis by auto
  next
    case (Some r')
    then have "rv_first_max (\<lambda>b. Backend_IsHealthy (h b)) w bs r'" using rv_scan_spec [where h = h and w = w and bs = bs] acc by simp
    then show ?thesis using rv_first_max_unique [OF assms] acc Some by simp
  qed
qed

interpretation rv: live_balancer RendezvousHash_methods "\<lambda>ctx h bs s. True"
proof unfold_locales
  fix ctx h s r s' and bs :: "bref list"
  assume a: "bal_Next RendezvousHash_methods ctx h bs s = (Some r, s')"
  have f: "r \<in> set bs" if "foldl (rv_scan_step h w) (None, 0) bs = (Some r, m)" for w m
    using rv_scan_spec [where h = h and w = w and bs = bs] that by (auto simp: rv_first_max_def)
  show "r \<in> set bs"
    using a f by (auto simp: RendezvousHash_methods_def RendezvousHash_Next_def Let_def case_prod_beta
        split: if_splits option.splits) (metis prod.collapse)+
next
  fix ctx h s and bs :: "bref list"
  assume "bs \<noteq> []"
  then show "fst (bal_Next RendezvousHash_methods ctx h bs s) \<noteq> None"
    by (auto simp: RendezvousHash_methods_def RendezvousHash_Next_def Let_def case_prod_beta split: option.splits)
qed (simp add: RendezvousHash_methods_def RendezvousHash_Next_def)

section \<open>The seeds\<close>

definition rv_inv :: "RendezvousHash \<Rightarrow> bool" where
  "rv_inv rv \<longleftrightarrow>
     gomap_wf (rv_backends rv) \<and> length (rv_backends rv) = length (rv_seeds rv) \<and>
     (\<forall>i idx. map_of (rv_backends rv) i = Some idx \<longrightarrow>
        idx < length (rv_seeds rv) \<and> rv_seeds rv ! idx = hashString i) \<and>
     (\<forall>i j idx. map_of (rv_backends rv) i = Some idx \<longrightarrow> map_of (rv_backends rv) j = Some idx \<longrightarrow> i = j)"

lemma rv_reindex_lookup:
  assumes "gomap_wf m"
  shows "(\<exists>i. map_of m i = Some lastIdx \<and> map_of (rv_reindex lastIdx idx m) = (map_of m)(i \<mapsto> idx)) \<or>
    ((\<forall>i. map_of m i \<noteq> Some lastIdx) \<and> rv_reindex lastIdx idx m = m)"
proof (cases "find (\<lambda>(_, movedIdx). movedIdx = lastIdx) m")
  case None
  then have "\<forall>i. (i, lastIdx) \<notin> set m" by (auto simp: find_None_iff)
  with None show ?thesis by (auto simp: rv_reindex_def dest: map_of_SomeD)
next
  case (Some p)
  then obtain i where p: "p = (i, lastIdx)" "(i, lastIdx) \<in> set m" by (cases p) (auto dest: find_SomeD)
  then have "map_of m i = Some lastIdx" using assms by (simp add: map_of_is_SomeI)
  with Some p show ?thesis by (auto simp: rv_reindex_def map_of_update)
qed

lemma rv_reindex_shape:
  assumes "gomap_wf m"
  shows "gomap_wf (rv_reindex lastIdx idx m) \<and> length (rv_reindex lastIdx idx m) = length m \<and>
    fst ` set (rv_reindex lastIdx idx m) = fst ` set m"
proof (cases "find (\<lambda>(_, movedIdx). movedIdx = lastIdx) m")
  case (Some p)
  then obtain i where p: "p = (i, lastIdx)" "i \<in> fst ` set m" by (cases p) (force dest: find_SomeD)
  with Some assms show ?thesis by (auto simp: rv_reindex_def gomap length_update_old)
qed (simp add: rv_reindex_def assms)

lemma RendezvousHash_Add_inv:
  assumes "rv_inv rv"
  shows "rv_inv (RendezvousHash_Add h b rv)"
proof (cases "map_of (rv_backends rv) (ref_ID h b)")
  case None
  have upd: "RendezvousHash_Add h b rv =
      rv\<lparr>rv_backends := AList.update (ref_ID h b) (length (rv_seeds rv)) (rv_backends rv),
         rv_seeds := rv_seeds rv @ [hashString (ref_ID h b)]\<rparr>"
    using None by (simp add: RendezvousHash_Add_def)
  have "ref_ID h b \<notin> fst ` set (rv_backends rv)" using None by (simp add: map_of_eq_None_iff)
  with assms show ?thesis
    unfolding upd rv_inv_def
    by (auto simp: gomap length_update_new nth_append less_Suc_eq simp del: map_of_eq_Some_iff)
qed (simp add: RendezvousHash_Add_def assms)

lemma RendezvousHash_Remove_inv:
  assumes inv: "rv_inv rv"
  shows "rv_inv (RendezvousHash_Remove h i rv)"
proof (cases "map_of (rv_backends rv) i")
  case (Some idx)
  let ?m = "rv_backends rv" and ?s = "rv_seeds rv"
  let ?last = "length ?s - 1"
  have wf: "gomap_wf ?m" and len: "length ?m = length ?s"
    and sd: "\<And>i idx. map_of ?m i = Some idx \<Longrightarrow> idx < length ?s \<and> ?s ! idx = hashString i"
    and inj: "\<And>i j idx. map_of ?m i = Some idx \<Longrightarrow> map_of ?m j = Some idx \<Longrightarrow> i = j"
    using inv by (auto simp: rv_inv_def)
  have idx: "idx < length ?s" using sd Some by blast
  have key: "i \<in> fst ` set ?m" using Some by (metis map_of_eq_None_iff option.distinct(1))
  show ?thesis
  proof (cases "idx = ?last")
    case True
    have r: "RendezvousHash_Remove h i rv = rv\<lparr>rv_seeds := take ?last ?s, rv_backends := AList.delete i ?m\<rparr>"
      using Some True by (simp add: RendezvousHash_Remove_def)
    have other: "k < ?last" if "map_of ?m j = Some k" "j \<noteq> i" for j k
      using sd [OF that(1)] inj [OF that(1), of i] Some True that by (cases "k = ?last") auto
    show ?thesis
      unfolding r rv_inv_def using wf len sd inj other length_delete_key [OF wf key] idx
      by (auto simp: gomap simp del: map_of_eq_Some_iff)
  next
    case False
    let ?m' = "rv_reindex ?last idx ?m"
    have r: "RendezvousHash_Remove h i rv =
        rv\<lparr>rv_seeds := take ?last (?s[idx := ?s ! ?last]), rv_backends := AList.delete i ?m'\<rparr>"
      using Some False by (simp add: RendezvousHash_Remove_def Let_def)
    have shape: "gomap_wf ?m'" "length ?m' = length ?m" "i \<in> fst ` set ?m'"
      using rv_reindex_shape [OF wf] key by auto
    have look: "map_of ?m' j = Some k \<Longrightarrow> j \<noteq> i \<Longrightarrow>
        (k = idx \<and> map_of ?m j = Some ?last) \<or> (map_of ?m j = Some k \<and> k \<noteq> ?last \<and> k \<noteq> idx)" for j k
      using rv_reindex_lookup [OF wf, of ?last idx] Some inj
      by (auto split: if_splits simp del: map_of_eq_Some_iff)
    have lt: "idx < ?last" using idx False by simp
    have sd': "k < ?last \<and> ?s[idx := ?s ! ?last] ! k = hashString j"
      if "map_of ?m' j = Some k" "j \<noteq> i" for j k
      using look [OF that] sd lt by (cases "k = idx") (auto simp: less_Suc_eq nth_list_update dest: sd)
    have inj': "j = j'" if "map_of ?m' j = Some k" "map_of ?m' j' = Some k" "j \<noteq> i" "j' \<noteq> i" for j j' k
      using look [OF that(1,3)] look [OF that(2,4)] inj by blast
    show ?thesis
      unfolding r rv_inv_def using shape len sd' inj' length_delete_key [OF shape(1,3)] idx
      by (auto simp: gomap simp del: map_of_eq_Some_iff)
  qed
qed (simp add: RendezvousHash_Remove_def inv)

section \<open>Properties\<close>

text \<open>
  Minimal disruption of rendezvous hashing: restricting the offered backends in any way that
  keeps the selected one (removing others, or taking them out of rotation) does not change the
  selection for that client. The weight of the selected backend must not be zero, the value with
  which the scan starts.
\<close>

theorem RendezvousHash_Next_stable:
  assumes key: "ctx_key ctx \<noteq> ''''" and sel: "fst (RendezvousHash_Next ctx h bs rv) = Some r"
    and ok: "Backend_IsHealthy (h r)" "RendezvousHash_computeWeight (ctx_key ctx) (ref_ID h r) \<noteq> 0" and r: "P r"
  shows "fst (RendezvousHash_Next ctx h (filter P bs) rv') = Some r"
proof -
  let ?w = "\<lambda>be. RendezvousHash_computeWeight (ctx_key ctx) (ref_ID h be)"
  obtain best m where acc: "foldl (rv_scan_step h ?w) (None, 0) bs = (best, m)" by fastforce
  have ne: "bs \<noteq> []" using sel by (auto simp: RendezvousHash_Next_def)
  have "best = Some r"
  proof (cases best)
    case None
    then have "\<forall>b\<in>set bs. Backend_IsHealthy (h b) \<longrightarrow> ?w b = 0"
      using rv_scan_spec [where h = h and w = ?w and bs = bs] acc by simp
    moreover have "r = bs ! 0" using sel ne key acc None by (simp add: RendezvousHash_Next_def)
    ultimately show ?thesis using ok ne by simp
  next
    case (Some b)
    then show ?thesis using sel ne key acc by (simp add: RendezvousHash_Next_def)
  qed
  then have "rv_first_max (\<lambda>b. Backend_IsHealthy (h b)) ?w bs r"
    using rv_scan_spec [where h = h and w = ?w and bs = bs] acc by simp
  from rv_first_max_filter [where P = P, OF this r]
  have "fst (foldl (rv_scan_step h ?w) (None, 0) (filter P bs)) = Some r" and "filter P bs \<noteq> []"
    using rv_scan_first_max by (blast, auto simp: rv_first_max_def)
  then show ?thesis using key by (simp add: RendezvousHash_Next_def case_prod_beta)
qed

theorem RendezvousHash_Next_stable_witness:
  "fst (RendezvousHash_Next (Some \<lparr>ctx_ClientIP = ''k'', ctx_Request = None\<rparr>) example_heap
     (filter (\<lambda>b. b \<noteq> 1) [0, 1]) NewRendezvousHash) = Some 0"
  by (rule RendezvousHash_Next_stable [where rv = NewRendezvousHash]) code_simp+

text \<open>
  The seed table stays consistent: after \<^verbatim>\<open>Add\<close> and \<^verbatim>\<open>Remove\<close> in any state that has one
  seed per registered backend at the index recorded for it, this is still so; in particular the
  swap with the last element re-indexes the moved backend.
\<close>

theorem RendezvousHash_seeds_inv:
  assumes "rv_inv rv"
  shows "rv_inv (RendezvousHash_Add h b rv) \<and> rv_inv (RendezvousHash_Remove h i rv)"
  using assms by (simp add: RendezvousHash_Add_inv RendezvousHash_Remove_inv)

theorem RendezvousHash_seeds_inv_witness:
  "rv_inv (RendezvousHash_Add example_heap 1 NewRendezvousHash) \<and>
   rv_inv (RendezvousHash_Remove example_heap ''b0'' NewRendezvousHash)"
  by (rule RendezvousHash_seeds_inv) (simp add: rv_inv_def NewRendezvousHash_def)

end
