(* ===== verification/Bal_Sticky.thy ===== *)
theory Bal_Sticky
  imports Hash_Ring GoLib
begin

text \<open>
  \<^verbatim>\<open>internal/balancer/sticky.go\<close>: session affinity over any base algorithm. The base is a method
  table with its state; the clock reading of a call is the argument \<open>now\<close> in nanoseconds, and the
  random bytes of a new session ID are an argument too (\<open>None\<close> when the generator fails).
\<close>

section \<open>Configuration and state\<close>

datatype StickyMode = StickyModeCookie | StickyModeHeader | StickyModeParam

datatype SameSite = SameSiteDefaultMode | SameSiteLaxMode | SameSiteStrictMode | SameSiteNoneMode

record StickyConfig =
  sc_Mode :: StickyMode
  sc_CookieName :: string
  sc_CookiePath :: string
  sc_CookieMaxAge :: int
  sc_CookieSecure :: bool
  sc_CookieHttpOnly :: bool
  sc_CookieSameSite :: SameSite
  sc_HeaderName :: string
  sc_ParamName :: string
  sc_MaxSessions :: int
  sc_SessionTTL :: int

definition DefaultStickyConfig :: StickyConfig where
  "DefaultStickyConfig =
     \<lparr>sc_Mode = StickyModeCookie, sc_CookieName = ''OLB_SRV'', sc_CookiePath = ''/'', sc_CookieMaxAge = 0,
      sc_CookieSecure = True, sc_CookieHttpOnly = True, sc_CookieSameSite = SameSiteLaxMode,
      sc_HeaderName = ''X-Backend-ID'', sc_ParamName = ''backend'', sc_MaxSessions = 100000,
      sc_SessionTTL = 3600 * 1000000000\<rparr>"

record stickyEntry =
  se_backendID :: string
  se_createdAt :: int

text \<open>\<open>st_sessionCounter\<close> is the package variable \<^verbatim>\<open>sessionCounter\<close> of the fallback IDs.\<close>

record 's Sticky =
  st_base :: 's
  st_config :: StickyConfig
  st_sessions :: "(string, stickyEntry) gomap"
  st_sessionCounter :: "64 word"

definition NewSticky :: "'s \<Rightarrow> StickyConfig option \<Rightarrow> 's Sticky" where
  "NewSticky base config =
     \<lparr>st_base = base, st_config = (case config of None \<Rightarrow> DefaultStickyConfig | Some c \<Rightarrow> c),
      st_sessions = [], st_sessionCounter = 0\<rparr>"

definition Sticky_extractSessionID :: "StickyConfig \<Rightarrow> Request \<Rightarrow> string" where
  "Sticky_extractSessionID c r =
     (case sc_Mode c of
        StickyModeCookie \<Rightarrow> (case Cookie_value r (sc_CookieName c) of None \<Rightarrow> '''' | Some v \<Rightarrow> v)
      | StickyModeHeader \<Rightarrow> Header_Get r (sc_HeaderName c)
      | StickyModeParam \<Rightarrow> Query_Get r (sc_ParamName c))"

section \<open>Eviction\<close>

definition st_expired :: "StickyConfig \<Rightarrow> int \<Rightarrow> stickyEntry \<Rightarrow> bool" where
  "st_expired c now e \<longleftrightarrow> sc_SessionTTL c > 0 \<and> now - se_createdAt e > sc_SessionTTL c"

definition st_limit :: "StickyConfig \<Rightarrow> int" where
  "st_limit c = (if sc_MaxSessions c \<le> 0 then 100000 else sc_MaxSessions c)"

definition st_oldest :: "(string, stickyEntry) gomap \<Rightarrow> (string \<times> int) option" where
  "st_oldest m =
     foldl (\<lambda>acc (sid, e). case acc of
              None \<Rightarrow> Some (sid, se_createdAt e)
            | Some (oldestID, oldestTime) \<Rightarrow>
                if se_createdAt e < oldestTime then Some (sid, se_createdAt e) else acc) None m"

definition Sticky_evictIfNeeded :: "StickyConfig \<Rightarrow> int \<Rightarrow> (string, stickyEntry) gomap \<Rightarrow> (string, stickyEntry) gomap" where
  "Sticky_evictIfNeeded c now sessions =
     (let sessions = (if sc_SessionTTL c > 0 then filter (\<lambda>(_, e). \<not> st_expired c now e) sessions else sessions)
      in if int (length sessions) \<ge> st_limit c
         then (case st_oldest sessions of
                 None \<Rightarrow> sessions
               | Some (oldestID, _) \<Rightarrow> if oldestID \<noteq> '''' then AList.delete oldestID sessions else sessions)
         else sessions)"

section \<open>Selection\<close>

text \<open>
  The lookup that both entry points start with: an unexpired session whose backend is offered and
  available gives the backend; an expired or stale session is deleted.
\<close>

definition st_lookup ::
  "StickyConfig \<Rightarrow> int \<Rightarrow> heap \<Rightarrow> bref list \<Rightarrow> string \<Rightarrow> (string, stickyEntry) gomap
   \<Rightarrow> bref option \<times> (string, stickyEntry) gomap" where
  "st_lookup c now h backends sid sessions =
     (if sid = '''' then (None, sessions)
      else (case map_of sessions sid of
              None \<Rightarrow> (None, sessions)
            | Some e \<Rightarrow>
                if st_expired c now e then (None, AList.delete sid sessions)
                else (case find_available h backends (se_backendID e) of
                        Some b \<Rightarrow> (Some b, sessions)
                      | None \<Rightarrow> (None, AList.delete sid sessions))))"

definition st_store ::
  "StickyConfig \<Rightarrow> int \<Rightarrow> string \<Rightarrow> string \<Rightarrow> (string, stickyEntry) gomap \<Rightarrow> (string, stickyEntry) gomap" where
  "st_store c now sid bid sessions =
     AList.update sid \<lparr>se_backendID = bid, se_createdAt = now\<rparr> (Sticky_evictIfNeeded c now sessions)"

definition Sticky_Next ::
  "'s Balancer \<Rightarrow> int \<Rightarrow> RequestContext option \<Rightarrow> heap \<Rightarrow> bref list \<Rightarrow> 's Sticky \<Rightarrow> bref option \<times> 's Sticky" where
  "Sticky_Next base now ctx h backends s =
     (if backends = [] then (None, s)
      else let sid = (case ctx of None \<Rightarrow> ''''
                      | Some cx \<Rightarrow> (case ctx_Request cx of None \<Rightarrow> ''''
                                   | Some r \<Rightarrow> Sticky_extractSessionID (st_config s) r))
           in (case st_lookup (st_config s) now h backends sid (st_sessions s) of
                 (Some b, sessions) \<Rightarrow> (Some b, s\<lparr>st_sessions := sessions\<rparr>)
               | (None, sessions) \<Rightarrow>
                   let (selected, base') = bal_Next base ctx h backends (st_base s);
                       s = s\<lparr>st_base := base', st_sessions := sessions\<rparr>
                   in (case selected of
                         None \<Rightarrow> (None, s)
                       | Some b \<Rightarrow>
                           if sid \<noteq> ''''
                           then (Some b, s\<lparr>st_sessions := st_store (st_config s) now sid (ref_ID h b) sessions\<rparr>)
                           else (Some b, s))))"

definition Sticky_NextWithRequest ::
  "'s Balancer \<Rightarrow> int \<Rightarrow> heap \<Rightarrow> bref list \<Rightarrow> Request option \<Rightarrow> 's Sticky \<Rightarrow> bref option \<times> 's Sticky" where
  "Sticky_NextWithRequest base now h backends r s =
     Sticky_Next base now (Some \<lparr>ctx_ClientIP = '''', ctx_Request = r\<rparr>) h backends s"

function base36_loop :: "int \<Rightarrow> string \<Rightarrow> string" where
  "base36_loop n buf =
     (if n > 0 then base36_loop (n div 36) (''0123456789abcdefghijklmnopqrstuvwxyz'' ! nat (n mod 36) # buf) else buf)"
  by pat_completeness auto
termination
  by (relation "measure (\<lambda>(n, _). nat n)") auto

declare base36_loop.simps [simp del]

definition encodeBase36 :: "int \<Rightarrow> string" where
  "encodeBase36 n = (if n = 0 then ''0'' else base36_loop n [])"

definition hex_byte :: "8 word \<Rightarrow> string" where
  "hex_byte b = [''0123456789abcdef'' ! (unat b div 16), ''0123456789abcdef'' ! (unat b mod 16)]"

definition generateRandomID :: "8 word list option \<Rightarrow> int \<Rightarrow> 64 word \<Rightarrow> string \<times> 64 word" where
  "generateRandomID rnd now sessionCounter =
     (case rnd of
        None \<Rightarrow> let sessionCounter = sessionCounter + 1
                in (encodeBase36 now @ encodeBase36 (sint sessionCounter), sessionCounter)
      | Some b \<Rightarrow> (concat (map hex_byte b), sessionCounter))"

definition Sticky_SelectAndStick ::
  "'s Balancer \<Rightarrow> int \<Rightarrow> 8 word list option \<Rightarrow> heap \<Rightarrow> bref list \<Rightarrow> Request \<Rightarrow> 's Sticky
   \<Rightarrow> (bref option \<times> string) \<times> 's Sticky" where
  "Sticky_SelectAndStick base now rnd h backends r s =
     (if backends = [] then ((None, ''''), s)
      else let sid = Sticky_extractSessionID (st_config s) r
           in (case st_lookup (st_config s) now h backends sid (st_sessions s) of
                 (Some b, sessions) \<Rightarrow> ((Some b, sid), s\<lparr>st_sessions := sessions\<rparr>)
               | (None, sessions) \<Rightarrow>
                   let (sid, cnt) = (if sid = '''' then generateRandomID rnd now (st_sessionCounter s)
                                     else (sid, st_sessionCounter s));
                       (selected, base') = bal_Next base (Some \<lparr>ctx_ClientIP = '''', ctx_Request = Some r\<rparr>) h backends (st_base s);
                       s = s\<lparr>st_base := base', st_sessions := sessions, st_sessionCounter := cnt\<rparr>
                   in (case selected of
                         None \<Rightarrow> ((None, sid), s)
                       | Some b \<Rightarrow> ((Some b, sid),
                           s\<lparr>st_sessions := st_store (st_config s) now sid (ref_ID h b) sessions\<rparr>))))"

section \<open>The other operations\<close>

record Cookie =
  ck_Name :: string
  ck_Value :: string
  ck_Path :: string
  ck_MaxAge :: int
  ck_Expires :: "int option"
  ck_Secure :: bool
  ck_HttpOnly :: bool
  ck_SameSite :: SameSite

definition Sticky_SetCookie :: "int \<Rightarrow> string \<Rightarrow> 's Sticky \<Rightarrow> Cookie option" where
  "Sticky_SetCookie now sid s =
     (let c = st_config s
      in if sc_Mode c \<noteq> StickyModeCookie \<or> sid = '''' then None
         else Some \<lparr>ck_Name = sc_CookieName c, ck_Value = sid, ck_Path = sc_CookiePath c, ck_MaxAge = sc_CookieMaxAge c,
                    ck_Expires = (if sc_CookieMaxAge c > 0 then Some (now + sc_CookieMaxAge c * 1000000000) else None),
                    ck_Secure = sc_CookieSecure c, ck_HttpOnly = sc_CookieHttpOnly c, ck_SameSite = sc_CookieSameSite c\<rparr>)"

definition Sticky_ClearCookie :: "'s Sticky \<Rightarrow> Cookie option" where
  "Sticky_ClearCookie s =
     (let c = st_config s
      in if sc_Mode c \<noteq> StickyModeCookie then None
         else Some \<lparr>ck_Name = sc_CookieName c, ck_Value = '''', ck_Path = sc_CookiePath c, ck_MaxAge = -1,
                    ck_Expires = Some 0,
                    ck_Secure = sc_CookieSecure c, ck_HttpOnly = sc_CookieHttpOnly c, ck_SameSite = sc_CookieSameSite c\<rparr>)"

definition Sticky_Add :: "'s Balancer \<Rightarrow> heap \<Rightarrow> bref \<Rightarrow> 's Sticky \<Rightarrow> 's Sticky" where
  "Sticky_Add base h b s = s\<lparr>st_base := bal_Add base h b (st_base s)\<rparr>"

definition Sticky_Remove :: "'s Balancer \<Rightarrow> heap \<Rightarrow> string \<Rightarrow> 's Sticky \<Rightarrow> 's Sticky" where
  "Sticky_Remove base h i s =
     s\<lparr>st_base := bal_Remove base h i (st_base s),
       st_sessions := filter (\<lambda>(_, e). se_backendID e \<noteq> i) (st_sessions s)\<rparr>"

definition Sticky_Update :: "'s Balancer \<Rightarrow> heap \<Rightarrow> bref \<Rightarrow> 's Sticky \<Rightarrow> 's Sticky" where
  "Sticky_Update base h b s = s\<lparr>st_base := bal_Update base h b (st_base s)\<rparr>"

definition Sticky_GetSessionBackend :: "string \<Rightarrow> 's Sticky \<Rightarrow> string \<times> bool" where
  "Sticky_GetSessionBackend sid s =
     (case map_of (st_sessions s) sid of None \<Rightarrow> ('''', False) | Some e \<Rightarrow> (se_backendID e, True))"

definition Sticky_ClearSession :: "string \<Rightarrow> 's Sticky \<Rightarrow> 's Sticky" where
  "Sticky_ClearSession sid s = s\<lparr>st_sessions := AList.delete sid (st_sessions s)\<rparr>"

definition Sticky_SessionCount :: "'s Sticky \<Rightarrow> nat" where
  "Sticky_SessionCount s = length (st_sessions s)"

definition Sticky_CleanupSessions :: "int \<Rightarrow> string set \<Rightarrow> 's Sticky \<Rightarrow> 's Sticky" where
  "Sticky_CleanupSessions now availableBackends s =
     s\<lparr>st_sessions := filter (\<lambda>(_, e). se_backendID e \<in> availableBackends \<and> \<not> st_expired (st_config s) now e)
         (st_sessions s)\<rparr>"

definition Sticky_methods :: "'s Balancer \<Rightarrow> int \<Rightarrow> 's Sticky Balancer" where
  "Sticky_methods base now =
     \<lparr>bal_Next = Sticky_Next base now, bal_Add = Sticky_Add base, bal_Remove = Sticky_Remove base,
      bal_Update = Sticky_Update base\<rparr>"

section \<open>The session table is bounded\<close>

definition st_table_ok :: "StickyConfig \<Rightarrow> (string, stickyEntry) gomap \<Rightarrow> bool" where
  "st_table_ok c m \<longleftrightarrow> gomap_wf m \<and> '''' \<notin> fst ` set m \<and> int (length m) \<le> st_limit c"

definition st_inv :: "'s Sticky \<Rightarrow> bool" where
  "st_inv s \<longleftrightarrow> st_table_ok (st_config s) (st_sessions s)"

lemma st_oldest_key:
  "(st_oldest m = None \<longleftrightarrow> m = []) \<and> (\<forall>i t. st_oldest m = Some (i, t) \<longrightarrow> i \<in> fst ` set m)"
proof (induction m rule: rev_induct)
  case (snoc p m)
  then show ?case by (cases p) (auto simp: st_oldest_def split: option.splits if_splits)
qed (simp add: st_oldest_def)

lemma filter_gomap:
  "gomap_wf m \<Longrightarrow> gomap_wf (filter p m)" "fst ` set (filter p m) \<subseteq> fst ` set m" "length (filter p m) \<le> length m"
  by (auto simp: distinct_map_filter)

lemma evictIfNeeded_inv:
  assumes wf: "gomap_wf m" and ne: "'''' \<notin> fst ` set m" and len: "int (length m) \<le> st_limit c"
  shows "gomap_wf (Sticky_evictIfNeeded c now m)" and "fst ` set (Sticky_evictIfNeeded c now m) \<subseteq> fst ` set m"
    and "int (length (Sticky_evictIfNeeded c now m)) < st_limit c"
proof -
  define m' where "m' = (if sc_SessionTTL c > 0 then filter (\<lambda>(_, e). \<not> st_expired c now e) m else m)"
  have m': "gomap_wf m'" "fst ` set m' \<subseteq> fst ` set m" "length m' \<le> length m"
    using filter_gomap [where m = m] wf by (auto simp: m'_def)
  have ev: "Sticky_evictIfNeeded c now m =
      (if int (length m') \<ge> st_limit c
       then (case st_oldest m' of None \<Rightarrow> m'
             | Some (i, _) \<Rightarrow> if i \<noteq> '''' then AList.delete i m' else m') else m')"
    unfolding Sticky_evictIfNeeded_def Let_def m'_def [symmetric] by (rule refl)
  have pos: "0 < st_limit c" by (simp add: st_limit_def)
  show "gomap_wf (Sticky_evictIfNeeded c now m)" and "fst ` set (Sticky_evictIfNeeded c now m) \<subseteq> fst ` set m"
    using m' unfolding ev by (auto simp: gomap split: option.split)
  show "int (length (Sticky_evictIfNeeded c now m)) < st_limit c"
  proof (cases "int (length m') \<ge> st_limit c")
    case True
    with pos have "m' \<noteq> []" by auto
    then obtain i t where o: "st_oldest m' = Some (i, t)" using st_oldest_key [of m'] by fastforce
    then have i: "i \<in> fst ` set m'" using st_oldest_key [of m'] by blast
    with m'(2) ne have "i \<noteq> ''''" by blast
    with True o have "Sticky_evictIfNeeded c now m = AList.delete i m'" by (simp add: ev)
    then show ?thesis using length_delete_key [OF m'(1) i] m'(3) len by simp
  qed (simp add: ev)
qed

lemma st_store_inv:
  assumes "gomap_wf m" and "'''' \<notin> fst ` set m" and "int (length m) \<le> st_limit c" and "sid \<noteq> ''''"
  shows "gomap_wf (st_store c now sid bid m)" and "'''' \<notin> fst ` set (st_store c now sid bid m)"
    and "int (length (st_store c now sid bid m)) \<le> st_limit c"
proof -
  note ev = evictIfNeeded_inv [OF assms(1-3), of now]
  show "gomap_wf (st_store c now sid bid m)" and "'''' \<notin> fst ` set (st_store c now sid bid m)"
    using ev assms(2,4) by (auto simp: st_store_def gomap)
  show "int (length (st_store c now sid bid m)) \<le> st_limit c"
    using ev(3) by (cases "sid \<in> fst ` set (Sticky_evictIfNeeded c now m)")
      (simp_all add: st_store_def length_update_new length_update_old)
qed

lemma length_delete_le: "length (AList.delete k m) \<le> length m"
  by (simp add: AList.delete_eq)

lemma st_lookup_inv:
  assumes "st_lookup c now h bs sid m = (r, m')" and "gomap_wf m" and "'''' \<notin> fst ` set m"
  shows "gomap_wf m'" and "'''' \<notin> fst ` set m'" and "length m' \<le> length m"
proof -
  have "m' = m \<or> m' = AList.delete sid m"
    using assms(1) by (auto simp: st_lookup_def split: if_splits option.splits)
  then show "gomap_wf m'" and "'''' \<notin> fst ` set m'" and "length m' \<le> length m"
    using assms(2,3) length_delete_le [of sid m] keys_delete [of sid m] by (elim disjE; simp add: gomap)+
qed

lemma st_store_ok: "st_table_ok c m \<Longrightarrow> sid \<noteq> '''' \<Longrightarrow> st_table_ok c (st_store c now sid bid m)"
  using st_store_inv [of m c sid now bid] by (simp add: st_table_ok_def)

lemma st_lookup_ok: "st_lookup c now h bs sid m = (r, m') \<Longrightarrow> st_table_ok c m \<Longrightarrow> st_table_ok c m'"
  using st_lookup_inv [of c now h bs sid m r m'] by (simp add: st_table_ok_def)

lemma st_lookup_Some:
  "st_lookup c now h bs sid m = (Some b, m') \<Longrightarrow> m' = m \<and> b \<in> set bs \<and> Backend_IsAvailable (h b)"
  by (auto simp: st_lookup_def split: if_splits option.splits dest: find_available_SomeD)

lemma Sticky_Next_inv:
  assumes inv: "st_inv s" and "Sticky_Next base now ctx h bs s = (r, s')"
  shows "st_inv s' \<and> st_config s' = st_config s"
proof (cases "bs = []")
  case False
  define sid where "sid = (case ctx of None \<Rightarrow> '''' | Some cx \<Rightarrow> (case ctx_Request cx of None \<Rightarrow> ''''
      | Some r \<Rightarrow> Sticky_extractSessionID (st_config s) r))"
  obtain l m where l: "st_lookup (st_config s) now h bs sid (st_sessions s) = (l, m)" by fastforce
  have m: "st_table_ok (st_config s) m" using st_lookup_ok [OF l] inv by (simp add: st_inv_def)
  obtain sel b' where b: "bal_Next base ctx h bs (st_base s) = (sel, b')" by fastforce
  have "Sticky_Next base now ctx h bs s =
      (case l of Some b \<Rightarrow> (Some b, s\<lparr>st_sessions := m\<rparr>)
       | None \<Rightarrow> (case sel of None \<Rightarrow> (None, s\<lparr>st_base := b', st_sessions := m\<rparr>)
                  | Some b \<Rightarrow> if sid \<noteq> '''' then (Some b, s\<lparr>st_base := b', st_sessions := st_store (st_config s) now sid (ref_ID h b) m\<rparr>)
                             else (Some b, s\<lparr>st_base := b', st_sessions := m\<rparr>)))"
    using False l b unfolding Sticky_Next_def sid_def [symmetric] by (simp add: Let_def split: option.split)
  with assms(2) m st_store_ok [OF m] show ?thesis
    by (auto simp: st_inv_def split: option.splits if_splits)
qed (use assms in \<open>simp add: Sticky_Next_def\<close>)

lemma base36_loop_nonempty: "0 < n \<or> buf \<noteq> [] \<Longrightarrow> base36_loop n buf \<noteq> []"
proof (induction n buf rule: base36_loop.induct)
  case (1 n buf)
  show ?case
  proof (cases "n > 0")
    case True
    then show ?thesis using "1.IH" by (simp add: base36_loop.simps [of n buf])
  next
    case False
    with "1.prems" show ?thesis by (simp add: base36_loop.simps [of n buf])
  qed
qed

lemma generateRandomID_nonempty:
  assumes "case rnd of None \<Rightarrow> 0 \<le> now | Some b \<Rightarrow> b \<noteq> []"
  shows "fst (generateRandomID rnd now cnt) \<noteq> ''''"
proof (cases rnd)
  case None
  then have "encodeBase36 now \<noteq> []" using assms base36_loop_nonempty [of now "[]"] by (auto simp: encodeBase36_def)
  with None show ?thesis by (simp add: generateRandomID_def Let_def)
next
  case (Some b)
  then obtain x xs where "b = x # xs" using assms by (cases b) auto
  with Some show ?thesis by (simp add: generateRandomID_def hex_byte_def)
qed

lemma SelectAndStick_inv:
  assumes inv: "st_inv s" and rnd: "case rnd of None \<Rightarrow> 0 \<le> now | Some b \<Rightarrow> b \<noteq> []"
    and "Sticky_SelectAndStick base now rnd h bs r s = (res, s')"
  shows "st_inv s' \<and> st_config s' = st_config s"
proof (cases "bs = []")
  case False
  define sid where "sid = Sticky_extractSessionID (st_config s) r"
  obtain l m where l: "st_lookup (st_config s) now h bs sid (st_sessions s) = (l, m)" by fastforce
  have m: "st_table_ok (st_config s) m" using st_lookup_ok [OF l] inv by (simp add: st_inv_def)
  obtain sid' cnt where g: "(if sid = '''' then generateRandomID rnd now (st_sessionCounter s)
      else (sid, st_sessionCounter s)) = (sid', cnt)" by fastforce
  then have "sid' \<noteq> ''''" using generateRandomID_nonempty [OF rnd, of "st_sessionCounter s"] by (auto split: if_splits)
  note st = st_store_ok [OF m this]
  obtain sel b' where b: "bal_Next base (Some \<lparr>ctx_ClientIP = '''', ctx_Request = Some r\<rparr>) h bs (st_base s) = (sel, b')"
    by fastforce
  have "Sticky_SelectAndStick base now rnd h bs r s =
      (case l of Some b \<Rightarrow> ((Some b, sid), s\<lparr>st_sessions := m\<rparr>)
       | None \<Rightarrow> (case sel of
           None \<Rightarrow> ((None, sid'), s\<lparr>st_base := b', st_sessions := m, st_sessionCounter := cnt\<rparr>)
         | Some b \<Rightarrow> ((Some b, sid'), s\<lparr>st_base := b', st_sessions := st_store (st_config s) now sid' (ref_ID h b) m,
                                       st_sessionCounter := cnt\<rparr>)))"
    using False unfolding Sticky_SelectAndStick_def sid_def [symmetric] Let_def l g b
    by (simp split: option.split)
  with assms(3) m st show ?thesis
    by (auto simp: st_inv_def split: option.splits)
qed (use assms in \<open>simp add: Sticky_SelectAndStick_def\<close>)

section \<open>Affinity over any base algorithm\<close>

definition st_session :: "RequestContext option \<Rightarrow> 's Sticky \<Rightarrow> string" where
  "st_session ctx s =
     (case ctx of None \<Rightarrow> '''' | Some cx \<Rightarrow> (case ctx_Request cx of None \<Rightarrow> ''''
      | Some r \<Rightarrow> Sticky_extractSessionID (st_config s) r))"

lemma Sticky_Next_alt:
  "Sticky_Next base now ctx h bs s =
     (if bs = [] then (None, s)
      else case st_lookup (st_config s) now h bs (st_session ctx s) (st_sessions s) of
             (Some b, m) \<Rightarrow> (Some b, s\<lparr>st_sessions := m\<rparr>)
           | (None, m) \<Rightarrow>
               (case bal_Next base ctx h bs (st_base s) of
                  (None, b') \<Rightarrow> (None, s\<lparr>st_base := b', st_sessions := m\<rparr>)
                | (Some b, b') \<Rightarrow>
                    (Some b, s\<lparr>st_base := b', st_sessions :=
                       (if st_session ctx s = '''' then m
                        else st_store (st_config s) now (st_session ctx s) (ref_ID h b) m)\<rparr>)))"
  unfolding Sticky_Next_def st_session_def [symmetric] Let_def
  by (auto split: prod.split option.split)

text \<open>
  Whatever keeps the laws of the interface as a base keeps them under the wrapper, and the wrapper
  selects a backend whenever the base would.
\<close>

locale sticky_over = live_balancer base ready
  for base :: "'s Balancer" and ready +
  fixes now :: int
begin

lemma sticky_mem:
  assumes "Sticky_Next base now ctx h bs s = (Some r, s')"
  shows "r \<in> set bs"
proof (cases "bs = []")
  case True
  with assms show ?thesis by (simp add: Sticky_Next_def)
next
  case False
  obtain l m where l: "st_lookup (st_config s) now h bs (st_session ctx s) (st_sessions s) = (l, m)" by fastforce
  obtain sel b' where b: "bal_Next base ctx h bs (st_base s) = (sel, b')" by fastforce
  show ?thesis
    using assms False l b st_lookup_Some [of _ _ h bs _ _ r m] next_mem [of ctx h bs "st_base s" r b']
    by (auto simp: Sticky_Next_alt split: option.splits)
qed

lemma sticky_some:
  assumes "ready ctx h bs (st_base s)" and "bs \<noteq> []"
  shows "fst (Sticky_Next base now ctx h bs s) \<noteq> None"
  using next_some [OF assms] assms(2)
  by (auto simp: Sticky_Next_alt split: prod.split option.split)

end

sublocale sticky_over \<subseteq> st: live_balancer "Sticky_methods base now" "\<lambda>ctx h bs s. ready ctx h bs (st_base s)"
proof unfold_locales
  fix ctx h s r s' and bs :: "bref list"
  assume "bal_Next (Sticky_methods base now) ctx h bs s = (Some r, s')"
  then show "r \<in> set bs" using sticky_mem by (simp add: Sticky_methods_def)
next
  fix ctx h and bs :: "bref list" and s :: "'s Sticky"
  assume "ready ctx h bs (st_base s)" "bs \<noteq> []"
  then show "fst (bal_Next (Sticky_methods base now) ctx h bs s) \<noteq> None"
    using sticky_some by (simp add: Sticky_methods_def)
qed (simp add: Sticky_methods_def Sticky_Next_def)

interpretation sticky_rr: sticky_over RoundRobin_methods "\<lambda>ctx h bs s. True" now for now
  by unfold_locales

section \<open>Properties\<close>

text \<open>
  Session affinity: when a request whose session is not in the table is sent to the backend
  that the base algorithm selects, every later request of the session that finds the entry of that
  call in the table within the session's time to live is sent to the same backend, as long as that
  backend is offered and available, and the base algorithm is not consulted.
\<close>

theorem Sticky_affinity:
  assumes first: "Sticky_Next base now ctx h bs s = (Some b, s')"
    and new: "map_of (st_sessions s) (st_session ctx s) = None" and sid: "st_session ctx s \<noteq> ''''"
    and same: "st_config s2 = st_config s" "st_session ctx2 s2 = st_session ctx s"
    and kept: "map_of (st_sessions s2) (st_session ctx s) = map_of (st_sessions s') (st_session ctx s)"
    and ttl: "sc_SessionTTL (st_config s) \<le> 0 \<or> now2 - now \<le> sc_SessionTTL (st_config s)"
    and av: "find_available h2 bs2 (ref_ID h b) = Some b2"
  shows "Sticky_Next base now2 ctx2 h2 bs2 s2 = (Some b2, s2)"
proof -
  let ?sid = "st_session ctx s"
  have ne: "bs \<noteq> []" using first by (auto simp: Sticky_Next_def)
  have miss: "st_lookup (st_config s) now h bs ?sid (st_sessions s) = (None, st_sessions s)"
    using new by (simp add: st_lookup_def)
  obtain sel b' where base: "bal_Next base ctx h bs (st_base s) = (sel, b')" by fastforce
  have "st_sessions s' = st_store (st_config s) now ?sid (ref_ID h b) (st_sessions s)"
    using first ne miss base sid by (auto simp: Sticky_Next_alt split: option.splits)
  then have entry: "map_of (st_sessions s2) ?sid = Some \<lparr>se_backendID = ref_ID h b, se_createdAt = now\<rparr>"
    using kept by (simp add: st_store_def map_of_update)
  have "\<not> st_expired (st_config s) now2 \<lparr>se_backendID = ref_ID h b, se_createdAt = now\<rparr>"
    using ttl by (auto simp: st_expired_def)
  then have "st_lookup (st_config s2) now2 h2 bs2 (st_session ctx2 s2) (st_sessions s2) = (Some b2, st_sessions s2)"
    using entry same sid av by (simp add: st_lookup_def)
  moreover have "bs2 \<noteq> []" using av by (auto simp: find_available_def)
  ultimately show ?thesis by (simp add: Sticky_Next_alt)
qed

definition sticky_example_request :: RequestContext where
  "sticky_example_request =
     \<lparr>ctx_ClientIP = '''', ctx_Request = Some
        \<lparr>req_Method = ''GET'', req_Host = ''h'', req_URL_Host = '''', req_URL_Path = ''/'', req_Header = [],
         req_Cookies = [(''OLB_SRV'', ''s1'')], req_Query = [], req_RemoteAddr = []\<rparr>\<rparr>"

theorem Sticky_affinity_witness:
  "Sticky_Next RoundRobin_methods 5 (Some sticky_example_request) example_heap [1, 0]
     (snd (Sticky_Next RoundRobin_methods 0 (Some sticky_example_request) example_heap [0, 1] (NewSticky 0 None))) =
   (Some 0, snd (Sticky_Next RoundRobin_methods 0 (Some sticky_example_request) example_heap [0, 1] (NewSticky 0 None)))"
  (is "Sticky_Next _ _ ?c _ _ ?s2 = _")
proof (rule Sticky_affinity)
  show "Sticky_Next RoundRobin_methods 0 ?c example_heap [0, 1] (NewSticky 0 None) = (Some 0, ?s2)" by code_simp
  show "map_of (st_sessions ?s2) (st_session ?c (NewSticky (0::64 word) None)) =
        map_of (st_sessions ?s2) (st_session ?c (NewSticky (0::64 word) None))" by (rule refl)
qed code_simp+

inductive Sticky_reach :: "'s Balancer \<Rightarrow> 's Sticky \<Rightarrow> bool" for base where
  new: "Sticky_reach base (NewSticky b c)"
| select: "Sticky_reach base s \<Longrightarrow> Sticky_Next base now ctx h bs s = (r, s') \<Longrightarrow> Sticky_reach base s'"
| stick: "Sticky_reach base s \<Longrightarrow> (case rnd of None \<Rightarrow> 0 \<le> now | Some b \<Rightarrow> length b = 16) \<Longrightarrow>
    Sticky_SelectAndStick base now rnd h bs r s = (res, s') \<Longrightarrow> Sticky_reach base s'"
| add: "Sticky_reach base s \<Longrightarrow> Sticky_reach base (Sticky_Add base h b s)"
| remove: "Sticky_reach base s \<Longrightarrow> Sticky_reach base (Sticky_Remove base h i s)"
| update: "Sticky_reach base s \<Longrightarrow> Sticky_reach base (Sticky_Update base h b s)"
| clear: "Sticky_reach base s \<Longrightarrow> Sticky_reach base (Sticky_ClearSession sid s)"
| cleanup: "Sticky_reach base s \<Longrightarrow> Sticky_reach base (Sticky_CleanupSessions now av s)"

lemma st_table_ok_filter:
  assumes "st_table_ok c m"
  shows "st_table_ok c (filter p m)"
proof -
  have "gomap_wf (filter p m)" using assms filter_gomap(1) unfolding st_table_ok_def by blast
  moreover have "'''' \<notin> fst ` set (filter p m)" using assms unfolding st_table_ok_def by auto
  moreover have "int (length (filter p m)) \<le> st_limit c"
    using assms length_filter_le [of p m] unfolding st_table_ok_def by linarith
  ultimately show ?thesis unfolding st_table_ok_def by blast
qed

lemma st_table_ok_delete: "st_table_ok c m \<Longrightarrow> st_table_ok c (AList.delete k m)"
  using length_delete_le [of k m] keys_delete [of k m] by (simp add: st_table_ok_def gomap)

lemma Sticky_reach_inv: "Sticky_reach base s \<Longrightarrow> st_inv s"
proof (induction rule: Sticky_reach.induct)
  case (new b c)
  show ?case by (auto simp: st_inv_def st_table_ok_def NewSticky_def st_limit_def split: option.split)
next
  case (select s now ctx h bs r s')
  then show ?case using Sticky_Next_inv by blast
next
  case (stick s rnd now h bs r res s')
  have "case rnd of None \<Rightarrow> 0 \<le> now | Some b \<Rightarrow> b \<noteq> []" using stick.hyps(2) by (auto split: option.splits)
  from SelectAndStick_inv [OF stick.IH this stick.hyps(3)] show ?case by (rule conjunct1)
qed (simp_all add: st_inv_def Sticky_Add_def Sticky_Remove_def Sticky_Update_def Sticky_ClearSession_def
    Sticky_CleanupSessions_def st_table_ok_filter st_table_ok_delete)

text \<open>
  The session table is bounded: after any sequence of operations it holds at most
  \<^verbatim>\<open>MaxSessions\<close> sessions (100000 when the configured value is not positive).
\<close>

theorem Sticky_sessions_bounded:
  assumes "Sticky_reach base s"
  shows "int (Sticky_SessionCount s) \<le> st_limit (st_config s)"
  using Sticky_reach_inv [OF assms] by (simp add: st_inv_def st_table_ok_def Sticky_SessionCount_def)

theorem Sticky_sessions_bounded_witness:
  "int (Sticky_SessionCount (NewSticky (0::64 word) None)) \<le> st_limit DefaultStickyConfig"
  using Sticky_sessions_bounded [OF Sticky_reach.new [of RoundRobin_methods 0 None]]
  by (simp add: NewSticky_def)

end
