(* ===== verification/Pool.thy ===== *)
theory Pool
  imports Balancer Errors
begin

text \<open>
  \<^verbatim>\<open>internal/backend/pool.go\<close> and \<^verbatim>\<open>internal/backend/manager.go\<close>: pools of backends behind a load
  balancing algorithm, and the manager that names them. A pool holds pointers to backends, so the
  operations take the heap, and those that change a backend's state return it. The algorithm is a
  method table with its receiver.
\<close>

section \<open>The pool\<close>

record HealthCheckConfig =
  hc_Enabled :: bool
  hc_Interval :: int
  hc_Timeout :: int
  hc_Path :: string
  hc_Port :: int

record PoolStats =
  ps_Name :: string
  ps_TotalBackends :: nat
  ps_HealthyBackends :: nat
  ps_BackendStats :: "(string, BackendStats) gomap"

record 's Pool =
  p_Name :: string
  p_Algorithm :: string
  p_Backends :: "(string, bref) gomap"
  p_order :: "bref list"
  p_balancer :: "('s Balancer \<times> 's) option"
  p_HealthCheck :: HealthCheckConfig

definition NewPool :: "string \<Rightarrow> string \<Rightarrow> 's Pool" where
  "NewPool name algorithm =
     \<lparr>p_Name = name, p_Algorithm = algorithm, p_Backends = [], p_order = [], p_balancer = None,
      p_HealthCheck = \<lparr>hc_Enabled = False, hc_Interval = 0, hc_Timeout = 0, hc_Path = '''', hc_Port = 0\<rparr>\<rparr>"

definition Pool_SetBalancer :: "'s Balancer \<times> 's \<Rightarrow> 's Pool \<Rightarrow> 's Pool" where
  "Pool_SetBalancer b p = p\<lparr>p_balancer := Some b\<rparr>"

text \<open>A call of a method of the configured algorithm, which does nothing without one.\<close>

definition with_balancer :: "('s Balancer \<Rightarrow> 's \<Rightarrow> 's) \<Rightarrow> 's Pool \<Rightarrow> 's Pool" where
  "with_balancer f p = p\<lparr>p_balancer := map_option (\<lambda>(ops, s). (ops, f ops s)) (p_balancer p)\<rparr>"

definition Pool_AddBackend :: "heap \<Rightarrow> bref option \<Rightarrow> 's Pool \<Rightarrow> gerror option \<times> 's Pool" where
  "Pool_AddBackend h backend p =
     (case backend of
        None \<Rightarrow> (Some (Error_WithContext ErrInvalidArg ''reason'' ''backend is nil''), p)
      | Some b \<Rightarrow>
          if ref_ID h b = '''' then (Some (Error_WithContext ErrInvalidArg ''reason'' ''backend ID is empty''), p)
          else (case map_of (p_Backends p) (ref_ID h b) of
                  Some _ \<Rightarrow> (Some (Error_WithContext ErrAlreadyExist ''backend_id'' (ref_ID h b)), p)
                | None \<Rightarrow>
                    (None, with_balancer (\<lambda>ops s. bal_Add ops h b s)
                       (p\<lparr>p_Backends := AList.update (ref_ID h b) b (p_Backends p), p_order := p_order p @ [b]\<rparr>))))"

definition order_remove :: "heap \<Rightarrow> string \<Rightarrow> bref list \<Rightarrow> bref list" where
  "order_remove h i order =
     (case first_index (\<lambda>b. ref_ID h b = i) order of
        None \<Rightarrow> order
      | Some k \<Rightarrow> take k order @ drop (Suc k) order)"

definition Pool_RemoveBackend :: "heap \<Rightarrow> string \<Rightarrow> 's Pool \<Rightarrow> gerror option \<times> 's Pool" where
  "Pool_RemoveBackend h i p =
     (if i = '''' then (Some (Error_WithContext ErrInvalidArg ''reason'' ''backend ID is empty''), p)
      else (case map_of (p_Backends p) i of
              None \<Rightarrow> (Some (Error_WithContext ErrBackendNotFound ''backend_id'' i), p)
            | Some _ \<Rightarrow>
                (None, with_balancer (\<lambda>ops s. bal_Remove ops h i s)
                   (p\<lparr>p_Backends := AList.delete i (p_Backends p), p_order := order_remove h i (p_order p)\<rparr>))))"

definition Pool_GetBackend :: "string \<Rightarrow> 's Pool \<Rightarrow> bref option" where
  "Pool_GetBackend i p = map_of (p_Backends p) i"

definition Pool_GetHealthyBackends :: "heap \<Rightarrow> 's Pool \<Rightarrow> bref list" where
  "Pool_GetHealthyBackends h p = filter (\<lambda>b. Backend_IsAvailable (h b)) (p_order p)"

definition Pool_NextBackend :: "bool \<Rightarrow> heap \<Rightarrow> 's Pool \<Rightarrow> (gerror + bref) \<times> 's Pool" where
  "Pool_NextBackend cancelled h p =
     (if cancelled then (Inl ErrCanceled, p)
      else (case p_balancer p of
              None \<Rightarrow> (Inl (Error_WithContext ErrInternal ''reason'' ''no balancer configured''), p)
            | Some (ops, s) \<Rightarrow>
                let healthy = Pool_GetHealthyBackends h p
                in if healthy = [] then (Inl (Error_WithContext ErrPoolEmpty ''pool'' (p_Name p)), p)
                   else (case bal_Next ops None h healthy s of
                           (None, s') \<Rightarrow> (Inl (Error_WithContext ErrBackendUnavailable ''pool'' (p_Name p)),
                                         p\<lparr>p_balancer := Some (ops, s')\<rparr>)
                         | (Some b, s') \<Rightarrow> (Inr b, p\<lparr>p_balancer := Some (ops, s')\<rparr>))))"

text \<open>The three operations that change a backend's state share their body in the code.\<close>

definition pool_set_state :: "State \<Rightarrow> string \<Rightarrow> heap \<times> 's Pool \<Rightarrow> gerror option \<times> heap \<times> 's Pool" where
  "pool_set_state st i hp =
     (case hp of (h, p) \<Rightarrow>
        case map_of (p_Backends p) i of
          None \<Rightarrow> (Some (Error_WithContext ErrBackendNotFound ''backend_id'' i), h, p)
        | Some b \<Rightarrow>
            let h = h(b := Backend_SetState (h b) st)
            in (None, h, with_balancer (\<lambda>ops s. bal_Update ops h b s) p))"

definition Pool_DrainBackend :: "string \<Rightarrow> heap \<times> 's Pool \<Rightarrow> gerror option \<times> heap \<times> 's Pool" where
  "Pool_DrainBackend i hp = pool_set_state StateDraining i hp"

definition Pool_EnableBackend :: "string \<Rightarrow> heap \<times> 's Pool \<Rightarrow> gerror option \<times> heap \<times> 's Pool" where
  "Pool_EnableBackend i hp = pool_set_state StateUp i hp"

definition Pool_DisableBackend :: "string \<Rightarrow> heap \<times> 's Pool \<Rightarrow> gerror option \<times> heap \<times> 's Pool" where
  "Pool_DisableBackend i hp = pool_set_state StateMaintenance i hp"

definition Pool_BackendCount :: "'s Pool \<Rightarrow> nat" where
  "Pool_BackendCount p = length (p_Backends p)"

definition Pool_HealthyCount :: "heap \<Rightarrow> 's Pool \<Rightarrow> nat" where
  "Pool_HealthyCount h p = length (filter (\<lambda>(_, b). Backend_IsHealthy (h b)) (p_Backends p))"

definition Pool_GetAllBackends :: "'s Pool \<Rightarrow> bref list" where
  "Pool_GetAllBackends p = p_order p"

definition Pool_Stats :: "heap \<Rightarrow> 's Pool \<Rightarrow> PoolStats" where
  "Pool_Stats h p =
     \<lparr>ps_Name = p_Name p, ps_TotalBackends = length (p_Backends p),
      ps_HealthyBackends = length (filter (\<lambda>(_, b). Backend_IsHealthy (h b)) (p_Backends p)),
      ps_BackendStats = map (\<lambda>(i, b). (i, Backend_Stats (h b))) (p_Backends p)\<rparr>"

definition Pool_Clone :: "'s Pool \<Rightarrow> 's Pool" where
  "Pool_Clone p =
     \<lparr>p_Name = p_Name p, p_Algorithm = p_Algorithm p, p_Backends = p_Backends p, p_order = [],
      p_balancer = None, p_HealthCheck = p_HealthCheck p\<rparr>"

section \<open>The manager\<close>

text \<open>Pools are pointers too: \<open>pref\<close> is a pool's address and the pools live in a heap of pools.\<close>

type_synonym pref = nat
type_synonym 's pheap = "pref \<Rightarrow> 's Pool"

record PoolManager =
  pm_pools :: "(string, pref) gomap"

definition NewPoolManager :: PoolManager where
  "NewPoolManager = \<lparr>pm_pools = []\<rparr>"

definition PoolManager_AddPool :: "'s pheap \<Rightarrow> pref option \<Rightarrow> PoolManager \<Rightarrow> gerror option \<times> PoolManager" where
  "PoolManager_AddPool ph pool pm =
     (case pool of
        None \<Rightarrow> (Some (Error_WithContext ErrInvalidArg ''reason'' ''pool is nil''), pm)
      | Some r \<Rightarrow>
          if p_Name (ph r) = '''' then (Some (Error_WithContext ErrInvalidArg ''reason'' ''pool name is empty''), pm)
          else (case map_of (pm_pools pm) (p_Name (ph r)) of
                  Some _ \<Rightarrow> (Some (Error_WithContext ErrAlreadyExist ''pool_name'' (p_Name (ph r))), pm)
                | None \<Rightarrow> (None, pm\<lparr>pm_pools := AList.update (p_Name (ph r)) r (pm_pools pm)\<rparr>)))"

definition PoolManager_RemovePool :: "string \<Rightarrow> PoolManager \<Rightarrow> gerror option \<times> PoolManager" where
  "PoolManager_RemovePool name pm =
     (case map_of (pm_pools pm) name of
        None \<Rightarrow> (Some (Error_WithContext ErrPoolNotFound ''pool_name'' name), pm)
      | Some _ \<Rightarrow> (None, pm\<lparr>pm_pools := AList.delete name (pm_pools pm)\<rparr>))"

definition PoolManager_GetPool :: "string \<Rightarrow> PoolManager \<Rightarrow> pref option" where
  "PoolManager_GetPool name pm = map_of (pm_pools pm) name"

definition PoolManager_GetAllPools :: "PoolManager \<Rightarrow> pref list" where
  "PoolManager_GetAllPools pm = map snd (pm_pools pm)"

definition PoolManager_GetBackend :: "'s pheap \<Rightarrow> string \<Rightarrow> string \<Rightarrow> PoolManager \<Rightarrow> bref option" where
  "PoolManager_GetBackend ph poolName backendID pm =
     (case PoolManager_GetPool poolName pm of None \<Rightarrow> None | Some r \<Rightarrow> Pool_GetBackend backendID (ph r))"

definition PoolManager_GetBackendAcrossPools :: "'s pheap \<Rightarrow> string \<Rightarrow> PoolManager \<Rightarrow> (bref \<times> string) option" where
  "PoolManager_GetBackendAcrossPools ph backendID pm =
     find_map (\<lambda>(poolName, r). map_option (\<lambda>b. (b, poolName)) (Pool_GetBackend backendID (ph r))) (pm_pools pm)"

definition PoolManager_PoolExists :: "string \<Rightarrow> PoolManager \<Rightarrow> bool" where
  "PoolManager_PoolExists name pm = (map_of (pm_pools pm) name \<noteq> None)"

definition PoolManager_BackendCount :: "'s pheap \<Rightarrow> PoolManager \<Rightarrow> nat" where
  "PoolManager_BackendCount ph pm = foldl (\<lambda>count (_, r). count + Pool_BackendCount (ph r)) 0 (pm_pools pm)"

definition PoolManager_HealthyBackendCount :: "heap \<Rightarrow> 's pheap \<Rightarrow> PoolManager \<Rightarrow> nat" where
  "PoolManager_HealthyBackendCount h ph pm = foldl (\<lambda>count (_, r). count + Pool_HealthyCount h (ph r)) 0 (pm_pools pm)"

definition PoolManager_BackendStats :: "heap \<Rightarrow> 's pheap \<Rightarrow> PoolManager \<Rightarrow> (string, PoolStats) gomap" where
  "PoolManager_BackendStats h ph pm = map (\<lambda>(name, r). (name, Pool_Stats h (ph r))) (pm_pools pm)"

definition PoolManager_Snapshot :: "'s pheap \<Rightarrow> PoolManager \<Rightarrow> (string, 's Pool) gomap" where
  "PoolManager_Snapshot ph pm = map (\<lambda>(name, r). (name, Pool_Clone (ph r))) (pm_pools pm)"

definition PoolManager_Clear :: "PoolManager \<Rightarrow> PoolManager" where
  "PoolManager_Clear pm = pm\<lparr>pm_pools := []\<rparr>"

definition PoolManager_PoolCount :: "PoolManager \<Rightarrow> nat" where
  "PoolManager_PoolCount pm = length (pm_pools pm)"

definition PoolManager_GetBackendByAddress :: "heap \<Rightarrow> 's pheap \<Rightarrow> string \<Rightarrow> PoolManager \<Rightarrow> bref option" where
  "PoolManager_GetBackendByAddress h ph addr pm =
     find_map (\<lambda>(_, r). find (\<lambda>b. b_Address (h b) = addr) (Pool_GetAllBackends (ph r))) (pm_pools pm)"

section \<open>The pool invariant\<close>

text \<open>The map and the slice hold the same backends, and no two of them share an ID.\<close>

definition pool_inv :: "heap \<Rightarrow> 's Pool \<Rightarrow> bool" where
  "pool_inv h p \<longleftrightarrow>
     gomap_wf (p_Backends p) \<and> distinct (tracked_ids h (p_order p)) \<and>
     set (p_Backends p) = (\<lambda>b. (ref_ID h b, b)) ` set (p_order p) \<and> '''' \<notin> fst ` set (p_Backends p)"

lemma pool_inv_keys: "pool_inv h p \<Longrightarrow> fst ` set (p_Backends p) = ref_ID h ` set (p_order p)"
  by (simp add: pool_inv_def image_image)

lemma with_balancer_sel [simp]:
  "p_Name (with_balancer f p) = p_Name p" "p_Backends (with_balancer f p) = p_Backends p"
  "p_order (with_balancer f p) = p_order p"
  "p_balancer (with_balancer f p) = map_option (\<lambda>(ops, s). (ops, f ops s)) (p_balancer p)"
  by (simp_all add: with_balancer_def)

lemma order_remove_filter:
  assumes "distinct (tracked_ids h bs)"
  shows "order_remove h i bs = filter (\<lambda>b. ref_ID h b \<noteq> i) bs"
  using assms
proof (induction bs)
  case (Cons b bs)
  show ?case
  proof (cases "ref_ID h b = i")
    case True
    then have "filter (\<lambda>b. ref_ID h b \<noteq> i) bs = bs"
      using Cons.prems by (auto simp: filter_id_conv intro: rev_image_eqI)
    with True show ?thesis by (simp add: order_remove_def)
  next
    case False
    with Cons show ?thesis by (auto simp: order_remove_def split: option.splits)
  qed
qed (simp add: order_remove_def)

lemma NewPool_inv: "pool_inv h (NewPool n a)"
  by (simp add: pool_inv_def NewPool_def)

lemma Pool_AddBackend_inv:
  assumes inv: "pool_inv h p" and add: "Pool_AddBackend h b p = (e, p')"
  shows "pool_inv h p'"
proof (cases "e = None")
  case False
  then have "p' = p" using add by (auto simp: Pool_AddBackend_def split: option.splits if_splits)
  then show ?thesis using inv by simp
next
  case True
  then obtain r where r: "b = Some r" "ref_ID h r \<noteq> ''''" "map_of (p_Backends p) (ref_ID h r) = None"
    and p': "p' = with_balancer (\<lambda>ops s. bal_Add ops h r s)
      (p\<lparr>p_Backends := AList.update (ref_ID h r) r (p_Backends p), p_order := p_order p @ [r]\<rparr>)"
    using add by (auto simp: Pool_AddBackend_def split: option.splits if_splits)
  have new: "ref_ID h r \<notin> fst ` set (p_Backends p)" using r(3) by (simp add: map_of_eq_None_iff)
  then have "AList.update (ref_ID h r) r (p_Backends p) = p_Backends p @ [(ref_ID h r, r)]"
    by (rule update_new_append)
  then show ?thesis
    using inv new r(2) pool_inv_keys [OF inv] unfolding p' pool_inv_def by auto
qed

lemma Pool_RemoveBackend_inv:
  assumes inv: "pool_inv h p" and rem: "Pool_RemoveBackend h i p = (e, p')"
  shows "pool_inv h p'"
proof (cases "e = None")
  case False
  then have "p' = p" using rem by (auto simp: Pool_RemoveBackend_def split: option.splits if_splits)
  then show ?thesis using inv by simp
next
  case True
  then have p': "p' = with_balancer (\<lambda>ops s. bal_Remove ops h i s)
      (p\<lparr>p_Backends := AList.delete i (p_Backends p), p_order := order_remove h i (p_order p)\<rparr>)"
    using rem by (auto simp: Pool_RemoveBackend_def split: option.splits if_splits)
  have d: "distinct (tracked_ids h (p_order p))" using inv by (simp add: pool_inv_def)
  have "set (AList.delete i (p_Backends p)) = {x \<in> set (p_Backends p). fst x \<noteq> i}"
    by (auto simp: AList.delete_eq)
  then show ?thesis
    using inv d unfolding p' pool_inv_def
    by (auto simp: order_remove_filter gomap distinct_map_filter)
qed

lemma pool_set_state_inv:
  assumes inv: "pool_inv h p" and st: "pool_set_state s i (h, p) = (e, h', p')"
  shows "pool_inv h' p' \<and> (\<forall>b. ref_ID h' b = ref_ID h b)"
proof -
  have ids: "ref_ID h' b = ref_ID h b" for b
    using st by (auto simp: pool_set_state_def Backend_SetState_def Let_def split: option.splits)
  moreover have "p_Backends p' = p_Backends p" "p_order p' = p_order p"
    using st by (auto simp: pool_set_state_def Let_def split: option.splits)
  moreover from ids have "ref_ID h' = ref_ID h" by (rule ext)
  ultimately show ?thesis using inv by (auto simp: pool_inv_def)
qed

section \<open>Selection through the interface\<close>

locale pool_client = balancer ops for ops :: "'s Balancer" +
  fixes p :: "'s Pool" and s :: 's
  assumes configured: "p_balancer p = Some (ops, s)"
begin

lemma NextBackend_result:
  assumes "Pool_NextBackend c h p = (Inr b, p')"
  shows "b \<in> set (p_order p) \<and> Backend_IsAvailable (h b) \<and> (\<exists>s'. p' = p\<lparr>p_balancer := Some (ops, s')\<rparr>)"
proof -
  obtain s' where "bal_Next ops None h (Pool_GetHealthyBackends h p) s = (Some b, s')"
    "p' = p\<lparr>p_balancer := Some (ops, s')\<rparr>"
    using assms configured
    by (auto simp: Pool_NextBackend_def Let_def split: if_splits prod.splits option.splits)
  then show ?thesis
    using next_subset [of None h "\<lambda>b. Backend_IsAvailable (h b)" "p_order p" s b s']
    by (auto simp: Pool_GetHealthyBackends_def)
qed

end

locale live_pool_client = pool_client ops p s + live_balancer ops ready
  for ops :: "'s Balancer" and p s and ready
begin

lemma NextBackend_total:
  assumes "ready None h (Pool_GetHealthyBackends h p) s"
  shows "(\<exists>b p'. Pool_NextBackend False h p = (Inr b, p')) \<or>
    (Pool_GetHealthyBackends h p = [] \<and>
     Pool_NextBackend False h p = (Inl (Error_WithContext ErrPoolEmpty ''pool'' (p_Name p)), p))"
proof (cases "Pool_GetHealthyBackends h p = []")
  case True
  then show ?thesis using configured by (simp add: Pool_NextBackend_def)
next
  case False
  obtain b s' where "bal_Next ops None h (Pool_GetHealthyBackends h p) s = (Some b, s')"
    using next_selects [OF assms False] by blast
  with False configured show ?thesis by (simp add: Pool_NextBackend_def)
qed

end

definition example_pool :: "64 word Pool" where
  "example_pool =
     snd (Pool_AddBackend example_heap (Some 1) (snd (Pool_AddBackend example_heap (Some 0)
       (Pool_SetBalancer (RoundRobin_methods, NewRoundRobin) (NewPool ''web'' ''round_robin'')))))"

lemma example_pool_balancer: "p_balancer example_pool = Some (RoundRobin_methods, 0)"
  by (simp add: example_pool_def Pool_AddBackend_def Pool_SetBalancer_def NewPool_def NewRoundRobin_def
      RoundRobin_methods_def example_heap_def nat_dec_inject)

lemma example_pool_order: "p_order example_pool = [0, 1]"
  and example_pool_backends: "p_Backends example_pool = [(''b0'', 0), (''b1'', 1)]"
  by (simp_all add: example_pool_def Pool_AddBackend_def Pool_SetBalancer_def NewPool_def example_heap_def
      nat_dec_0 nat_dec_1 [simplified])

interpretation example_pool: live_pool_client RoundRobin_methods example_pool 0 "\<lambda>ctx h bs s. True"
  by unfold_locales (rule example_pool_balancer)

section \<open>Properties\<close>

text \<open>
  C2. Whatever load balancing algorithm a pool is configured with, as long as it keeps the laws of
  the interface, \<^verbatim>\<open>NextBackend\<close> only ever returns a backend of the pool whose state is up, and it
  changes nothing in the pool but the algorithm's own state.
\<close>

theorem Pool_NextBackend_sound:
  assumes "balancer ops" and "p_balancer p = Some (ops, s)" and "Pool_NextBackend c h p = (Inr b, p')"
  shows "b \<in> set (p_order p) \<and> b_state (h b) = StateUp \<and> (\<exists>s'. p' = p\<lparr>p_balancer := Some (ops, s')\<rparr>)"
proof -
  have "pool_client ops p s" using assms(1,2) by (simp add: pool_client_def pool_client_axioms_def)
  from pool_client.NextBackend_result [OF this assms(3)] show ?thesis
    by (simp add: Backend_IsAvailable_def State_IsAvailable_def)
qed

theorem Pool_NextBackend_sound_witness:
  "0 \<in> set (p_order example_pool) \<and> b_state (example_heap 0) = StateUp"
proof -
  have "Pool_NextBackend False example_heap example_pool = (Inr 0, example_pool\<lparr>p_balancer := Some (RoundRobin_methods, 1)\<rparr>)"
    by (simp add: Pool_NextBackend_def Pool_GetHealthyBackends_def example_pool_balancer example_pool_order
        RoundRobin_methods_def RoundRobin_Next_def example_heap_def backend_defs)
  from Pool_NextBackend_sound [OF rr.balancer_axioms example_pool_balancer this] show ?thesis by blast
qed

text \<open>
  A pool with an algorithm that is ready to select fails only by being empty of available
  backends: without cancellation \<^verbatim>\<open>NextBackend\<close> returns a backend, or the error is
  \<^verbatim>\<open>ErrPoolEmpty\<close> and no backend of the pool is up.
\<close>

theorem Pool_NextBackend_complete:
  assumes "live_balancer ops ready" and "p_balancer p = Some (ops, s)"
    and "ready None h (Pool_GetHealthyBackends h p) s"
  shows "(\<exists>b p'. Pool_NextBackend False h p = (Inr b, p')) \<or>
    ((\<forall>b\<in>set (p_order p). b_state (h b) \<noteq> StateUp) \<and>
     Pool_NextBackend False h p = (Inl (Error_WithContext ErrPoolEmpty ''pool'' (p_Name p)), p))"
proof -
  have "live_pool_client ops p s ready"
    using assms(1,2) by (simp add: live_pool_client_def pool_client_def pool_client_axioms_def live_balancer_def)
  from live_pool_client.NextBackend_total [OF this assms(3)] show ?thesis
    by (auto simp: Pool_GetHealthyBackends_def filter_empty_conv Backend_IsAvailable_def State_IsAvailable_def)
qed

theorem Pool_NextBackend_complete_witness:
  "\<exists>b p'. Pool_NextBackend False example_heap example_pool = (Inr b, p')"
  using Pool_NextBackend_complete [OF rr.live_balancer_axioms example_pool_balancer TrueI, of example_heap]
  by (auto simp: example_pool_order example_heap_def)

text \<open>
  Draining works: after a successful \<^verbatim>\<open>DrainBackend\<close> or \<^verbatim>\<open>DisableBackend\<close> of a backend,
  \<^verbatim>\<open>NextBackend\<close> does not return that backend, whatever the algorithm.
\<close>

theorem Pool_drained_not_selected:
  assumes ops: "balancer ops" and bal: "p_balancer p = Some (ops, s)" and inv: "pool_inv h p"
    and drain: "Pool_DrainBackend i (h, p) = (None, h', p') \<or> Pool_DisableBackend i (h, p) = (None, h', p')"
    and sel: "Pool_NextBackend c h' p' = (Inr b, p'')"
  shows "ref_ID h' b \<noteq> i"
proof
  assume i: "ref_ID h' b = i"
  obtain st where st: "pool_set_state st i (h, p) = (None, h', p')" "st \<noteq> StateUp"
    using drain by (auto simp: Pool_DrainBackend_def Pool_DisableBackend_def)
  then obtain r where r: "map_of (p_Backends p) i = Some r" and h': "h' = h(r := Backend_SetState (h r) st)"
    and p': "p' = with_balancer (\<lambda>ops s. bal_Update ops h' r s) p"
    by (auto simp: pool_set_state_def Let_def split: option.splits)
  have "pool_client ops p' (bal_Update ops h' r s)"
    using ops bal p' by (simp add: pool_client_def pool_client_axioms_def)
  from pool_client.NextBackend_result [OF this sel]
  have b: "b \<in> set (p_order p)" "Backend_IsAvailable (h' b)" using p' by auto
  have "ref_ID h b = i" using i h' by (auto simp: Backend_SetState_def split: if_splits)
  moreover have "(i, r) \<in> set (p_Backends p)" using r by (rule map_of_SomeD)
  ultimately have "b = r"
    using inv b(1) by (auto simp: pool_inv_def distinct_map inj_on_def)
  with b(2) h' st(2) show False by (simp add: backend_defs)
qed

theorem Pool_drained_not_selected_witness:
  "ref_ID (fst (snd (Pool_DrainBackend ''b0'' (example_heap, example_pool)))) 1 \<noteq> ''b0''"
proof (rule Pool_drained_not_selected [OF rr.balancer_axioms example_pool_balancer])
  show "pool_inv example_heap example_pool"
    by (auto simp: pool_inv_def example_pool_backends example_pool_order example_heap_def nat_dec_0 nat_dec_1 [simplified])
  let ?h = "example_heap(0 := Backend_SetState (example_heap 0) StateDraining)"
  have d: "Pool_DrainBackend ''b0'' (example_heap, example_pool) =
      (None, ?h, with_balancer (\<lambda>ops s. bal_Update ops ?h 0 s) example_pool)"
    by (simp add: Pool_DrainBackend_def pool_set_state_def example_pool_backends Let_def)
  then show "Pool_DrainBackend ''b0'' (example_heap, example_pool) =
      (None, fst (snd (Pool_DrainBackend ''b0'' (example_heap, example_pool))),
       with_balancer (\<lambda>ops s. bal_Update ops ?h 0 s) example_pool) \<or>
     Pool_DisableBackend ''b0'' (example_heap, example_pool) =
      (None, fst (snd (Pool_DrainBackend ''b0'' (example_heap, example_pool))),
       with_balancer (\<lambda>ops s. bal_Update ops ?h 0 s) example_pool)" by simp
  show "Pool_NextBackend False (fst (snd (Pool_DrainBackend ''b0'' (example_heap, example_pool))))
      (with_balancer (\<lambda>ops s. bal_Update ops ?h 0 s) example_pool) =
      (Inr 1, (with_balancer (\<lambda>ops s. bal_Update ops ?h 0 s) example_pool)\<lparr>p_balancer := Some (RoundRobin_methods, 1)\<rparr>)"
    unfolding d
    by (simp add: Pool_NextBackend_def Pool_GetHealthyBackends_def example_pool_balancer example_pool_order
        RoundRobin_methods_def RoundRobin_Next_def example_heap_def backend_defs)
qed

text \<open>The states of a pool and its backends' heap that its operations can reach.\<close>

inductive Pool_reach :: "heap \<times> 's Pool \<Rightarrow> bool" where
  new: "Pool_reach (h, NewPool n a)"
| balancer: "Pool_reach (h, p) \<Longrightarrow> Pool_reach (h, Pool_SetBalancer b p)"
| add: "Pool_reach (h, p) \<Longrightarrow> Pool_AddBackend h b p = (e, p') \<Longrightarrow> Pool_reach (h, p')"
| remove: "Pool_reach (h, p) \<Longrightarrow> Pool_RemoveBackend h i p = (e, p') \<Longrightarrow> Pool_reach (h, p')"
| select: "Pool_reach (h, p) \<Longrightarrow> Pool_NextBackend c h p = (r, p') \<Longrightarrow> Pool_reach (h, p')"
| drain: "Pool_reach hp \<Longrightarrow> Pool_DrainBackend i hp = (e, hp') \<Longrightarrow> Pool_reach hp'"
| enable: "Pool_reach hp \<Longrightarrow> Pool_EnableBackend i hp = (e, hp') \<Longrightarrow> Pool_reach hp'"
| disable: "Pool_reach hp \<Longrightarrow> Pool_DisableBackend i hp = (e, hp') \<Longrightarrow> Pool_reach hp'"
| traffic: "Pool_reach (h, p) \<Longrightarrow> \<forall>r. ref_ID h' r = ref_ID h r \<Longrightarrow> Pool_reach (h', p)"

lemma Pool_NextBackend_pool: "Pool_NextBackend c h p = (r, p') \<Longrightarrow> \<exists>x. p' = p\<lparr>p_balancer := x\<rparr>"
proof -
  have same: "\<exists>x. p = p\<lparr>p_balancer := x\<rparr>" by (rule exI [of _ "p_balancer p"]) simp
  assume "Pool_NextBackend c h p = (r, p')"
  then show ?thesis
    using same by (auto simp: Pool_NextBackend_def Let_def split: if_splits option.splits prod.splits)
qed

lemma pool_inv_balancer: "pool_inv h (p\<lparr>p_balancer := x\<rparr>) = pool_inv h p"
  by (simp add: pool_inv_def)

lemma pool_inv_heap:
  assumes "\<forall>r. ref_ID h' r = ref_ID h r"
  shows "pool_inv h' p = pool_inv h p"
proof -
  have "ref_ID h' r = ref_ID h r" for r using assms by simp
  then show ?thesis unfolding pool_inv_def by simp
qed

lemma Pool_reach_inv: "Pool_reach hp \<Longrightarrow> pool_inv (fst hp) (snd hp)"
proof (induction rule: Pool_reach.induct)
  case (balancer h p b)
  then show ?case by (simp add: Pool_SetBalancer_def pool_inv_balancer)
next
  case (select h p c r p')
  then obtain x where "p' = p\<lparr>p_balancer := x\<rparr>" using Pool_NextBackend_pool by blast
  with select.IH show ?case by (simp add: pool_inv_balancer)
next
  case (drain hp i e hp')
  then show ?case using pool_set_state_inv [of "fst hp" "snd hp"] by (cases hp') (auto simp: Pool_DrainBackend_def)
next
  case (enable hp i e hp')
  then show ?case using pool_set_state_inv [of "fst hp" "snd hp"] by (cases hp') (auto simp: Pool_EnableBackend_def)
next
  case (disable hp i e hp')
  then show ?case using pool_set_state_inv [of "fst hp" "snd hp"] by (cases hp') (auto simp: Pool_DisableBackend_def)
next
  case (traffic h p h')
  then show ?case using pool_inv_heap [of h' h p] by simp
qed (auto simp: NewPool_inv intro: Pool_AddBackend_inv Pool_RemoveBackend_inv)

lemma Pool_reach_AddBackend: "Pool_reach (h, p) \<Longrightarrow> Pool_reach (h, snd (Pool_AddBackend h b p))"
  by (metis Pool_reach.add surjective_pairing)

text \<open>
  The pool's map and its ordered slice never drift apart: in every reachable state the slice
  lists each registered backend exactly once, under the ID the map knows it by, and the counts
  agree.
\<close>

theorem Pool_map_order_consistent:
  assumes "Pool_reach (h, p)"
  shows "distinct (Pool_GetAllBackends p) \<and> Pool_BackendCount p = length (Pool_GetAllBackends p) \<and>
    (\<forall>b. b \<in> set (Pool_GetAllBackends p) \<longleftrightarrow> Pool_GetBackend (ref_ID h b) p = Some b)"
proof -
  have inv: "pool_inv h p" using Pool_reach_inv [OF assms] by simp
  then have d: "distinct (tracked_ids h (p_order p))" "gomap_wf (p_Backends p)"
    and s: "set (p_Backends p) = (\<lambda>b. (ref_ID h b, b)) ` set (p_order p)"
    by (auto simp: pool_inv_def)
  have "length (p_Backends p) = card (set (p_Backends p))"
    using d(2) by (simp add: distinct_card distinct_map)
  also have "\<dots> = length (p_order p)"
    using d(1) s by (metis (no_types, lifting) card_image distinct_card distinct_map inj_onI prod.inject)
  finally have "length (p_Backends p) = length (p_order p)" .
  then show ?thesis
    using d s by (auto simp: Pool_GetAllBackends_def Pool_BackendCount_def Pool_GetBackend_def distinct_map)
qed

theorem Pool_map_order_consistent_witness:
  "distinct (Pool_GetAllBackends example_pool) \<and> Pool_BackendCount example_pool = 2"
proof -
  have "Pool_reach (example_heap, example_pool)"
    unfolding example_pool_def by (intro Pool_reach_AddBackend Pool_reach.balancer Pool_reach.new)
  from Pool_map_order_consistent [OF this] show ?thesis
    by (simp add: Pool_GetAllBackends_def example_pool_order)
qed

text \<open>
  \<^verbatim>\<open>Clone\<close> does not copy the ordered slice: whatever the pool holds, the clone lists no
  backends although it counts them, and once it is given an algorithm every uncancelled
  \<^verbatim>\<open>NextBackend\<close> on it fails with \<^verbatim>\<open>ErrPoolEmpty\<close>.
\<close>

theorem Pool_Clone_selects_nothing:
  "Pool_BackendCount (Pool_Clone p) = Pool_BackendCount p \<and>
   Pool_GetAllBackends (Pool_Clone p) = [] \<and>
   Pool_NextBackend False h (Pool_SetBalancer b (Pool_Clone p)) =
     (Inl (Error_WithContext ErrPoolEmpty ''pool'' (p_Name p)), Pool_SetBalancer b (Pool_Clone p))"
  by (cases b) (simp add: Pool_Clone_def Pool_BackendCount_def Pool_GetAllBackends_def Pool_NextBackend_def
      Pool_SetBalancer_def Pool_GetHealthyBackends_def)

section \<open>The manager's names\<close>

definition pm_inv :: "'s pheap \<Rightarrow> PoolManager \<Rightarrow> bool" where
  "pm_inv ph pm \<longleftrightarrow> gomap_wf (pm_pools pm) \<and> (\<forall>(n, r) \<in> set (pm_pools pm). p_Name (ph r) = n \<and> n \<noteq> '''')"

text \<open>
  The manager keeps every pool under its own name: adding, removing and clearing preserve this,
  a pool just added without error is found under its name, and a second pool of the same name is
  refused without changing the manager.
\<close>

theorem PoolManager_names:
  assumes inv: "pm_inv ph pm" and add: "PoolManager_AddPool ph (Some r) pm = (e, pm')"
  shows "pm_inv ph pm' \<and> pm_inv ph (snd (PoolManager_RemovePool n pm)) \<and>
    (e = None \<longrightarrow> PoolManager_GetPool (p_Name (ph r)) pm' = Some r) \<and>
    (PoolManager_PoolExists (p_Name (ph r)) pm \<longrightarrow> e \<noteq> None \<and> pm' = pm)"
proof -
  have "pm_inv ph pm'"
  proof (cases "e = None")
    case True
    then have "p_Name (ph r) \<noteq> ''''" "map_of (pm_pools pm) (p_Name (ph r)) = None"
      "pm' = pm\<lparr>pm_pools := AList.update (p_Name (ph r)) r (pm_pools pm)\<rparr>"
      using add by (auto simp: PoolManager_AddPool_def split: if_splits option.splits)
    then show ?thesis
      using inv update_new_append [of "p_Name (ph r)" "pm_pools pm" r]
      by (auto simp: pm_inv_def map_of_eq_None_iff)
  next
    case False
    then show ?thesis using add inv by (auto simp: PoolManager_AddPool_def split: if_splits option.splits)
  qed
  moreover have "pm_inv ph (snd (PoolManager_RemovePool n pm))"
    using inv set_delete_subset [of n "pm_pools pm"]
    by (auto simp: PoolManager_RemovePool_def pm_inv_def gomap split: option.splits)
  ultimately show ?thesis
    using add by (auto simp: PoolManager_AddPool_def PoolManager_GetPool_def PoolManager_PoolExists_def map_of_update
        split: if_splits option.splits)
qed

theorem PoolManager_names_witness:
  "PoolManager_GetPool ''web'' (snd (PoolManager_AddPool (\<lambda>_. example_pool) (Some 7) NewPoolManager)) = Some 7"
proof -
  have n: "p_Name example_pool = ''web''"
    by (simp add: example_pool_def Pool_AddBackend_def Pool_SetBalancer_def NewPool_def example_heap_def nat_dec_inject)
  have i: "pm_inv (\<lambda>_. example_pool) NewPoolManager" by (simp add: pm_inv_def NewPoolManager_def)
  have a: "PoolManager_AddPool (\<lambda>_. example_pool) (Some 7) NewPoolManager = (None, \<lparr>pm_pools = [(''web'', 7)]\<rparr>)"
    by (simp add: PoolManager_AddPool_def NewPoolManager_def n)
  from PoolManager_names [OF i a] show ?thesis by (simp add: n a)
qed

end
