(* ===== verification/Radix_Trie.thy ===== *)
theory Radix_Trie
  imports Prelude
begin

text \<open>
  The path trie of \<^verbatim>\<open>internal/router/radix.go\<close>: insertion, matching with parameters, wildcards
  and backtracking, and deletion with pruning. A trie denotes a finite map from key paths to
  values (\<open>tval\<close>), where the key of a segment is the segment itself, ":" for a parameter
  and "*" for a wildcard. The lemmas show that insertion and deletion refine update and deletion
  on that map, that matching finds a value whenever some stored pattern matches and then the one
  of the most specific pattern, and which parameters it captures.
\<close>

section \<open>Nodes and tries\<close>

datatype 'v radixNode = RadixNode
  (rn_segment: string)
  (rn_children: "(string, 'v radixNode) gomap")
  (rn_isEndpoint: bool)
  (rn_value: "'v option")
  (rn_paramName: string)
  (rn_isWildcard: bool)

record 'v RadixTrie =
  rt_root :: "'v radixNode"

definition NewRadixTrie :: "'v RadixTrie" where
  "NewRadixTrie = \<lparr> rt_root = RadixNode '''' [] False None '''' False \<rparr>"

definition NewTrie :: "'v RadixTrie" where
  "NewTrie = NewRadixTrie"

text \<open>The assignments of the code to the fields of a node.\<close>

definition rn_set_children :: "(string, 'v radixNode) gomap \<Rightarrow> 'v radixNode \<Rightarrow> 'v radixNode" where
  "rn_set_children cs n =
     RadixNode (rn_segment n) cs (rn_isEndpoint n) (rn_value n) (rn_paramName n) (rn_isWildcard n)"

definition rn_set_endpoint :: "bool \<Rightarrow> 'v option \<Rightarrow> 'v radixNode \<Rightarrow> 'v radixNode" where
  "rn_set_endpoint e v n =
     RadixNode (rn_segment n) (rn_children n) e v (rn_paramName n) (rn_isWildcard n)"

section \<open>Operations\<close>

datatype trie_error =
    EmptyPath
  | WildcardNotLast (twe_segment: string) (twe_path: string)
  | ConflictingParam (tce_name: string) (tce_index: nat) (tce_existing: string)

definition splitPath :: "string \<Rightarrow> string list" where
  "splitPath path =
     (if path = ''/'' then []
      else filter (\<lambda>part. part \<noteq> '''')
             (split_on CHR ''/'' (if hd path = CHR ''/'' then tl path else path)))"

definition normalizePath :: "string \<Rightarrow> string" where
  "normalizePath path =
     (if length path > 1 \<and> last path = CHR ''/'' then butlast path else path)"

text \<open>The key, parameter name and wildcard flag that insertion derives from a segment.\<close>

definition segment_key :: "string \<Rightarrow> string" where
  "segment_key segment =
     (if segment \<noteq> '''' \<and> hd segment = CHR '':'' then '':''
      else if segment \<noteq> '''' \<and> hd segment = CHR ''*'' then ''*''
      else segment)"

definition segment_param :: "string \<Rightarrow> string" where
  "segment_param segment =
     (if segment \<noteq> '''' \<and> hd segment = CHR '':'' then tl segment
      else if segment \<noteq> '''' \<and> hd segment = CHR ''*'' then
        (if tl segment = '''' then ''path'' else tl segment)
      else '''')"

definition segment_wild :: "string \<Rightarrow> bool" where
  "segment_wild segment = (segment \<noteq> '''' \<and> hd segment = CHR ''*'')"

definition newNode :: "string \<Rightarrow> 'v radixNode" where
  "newNode segment =
     RadixNode segment [] False None (segment_param segment) (segment_wild segment)"

fun insertSegments ::
  "'v radixNode \<Rightarrow> string list \<Rightarrow> nat \<Rightarrow> 'v \<Rightarrow> 'v radixNode \<times> trie_error option" where
  "insertSegments node [] index v = (rn_set_endpoint True (Some v) node, None)"
| "insertSegments node (segment # rest) index v =
     (let key = segment_key segment;
          conflict = (\<lambda>child. (key = '':'' \<or> key = ''*'') \<and> rn_paramName child \<noteq> segment_param segment);
          descend = (\<lambda>child.
            let (child', err) =
                  (if rest = [] then (rn_set_endpoint True (Some v) child, None)
                   else insertSegments child rest (index + 1) v)
            in (rn_set_children (AList.update key child' (rn_children node)) node, err))
      in case map_of (rn_children node) key of
           None \<Rightarrow> descend (newNode segment)
         | Some child \<Rightarrow>
             if conflict child
             then (node, Some (ConflictingParam (segment_param segment) index (rn_paramName child)))
             else descend child)"

text \<open>The first segment that is a wildcard and not the last one.\<close>

fun inner_wildcard :: "string list \<Rightarrow> string option" where
  "inner_wildcard [] = None"
| "inner_wildcard (seg # rest) =
     (if segment_wild seg \<and> rest \<noteq> [] then Some seg else inner_wildcard rest)"

definition RadixTrie_Insert ::
  "'v RadixTrie \<Rightarrow> string \<Rightarrow> 'v \<Rightarrow> 'v RadixTrie \<times> trie_error option" where
  "RadixTrie_Insert t path v =
     (if path = '''' then (t, Some EmptyPath)
      else
        let path1 = (if hd path \<noteq> CHR ''/'' then CHR ''/'' # path else path);
            path2 = normalizePath path1;
            segments = splitPath path2
        in case inner_wildcard segments of
             Some seg \<Rightarrow> (t, Some (WildcardNotLast seg path2))
           | None \<Rightarrow>
               (let (root', err) = insertSegments (rt_root t) segments 0 v
                in (t\<lparr>rt_root := root'\<rparr>, err)))"

type_synonym params = "(string, string) gomap"

record 'v MatchResult =
  mr_Value :: "'v option"
  mr_Params :: params

fun matchSegments ::
  "'v radixNode \<Rightarrow> string list \<Rightarrow> params \<Rightarrow> 'v radixNode option \<times> params" where
  "matchSegments node [] ps = ((if rn_isEndpoint node then Some node else None), ps)"
| "matchSegments node (segment # rest) ps =
     (let (r1, ps1) =
            (case map_of (rn_children node) segment of
               Some child \<Rightarrow> matchSegments child rest ps
             | None \<Rightarrow> (None, ps))
      in if r1 \<noteq> None then (r1, ps1) else
      let (r2, ps2) =
            (case map_of (rn_children node) '':'' of
               Some child \<Rightarrow>
                 (let (r, q) = matchSegments child rest (AList.update (rn_paramName child) segment ps1)
                  in if r \<noteq> None then (r, q) else (None, AList.delete (rn_paramName child) q))
             | None \<Rightarrow> (None, ps1))
      in if r2 \<noteq> None then (r2, ps2) else
      (case map_of (rn_children node) ''*'' of
         Some child \<Rightarrow>
           if rn_isWildcard child
           then let ps3 = AList.update (rn_paramName child) (join_with CHR ''/'' (segment # rest)) ps2
                in ((if rn_isEndpoint child then Some child else None), ps3)
           else (None, ps2)
       | None \<Rightarrow> (None, ps2)))"

definition RadixTrie_Match :: "'v RadixTrie \<Rightarrow> string \<Rightarrow> 'v MatchResult option" where
  "RadixTrie_Match t path =
     (if path = '''' \<or> hd path \<noteq> CHR ''/'' then None
      else case matchSegments (rt_root t) (splitPath (normalizePath path)) [] of
             (Some node, ps) \<Rightarrow>
               if rn_isEndpoint node
               then Some \<lparr> mr_Value = rn_value node, mr_Params = ps \<rparr> else None
           | (None, _) \<Rightarrow> None)"

fun deleteSegments :: "'v radixNode \<Rightarrow> string list \<Rightarrow> 'v radixNode \<times> bool" where
  "deleteSegments node [] =
     (let node' = (if rn_isEndpoint node then rn_set_endpoint False None node else node)
      in (node', rn_children node' = []))"
| "deleteSegments node (segment # rest) =
     (let key = segment_key segment
      in case map_of (rn_children node) key of
           None \<Rightarrow> (node, False)
         | Some child \<Rightarrow>
             (let (child', shouldDelete) = deleteSegments child rest;
                  cs = (if shouldDelete then AList.delete key (rn_children node)
                        else AList.update key child' (rn_children node));
                  node' = rn_set_children cs node
              in (node', \<not> rn_isEndpoint node' \<and> rn_children node' = [])))"

definition RadixTrie_Delete :: "'v RadixTrie \<Rightarrow> string \<Rightarrow> 'v RadixTrie" where
  "RadixTrie_Delete t path =
     (if path = '''' \<or> hd path \<noteq> CHR ''/'' then t
      else t\<lparr>rt_root := fst (deleteSegments (rt_root t) (splitPath (normalizePath path)))\<rparr>)"

fun cloneNode :: "'v radixNode \<Rightarrow> 'v radixNode" where
  "cloneNode (RadixNode s cs e v p w) =
     RadixNode s (foldl (\<lambda>m (k, c). AList.update k c m) [] (map (\<lambda>kc. (fst kc, cloneNode (snd kc))) cs))
       e v p w"

definition RadixTrie_Clone :: "'v RadixTrie \<Rightarrow> 'v RadixTrie" where
  "RadixTrie_Clone t = \<lparr> rt_root = cloneNode (rt_root t) \<rparr>"

section \<open>Field access\<close>

lemma rn_set_children_sel [simp]:
  "rn_children (rn_set_children cs n) = cs"
  "rn_isEndpoint (rn_set_children cs n) = rn_isEndpoint n"
  "rn_value (rn_set_children cs n) = rn_value n"
  "rn_paramName (rn_set_children cs n) = rn_paramName n"
  "rn_isWildcard (rn_set_children cs n) = rn_isWildcard n"
  by (simp_all add: rn_set_children_def)

lemma rn_set_endpoint_sel [simp]:
  "rn_children (rn_set_endpoint e v n) = rn_children n"
  "rn_isEndpoint (rn_set_endpoint e v n) = e"
  "rn_value (rn_set_endpoint e v n) = v"
  "rn_paramName (rn_set_endpoint e v n) = rn_paramName n"
  "rn_isWildcard (rn_set_endpoint e v n) = rn_isWildcard n"
  by (simp_all add: rn_set_endpoint_def)

lemma newNode_sel [simp]:
  "rn_children (newNode s) = []"
  "rn_isEndpoint (newNode s) = False"
  "rn_value (newNode s) = None"
  "rn_paramName (newNode s) = segment_param s"
  "rn_isWildcard (newNode s) = segment_wild s"
  by (simp_all add: newNode_def)

lemma rn_set_children_same [simp]: "rn_set_children (rn_children n) n = n"
  by (simp add: rn_set_children_def)

text \<open>
  The insertion below an existing or new child, without the special case for the last segment:
  a call with no segments left sets the endpoint.
\<close>

definition child_or_new :: "'v radixNode \<Rightarrow> string \<Rightarrow> 'v radixNode" where
  "child_or_new node segment =
     (case map_of (rn_children node) (segment_key segment) of
        Some child \<Rightarrow> child | None \<Rightarrow> newNode segment)"

definition name_conflict :: "'v radixNode \<Rightarrow> string \<Rightarrow> bool" where
  "name_conflict node segment =
     ((segment_key segment = '':'' \<or> segment_key segment = ''*'') \<and>
      rn_paramName (child_or_new node segment) \<noteq> segment_param segment)"

lemma insertSegments_Cons:
  "insertSegments node (segment # rest) index v =
     (if name_conflict node segment
      then (node, Some (ConflictingParam (segment_param segment) index
                          (rn_paramName (child_or_new node segment))))
      else let r = insertSegments (child_or_new node segment) rest (index + 1) v
           in (rn_set_children (AList.update (segment_key segment) (fst r) (rn_children node)) node,
               snd r))"
  by (cases rest)
    (auto simp: name_conflict_def child_or_new_def Let_def split: option.splits prod.splits)

lemmas insertSegments_simps = insertSegments.simps(1) insertSegments_Cons
declare insertSegments.simps(2) [simp del]

section \<open>The map that a trie denotes\<close>

fun tn_get :: "'v radixNode \<Rightarrow> string list \<Rightarrow> 'v radixNode option" where
  "tn_get node [] = Some node"
| "tn_get node (k # ks) =
     (case map_of (rn_children node) k of Some child \<Rightarrow> tn_get child ks | None \<Rightarrow> None)"

definition tval :: "'v radixNode \<Rightarrow> string list \<Rightarrow> 'v option" where
  "tval node ks =
     (case tn_get node ks of
        Some n \<Rightarrow> if rn_isEndpoint n then rn_value n else None | None \<Rightarrow> None)"

lemma tval_Nil [simp]: "tval node [] = (if rn_isEndpoint node then rn_value node else None)"
  by (simp add: tval_def)

lemma tval_Cons [simp]:
  "tval node (k # ks) =
     (case map_of (rn_children node) k of Some child \<Rightarrow> tval child ks | None \<Rightarrow> None)"
  by (simp add: tval_def split: option.split)

lemma tval_leaf: "rn_children n = [] \<Longrightarrow> \<not> rn_isEndpoint n \<Longrightarrow> tval n ks = None"
  by (cases ks) auto

lemma tval_newNode [simp]: "tval (newNode s) ks = None"
  by (simp add: tval_leaf)

lemma tval_child_or_new:
  "tval (child_or_new node s) ks = tval node (segment_key s # ks)"
  by (simp add: child_or_new_def split: option.split)

lemma insertSegments_tval:
  "snd (insertSegments node segs i v) = None \<Longrightarrow>
   tval (fst (insertSegments node segs i v)) = (tval node)(map segment_key segs \<mapsto> v)"
proof (induction segs arbitrary: node i)
  case Nil
  show ?case
  proof
    fix ks show "tval (fst (insertSegments node [] i v)) ks = ((tval node)(map segment_key [] \<mapsto> v)) ks"
      by (cases ks) auto
  qed
next
  case (Cons s segs)
  from Cons.prems have nc: "\<not> name_conflict node s"
    and ok: "snd (insertSegments (child_or_new node s) segs (i + 1) v) = None"
    by (auto simp: insertSegments_Cons Let_def split: if_splits)
  show ?case
  proof
    fix ks
    show "tval (fst (insertSegments node (s # segs) i v)) ks
            = ((tval node)(map segment_key (s # segs) \<mapsto> v)) ks"
      using nc Cons.IH [OF ok]
      by (cases ks) (auto simp: insertSegments_Cons Let_def map_of_update tval_child_or_new)
  qed
qed

text \<open>An insertion that reports a conflict has not changed the trie.\<close>

lemma update_same: "map_of m k = Some v \<Longrightarrow> AList.update k v m = m"
  by (induction m) (auto split: if_splits)

lemma insertSegments_newNode_ok:
  "rn_children n = [] \<Longrightarrow> snd (insertSegments n segs i v) = None"
proof (induction segs arbitrary: n i)
  case (Cons s segs)
  have "child_or_new n s = newNode s" using Cons.prems by (simp add: child_or_new_def)
  with Cons.IH [of "newNode s"] show ?case
    by (simp add: insertSegments_Cons name_conflict_def)
qed simp

lemma insertSegments_error_unchanged:
  "snd (insertSegments node segs i v) = Some e \<Longrightarrow> fst (insertSegments node segs i v) = node"
proof (induction segs arbitrary: node i)
  case (Cons s segs)
  show ?case
  proof (cases "name_conflict node s \<or> map_of (rn_children node) (segment_key s) = None")
    case True
    have "snd (insertSegments (newNode s) segs (i + 1) v) = None"
      by (simp add: insertSegments_newNode_ok)
    with True Cons.prems show ?thesis
      by (auto simp: insertSegments_Cons Let_def child_or_new_def split: if_splits)
  next
    case False
    then obtain c where c: "map_of (rn_children node) (segment_key s) = Some c" by auto
    with False Cons.prems Cons.IH [of c "i + 1"] show ?thesis
      by (simp add: insertSegments_Cons Let_def child_or_new_def update_same)
  qed
qed simp

lemma deleteSegments_prunable:
  "snd (deleteSegments node segs) \<Longrightarrow> tval (fst (deleteSegments node segs)) ks = None"
  by (cases segs)
    (auto simp: Let_def split: option.splits prod.splits intro!: tval_leaf)

lemma deleteSegments_tval:
  "tval (fst (deleteSegments node segs)) = (tval node)(map segment_key segs := None)"
proof (induction segs arbitrary: node)
  case Nil
  show ?case
  proof
    fix ks show "tval (fst (deleteSegments node [])) ks = ((tval node)(map segment_key [] := None)) ks"
      by (cases ks) (auto simp: Let_def)
  qed
next
  case (Cons s segs)
  show ?case
  proof
    fix ks
    show "tval (fst (deleteSegments node (s # segs))) ks
            = ((tval node)(map segment_key (s # segs) := None)) ks"
    proof (cases "map_of (rn_children node) (segment_key s)")
      case None
      then show ?thesis by (cases ks) auto
    next
      case (Some c)
      have IH: "tval (fst (deleteSegments c segs)) = (tval c)(map segment_key segs := None)"
        by (rule Cons.IH)
      have "snd (deleteSegments c segs) \<Longrightarrow> \<forall>ks. ks \<noteq> map segment_key segs \<longrightarrow> tval c ks = None"
        using deleteSegments_prunable [of c segs] IH by (metis fun_upd_other)
      with Some IH show ?thesis
        by (cases ks) (auto simp: Let_def map_of_update map_of_delete split: prod.split)
    qed
  qed
qed

section \<open>Well-formed tries\<close>

text \<open>
  A node under key \<open>k\<close> is well formed when it holds a value exactly if it is an endpoint, is a
  wildcard exactly under the key "*" and then a leaf, and all its children are well
  formed and lead to some endpoint (deletion prunes the others).
\<close>

definition tn_live :: "'v radixNode \<Rightarrow> bool" where
  "tn_live n = (rn_isEndpoint n \<or> rn_children n \<noteq> [])"

fun node_ok :: "string \<Rightarrow> 'v radixNode \<Rightarrow> bool" where
  "node_ok k (RadixNode s cs e v p w) =
     ((e \<longleftrightarrow> v \<noteq> None) \<and> (w \<longleftrightarrow> k = ''*'') \<and> (w \<longrightarrow> cs = []) \<and> gomap_wf cs \<and>
      (\<forall>kc\<in>set cs. fst kc \<noteq> '''' \<and> tn_live (snd kc) \<and> node_ok (fst kc) (snd kc)))"

lemma gomap_wf_ball:
  "gomap_wf m \<Longrightarrow> (\<forall>kc\<in>set m. P (fst kc) (snd kc)) \<longleftrightarrow> (\<forall>k c. map_of m k = Some c \<longrightarrow> P k c)"
  by auto

lemma node_ok_iff:
  "node_ok k n \<longleftrightarrow>
     (rn_isEndpoint n \<longleftrightarrow> rn_value n \<noteq> None) \<and> (rn_isWildcard n \<longleftrightarrow> k = ''*'') \<and>
     (k = ''*'' \<longrightarrow> rn_children n = []) \<and> gomap_wf (rn_children n) \<and>
     (\<forall>k' c. map_of (rn_children n) k' = Some c \<longrightarrow> k' \<noteq> '''' \<and> tn_live c \<and> node_ok k' c)"
proof (cases n)
  case (RadixNode s cs e v p w)
  show ?thesis
    using gomap_wf_ball [of cs "\<lambda>k' c. k' \<noteq> '''' \<and> tn_live c \<and> node_ok k' c"]
    by (simp add: RadixNode del: map_of_eq_Some_iff) blast
qed

lemma node_ok_child:
  "node_ok k n \<Longrightarrow> map_of (rn_children n) k' = Some c \<Longrightarrow> k' \<noteq> '''' \<and> tn_live c \<and> node_ok k' c"
  using node_ok_iff [of k n] by blast

lemma segment_key_cases:
  "segment_key s = '':'' \<or> segment_key s = ''*'' \<or> segment_key s = s"
  by (simp add: segment_key_def)

lemma segment_key_empty [simp]: "segment_key s = '''' \<longleftrightarrow> s = ''''"
  by (simp add: segment_key_def)

lemma segment_wild_key: "segment_wild s \<longleftrightarrow> segment_key s = ''*''"
  by (cases s) (auto simp: segment_wild_def segment_key_def)

lemma newNode_ok: "node_ok (segment_key s) (newNode s)"
  by (simp add: node_ok_iff [of "segment_key s"] segment_wild_key)

lemma child_or_new_ok: "node_ok k node \<Longrightarrow> node_ok (segment_key s) (child_or_new node s)"
  by (auto simp: child_or_new_def newNode_ok dest: node_ok_child split: option.split simp del: map_of_eq_Some_iff)

lemma node_ok_set_child:
  assumes "node_ok k node" and "k \<noteq> ''*''" and "k' \<noteq> ''''" and "node_ok k' c" and "tn_live c"
  shows "node_ok k (rn_set_children (AList.update k' c (rn_children node)) node)"
  using assms node_ok_child [OF assms(1)] unfolding node_ok_iff [of k]
  by (simp add: gomap del: map_of_eq_Some_iff)

lemma node_ok_delete_child:
  assumes "node_ok k node"
  shows "node_ok k (rn_set_children (AList.delete k' (rn_children node)) node)"
  using assms node_ok_child [OF assms(1)] unfolding node_ok_iff [of k]
  by (simp add: gomap del: map_of_eq_Some_iff)

lemma insertSegments_live:
  "snd (insertSegments node segs i v) = None \<Longrightarrow> tn_live (fst (insertSegments node segs i v))"
proof (cases segs)
  case (Cons s rest)
  assume "snd (insertSegments node segs i v) = None"
  moreover have "AList.update k c m \<noteq> []" for k :: string and c m by (cases m) auto
  ultimately show ?thesis
    by (auto simp: Cons tn_live_def insertSegments_Cons Let_def split: if_splits)
qed (simp add: tn_live_def)



lemma insertSegments_preserves_ok:
  "node_ok k node \<Longrightarrow> '''' \<notin> set segs \<Longrightarrow> inner_wildcard segs = None \<Longrightarrow> (k = ''*'' \<longrightarrow> segs = []) \<Longrightarrow>
   snd (insertSegments node segs i v) = None \<Longrightarrow> node_ok k (fst (insertSegments node segs i v))"
proof (induction segs arbitrary: k node i)
  case Nil
  then show ?case by (simp add: node_ok_iff [of k])
next
  case (Cons s segs)
  let ?c = "child_or_new node s"
  from Cons.prems(5) have nc: "\<not> name_conflict node s"
    and ok: "snd (insertSegments ?c segs (i + 1) v) = None"
    by (auto simp: insertSegments_Cons Let_def split: if_splits)
  have "node_ok (segment_key s) (fst (insertSegments ?c segs (i + 1) v))"
    using Cons.prems ok
    by (intro Cons.IH child_or_new_ok [of k]) (auto simp: segment_wild_key split: if_splits)
  with Cons.prems nc insertSegments_live [OF ok] show ?case
    by (auto simp: insertSegments_Cons Let_def intro!: node_ok_set_child)
qed

lemma deleteSegments_live:
  "tn_live node \<Longrightarrow> \<not> snd (deleteSegments node segs) \<Longrightarrow> tn_live (fst (deleteSegments node segs))"
  by (cases segs) (auto simp: tn_live_def Let_def split: option.splits prod.splits if_splits)

lemma deleteSegments_preserves_ok:
  "node_ok k node \<Longrightarrow> node_ok k (fst (deleteSegments node segs))"
proof (induction segs arbitrary: k node)
  case Nil
  then show ?case by (simp add: Let_def node_ok_iff [of k])
next
  case (Cons s segs)
  show ?case
  proof (cases "map_of (rn_children node) (segment_key s)")
    case None
    with Cons.prems show ?thesis by simp
  next
    case (Some c)
    then have c: "segment_key s \<noteq> ''''" "tn_live c" "node_ok (segment_key s) c"
      using Cons.prems node_ok_child by blast+
    have "k \<noteq> ''*''" using Some Cons.prems node_ok_iff [of k node] by auto
    with Some c Cons.prems Cons.IH [OF c(3)] deleteSegments_live [OF c(2), of segs] show ?thesis
      by (auto simp: Let_def node_ok_set_child node_ok_delete_child simp del: segment_key_empty
          split: prod.split)
  qed
qed

section \<open>Matching\<close>

text \<open>Which request segments a stored key path matches.\<close>

fun kmatch :: "string list \<Rightarrow> string list \<Rightarrow> bool" where
  "kmatch [] segs \<longleftrightarrow> segs = []"
| "kmatch (k # ks) [] \<longleftrightarrow> False"
| "kmatch (k # ks) (s # ss) \<longleftrightarrow>
     (if k = ''*'' then ks = [] else (k = '':'' \<or> k = s) \<and> kmatch ks ss)"

text \<open>
  Precedence of two key paths that match the same request: at the first position where they
  differ a static segment comes before a parameter and a parameter before a wildcard.
\<close>

definition key_rank :: "string \<Rightarrow> nat" where
  "key_rank k = (if k = ''*'' then 2 else if k = '':'' then 1 else 0)"

fun prefers :: "string list \<Rightarrow> string list \<Rightarrow> bool" where
  "prefers (k # ks) (k' # ks') \<longleftrightarrow> key_rank k < key_rank k' \<or> (k = k' \<and> prefers ks ks')"
| "prefers _ _ \<longleftrightarrow> True"

text \<open>The key path that the search of the code arrives at.\<close>

fun best_keys :: "'v radixNode \<Rightarrow> string list \<Rightarrow> string list option" where
  "best_keys node [] = (if rn_isEndpoint node then Some [] else None)"
| "best_keys node (s # ss) =
     (let below = (\<lambda>k. case map_of (rn_children node) k of
                         Some c \<Rightarrow> map_option (Cons k) (best_keys c ss) | None \<Rightarrow> None)
      in if below s \<noteq> None then below s
         else if below '':'' \<noteq> None then below '':''
         else case map_of (rn_children node) ''*'' of
                Some c \<Rightarrow> if rn_isWildcard c \<and> rn_isEndpoint c then Some [''*''] else None
              | None \<Rightarrow> None)"

lemma best_keys_get: "best_keys node segs = Some ks \<Longrightarrow> \<exists>n. tn_get node ks = Some n \<and> rn_isEndpoint n"
proof (induction segs arbitrary: node ks)
  case (Cons s segs)
  from Cons.prems consider
      k c ks' where "map_of (rn_children node) k = Some c" "best_keys c segs = Some ks'" "ks = k # ks'"
    | c where "map_of (rn_children node) ''*'' = Some c" "rn_isEndpoint c" "ks = [''*'']"
    by (auto simp: Let_def simp del: map_of_eq_Some_iff split: option.splits if_splits)
  then show ?case using Cons.IH by cases auto
qed (auto split: if_splits)

lemma matchSegments_best:
  "fst (matchSegments node segs ps) = Option.bind (best_keys node segs) (tn_get node)"
proof (induction segs arbitrary: node ps)
  case (Cons s segs)
  have none: "Option.bind (best_keys c segs) (tn_get c) = None \<longleftrightarrow> best_keys c segs = None" for c
    by (cases "best_keys c segs") (auto dest: best_keys_get)
  show ?case
    by (cases "map_of (rn_children node) s"; cases "map_of (rn_children node) '':''";
        cases "map_of (rn_children node) ''*''")
      (auto simp: Let_def case_prod_beta Cons.IH none split: option.split)
qed simp

definition best_below :: "'v radixNode \<Rightarrow> string list \<Rightarrow> string \<Rightarrow> string list option" where
  "best_below node ss k =
     (case map_of (rn_children node) k of
        Some c \<Rightarrow> map_option (Cons k) (best_keys c ss) | None \<Rightarrow> None)"

lemma best_keys_Cons:
  "best_keys node (s # ss) =
     (if best_below node ss s \<noteq> None then best_below node ss s
      else if best_below node ss '':'' \<noteq> None then best_below node ss '':''
      else case map_of (rn_children node) ''*'' of
             Some c \<Rightarrow> if rn_isWildcard c \<and> rn_isEndpoint c then Some [''*''] else None
           | None \<Rightarrow> None)"
  by (simp add: best_below_def Let_def)

declare best_keys.simps(2) [simp del]

lemma best_below_SomeE:
  assumes "best_below node ss k = Some ks"
  obtains c ks' where "map_of (rn_children node) k = Some c" "best_keys c ss = Some ks'" "ks = k # ks'"
  using assms by (auto simp: best_below_def simp del: map_of_eq_Some_iff split: option.splits)

lemma best_keys_wild_leaf:
  "node_ok ''*'' c \<Longrightarrow> best_keys c segs = Some ks \<Longrightarrow> ks = []"
  using best_keys_get [of c segs ks] node_ok_iff [of "''*''" c] by (cases ks) auto

lemma best_keys_kmatch: "node_ok k node \<Longrightarrow> best_keys node segs = Some ks \<Longrightarrow> kmatch ks segs"
proof (induction segs arbitrary: k node ks)
  case (Cons s segs)
  have sub: "best_below node segs k' = Some ks \<Longrightarrow> k' = s \<or> k' = '':'' \<Longrightarrow> kmatch ks (s # segs)" for k'
    using Cons.IH node_ok_child [OF Cons.prems(1), of k'] best_keys_wild_leaf
    by (elim best_below_SomeE) fastforce
  from Cons.prems(2) consider "best_below node segs s = Some ks" | "best_below node segs '':'' = Some ks"
    | "ks = [''*'']"
    by (auto simp: best_keys_Cons split: if_splits option.splits)
  then show ?case using sub by cases auto
qed (auto split: if_splits)

lemma wild_child_endpoint:
  "node_ok k node \<Longrightarrow> map_of (rn_children node) ''*'' = Some c \<Longrightarrow> rn_isWildcard c \<and> rn_isEndpoint c"
  using node_ok_child [of k node "''*''" c] node_ok_iff [of "''*''" c] by (auto simp: tn_live_def)

lemma best_keys_complete:
  "node_ok k node \<Longrightarrow> kmatch ks segs \<Longrightarrow> tval node ks \<noteq> None \<Longrightarrow> best_keys node segs \<noteq> None"
proof (induction segs arbitrary: k node ks)
  case Nil
  then show ?case by (cases ks) (auto split: if_splits)
next
  case (Cons s segs)
  obtain k' ks' where ks: "ks = k' # ks'" using Cons.prems(2) by (cases ks) auto
  obtain c where c: "map_of (rn_children node) k' = Some c" "tval c ks' \<noteq> None"
    using Cons.prems(3) by (auto simp: ks simp del: map_of_eq_Some_iff split: option.splits)
  show ?case
  proof (cases "k' = ''*''")
    case True
    with c(1) wild_child_endpoint [OF Cons.prems(1)] show ?thesis by (simp add: best_keys_Cons)
  next
    case False
    with Cons.prems(2) ks have km: "k' = '':'' \<or> k' = s" "kmatch ks' segs" by auto
    have "node_ok k' c" using node_ok_child [OF Cons.prems(1) c(1)] by blast
    then have "best_keys c segs \<noteq> None" using Cons.IH km(2) c(2) by blast
    then have "best_below node segs k' \<noteq> None" by (simp add: best_below_def c(1))
    with km(1) show ?thesis by (auto simp: best_keys_Cons)
  qed
qed

lemma best_keys_prefers:
  "node_ok k node \<Longrightarrow> ''*'' \<notin> set segs \<Longrightarrow> kmatch ks segs \<Longrightarrow> tval node ks \<noteq> None \<Longrightarrow>
   best_keys node segs = Some ks' \<Longrightarrow> prefers ks' ks"
proof (induction segs arbitrary: k node ks ks')
  case Nil
  then show ?case by (cases ks) auto
next
  case (Cons s segs)
  obtain h r where ks: "ks = h # r" using Cons.prems(3) by (cases ks) auto
  obtain c where c: "map_of (rn_children node) h = Some c" "tval c r \<noteq> None"
    using Cons.prems(4) by (auto simp: ks simp del: map_of_eq_Some_iff split: option.splits)
  have okc: "node_ok h c" using node_ok_child [OF Cons.prems(1) c(1)] by blast
  have s: "s \<noteq> ''*''" using Cons.prems(2) by auto
  have same: "best_below node segs h = Some ks' \<Longrightarrow> kmatch r segs \<Longrightarrow> prefers ks' ks"
    using Cons.IH [OF okc _ _ c(2)] Cons.prems(2) c(1) by (auto simp: ks elim!: best_below_SomeE)
  have below: "best_below node segs x = Some ks' \<Longrightarrow> key_rank x < key_rank h \<Longrightarrow> prefers ks' ks" for x
    by (auto simp: ks elim!: best_below_SomeE)
  show ?case
  proof (cases "h = ''*''")
    case True
    with Cons.prems(3,5) s below [of s] below [of "'':''"] show ?thesis
      by (auto simp: best_keys_Cons ks key_rank_def split: if_splits option.splits)
  next
    case False
    with Cons.prems(3) ks have km: "h = '':'' \<or> h = s" "kmatch r segs" by auto
    have "best_keys c segs \<noteq> None" using best_keys_complete [OF okc km(2) c(2)] .
    then have "best_below node segs h \<noteq> None" by (simp add: best_below_def c(1))
    with km Cons.prems(5) s same below [of s] show ?thesis
      by (cases "s = '':''") (auto simp: best_keys_Cons key_rank_def split: if_splits)
  qed
qed

section \<open>Captured parameters\<close>

text \<open>
  The bindings that a key path captures of a request, and the tries in which the parameter names
  along every path are distinct from each other and from those of an enclosing path.
\<close>

fun captured :: "'v radixNode \<Rightarrow> string list \<Rightarrow> string list \<Rightarrow> (string \<times> string) list" where
  "captured node (k # ks) (s # ss) =
     (case map_of (rn_children node) k of
        None \<Rightarrow> []
      | Some c \<Rightarrow>
          if k = ''*'' then [(rn_paramName c, join_with CHR ''/'' (s # ss))]
          else if k = '':'' then (rn_paramName c, s) # captured c ks ss
          else captured c ks ss)"
| "captured node _ _ = []"

definition key_names :: "string \<Rightarrow> 'v radixNode \<Rightarrow> string list" where
  "key_names k c = (if k = '':'' \<or> k = ''*'' then [rn_paramName c] else [])"

fun names_ok :: "string list \<Rightarrow> 'v radixNode \<Rightarrow> bool" where
  "names_ok N (RadixNode s cs e v p w) =
     (\<forall>kc\<in>set cs. set (key_names (fst kc) (snd kc)) \<inter> set N = {} \<and>
        names_ok (key_names (fst kc) (snd kc) @ N) (snd kc))"

lemma names_ok_child:
  "names_ok N n \<Longrightarrow> map_of (rn_children n) k = Some c \<Longrightarrow>
   set (key_names k c) \<inter> set N = {} \<and> names_ok (key_names k c @ N) c"
proof (cases n)
  case (RadixNode s cs e v p w)
  assume "names_ok N n" and "map_of (rn_children n) k = Some c"
  with RadixNode have "(k, c) \<in> set cs" and "names_ok N (RadixNode s cs e v p w)"
    by (auto dest: map_of_SomeD)
  then show ?thesis by (metis fst_conv snd_conv names_ok.simps)
qed

lemma names_ok_leaf: "rn_children n = [] \<Longrightarrow> names_ok N n"
  by (cases n) simp

lemma names_ok_set_child:
  assumes "names_ok N n" and "set (key_names k c) \<inter> set N = {}" and "names_ok (key_names k c @ N) c"
  shows "names_ok N (rn_set_children (AList.update k c (rn_children n)) n)"
proof (cases n)
  case (RadixNode s cs e v p w)
  have "set (AList.update k c cs) \<subseteq> insert (k, c) (set cs)"
    by (induction cs) auto
  with assms have "\<forall>kc\<in>set (AList.update k c cs). set (key_names (fst kc) (snd kc)) \<inter> set N = {} \<and>
      names_ok (key_names (fst kc) (snd kc) @ N) (snd kc)"
    unfolding RadixNode names_ok.simps by (metis fst_conv insertE snd_conv subsetD)
  then show ?thesis by (simp add: RadixNode rn_set_children_def)
qed

lemma captured_names:
  "names_ok N node \<Longrightarrow> fst ` set (captured node ks segs) \<inter> set N = {}"
proof (induction node ks segs arbitrary: N rule: captured.induct)
  case (1 node k ks s ss)
  show ?case
  proof (cases "map_of (rn_children node) k")
    case (Some c)
    have c: "set (key_names k c) \<inter> set N = {}" "names_ok (key_names k c @ N) c"
      using names_ok_child [OF "1.prems" Some] by blast+
    consider "k = ''*''" | "k = '':''" | "k \<noteq> ''*''" "k \<noteq> '':''" by blast
    then show ?thesis
    proof cases
      case 1
      with c(1) Some show ?thesis by (simp add: key_names_def)
    next
      case 2
      with "1.IH"(1) [OF Some _ 2, of "rn_paramName c # N"] c Some show ?thesis
        by (auto simp: key_names_def)
    next
      case 3
      with "1.IH"(2) [OF Some, of N] c Some show ?thesis by (simp add: key_names_def)
    qed
  qed simp
qed simp_all

lemma map_add_upd_fresh: "n \<notin> fst ` set cap \<Longrightarrow> m(n \<mapsto> s) ++ map_of cap = m ++ (map_of cap)(n \<mapsto> s)"
proof -
  assume "n \<notin> fst ` set cap"
  then have "map_of cap n = None" by (simp add: map_of_eq_None_iff)
  then show ?thesis by (auto simp: fun_eq_iff map_add_def split: option.split)
qed

lemma best_keys_bind_None:
  "Option.bind (best_keys c segs) (tn_get c) = None \<longleftrightarrow> best_keys c segs = None"
  by (cases "best_keys c segs") (auto dest: best_keys_get)

text \<open>The three attempts of the search, with the bindings that each leaves behind.\<close>

lemma matchSegments_snd_Cons:
  "snd (matchSegments node (s # ss) ps) =
     (let ps1 = (case map_of (rn_children node) s of
                   Some c \<Rightarrow> snd (matchSegments c ss ps) | None \<Rightarrow> ps)
      in if best_below node ss s \<noteq> None then ps1
         else let ps2 = (case map_of (rn_children node) '':'' of
                   Some c \<Rightarrow>
                     (let q = snd (matchSegments c ss (AList.update (rn_paramName c) s ps1))
                      in if best_keys c ss \<noteq> None then q else AList.delete (rn_paramName c) q)
                 | None \<Rightarrow> ps1)
              in if best_below node ss '':'' \<noteq> None then ps2
                 else case map_of (rn_children node) ''*'' of
                        Some c \<Rightarrow> if rn_isWildcard c
                                 then AList.update (rn_paramName c) (join_with CHR ''/'' (s # ss)) ps2
                                 else ps2
                      | None \<Rightarrow> ps2)"
  by (cases "map_of (rn_children node) s"; cases "map_of (rn_children node) '':''")
    (auto simp: Let_def case_prod_beta matchSegments_best best_keys_bind_None best_below_def
      split: option.split)

declare matchSegments.simps(2) [simp del]

lemma matchSegments_params:
  "node_ok k node \<Longrightarrow> names_ok N node \<Longrightarrow> dom (map_of ps) \<subseteq> set N \<Longrightarrow>
   '':'' \<notin> set segs \<Longrightarrow> ''*'' \<notin> set segs \<Longrightarrow>
   map_of (snd (matchSegments node segs ps)) =
     (case best_keys node segs of
        None \<Rightarrow> map_of ps
      | Some ks \<Rightarrow> map_of ps ++ map_of (captured node ks segs))"
proof (induction segs arbitrary: k node N ps)
  case (Cons s segs)
  have s: "s \<noteq> '':''" "s \<noteq> ''*''" "'':'' \<notin> set segs" "''*'' \<notin> set segs" using Cons.prems(4,5) by auto
  have IH: "map_of (snd (matchSegments c segs q)) =
     (case best_keys c segs of None \<Rightarrow> map_of q | Some ks \<Rightarrow> map_of q ++ map_of (captured c ks segs))"
    if "map_of (rn_children node) k' = Some c" "dom (map_of q) \<subseteq> set (key_names k' c @ N)" for k' c q
    using that node_ok_child [OF Cons.prems(1)] names_ok_child [OF Cons.prems(2)] s
    by (intro Cons.IH) blast+
  define ps1 where "ps1 = (case map_of (rn_children node) s of
      Some c \<Rightarrow> snd (matchSegments c segs ps) | None \<Rightarrow> ps)"
  have ps1: "map_of ps1 = (case best_below node segs s of
      None \<Rightarrow> map_of ps | Some ks \<Rightarrow> map_of ps ++ map_of (captured node ks (s # segs)))"
    using IH [of s _ ps] Cons.prems(3) s
    by (auto simp: ps1_def best_below_def key_names_def simp del: map_of_eq_Some_iff split: option.split)
  show ?case
  proof (cases "best_below node segs s")
    case (Some ks)
    with ps1 show ?thesis
      by (simp add: matchSegments_snd_Cons best_keys_Cons Let_def flip: ps1_def)
  next
    case None
    with ps1 have ps1: "map_of ps1 = map_of ps" by simp
    have snd: "map_of (snd (matchSegments node (s # segs) ps)) =
        (let ps2 = (case map_of (rn_children node) '':'' of
             Some c \<Rightarrow> (let q = snd (matchSegments c segs (AList.update (rn_paramName c) s ps1))
                        in if best_keys c segs \<noteq> None then q else AList.delete (rn_paramName c) q)
           | None \<Rightarrow> ps1)
         in map_of (if best_below node segs '':'' \<noteq> None then ps2
            else case map_of (rn_children node) ''*'' of
                   Some c \<Rightarrow> AList.update (rn_paramName c) (join_with CHR ''/'' (s # segs)) ps2
                 | None \<Rightarrow> ps2))"
      using None wild_child_endpoint [OF Cons.prems(1)]
      by (simp add: matchSegments_snd_Cons Let_def flip: ps1_def split: option.split)
    show ?thesis
    proof (cases "map_of (rn_children node) '':''")
      case Nocolon: None
      with None snd ps1 wild_child_endpoint [OF Cons.prems(1)] show ?thesis
        by (auto simp: best_keys_Cons best_below_def map_of_update split: option.split)
    next
      case (Some c)
      let ?n = "rn_paramName c"
      have n: "?n \<notin> set N" "names_ok (?n # N) c"
        using names_ok_child [OF Cons.prems(2) Some] by (auto simp: key_names_def)
      have m1: "map_of (AList.update ?n s ps1) = (map_of ps)(?n \<mapsto> s)"
        by (simp add: map_of_update ps1)
      have q: "map_of (snd (matchSegments c segs (AList.update ?n s ps1))) =
          (case best_keys c segs of None \<Rightarrow> (map_of ps)(?n \<mapsto> s)
           | Some ks \<Rightarrow> (map_of ps)(?n \<mapsto> s) ++ map_of (captured c ks segs))"
        by (rule IH [OF Some, of "AList.update ?n s ps1", unfolded m1])
          (use Cons.prems(3) in \<open>auto simp: key_names_def\<close>)
      have n_dom: "(map_of ps)(?n := None) = map_of ps" using n(1) Cons.prems(3) by (metis domIff fun_upd_triv subsetD)
      have fresh: "?n \<notin> fst ` set (captured c ks segs)" for ks
        using captured_names [OF n(2), of ks segs] by auto
      with None Some snd q n_dom fresh ps1 wild_child_endpoint [OF Cons.prems(1)] show ?thesis
        by (auto simp: best_keys_Cons best_below_def map_of_update map_of_delete Let_def
            map_add_upd_fresh split: option.split)
    qed
  qed
qed simp

text \<open>The parameter names of a pattern; distinct names are kept distinct by every operation.\<close>

definition pattern_names :: "string list \<Rightarrow> string list" where
  "pattern_names segs =
     map segment_param (filter (\<lambda>s. segment_key s = '':'' \<or> segment_key s = ''*'') segs)"

lemma insertSegments_paramName [simp]:
  "rn_paramName (fst (insertSegments node segs i v)) = rn_paramName node"
  by (cases segs) (auto simp: insertSegments_Cons Let_def)

lemma deleteSegments_paramName [simp]:
  "rn_paramName (fst (deleteSegments node segs)) = rn_paramName node"
  by (cases segs) (auto simp: Let_def split: option.split prod.split)

lemma key_names_ops [simp]:
  "key_names k (fst (insertSegments node segs i v)) = key_names k node"
  "key_names k (fst (deleteSegments node segs)) = key_names k node"
  by (simp_all add: key_names_def)

lemma insertSegments_names:
  "names_ok N node \<Longrightarrow> distinct (pattern_names segs @ N) \<Longrightarrow> names_ok N (fst (insertSegments node segs i v))"
proof (induction segs arbitrary: N node i)
  case Nil
  then show ?case by (cases node) (simp add: rn_set_endpoint_def)
next
  case (Cons s segs)
  let ?c = "child_or_new node s" and ?k = "segment_key s"
  show ?case
  proof (cases "name_conflict node s")
    case True
    with Cons.prems show ?thesis by (simp add: insertSegments_Cons)
  next
    case False
    then have names: "key_names ?k ?c @ pattern_names segs = pattern_names (s # segs)"
      by (auto simp: key_names_def pattern_names_def name_conflict_def)
    have c: "names_ok (key_names ?k ?c @ N) ?c"
      using names_ok_child [OF Cons.prems(1), of ?k]
      by (auto simp: child_or_new_def names_ok_leaf simp del: map_of_eq_Some_iff split: option.split)
    have "distinct (key_names ?k ?c @ pattern_names segs @ N)"
      using Cons.prems(2) by (simp flip: names append_assoc)
    then have "names_ok (key_names ?k ?c @ N) (fst (insertSegments ?c segs (i + 1) v))"
      and "set (key_names ?k ?c) \<inter> set N = {}"
      using c by (auto intro!: Cons.IH)
    with False Cons.prems(1) show ?thesis
      by (simp add: insertSegments_Cons Let_def names_ok_set_child)
  qed
qed

lemma names_ok_delete_child:
  "names_ok N n \<Longrightarrow> names_ok N (rn_set_children (AList.delete k (rn_children n)) n)"
proof (cases n)
  case (RadixNode s cs e v p w)
  assume "names_ok N n"
  then have "\<forall>kc\<in>set (AList.delete k cs). set (key_names (fst kc) (snd kc)) \<inter> set N = {} \<and>
      names_ok (key_names (fst kc) (snd kc) @ N) (snd kc)"
    unfolding RadixNode names_ok.simps by (meson set_delete_subset subsetD)
  then show ?thesis by (simp add: RadixNode rn_set_children_def)
qed

lemma deleteSegments_names: "names_ok N node \<Longrightarrow> names_ok N (fst (deleteSegments node segs))"
proof (induction segs arbitrary: N node)
  case Nil
  then show ?case by (cases node) (simp add: rn_set_endpoint_def Let_def)
next
  case (Cons s segs)
  show ?case
  proof (cases "map_of (rn_children node) (segment_key s)")
    case (Some c)
    let ?k = "segment_key s" and ?d = "fst (deleteSegments c segs)"
    have c: "set (key_names ?k c) \<inter> set N = {}" "names_ok (key_names ?k c @ N) ?d"
      using names_ok_child [OF Cons.prems Some] Cons.IH by blast+
    then have "names_ok N (rn_set_children (AList.update ?k ?d (rn_children node)) node)"
      using Cons.prems by (intro names_ok_set_child) simp_all
    with Some names_ok_delete_child [OF Cons.prems] show ?thesis
      by (simp add: Let_def case_prod_beta)
  qed (use Cons.prems in simp)
qed

section \<open>Paths and segments\<close>

definition path_segments :: "string \<Rightarrow> string list" where
  "path_segments path = filter (\<lambda>part. part \<noteq> '''') (split_on CHR ''/'' path)"

lemma path_segments_slash [simp]: "path_segments (CHR ''/'' # p) = path_segments p"
  by (simp add: path_segments_def)

lemma path_segments_snoc [simp]: "path_segments (p @ [CHR ''/'']) = path_segments p"
  by (simp add: path_segments_def split_on_snoc)

lemma path_segments_nonempty [simp]: "'''' \<notin> set (path_segments p)"
  by (simp add: path_segments_def)

lemma splitPath_segments: "p \<noteq> '''' \<Longrightarrow> splitPath p = path_segments p"
  by (cases p) (auto simp: splitPath_def path_segments_def)

lemma normalizePath_segments [simp]: "path_segments (normalizePath p) = path_segments p"
proof (cases "length p > 1 \<and> last p = CHR ''/''")
  case True
  then have "p = butlast p @ [CHR ''/'']" by (cases p rule: rev_cases) auto
  with True show ?thesis by (metis normalizePath_def path_segments_snoc)
qed (auto simp: normalizePath_def)

lemma normalizePath_nonempty [simp]: "normalizePath p = '''' \<longleftrightarrow> p = ''''"
  by (cases p rule: rev_cases) (auto simp: normalizePath_def)

text \<open>
  Splitting inverts joining, so the remainder that a wildcard captures determines the segments.
\<close>

lemma path_segments_join:
  "\<forall>s\<in>set ss. s \<noteq> '''' \<and> CHR ''/'' \<notin> set s \<Longrightarrow> path_segments (join_with CHR ''/'' ss) = ss"
proof (induction "CHR ''/''" ss rule: join_with.induct)
  case (2 p)
  then show ?case by (simp add: path_segments_def split_on_single)
next
  case (3 p q ps)
  then show ?case by (simp add: path_segments_def split_on_word)
qed (simp add: path_segments_def)

section \<open>Tries as pattern tables\<close>

definition path_keys :: "string \<Rightarrow> string list" where
  "path_keys path = map segment_key (path_segments path)"

definition rooted :: "string \<Rightarrow> bool" where
  "rooted path = (path \<noteq> '''' \<and> hd path = CHR ''/'')"

abbreviation trie_abs :: "'v RadixTrie \<Rightarrow> string list \<Rightarrow> 'v option" where
  "trie_abs t \<equiv> tval (rt_root t)"

definition trie_ok :: "'v RadixTrie \<Rightarrow> bool" where
  "trie_ok t = node_ok '''' (rt_root t)"

text \<open>
  What a client of the trie relies on: insertion and deletion act on the denoted map, a failed
  insertion changes nothing, and matching returns a stored value whose pattern matches the
  request, whenever there is one.
\<close>

locale pattern_table =
  fixes tempty :: 't
    and tinsert :: "'t \<Rightarrow> string \<Rightarrow> 'v \<Rightarrow> 't \<times> 'e option"
    and tdelete :: "'t \<Rightarrow> string \<Rightarrow> 't"
    and tmatch :: "'t \<Rightarrow> string \<Rightarrow> 'v MatchResult option"
    and tabs :: "'t \<Rightarrow> string list \<Rightarrow> 'v option"
    and tinv :: "'t \<Rightarrow> bool"
  assumes empty_inv: "tinv tempty"
    and empty_abs: "tabs tempty ks = None"
    and insert_ok: "tinv t \<Longrightarrow> tinsert t p v = (t', None) \<Longrightarrow>
      tinv t' \<and> tabs t' = (tabs t)(path_keys p \<mapsto> v)"
    and insert_error: "tinv t \<Longrightarrow> tinsert t p v = (t', Some e) \<Longrightarrow> t' = t"
    and delete_ok: "tinv t \<Longrightarrow> rooted p \<Longrightarrow>
      tinv (tdelete t p) \<and> tabs (tdelete t p) = (tabs t)(path_keys p := None)"
    and match_sound: "tinv t \<Longrightarrow> tmatch t q = Some r \<Longrightarrow>
      \<exists>ks v. kmatch ks (path_segments q) \<and> tabs t ks = Some v \<and> mr_Value r = Some v"
    and match_complete: "tinv t \<Longrightarrow> rooted q \<Longrightarrow> kmatch ks (path_segments q) \<Longrightarrow> tabs t ks \<noteq> None \<Longrightarrow>
      tmatch t q \<noteq> None"
begin

lemma empty_match: "tmatch tempty q = None"
  using match_sound [OF empty_inv] empty_abs by (cases "tmatch tempty q") auto

lemma inserted_matches:
  assumes "tinv t" and "tinsert t p v = (t', None)" and "rooted q" and "kmatch (path_keys p) (path_segments q)"
  shows "tmatch t' q \<noteq> None"
  using insert_ok [OF assms(1,2)] match_complete [OF _ assms(3,4)] by auto

lemma insert_inv: "tinv t \<Longrightarrow> tinv (fst (tinsert t p v))"
  using insert_ok insert_error by (metis option.exhaust prod.collapse)

end

lemma RadixTrie_Insert_eq:
  "path \<noteq> '''' \<Longrightarrow> inner_wildcard (path_segments path) = None \<Longrightarrow>
   RadixTrie_Insert t path v =
     (t\<lparr>rt_root := fst (insertSegments (rt_root t) (path_segments path) 0 v)\<rparr>,
      snd (insertSegments (rt_root t) (path_segments path) 0 v))"
  by (auto simp: RadixTrie_Insert_def Let_def splitPath_segments case_prod_beta)

lemma RadixTrie_Insert_empty: "RadixTrie_Insert t '''' v = (t, Some EmptyPath)"
  by (simp add: RadixTrie_Insert_def)

lemma RadixTrie_Insert_inner:
  "path \<noteq> '''' \<Longrightarrow> inner_wildcard (path_segments path) = Some s \<Longrightarrow>
   fst (RadixTrie_Insert t path v) = t \<and> snd (RadixTrie_Insert t path v) \<noteq> None"
  by (auto simp: RadixTrie_Insert_def Let_def splitPath_segments)

lemma RadixTrie_Insert_cases:
  assumes "RadixTrie_Insert t path v = (t', err)"
  obtains (rejected) "t' = t" "err \<noteq> None"
  | (inserted) "path \<noteq> ''''" "inner_wildcard (path_segments path) = None"
      "t' = t\<lparr>rt_root := fst (insertSegments (rt_root t) (path_segments path) 0 v)\<rparr>"
      "snd (insertSegments (rt_root t) (path_segments path) 0 v) = None" "err = None"
proof (cases "path = '''' \<or> inner_wildcard (path_segments path) \<noteq> None")
  case True
  with assms RadixTrie_Insert_inner [of path _ t v] show ?thesis
    by (intro rejected; cases "path = ''''") (auto simp: RadixTrie_Insert_empty)
next
  case False
  let ?r = "insertSegments (rt_root t) (path_segments path) 0 v"
  have eq: "t' = t\<lparr>rt_root := fst ?r\<rparr>" "err = snd ?r"
    using False assms RadixTrie_Insert_eq [of path t v] by auto
  show ?thesis
  proof (cases "snd ?r")
    case None
    with False eq show ?thesis by (intro inserted) auto
  next
    case (Some e)
    with eq insertSegments_error_unchanged [OF Some] show ?thesis by (intro rejected) auto
  qed
qed

lemma RadixTrie_Match_eq:
  "RadixTrie_Match t path =
     (if rooted path
      then map_option (\<lambda>n. \<lparr> mr_Value = rn_value n,
                            mr_Params = snd (matchSegments (rt_root t) (path_segments path) []) \<rparr>)
             (Option.bind (best_keys (rt_root t) (path_segments path)) (tn_get (rt_root t)))
      else None)"
proof (cases "rooted path")
  case True
  let ?m = "matchSegments (rt_root t) (path_segments path) []"
  have fst: "fst ?m = Option.bind (best_keys (rt_root t) (path_segments path)) (tn_get (rt_root t))"
    by (rule matchSegments_best)
  have "fst ?m = Some n \<Longrightarrow> rn_isEndpoint n" for n
    unfolding fst using best_keys_get by (cases "best_keys (rt_root t) (path_segments path)") fastforce+
  with True show ?thesis
    unfolding fst [symmetric]
    by (cases ?m) (auto simp: RadixTrie_Match_def rooted_def splitPath_segments split: option.split)
qed (auto simp: RadixTrie_Match_def rooted_def)

lemma trie_match_Some:
  assumes "trie_ok t" and "RadixTrie_Match t q = Some r"
  obtains ks v where "best_keys (rt_root t) (path_segments q) = Some ks"
    "kmatch ks (path_segments q)" "trie_abs t ks = Some v" "mr_Value r = Some v"
proof -
  from assms(2) obtain ks n where ks: "best_keys (rt_root t) (path_segments q) = Some ks"
    "tn_get (rt_root t) ks = Some n" "mr_Value r = rn_value n" "rn_isEndpoint n"
    using best_keys_get
    by (fastforce simp: RadixTrie_Match_eq bind_eq_Some_conv split: if_splits)
  have val: "rn_value n \<noteq> None"
  proof -
    have "node_ok k node \<Longrightarrow> tn_get node ks = Some n \<Longrightarrow> \<exists>k'. node_ok k' n" for k node
    proof (induction ks arbitrary: k node)
      case (Cons a ks)
      then show ?case
        by (auto simp del: map_of_eq_Some_iff dest: node_ok_child split: option.splits)
    qed auto
    with assms(1) ks(2,4) show ?thesis unfolding trie_ok_def by (metis node_ok_iff)
  qed
  then show ?thesis
    using that ks best_keys_kmatch [OF assms(1) [unfolded trie_ok_def] ks(1)]
    by (auto simp: tval_def)
qed

lemma NewRadixTrie_ok: "trie_ok NewRadixTrie" and NewRadixTrie_abs: "trie_abs NewRadixTrie ks = None"
  by (auto simp: trie_ok_def NewRadixTrie_def intro: tval_leaf)

lemma RadixTrie_Insert_ok:
  assumes "trie_ok t" and "RadixTrie_Insert t p v = (t', None)"
  shows "trie_ok t' \<and> trie_abs t' = (trie_abs t)(path_keys p \<mapsto> v)"
  using assms(2)
proof (cases rule: RadixTrie_Insert_cases)
  case inserted
  then show ?thesis
    using assms(1) insertSegments_preserves_ok [of "''''" "rt_root t" "path_segments p" 0 v]
      insertSegments_tval [of "rt_root t" "path_segments p" 0 v]
    by (simp add: trie_ok_def path_keys_def)
qed simp

lemma RadixTrie_Delete_ok:
  assumes "trie_ok t" and "rooted p"
  shows "trie_ok (RadixTrie_Delete t p) \<and>
    trie_abs (RadixTrie_Delete t p) = (trie_abs t)(path_keys p := None)"
  using assms deleteSegments_preserves_ok [of "''''" "rt_root t" "path_segments p"]
  by (simp add: RadixTrie_Delete_def rooted_def trie_ok_def path_keys_def splitPath_segments deleteSegments_tval)

lemma RadixTrie_Match_complete:
  assumes "trie_ok t" and "rooted q" and "kmatch ks (path_segments q)" and "trie_abs t ks \<noteq> None"
  shows "RadixTrie_Match t q \<noteq> None"
proof -
  have "best_keys (rt_root t) (path_segments q) \<noteq> None"
    using assms by (intro best_keys_complete) (auto simp: trie_ok_def)
  with assms(2) best_keys_bind_None [of "rt_root t" "path_segments q"] show ?thesis
    by (auto simp: RadixTrie_Match_eq)
qed

interpretation rt: pattern_table NewRadixTrie RadixTrie_Insert RadixTrie_Delete RadixTrie_Match trie_abs trie_ok
proof
  show "trie_ok NewRadixTrie" by (rule NewRadixTrie_ok)
  show "trie_abs NewRadixTrie ks = None" for ks by (rule NewRadixTrie_abs)
  show "trie_ok t' \<and> trie_abs t' = (trie_abs t)(path_keys p \<mapsto> v)"
    if "trie_ok t" "RadixTrie_Insert t p v = (t', None)" for t t' :: "'v RadixTrie" and p v
    using that by (rule RadixTrie_Insert_ok)
  show "t' = t" if "RadixTrie_Insert t p v = (t', Some e)" for t t' :: "'v RadixTrie" and p v e
    using that by (cases rule: RadixTrie_Insert_cases) auto
  show "trie_ok (RadixTrie_Delete t p) \<and> trie_abs (RadixTrie_Delete t p) = (trie_abs t)(path_keys p := None)"
    if "trie_ok t" "rooted p" for t :: "'v RadixTrie" and p
    using that by (rule RadixTrie_Delete_ok)
  show "\<exists>ks v. kmatch ks (path_segments q) \<and> trie_abs t ks = Some v \<and> mr_Value r = Some v"
    if "trie_ok t" "RadixTrie_Match t q = Some r" for t :: "'v RadixTrie" and q r
    using trie_match_Some [OF that] by blast
  show "RadixTrie_Match t q \<noteq> None"
    if "trie_ok t" "rooted q" "kmatch ks (path_segments q)" "trie_abs t ks \<noteq> None"
    for t :: "'v RadixTrie" and q ks
    using that by (rule RadixTrie_Match_complete)
qed

section \<open>Reachable tries\<close>

inductive trie_reach :: "'v RadixTrie \<Rightarrow> bool" where
  new: "trie_reach NewRadixTrie"
| ins: "trie_reach t \<Longrightarrow> trie_reach (fst (RadixTrie_Insert t path v))"
| del: "trie_reach t \<Longrightarrow> trie_reach (RadixTrie_Delete t path)"

lemma RadixTrie_Delete_unrooted: "\<not> rooted p \<Longrightarrow> RadixTrie_Delete t p = t"
  by (auto simp: RadixTrie_Delete_def rooted_def)

lemma trie_reach_ok: "trie_reach t \<Longrightarrow> trie_ok t"
proof (induction rule: trie_reach.induct)
  case new show ?case by (rule rt.empty_inv)
next
  case (ins t path v) then show ?case by (simp add: rt.insert_inv)
next
  case (del t path)
  then show ?case using rt.delete_ok by (cases "rooted path") (auto simp: RadixTrie_Delete_unrooted)
qed

text \<open>The patterns inserted into a trie, in which no parameter name occurs twice.\<close>

inductive trie_reach_named :: "'v RadixTrie \<Rightarrow> bool" where
  new: "trie_reach_named NewRadixTrie"
| ins: "trie_reach_named t \<Longrightarrow> distinct (pattern_names (path_segments path)) \<Longrightarrow>
    trie_reach_named (fst (RadixTrie_Insert t path v))"
| del: "trie_reach_named t \<Longrightarrow> trie_reach_named (RadixTrie_Delete t path)"

lemma trie_reach_named_reach: "trie_reach_named t \<Longrightarrow> trie_reach t"
  by (induction rule: trie_reach_named.induct) (auto intro: trie_reach.intros)

lemma trie_reach_named_ok: "trie_reach_named t \<Longrightarrow> names_ok [] (rt_root t)"
proof (induction rule: trie_reach_named.induct)
  case new show ?case by (simp add: NewRadixTrie_def)
next
  case (ins t path v)
  obtain t' err where "RadixTrie_Insert t path v = (t', err)" by (cases "RadixTrie_Insert t path v")
  moreover from this have "names_ok [] (rt_root t')"
    by (cases rule: RadixTrie_Insert_cases) (use ins in \<open>auto intro: insertSegments_names\<close>)
  ultimately show ?case by simp
next
  case (del t path)
  then show ?case by (simp add: RadixTrie_Delete_def deleteSegments_names)
qed

section \<open>Cloning\<close>

lemma foldl_update_distinct:
  "distinct (map fst (xs @ m)) \<Longrightarrow> foldl (\<lambda>m (k, c). AList.update k c m) xs m = xs @ m"
proof (induction m arbitrary: xs)
  case (Cons a m)
  then have "AList.update (fst a) (snd a) xs = xs @ [a]"
    by (subst update_new_append) auto
  with Cons show ?case by (simp add: case_prod_beta)
qed simp

lemma cloneNode_same: "node_ok k n \<Longrightarrow> cloneNode n = n"
proof (induction n arbitrary: k rule: cloneNode.induct)
  case (1 s cs e v p w)
  have "map (\<lambda>kc. (fst kc, cloneNode (snd kc))) cs = cs"
    using 1 by (intro map_idI) auto
  moreover have "foldl (\<lambda>m (k, c). AList.update k c m) [] cs = cs"
    using "1.prems" foldl_update_distinct [of "[]" cs] by simp
  ultimately show ?case by simp
qed

lemma RadixTrie_Clone_same: "trie_ok t \<Longrightarrow> RadixTrie_Clone t = t"
  using cloneNode_same [of "''''" "rt_root t"] by (simp add: RadixTrie_Clone_def trie_ok_def)

section \<open>Properties\<close>

text \<open>
  C7. Every trie built by the operations denotes a finite map from key paths to values on which a
  successful insertion is an update, a rejected insertion (empty path, inner wildcard,
  conflicting parameter name) does nothing at all, and deletion removes exactly one key.
\<close>

theorem RadixTrie_refines_map:
  assumes "trie_reach t"
  shows "(case RadixTrie_Insert t p v of
            (t', None) \<Rightarrow> trie_abs t' = (trie_abs t)(path_keys p \<mapsto> v)
          | (t', Some e) \<Rightarrow> t' = t) \<and>
         trie_abs (RadixTrie_Delete t p)
           = (if rooted p then (trie_abs t)(path_keys p := None) else trie_abs t)"
proof
  have ok: "trie_ok t" using assms by (rule trie_reach_ok)
  show "case RadixTrie_Insert t p v of
           (t', None) \<Rightarrow> trie_abs t' = (trie_abs t)(path_keys p \<mapsto> v)
         | (t', Some e) \<Rightarrow> t' = t"
    using rt.insert_ok [OF ok] rt.insert_error [OF ok] by (auto split: prod.split option.split)
  show "trie_abs (RadixTrie_Delete t p)
           = (if rooted p then (trie_abs t)(path_keys p := None) else trie_abs t)"
    using rt.delete_ok [OF ok] by (simp add: RadixTrie_Delete_unrooted)
qed

text \<open>
  C8. Matching a request path returns nothing exactly when no stored pattern matches it, and
  otherwise the value of the most specific stored pattern that does: at the first segment where
  two candidates differ, static text wins over a parameter and a parameter over a wildcard.
  Request segments that are a literal "*" are the exception and excluded.
\<close>

theorem RadixTrie_Match_best:
  assumes "trie_reach t" and "rooted q" and "''*'' \<notin> set (path_segments q)"
  shows "case RadixTrie_Match t q of
           None \<Rightarrow> \<forall>ks. kmatch ks (path_segments q) \<longrightarrow> trie_abs t ks = None
         | Some r \<Rightarrow> \<exists>ks. kmatch ks (path_segments q) \<and> trie_abs t ks = mr_Value r \<and> mr_Value r \<noteq> None \<and>
             (\<forall>ks'. kmatch ks' (path_segments q) \<longrightarrow> trie_abs t ks' \<noteq> None \<longrightarrow> prefers ks ks')"
proof (cases "RadixTrie_Match t q")
  case None
  then show ?thesis using rt.match_complete [OF trie_reach_ok [OF assms(1)] assms(2)] by fastforce
next
  case (Some r)
  note ok = trie_reach_ok [OF assms(1)]
  obtain ks v where "best_keys (rt_root t) (path_segments q) = Some ks"
    "kmatch ks (path_segments q)" "trie_abs t ks = Some v" "mr_Value r = Some v"
    using trie_match_Some [OF ok Some] .
  with Some best_keys_prefers [OF ok [unfolded trie_ok_def] assms(3)] show ?thesis by auto
qed

text \<open>
  When the patterns inserted so far name their parameters distinctly, the parameters that a
  match returns are exactly those of the pattern it found: every parameter segment bound to the
  segment of the request and a wildcard to the rest of the path, with nothing left over from
  branches that the search abandoned.
\<close>

theorem RadixTrie_Match_params:
  assumes "trie_reach_named t" and "'':'' \<notin> set (path_segments q)" and "''*'' \<notin> set (path_segments q)"
    and "RadixTrie_Match t q = Some r"
  shows "\<exists>ks. kmatch ks (path_segments q) \<and> trie_abs t ks = mr_Value r \<and>
           map_of (mr_Params r) = map_of (captured (rt_root t) ks (path_segments q))"
proof -
  have ok: "trie_ok t" using assms(1) by (intro trie_reach_ok trie_reach_named_reach)
  obtain ks v where ks: "best_keys (rt_root t) (path_segments q) = Some ks"
    "kmatch ks (path_segments q)" "trie_abs t ks = Some v" "mr_Value r = Some v"
    using trie_match_Some [OF ok assms(4)] .
  have "mr_Params r = snd (matchSegments (rt_root t) (path_segments q) [])"
    using assms(4) by (auto simp: RadixTrie_Match_eq split: if_splits)
  moreover have "map_of (snd (matchSegments (rt_root t) (path_segments q) []))
      = map_of (captured (rt_root t) ks (path_segments q))"
    using matchSegments_params [OF ok [unfolded trie_ok_def] trie_reach_named_ok [OF assms(1)] _ assms(2,3), of "[]"]
    by (simp add: ks(1))
  ultimately show ?thesis using ks by auto
qed

definition example_trie :: "nat RadixTrie" where
  "example_trie =
     (let ins = (\<lambda>t p v. fst (RadixTrie_Insert t p v))
      in ins (ins (ins NewRadixTrie ''/users/:id'' 1) ''users/me/'' 2) ''/files/*rest'' 3)"

lemma example_trie_named: "trie_reach_named example_trie"
  unfolding example_trie_def Let_def
  by (intro trie_reach_named.intros; code_simp)

theorem RadixTrie_refines_map_witness:
  "snd (RadixTrie_Insert example_trie ''/users/:name'' 4) = Some (ConflictingParam ''name'' 1 ''id'') \<and>
   trie_abs (fst (RadixTrie_Insert example_trie ''/users/:id/posts'' 4)) [''users'', '':'', ''posts''] = Some 4 \<and>
   trie_abs (RadixTrie_Delete example_trie ''/users/me'') [''users'', ''me''] = None"
proof -
  note r = trie_reach_named_reach [OF example_trie_named]
  have "snd (RadixTrie_Insert example_trie ''/users/:name'' 4) = Some (ConflictingParam ''name'' 1 ''id'')"
    by code_simp
  moreover have "snd (RadixTrie_Insert example_trie ''/users/:id/posts'' 4) = None"
    and "path_keys ''/users/:id/posts'' = [''users'', '':'', ''posts'']"
    and "rooted ''/users/me''" and "path_keys ''/users/me'' = [''users'', ''me'']"
    by code_simp+
  ultimately show ?thesis
    using RadixTrie_refines_map [OF r, of "''/users/:id/posts''" 4]
      RadixTrie_refines_map [OF r, of "''/users/me''" 4]
    by (auto simp del: tval_Cons split: prod.splits)
qed

theorem RadixTrie_Match_best_witness:
  "\<exists>ks. kmatch ks [''users'', ''me''] \<and> trie_abs example_trie ks = Some 2 \<and> prefers ks [''users'', '':'']"
proof -
  have "rooted ''/users/me''" and seg: "path_segments ''/users/me'' = [''users'', ''me'']"
    and m: "map_option mr_Value (RadixTrie_Match example_trie ''/users/me'') = Some (Some 2)"
    and o: "kmatch [''users'', '':''] [''users'', ''me'']" "trie_abs example_trie [''users'', '':''] = Some 1"
    by code_simp+
  then show ?thesis
    using RadixTrie_Match_best [OF trie_reach_named_reach [OF example_trie_named], of "''/users/me''"]
    by (auto split: option.splits)
qed

theorem RadixTrie_Match_params_witness:
  "\<exists>ks. kmatch ks [''files'', ''a'', ''b''] \<and> trie_abs example_trie ks = Some 3 \<and>
     map_of (captured (rt_root example_trie) ks [''files'', ''a'', ''b'']) = map_of [(''rest'', ''a/b'')]"
proof -
  have "RadixTrie_Match example_trie ''/files/a//b/'' = Some \<lparr> mr_Value = Some 3, mr_Params = [(''rest'', ''a/b'')] \<rparr>"
    and "path_segments ''/files/a//b/'' = [''files'', ''a'', ''b'']"
    by code_simp+
  then show ?thesis
    using RadixTrie_Match_params [OF example_trie_named, of "''/files/a//b/''"] by fastforce
qed

end
