(* ===== verification/Router.thy ===== *)
theory Router
  imports Radix_Trie Http Errors
begin

text \<open>
  The HTTP router of \<^verbatim>\<open>internal/router/router.go\<close>: one path trie per host pattern, routes that
  share a path told apart by method and headers, and the walk up the path when no pattern
  matches it. The router is a client of the trie through the laws of \<open>pattern_table\<close>. Routes are
  handled by value: the router stores pointers, but no operation of it changes a stored route.
\<close>

section \<open>State\<close>

record Route =
  route_Name :: string
  route_Host :: string
  route_Path :: string
  route_Methods :: "string list"
  route_Headers :: "(string, string) gomap"
  route_BackendPool :: string
  route_Priority :: int

record RouteMatch =
  rm_Route :: Route
  rm_Params :: params

record routeEntry =
  re_routes :: "Route list"

record hostTrie =
  ht_host :: string
  ht_trie :: "string RadixTrie"
  ht_routes :: "(string, routeEntry) gomap"

record Router =
  r_exactHosts :: "(string, hostTrie) gomap"
  r_wildcardHosts :: "(string, hostTrie) gomap"
  r_defaultTrie :: "hostTrie option"
  r_routesByName :: "(string, Route) gomap"

definition NewRouter :: Router where
  "NewRouter = \<lparr> r_exactHosts = [], r_wildcardHosts = [], r_defaultTrie = None, r_routesByName = [] \<rparr>"

definition newHostTrie :: "string \<Rightarrow> hostTrie" where
  "newHostTrie host = \<lparr> ht_host = host, ht_trie = NewRadixTrie, ht_routes = [] \<rparr>"

section \<open>Error texts\<close>

text \<open>
  The texts of the trie's errors. \<open>quoted\<close> is the verb \<^verbatim>\<open>%q\<close> on printable text, where only the
  quote and the backslash are escaped.
\<close>

definition quoted :: "string \<Rightarrow> string" where
  "quoted s =
     CHR 0x22 # concat (map (\<lambda>c. if c = CHR 0x22 \<or> c = CHR 0x5C then [CHR 0x5C, c] else [c]) s) @ [CHR 0x22]"

fun trie_error_text :: "trie_error \<Rightarrow> string" where
  "trie_error_text EmptyPath = ''cannot insert empty path''"
| "trie_error_text (WildcardNotLast seg path) =
     ''wildcard segment '' @ quoted seg @ '' must be the last segment in path '' @ quoted path"
| "trie_error_text (ConflictingParam name index existing) =
     ''conflicting parameter name '' @ quoted name @ '' at position '' @ nat_dec index @
     '' (route already captures as '' @ quoted existing @ '')''"

section \<open>Adding routes\<close>

definition wildcard_host :: "string \<Rightarrow> bool" where
  "wildcard_host host = (take 2 host = ''*.'')"

definition getOrCreateHostTrie :: "Router \<Rightarrow> string \<Rightarrow> Router \<times> hostTrie" where
  "getOrCreateHostTrie r host =
     (if host = '''' then
        (case r_defaultTrie r of
           Some ht \<Rightarrow> (r, ht)
         | None \<Rightarrow> (let ht = newHostTrie '''' in (r\<lparr>r_defaultTrie := Some ht\<rparr>, ht)))
      else if wildcard_host host then
        (case map_of (r_wildcardHosts r) (drop 2 host) of
           Some ht \<Rightarrow> (r, ht)
         | None \<Rightarrow>
             (let ht = newHostTrie host
              in (r\<lparr>r_wildcardHosts := AList.update (drop 2 host) ht (r_wildcardHosts r)\<rparr>, ht)))
      else
        (case map_of (r_exactHosts r) host of
           Some ht \<Rightarrow> (r, ht)
         | None \<Rightarrow>
             (let ht = newHostTrie host
              in (r\<lparr>r_exactHosts := AList.update host ht (r_exactHosts r)\<rparr>, ht))))"

text \<open>
  The trie of a host is reached through a pointer: \<open>findHostTrie\<close> is the lookup and
  \<open>storeHostTrie\<close> makes a change of the object visible in the table that holds it.
\<close>

definition findHostTrie :: "Router \<Rightarrow> string \<Rightarrow> hostTrie option" where
  "findHostTrie r host =
     (if host = '''' then r_defaultTrie r
      else if wildcard_host host then map_of (r_wildcardHosts r) (drop 2 host)
      else map_of (r_exactHosts r) host)"

definition storeHostTrie :: "Router \<Rightarrow> string \<Rightarrow> hostTrie \<Rightarrow> Router" where
  "storeHostTrie r host ht =
     (if host = '''' then r\<lparr>r_defaultTrie := Some ht\<rparr>
      else if wildcard_host host
      then r\<lparr>r_wildcardHosts := AList.update (drop 2 host) ht (r_wildcardHosts r)\<rparr>
      else r\<lparr>r_exactHosts := AList.update host ht (r_exactHosts r)\<rparr>)"

definition entry_routes :: "hostTrie \<Rightarrow> string \<Rightarrow> Route list" where
  "entry_routes ht path = (case map_of (ht_routes ht) path of Some e \<Rightarrow> re_routes e | None \<Rightarrow> [])"

text \<open>The part that adding a route and rebuilding the tables share.\<close>

definition addToTables :: "Router \<Rightarrow> Route \<Rightarrow> gerror option \<times> Router" where
  "addToTables r route =
     (let (r1, ht) = getOrCreateHostTrie r (route_Host route);
          path = route_Path route
      in case RadixTrie_Insert (ht_trie ht) path path of
           (t', Some err) \<Rightarrow>
             (Some (Error_WithContext (Error_WithContext ErrInvalidArg ''route_path'' path)
                      ''reason'' (trie_error_text err)),
              storeHostTrie r1 (route_Host route) (ht\<lparr>ht_trie := t'\<rparr>))
         | (t', None) \<Rightarrow>
             (let entry = \<lparr> re_routes = entry_routes ht path @ [route] \<rparr>;
                  ht' = ht\<lparr>ht_trie := t', ht_routes := AList.update path entry (ht_routes ht)\<rparr>;
                  r2 = storeHostTrie r1 (route_Host route) ht'
              in (None,
                  r2\<lparr>r_routesByName := AList.update (route_Name route) route (r_routesByName r2)\<rparr>)))"

text \<open>The checks on a route and the leading slash that is added to its path.\<close>

definition validateRoute :: "Route option \<Rightarrow> gerror + Route" where
  "validateRoute rt =
     (case rt of
        None \<Rightarrow> Inl (Error_WithContext ErrInvalidArg ''reason'' ''route is nil'')
      | Some route \<Rightarrow>
          if route_Name route = '''' then Inl (Error_WithContext ErrInvalidArg ''reason'' ''route name is empty'')
          else if route_Path route = '''' then Inl (Error_WithContext ErrInvalidArg ''reason'' ''route path is empty'')
          else if route_BackendPool route = ''''
          then Inl (Error_WithContext ErrInvalidArg ''reason'' ''backend pool is empty'')
          else if hd (route_Path route) \<noteq> CHR ''/''
          then Inr (route\<lparr>route_Path := CHR ''/'' # route_Path route\<rparr>)
          else Inr route)"

definition Router_AddRoute :: "Router \<Rightarrow> Route option \<Rightarrow> gerror option \<times> Router" where
  "Router_AddRoute r rt =
     (case validateRoute rt of
        Inl err \<Rightarrow> (Some err, r)
      | Inr route \<Rightarrow>
          (case map_of (r_routesByName r) (route_Name route) of
             Some _ \<Rightarrow> (Some (Error_WithContext ErrAlreadyExist ''route_name'' (route_Name route)), r)
           | None \<Rightarrow> addToTables r route))"

section \<open>Matching\<close>

definition matchesRoute :: "Route \<Rightarrow> Request \<Rightarrow> bool" where
  "matchesRoute route req =
     ((route_Methods route = [] \<or> List.member (route_Methods route) (req_Method req)) \<and>
      list_all (\<lambda>(key, v). Header_Get req key = v) (route_Headers route))"

text \<open>The walk up the path when it matches no pattern itself.\<close>

function walkUp :: "'v RadixTrie \<Rightarrow> string \<Rightarrow> 'v MatchResult option" where
  "walkUp t tryPath =
     (if tryPath = '''' then None
      else case last_index CHR ''/'' tryPath of
             None \<Rightarrow> RadixTrie_Match t ''/''
           | Some idx \<Rightarrow>
               if idx = 0 then RadixTrie_Match t ''/''
               else case RadixTrie_Match t (take idx tryPath) of
                      Some res \<Rightarrow> Some res
                    | None \<Rightarrow> walkUp t (take idx tryPath))"
  by pat_completeness auto
termination
  by (relation "measure (\<lambda>(t, p). length p)") (auto dest: last_index_SomeD)

declare walkUp.simps [simp del]

definition matchPath :: "'v RadixTrie \<Rightarrow> string \<Rightarrow> 'v MatchResult option" where
  "matchPath t path =
     (case RadixTrie_Match t path of Some res \<Rightarrow> Some res | None \<Rightarrow> walkUp t path)"

definition matchInHostTrie :: "hostTrie \<Rightarrow> string \<Rightarrow> Request \<Rightarrow> RouteMatch option" where
  "matchInHostTrie ht path req =
     (case matchPath (ht_trie ht) path of
        None \<Rightarrow> None
      | Some result \<Rightarrow>
          (let matchedPath = (case mr_Value result of Some s \<Rightarrow> s | None \<Rightarrow> '''')
           in case map_of (ht_routes ht) matchedPath of
                None \<Rightarrow> None
              | Some entry \<Rightarrow>
                  map_option (\<lambda>route. \<lparr> rm_Route = route, rm_Params = mr_Params result \<rparr>)
                    (List.find (\<lambda>route. matchesRoute route req) (re_routes entry))))"

definition request_host :: "Request \<Rightarrow> string" where
  "request_host req =
     (let host = (if req_Host req = '''' then req_URL_Host req else req_Host req)
      in case SplitHostPort host of Some (h, _) \<Rightarrow> h | None \<Rightarrow> host)"

definition Router_Match :: "Router \<Rightarrow> Request \<Rightarrow> RouteMatch option" where
  "Router_Match r req =
     (let host = request_host req;
          path = req_URL_Path req;
          try_in = (\<lambda>ht. Option.bind ht (\<lambda>h. matchInHostTrie h path req));
          parts = split_on CHR ''.'' host
      in case try_in (map_of (r_exactHosts r) host) of
           Some m \<Rightarrow> Some m
         | None \<Rightarrow>
             (case find_map (\<lambda>i. try_in (map_of (r_wildcardHosts r) (join_with CHR ''.'' (drop i parts))))
                     [1..<length parts] of
                Some m \<Rightarrow> Some m
              | None \<Rightarrow> try_in (r_defaultTrie r)))"

section \<open>Removing and replacing routes\<close>

text \<open>Removal of the first route with the name, as the slice operation of the loop does it.\<close>

fun remove_named :: "string \<Rightarrow> Route list \<Rightarrow> Route list" where
  "remove_named name [] = []"
| "remove_named name (rt # rts) =
     (if route_Name rt = name then rts else rt # remove_named name rts)"

definition Router_RemoveRoute :: "Router \<Rightarrow> string \<Rightarrow> Router" where
  "Router_RemoveRoute r name =
     (case map_of (r_routesByName r) name of
        None \<Rightarrow> r
      | Some route \<Rightarrow>
          (let path = route_Path route;
               r1 = (case findHostTrie r (route_Host route) of
                       None \<Rightarrow> r
                     | Some ht \<Rightarrow>
                         (case map_of (ht_routes ht) path of
                            None \<Rightarrow> r
                          | Some entry \<Rightarrow>
                              (let routes = remove_named name (re_routes entry)
                               in storeHostTrie r (route_Host route)
                                    (if routes = []
                                     then ht\<lparr>ht_routes := AList.delete path (ht_routes ht),
                                             ht_trie := RadixTrie_Delete (ht_trie ht) path\<rparr>
                                     else ht\<lparr>ht_routes := AList.update path \<lparr> re_routes = routes \<rparr> (ht_routes ht)\<rparr>))))
           in r1\<lparr>r_routesByName := AList.delete name (r_routesByName r1)\<rparr>))"

fun validateAll :: "Route option list \<Rightarrow> gerror + Route list" where
  "validateAll [] = Inr []"
| "validateAll (rt # rts) =
     (case validateRoute rt of
        Inl err \<Rightarrow> Inl err
      | Inr route \<Rightarrow> (case validateAll rts of Inl err \<Rightarrow> Inl err | Inr routes \<Rightarrow> Inr (route # routes)))"

fun buildTables :: "Router \<Rightarrow> Route list \<Rightarrow> gerror + Router" where
  "buildTables r [] = Inr r"
| "buildTables r (route # routes) =
     (case addToTables r route of
        (Some err, _) \<Rightarrow> Inl err
      | (None, r') \<Rightarrow> buildTables r' routes)"

definition Router_Swap :: "Router \<Rightarrow> Route option list \<Rightarrow> gerror option \<times> Router" where
  "Router_Swap r rts =
     (case validateAll rts of
        Inl err \<Rightarrow> (Some err, r)
      | Inr routes \<Rightarrow>
          (case buildTables NewRouter routes of
             Inl err \<Rightarrow> (Some err, r)
           | Inr tables \<Rightarrow>
               (None, r\<lparr>r_exactHosts := r_exactHosts tables, r_wildcardHosts := r_wildcardHosts tables,
                        r_defaultTrie := r_defaultTrie tables, r_routesByName := r_routesByName tables\<rparr>)))"

definition Router_Routes :: "Router \<Rightarrow> Route list" where
  "Router_Routes r = map snd (r_routesByName r)"

definition Router_GetRoute :: "Router \<Rightarrow> string \<Rightarrow> Route option" where
  "Router_GetRoute r name = map_of (r_routesByName r) name"

definition Router_RouteCount :: "Router \<Rightarrow> nat" where
  "Router_RouteCount r = length (r_routesByName r)"

section \<open>The table of host tries\<close>

lemma wildcard_host_eq: "wildcard_host h \<Longrightarrow> h = ''*.'' @ drop 2 h"
  unfolding wildcard_host_def by (metis append_take_drop_id)

lemma wildcard_host_star [simp]: "wildcard_host (CHR ''*'' # CHR ''.'' # d)"
  by (simp add: wildcard_host_def)

lemma find_store:
  "findHostTrie (storeHostTrie r h ht) h' = (if h' = h then Some ht else findHostTrie r h')"
  using wildcard_host_eq [of h] wildcard_host_eq [of h']
  by (auto simp: findHostTrie_def storeHostTrie_def map_of_update)

lemma storeHostTrie_names [simp]: "r_routesByName (storeHostTrie r h ht) = r_routesByName r"
  by (simp add: storeHostTrie_def)

lemma find_names [simp]: "findHostTrie (r\<lparr>r_routesByName := n\<rparr>) h = findHostTrie r h"
  by (simp add: findHostTrie_def)

definition findOrNew :: "Router \<Rightarrow> string \<Rightarrow> hostTrie" where
  "findOrNew r h = (case findHostTrie r h of Some ht \<Rightarrow> ht | None \<Rightarrow> newHostTrie h)"

lemma getOrCreateHostTrie_eq:
  "getOrCreateHostTrie r h =
     (if findHostTrie r h = None then storeHostTrie r h (newHostTrie h) else r, findOrNew r h)"
  by (auto simp: getOrCreateHostTrie_def findHostTrie_def storeHostTrie_def findOrNew_def Let_def
      split: option.split)

lemma store_twice: "storeHostTrie (storeHostTrie r h ht) h ht' = storeHostTrie r h ht'"
proof -
  have "AList.update k v (AList.update k v' m) = AList.update k v m" for k :: string and v v' :: hostTrie and m
    by (induction m) auto
  then show ?thesis by (simp add: storeHostTrie_def)
qed

lemma addToTables_eq:
  "addToTables r route =
     (let h = route_Host route; path = route_Path route; ht = findOrNew r h
      in case RadixTrie_Insert (ht_trie ht) path path of
           (t', Some err) \<Rightarrow>
             (Some (Error_WithContext (Error_WithContext ErrInvalidArg ''route_path'' path)
                      ''reason'' (trie_error_text err)), storeHostTrie r h (ht\<lparr>ht_trie := t'\<rparr>))
         | (t', None) \<Rightarrow>
             (None, (storeHostTrie r h (ht\<lparr>ht_trie := t',
                       ht_routes := AList.update path \<lparr> re_routes = entry_routes ht path @ [route] \<rparr> (ht_routes ht)\<rparr>))
                \<lparr>r_routesByName := AList.update (route_Name route) route (r_routesByName r)\<rparr>))"
  by (auto simp: addToTables_def getOrCreateHostTrie_eq Let_def store_twice split: prod.split option.split)

section \<open>Invariant\<close>

text \<open>
  What the trie, the entries and the index by name have in common: a value in the trie is the
  path of its own key and has routes, and every route in an entry carries the path and host it
  is filed under and is the one registered under its name.
\<close>

definition ht_inv :: "(string \<Rightarrow> Route option) \<Rightarrow> string \<Rightarrow> hostTrie \<Rightarrow> bool" where
  "ht_inv names h ht =
     (trie_ok (ht_trie ht) \<and>
      (\<forall>ks v. trie_abs (ht_trie ht) ks = Some v \<longrightarrow> path_keys v = ks \<and> entry_routes ht v \<noteq> []) \<and>
      (\<forall>p. distinct (map route_Name (entry_routes ht p)) \<and>
        (\<forall>rt\<in>set (entry_routes ht p).
           route_Path rt = p \<and> rooted p \<and> route_Host rt = h \<and> names (route_Name rt) = Some rt)))"

definition router_inv :: "Router \<Rightarrow> bool" where
  "router_inv r =
     (gomap_wf (r_routesByName r) \<and>
      (\<forall>h\<in>fst ` set (r_exactHosts r). h \<noteq> '''' \<and> \<not> wildcard_host h) \<and>
      (\<forall>h ht. findHostTrie r h = Some ht \<longrightarrow> ht_inv (map_of (r_routesByName r)) h ht) \<and>
      (\<forall>n rt. map_of (r_routesByName r) n = Some rt \<longrightarrow>
         route_Name rt = n \<and> rooted (route_Path rt) \<and>
         (\<exists>ht. findHostTrie r (route_Host rt) = Some ht \<and> rt \<in> set (entry_routes ht (route_Path rt)))))"

lemma ht_invD_route:
  "ht_inv names h ht \<Longrightarrow> rt \<in> set (entry_routes ht p) \<Longrightarrow>
   route_Path rt = p \<and> rooted p \<and> route_Host rt = h \<and> names (route_Name rt) = Some rt"
  by (simp add: ht_inv_def)

lemma ht_invD_value:
  "ht_inv names h ht \<Longrightarrow> trie_abs (ht_trie ht) ks = Some v \<Longrightarrow> path_keys v = ks \<and> entry_routes ht v \<noteq> []"
  by (simp add: ht_inv_def)

lemma ht_inv_new: "ht_inv names h (newHostTrie h')"
  by (simp add: ht_inv_def newHostTrie_def entry_routes_def NewRadixTrie_ok NewRadixTrie_abs)

lemma ht_inv_findOrNew: "router_inv r \<Longrightarrow> ht_inv (map_of (r_routesByName r)) h (findOrNew r h)"
  by (auto simp: router_inv_def findOrNew_def ht_inv_new split: option.split)

lemma ht_inv_names:
  assumes "ht_inv names h ht" and "\<And>p rt. rt \<in> set (entry_routes ht p) \<Longrightarrow> names' (route_Name rt) = Some rt"
  shows "ht_inv names' h ht"
  using assms by (simp add: ht_inv_def)

lemma exact_keys_store:
  "\<forall>h\<in>fst ` set (r_exactHosts r). h \<noteq> '''' \<and> \<not> wildcard_host h \<Longrightarrow>
   \<forall>h\<in>fst ` set (r_exactHosts (storeHostTrie r h0 ht)). h \<noteq> '''' \<and> \<not> wildcard_host h"
proof -
  assume old: "\<forall>h\<in>fst ` set (r_exactHosts r). h \<noteq> '''' \<and> \<not> wildcard_host h"
  have "fst ` set (r_exactHosts (storeHostTrie r h0 ht)) \<subseteq>
      fst ` set (r_exactHosts r) \<union> (if h0 = '''' \<or> wildcard_host h0 then {} else {h0})"
    unfolding storeHostTrie_def using keys_update [of h0 ht "r_exactHosts r"] by simp
  with old show ?thesis by (fastforce split: if_splits)
qed

lemma router_inv_new: "router_inv NewRouter"
  by (simp add: router_inv_def NewRouter_def findHostTrie_def)

lemma ht_inv_add_route:
  assumes "ht_inv names h ht" and "RadixTrie_Insert (ht_trie ht) p p = (t', None)" and "rooted p"
    and "names (route_Name rt) = None" and "route_Path rt = p" and "route_Host rt = h"
  shows "ht_inv (names(route_Name rt \<mapsto> rt)) h
    (ht\<lparr>ht_trie := t', ht_routes := AList.update p \<lparr> re_routes = entry_routes ht p @ [rt] \<rparr> (ht_routes ht)\<rparr>)"
    (is "ht_inv ?names h ?ht'")
proof -
  have entry: "entry_routes ?ht' q = (if q = p then entry_routes ht p @ [rt] else entry_routes ht q)" for q
    by (simp add: entry_routes_def map_of_update)
  have t': "trie_ok t'" "trie_abs t' = (trie_abs (ht_trie ht))(path_keys p \<mapsto> p)"
    using rt.insert_ok [OF _ assms(2)] assms(1) by (simp_all add: ht_inv_def)
  have fresh: "rt' \<in> set (entry_routes ht q) \<Longrightarrow> route_Name rt' \<noteq> route_Name rt" for rt' q
    using ht_invD_route [OF assms(1)] assms(4) by fastforce
  show ?thesis
    using assms t' fresh unfolding ht_inv_def entry by auto
qed

lemma router_invD_name:
  "router_inv r \<Longrightarrow> map_of (r_routesByName r) n = Some rt \<Longrightarrow>
   route_Name rt = n \<and> rooted (route_Path rt) \<and>
   (\<exists>ht. findHostTrie r (route_Host rt) = Some ht \<and> rt \<in> set (entry_routes ht (route_Path rt)))"
  unfolding router_inv_def by blast

lemma router_invD_find:
  "router_inv r \<Longrightarrow> findHostTrie r h = Some ht \<Longrightarrow> ht_inv (map_of (r_routesByName r)) h ht"
  unfolding router_inv_def by blast

text \<open>The invariant after a change of one host's trie and of the index by name.\<close>

lemma router_inv_change:
  assumes inv: "router_inv r"
    and r': "r' = (storeHostTrie r h ht')\<lparr>r_routesByName := m\<rparr>"
    and wf: "gomap_wf m" and new: "ht_inv (map_of m) h ht'"
    and keep: "\<And>h' ht p x. h' \<noteq> h \<Longrightarrow> findHostTrie r h' = Some ht \<Longrightarrow> x \<in> set (entry_routes ht p) \<Longrightarrow>
      map_of m (route_Name x) = Some x"
    and names: "\<And>n x. map_of m n = Some x \<Longrightarrow>
      route_Name x = n \<and> rooted (route_Path x) \<and>
      (if route_Host x = h then x \<in> set (entry_routes ht' (route_Path x)) else map_of (r_routesByName r) n = Some x)"
  shows "router_inv r'"
  unfolding router_inv_def
proof (intro conjI allI impI)
  show "gomap_wf (r_routesByName r')" by (simp add: r' wf)
  have "r_exactHosts r' = r_exactHosts (storeHostTrie r h ht')" by (simp add: r')
  moreover have "\<forall>h\<in>fst ` set (r_exactHosts r). h \<noteq> '''' \<and> \<not> wildcard_host h"
    using inv unfolding router_inv_def by blast
  ultimately show "\<forall>h\<in>fst ` set (r_exactHosts r'). h \<noteq> '''' \<and> \<not> wildcard_host h"
    using exact_keys_store by metis
  fix h1 ht assume "findHostTrie r' h1 = Some ht"
  then show "ht_inv (map_of (r_routesByName r')) h1 ht"
    using new keep router_invD_find [OF inv, of h1 ht]
    by (cases "h1 = h") (auto simp: find_store r' intro: ht_inv_names simp del: map_of_eq_Some_iff)
next
  fix n rt assume "map_of (r_routesByName r') n = Some rt"
  then have n: "map_of m n = Some rt" by (simp add: r')
  show "route_Name rt = n" and "rooted (route_Path rt)" using names [OF n] by blast+
  show "\<exists>ht. findHostTrie r' (route_Host rt) = Some ht \<and> rt \<in> set (entry_routes ht (route_Path rt))"
    using names [OF n] router_invD_name [OF inv, of n rt]
    by (cases "route_Host rt = h") (simp_all add: r' find_store)
qed

lemma router_inv_store:
  assumes "router_inv r" and "ht_inv (map_of (r_routesByName r)) h ht"
    and "\<And>p. set (entry_routes (findOrNew r h) p) \<subseteq> set (entry_routes ht p)"
  shows "router_inv (storeHostTrie r h ht)"
proof (rule router_inv_change [OF assms(1)])
  show "storeHostTrie r h ht = (storeHostTrie r h ht)\<lparr>r_routesByName := r_routesByName r\<rparr>"
    by (simp add: storeHostTrie_def)
  show "gomap_wf (r_routesByName r)" using assms(1) by (simp add: router_inv_def)
  show "ht_inv (map_of (r_routesByName r)) h ht" by (rule assms(2))
  show "map_of (r_routesByName r) (route_Name x) = Some x"
    if "findHostTrie r h' = Some ht'" "x \<in> set (entry_routes ht' p)" for h' ht' p x
    using ht_invD_route [OF router_invD_find [OF assms(1) that(1)] that(2)] by blast
  show "route_Name x = n \<and> rooted (route_Path x) \<and>
      (if route_Host x = h then x \<in> set (entry_routes ht (route_Path x)) else map_of (r_routesByName r) n = Some x)"
    if n: "map_of (r_routesByName r) n = Some x" for n x
  proof -
    obtain ht0 where ht0: "findHostTrie r (route_Host x) = Some ht0" "x \<in> set (entry_routes ht0 (route_Path x))"
      using router_invD_name [OF assms(1) n] by blast
    then have "route_Host x = h \<Longrightarrow> x \<in> set (entry_routes (findOrNew r h) (route_Path x))"
      by (auto simp: findOrNew_def)
    with router_invD_name [OF assms(1) n] n assms(3) show ?thesis by auto
  qed
qed

lemma addToTables_error:
  assumes "router_inv r" and "addToTables r rt = (Some e, r')"
  shows "r' = storeHostTrie r (route_Host rt) (findOrNew r (route_Host rt))"
proof -
  let ?ht = "findOrNew r (route_Host rt)"
  from assms(2) obtain t' err where t': "RadixTrie_Insert (ht_trie ?ht) (route_Path rt) (route_Path rt) = (t', Some err)"
    "r' = storeHostTrie r (route_Host rt) (?ht\<lparr>ht_trie := t'\<rparr>)"
    by (auto simp: addToTables_eq Let_def split: prod.splits option.splits)
  have "t' = ht_trie ?ht"
    using rt.insert_error [OF _ t'(1)] ht_inv_findOrNew [OF assms(1)] by (simp add: ht_inv_def)
  with t'(2) show ?thesis by simp
qed

lemma addToTables_ok:
  assumes "addToTables r rt = (None, r')"
  obtains t' ht' where
    "RadixTrie_Insert (ht_trie (findOrNew r (route_Host rt))) (route_Path rt) (route_Path rt) = (t', None)"
    "ht' = (findOrNew r (route_Host rt))\<lparr>ht_trie := t', ht_routes :=
       AList.update (route_Path rt) \<lparr> re_routes = entry_routes (findOrNew r (route_Host rt)) (route_Path rt) @ [rt] \<rparr>
         (ht_routes (findOrNew r (route_Host rt)))\<rparr>"
    "r' = (storeHostTrie r (route_Host rt) ht')
       \<lparr>r_routesByName := AList.update (route_Name rt) rt (r_routesByName r)\<rparr>"
  using assms by (auto simp: addToTables_eq Let_def split: prod.splits option.splits)

lemma addToTables_inv:
  assumes inv: "router_inv r" and fresh: "map_of (r_routesByName r) (route_Name rt) = None"
    and root: "rooted (route_Path rt)" and add: "addToTables r rt = (err, r')"
  shows "router_inv r'"
proof (cases err)
  case (Some e)
  have "r' = storeHostTrie r (route_Host rt) (findOrNew r (route_Host rt))"
    using addToTables_error [OF inv] add Some by simp
  then show ?thesis using inv by (auto intro: router_inv_store ht_inv_findOrNew)
next
  case None
  let ?h = "route_Host rt" and ?p = "route_Path rt" and ?N = "map_of (r_routesByName r)"
  let ?m = "AList.update (route_Name rt) rt (r_routesByName r)"
  from add None obtain t' ht' where t': "RadixTrie_Insert (ht_trie (findOrNew r ?h)) ?p ?p = (t', None)"
    and ht': "ht' = (findOrNew r ?h)\<lparr>ht_trie := t', ht_routes :=
       AList.update ?p \<lparr> re_routes = entry_routes (findOrNew r ?h) ?p @ [rt] \<rparr> (ht_routes (findOrNew r ?h))\<rparr>"
    and r': "r' = (storeHostTrie r ?h ht')\<lparr>r_routesByName := ?m\<rparr>"
    by (auto elim: addToTables_ok)
  have m: "map_of ?m = ?N(route_Name rt \<mapsto> rt)" by (rule map_of_update)
  have entry: "entry_routes ht' q =
      (if q = ?p then entry_routes (findOrNew r ?h) ?p @ [rt] else entry_routes (findOrNew r ?h) q)" for q
    by (simp add: ht' entry_routes_def map_of_update)
  show ?thesis
  proof (rule router_inv_change [OF inv r'])
    show "gomap_wf ?m" using inv by (simp add: router_inv_def gomap_wf_update)
    show "ht_inv (map_of ?m) ?h ht'"
      unfolding ht' m using ht_inv_add_route [OF ht_inv_findOrNew [OF inv] t' root fresh] by simp
    show "map_of ?m (route_Name x) = Some x"
      if "findHostTrie r h' = Some ht" "x \<in> set (entry_routes ht p)" for h' ht p x
      using ht_invD_route [OF router_invD_find [OF inv that(1)] that(2)] fresh unfolding m by auto
    show "route_Name x = n \<and> rooted (route_Path x) \<and>
        (if route_Host x = ?h then x \<in> set (entry_routes ht' (route_Path x)) else ?N n = Some x)"
      if n: "map_of ?m n = Some x" for n x
    proof (cases "n = route_Name rt")
      case True
      with n root show ?thesis by (simp add: m entry)
    next
      case False
      with n have old: "?N n = Some x" by (simp add: m)
      with router_invD_name [OF inv old] show ?thesis by (auto simp: entry findOrNew_def)
    qed
  qed
qed

lemma remove_named_set:
  "distinct (map route_Name rts) \<Longrightarrow> set (remove_named n rts) = {rt \<in> set rts. route_Name rt \<noteq> n} \<and>
   distinct (map route_Name (remove_named n rts))"
  by (induction rts) (auto simp: image_iff)

lemma RemoveRoute_missing: "map_of (r_routesByName r) n = None \<Longrightarrow> Router_RemoveRoute r n = r"
  by (simp add: Router_RemoveRoute_def)

lemma RemoveRoute_found:
  assumes inv: "router_inv r" and rt: "map_of (r_routesByName r) n = Some rt"
  obtains ht ht' where "findHostTrie r (route_Host rt) = Some ht"
    and "Router_RemoveRoute r n =
      (storeHostTrie r (route_Host rt) ht')\<lparr>r_routesByName := AList.delete n (r_routesByName r)\<rparr>"
    and "\<forall>p. set (entry_routes ht' p) = {x \<in> set (entry_routes ht p). route_Name x \<noteq> n}"
    and "ht_inv ((map_of (r_routesByName r))(n := None)) (route_Host rt) ht'"
proof -
  let ?h = "route_Host rt" and ?p = "route_Path rt" and ?N = "map_of (r_routesByName r)"
  from inv rt obtain ht where name: "route_Name rt = n" and root: "rooted ?p"
    and ht: "findHostTrie r ?h = Some ht" "rt \<in> set (entry_routes ht ?p)"
    unfolding router_inv_def by blast
  have ok: "ht_inv ?N ?h ht" using inv ht(1) by (simp add: router_inv_def)
  from ht(2) obtain e where e: "map_of (ht_routes ht) ?p = Some e" "entry_routes ht ?p = re_routes e"
    by (cases "map_of (ht_routes ht) ?p") (auto simp: entry_routes_def)
  let ?rs = "remove_named n (re_routes e)"
  define ht' where "ht' = (if ?rs = [] then ht\<lparr>ht_routes := AList.delete ?p (ht_routes ht),
        ht_trie := RadixTrie_Delete (ht_trie ht) ?p\<rparr>
      else ht\<lparr>ht_routes := AList.update ?p \<lparr> re_routes = ?rs \<rparr> (ht_routes ht)\<rparr>)"
  have dist: "distinct (map route_Name (entry_routes ht p))" for p using ok by (simp add: ht_inv_def)
  have rs: "set ?rs = {x \<in> set (entry_routes ht ?p). route_Name x \<noteq> n}" "distinct (map route_Name ?rs)"
    using remove_named_set [OF dist [of ?p]] by (simp_all add: e(2))
  have entry: "entry_routes ht' q = (if q = ?p then ?rs else entry_routes ht q)" for q
    by (simp add: ht'_def entry_routes_def map_of_update map_of_delete)
  have only: "x \<in> set (entry_routes ht q) \<Longrightarrow> route_Name x = n \<Longrightarrow> q = ?p" for x q
    using ht_invD_route [OF ok] rt by fastforce
  have sets: "set (entry_routes ht' p) = {x \<in> set (entry_routes ht p). route_Name x \<noteq> n}" for p
    using rs(1) only by (auto simp: entry)
  have trie: "trie_ok (ht_trie ht') \<and> trie_abs (ht_trie ht') =
      (if ?rs = [] then (trie_abs (ht_trie ht))(path_keys ?p := None) else trie_abs (ht_trie ht))"
    using rt.delete_ok [of "ht_trie ht" ?p] ok root by (simp add: ht'_def ht_inv_def)
  have "ht_inv (?N(n := None)) ?h ht'"
    unfolding ht_inv_def
  proof (intro conjI allI impI ballI)
    show "trie_ok (ht_trie ht')" using trie by simp
    show "path_keys v = ks" and "entry_routes ht' v \<noteq> []" if "trie_abs (ht_trie ht') ks = Some v" for ks v
      using that trie ht_invD_value [OF ok, of ks v] by (auto simp: entry split: if_splits)
    show "distinct (map route_Name (entry_routes ht' p))" for p
      using rs(2) dist by (simp add: entry)
    show "route_Path x = p" and "rooted p" and "route_Host x = ?h" and "(?N(n := None)) (route_Name x) = Some x"
      if "x \<in> set (entry_routes ht' p)" for x p
      using that ht_invD_route [OF ok, of x p] by (auto simp: sets)
  qed
  moreover have "Router_RemoveRoute r n =
      (storeHostTrie r ?h ht')\<lparr>r_routesByName := AList.delete n (r_routesByName r)\<rparr>"
    by (simp add: Router_RemoveRoute_def rt ht(1) e(1) ht'_def Let_def)
  ultimately show ?thesis using that ht(1) sets by blast
qed

lemma RemoveRoute_inv: "router_inv r \<Longrightarrow> router_inv (Router_RemoveRoute r n)"
proof (cases "map_of (r_routesByName r) n")
  case None
  assume "router_inv r"
  with None show ?thesis by (simp add: RemoveRoute_missing)
next
  case (Some rt)
  assume inv: "router_inv r"
  let ?h = "route_Host rt" and ?N = "map_of (r_routesByName r)" and ?m = "AList.delete n (r_routesByName r)"
  obtain ht ht' where ht: "findHostTrie r ?h = Some ht"
    and r': "Router_RemoveRoute r n = (storeHostTrie r ?h ht')\<lparr>r_routesByName := ?m\<rparr>"
    and sets: "\<forall>p. set (entry_routes ht' p) = {x \<in> set (entry_routes ht p). route_Name x \<noteq> n}"
    and ok: "ht_inv (?N(n := None)) ?h ht'"
    by (rule RemoveRoute_found [OF inv Some])
  have m: "map_of ?m = ?N(n := None)" by (rule map_of_delete)
  show ?thesis
  proof (rule router_inv_change [OF inv r'])
    show "gomap_wf ?m" using inv by (simp add: router_inv_def gomap_wf_delete)
    show "ht_inv (map_of ?m) ?h ht'" unfolding m by (rule ok)
    show "map_of ?m (route_Name x) = Some x"
      if "h' \<noteq> ?h" "findHostTrie r h' = Some ht1" "x \<in> set (entry_routes ht1 p)" for h' ht1 p x
      using ht_invD_route [OF router_invD_find [OF inv that(2)] that(3)] Some that(1) unfolding m by auto
    show "route_Name x = k \<and> rooted (route_Path x) \<and>
        (if route_Host x = ?h then x \<in> set (entry_routes ht' (route_Path x)) else ?N k = Some x)"
      if k: "map_of ?m k = Some x" for k x
    proof -
      from k have old: "?N k = Some x" "k \<noteq> n" by (auto simp: m split: if_splits)
      with router_invD_name [OF inv old(1)] ht sets show ?thesis by auto
    qed
  qed
qed

lemma validateRoute_Inr:
  assumes "validateRoute rt = Inr route"
  shows "rooted (route_Path route)" and "rt \<noteq> None" and "route_Name route = route_Name (the rt)"
    and "route_Name route \<noteq> ''''" and "path_segments (route_Path route) = path_segments (route_Path (the rt))"
  using assms by (auto simp: validateRoute_def rooted_def split: option.splits if_splits)

lemma AddRoute_inv: "router_inv r \<Longrightarrow> router_inv (snd (Router_AddRoute r rt))"
  using addToTables_inv [of r]
  by (auto simp: Router_AddRoute_def validateRoute_Inr(1) split: sum.split option.split)
    (metis prod.collapse validateRoute_Inr(1))

lemma buildTables_inv:
  "router_inv r \<Longrightarrow> \<forall>rt\<in>set routes. rooted (route_Path rt) \<Longrightarrow> distinct (map route_Name routes) \<Longrightarrow>
   route_Name ` set routes \<inter> fst ` set (r_routesByName r) = {} \<Longrightarrow> buildTables r routes = Inr r' \<Longrightarrow>
   router_inv r' \<and> map_of (r_routesByName r') =
     map_of (r_routesByName r) ++ map_of (map (\<lambda>rt. (route_Name rt, rt)) routes)"
proof (induction routes arbitrary: r)
  case (Cons rt routes)
  obtain r1 where r1: "addToTables r rt = (None, r1)" "buildTables r1 routes = Inr r'"
    using Cons.prems(5) by (auto split: prod.splits option.splits)
  have fresh: "map_of (r_routesByName r) (route_Name rt) = None"
    using Cons.prems(4) by (simp add: map_of_None_iff_key)
  have inv1: "router_inv r1"
    using Cons.prems(1,2) fresh r1(1) by (auto intro: addToTables_inv)
  have names: "r_routesByName r1 = AList.update (route_Name rt) rt (r_routesByName r)"
    using addToTables_ok [OF r1(1)] by (metis Router.select_convs(4) Router.update_convs(4) Router.surjective)
  have "router_inv r' \<and> map_of (r_routesByName r') =
     map_of (r_routesByName r1) ++ map_of (map (\<lambda>rt. (route_Name rt, rt)) routes)"
  proof (rule Cons.IH [OF inv1 _ _ _ r1(2)])
    show "route_Name ` set routes \<inter> fst ` set (r_routesByName r1) = {}"
      using Cons.prems(3,4) unfolding names keys_update by auto
  qed (use Cons.prems(2,3) in auto)
  moreover have "map_of (r_routesByName r1) ++ map_of (map (\<lambda>rt. (route_Name rt, rt)) routes) =
      map_of (r_routesByName r) ++ (map_of (map (\<lambda>rt. (route_Name rt, rt)) routes))(route_Name rt \<mapsto> rt)"
    unfolding names map_of_update using Cons.prems(3) by (intro map_add_upd_fresh) (auto simp: image_iff)
  ultimately show ?case by (simp add: fun_upd_def)
qed simp

lemma validateAll_Inr:
  "validateAll rts = Inr routes \<Longrightarrow>
   (\<forall>rt\<in>set routes. rooted (route_Path rt)) \<and> map (map_option route_Name) rts = map (Some \<circ> route_Name) routes"
  by (induction rts arbitrary: routes)
    (auto split: sum.splits dest: validateRoute_Inr, metis option.map_sel option.exhaust_sel validateRoute_Inr(2,3))

lemma Swap_ok:
  assumes "Router_Swap r rts = (None, r')"
  obtains routes where "validateAll rts = Inr routes" "buildTables NewRouter routes = Inr r'"
  using assms by (auto simp: Router_Swap_def split: sum.splits)

lemma Swap_inv:
  assumes "distinct (map (map_option route_Name) rts)" and "Router_Swap r rts = (None, r')"
    and "validateAll rts = Inr routes"
  shows "router_inv r' \<and> map_of (r_routesByName r') = map_of (map (\<lambda>rt. (route_Name rt, rt)) routes)"
proof -
  have b: "buildTables NewRouter routes = Inr r'" using assms(2,3) by (auto elim: Swap_ok)
  have "distinct (map route_Name routes)"
    using assms(1) validateAll_Inr [OF assms(3)] by (metis distinct_map map_map)
  then have "router_inv r' \<and> map_of (r_routesByName r') =
      map_of (r_routesByName NewRouter) ++ map_of (map (\<lambda>rt. (route_Name rt, rt)) routes)"
    using validateAll_Inr [OF assms(3)] b router_inv_new
    by (intro buildTables_inv) (auto simp: NewRouter_def)
  then show ?thesis by (simp add: NewRouter_def)
qed

inductive router_reach :: "Router \<Rightarrow> bool" where
  new: "router_reach NewRouter"
| add: "router_reach r \<Longrightarrow> router_reach (snd (Router_AddRoute r rt))"
| remove: "router_reach r \<Longrightarrow> router_reach (Router_RemoveRoute r name)"
| swap: "router_reach r \<Longrightarrow> distinct (map (map_option route_Name) rts) \<Longrightarrow>
    router_reach (snd (Router_Swap r rts))"

lemma Swap_error: "Router_Swap r rts = (Some e, r') \<Longrightarrow> r' = r"
  by (auto simp: Router_Swap_def split: sum.splits)

lemma router_reach_inv: "router_reach r \<Longrightarrow> router_inv r"
proof (induction rule: router_reach.induct)
  case (swap r rts)
  obtain err r' where s: "Router_Swap r rts = (err, r')" by (cases "Router_Swap r rts")
  show ?case
  proof (cases err)
    case None
    with s swap show ?thesis using Swap_inv by (metis Swap_ok snd_conv)
  qed (use s swap Swap_error in auto)
qed (simp_all add: router_inv_new AddRoute_inv RemoveRoute_inv)

section \<open>What a match satisfies\<close>

lemma path_segments_append: "path_segments (a @ CHR ''/'' # b) = path_segments a @ path_segments b"
  by (simp add: path_segments_def split_on_append)

lemma last_slash_segments:
  "last_index CHR ''/'' p = Some i \<Longrightarrow>
   path_segments p = path_segments (take i p) @ path_segments (drop (Suc i) p)"
  by (metis last_index_SomeD path_segments_append)

lemma walkUp_SomeD:
  "walkUp t p = Some res \<Longrightarrow>
   \<exists>q n. RadixTrie_Match t q = Some res \<and> path_segments q = take n (path_segments p)"
proof (induction t p rule: walkUp.induct)
  case (1 t p)
  have root: "path_segments ''/'' = take 0 (path_segments p)"
    by (simp add: path_segments_def)
  show ?case
  proof (cases "last_index CHR ''/'' p")
    case None
    with "1.prems" root show ?thesis by (subst (asm) walkUp.simps) (auto split: if_splits)
  next
    case (Some i)
    let ?q = "take i p"
    have take: "path_segments ?q = take (length (path_segments ?q)) (path_segments p)"
      using last_slash_segments [OF Some] by simp
    consider "RadixTrie_Match t ''/'' = Some res" | "RadixTrie_Match t ?q = Some res"
      | "p \<noteq> ''''" "i \<noteq> 0" "RadixTrie_Match t ?q = None" "walkUp t ?q = Some res"
      using "1.prems" Some by (subst (asm) walkUp.simps) (auto split: if_splits option.splits)
    then show ?thesis
    proof cases
      case 3
      from "1.IH" [OF 3(1) Some 3(2,3,4)] obtain r n where
        "RadixTrie_Match t r = Some res" "path_segments r = take n (path_segments ?q)" by blast
      with take show ?thesis by (metis take_take)
    qed (use root take in metis)+
  qed
qed

lemma matchPath_SomeD:
  "matchPath t p = Some res \<Longrightarrow>
   \<exists>q n. RadixTrie_Match t q = Some res \<and> path_segments q = take n (path_segments p)"
  using walkUp_SomeD [of t p res] by (auto simp: matchPath_def split: option.splits) (metis take_all order_refl)

lemma matchInHostTrie_SomeD:
  assumes "ht_inv names h ht" and "matchInHostTrie ht path req = Some m"
  shows "names (route_Name (rm_Route m)) = Some (rm_Route m) \<and> matchesRoute (rm_Route m) req \<and>
    route_Host (rm_Route m) = h \<and>
    (\<exists>n. kmatch (path_keys (route_Path (rm_Route m))) (take n (path_segments path)))"
proof -
  from assms(2) obtain res where res: "matchPath (ht_trie ht) path = Some res"
    by (auto simp: matchInHostTrie_def split: option.splits)
  with assms(2) have rest: "\<exists>e. map_of (ht_routes ht) (case mr_Value res of Some s \<Rightarrow> s | None \<Rightarrow> '''') = Some e \<and>
      List.find (\<lambda>rt. matchesRoute rt req) (re_routes e) = Some (rm_Route m)"
    by (auto simp: matchInHostTrie_def Let_def split: option.splits)
  from matchPath_SomeD [OF res] obtain q n where q: "RadixTrie_Match (ht_trie ht) q = Some res"
    "path_segments q = take n (path_segments path)" by blast

  have "trie_ok (ht_trie ht)" using assms(1) by (simp add: ht_inv_def)
  from rt.match_sound [OF this q(1)] obtain ks v where
    ks: "kmatch ks (path_segments q)" "trie_abs (ht_trie ht) ks = Some v" "mr_Value res = Some v" by blast
  from rest ks(3) have "rm_Route m \<in> set (entry_routes ht v)" "matchesRoute (rm_Route m) req"
    by (auto simp: entry_routes_def find_Some_iff)
  with ht_invD_route [OF assms(1)] ht_invD_value [OF assms(1) ks(2)] ks(1) q(2) show ?thesis by metis
qed

definition host_applies :: "string \<Rightarrow> string \<Rightarrow> bool" where
  "host_applies h host =
     (h = '''' \<or> h = host \<or>
      (\<exists>i\<in>{1..<length (split_on CHR ''.'' host)}.
         h = ''*.'' @ join_with CHR ''.'' (drop i (split_on CHR ''.'' host))))"

lemma Router_Match_find:
  assumes "router_inv r" and "Router_Match r req = Some m"
  obtains h ht where "findHostTrie r h = Some ht" "host_applies h (request_host req)"
    "matchInHostTrie ht (req_URL_Path req) req = Some m"
proof -
  let ?host = "request_host req" and ?parts = "split_on CHR ''.'' (request_host req)"
  let ?in = "\<lambda>ht. matchInHostTrie ht (req_URL_Path req) req = Some m"
  from assms(2) consider
      ht where "map_of (r_exactHosts r) ?host = Some ht" "?in ht"
    | i ht where "i \<in> {1..<length ?parts}"
        "map_of (r_wildcardHosts r) (join_with CHR ''.'' (drop i ?parts)) = Some ht" "?in ht"
    | ht where "r_defaultTrie r = Some ht" "?in ht"
    by (fastforce simp: Router_Match_def Let_def bind_eq_Some_conv simp del: map_of_eq_Some_iff
        split: option.splits dest!: find_map_SomeD)
  then show ?thesis
  proof cases
    case 1
    have "?host \<in> fst ` set (r_exactHosts r)" using 1(1) by (metis domI dom_map_of_conv_image_fst)
    then have "?host \<noteq> ''''" "\<not> wildcard_host ?host" using assms(1) unfolding router_inv_def by blast+
    with 1 show ?thesis by (intro that [of ?host ht]) (auto simp: findHostTrie_def host_applies_def)
  next
    case 2
    let ?h = "''*.'' @ join_with CHR ''.'' (drop i ?parts)"
    have "findHostTrie r ?h = Some ht" using 2(2) by (simp add: findHostTrie_def)
    with 2 show ?thesis by (intro that [of ?h ht]) (auto simp: host_applies_def)
  next
    case 3
    then show ?thesis by (intro that [of "''''" ht]) (auto simp: findHostTrie_def host_applies_def)
  qed
qed

section \<open>A rejected route and the matching\<close>

lemma walkUp_new: "walkUp NewRadixTrie p = None"
proof (induction "NewRadixTrie :: 'v RadixTrie" p rule: walkUp.induct)
  case (1 p)
  then show ?case
    by (subst walkUp.simps) (auto simp: rt.empty_match split: option.split)
qed

lemma matchInHostTrie_new: "matchInHostTrie (newHostTrie h) path req = None"
  by (simp add: matchInHostTrie_def matchPath_def newHostTrie_def rt.empty_match walkUp_new)

lemma store_found: "findHostTrie r h = Some ht \<Longrightarrow> storeHostTrie r h ht = r"
  by (auto simp: findHostTrie_def storeHostTrie_def update_same split: if_splits)

lemma Match_store_new:
  assumes "findHostTrie r h = None"
  shows "Router_Match (storeHostTrie r h (newHostTrie h)) req = Router_Match r req"
proof -
  let ?r = "storeHostTrie r h (newHostTrie h)"
  let ?in = "\<lambda>ht. Option.bind ht (\<lambda>h. matchInHostTrie h (req_URL_Path req) req)"
  have in_eq: "?in (map_of (r_exactHosts ?r) k) = ?in (map_of (r_exactHosts r) k)"
    and in_wild: "?in (map_of (r_wildcardHosts ?r) k) = ?in (map_of (r_wildcardHosts r) k)"
    and in_default: "?in (r_defaultTrie ?r) = ?in (r_defaultTrie r)" for k
    using assms by (auto simp: storeHostTrie_def findHostTrie_def map_of_update matchInHostTrie_new)
  show ?thesis unfolding Router_Match_def Let_def in_eq in_wild in_default by (rule refl)
qed

lemma Match_store_findOrNew:
  "Router_Match (storeHostTrie r h (findOrNew r h)) req = Router_Match r req"
  by (cases "findHostTrie r h") (simp_all add: findOrNew_def store_found Match_store_new)

section \<open>Static routes\<close>






section \<open>Properties\<close>


text \<open>
  Adding a route either succeeds or leaves the index of routes and the result of every match as
  they were, although a rejected route may leave an empty trie for its host behind; a name that
  is already registered is always refused.
\<close>

theorem Router_AddRoute_error:
  assumes "router_reach r"
  shows "(case Router_AddRoute r rt of
            (None, r') \<Rightarrow> \<exists>route. validateRoute rt = Inr route \<and> Router_GetRoute r (route_Name route) = None \<and>
              Router_GetRoute r' = (Router_GetRoute r)(route_Name route \<mapsto> route)
          | (Some e, r') \<Rightarrow> r_routesByName r' = r_routesByName r \<and> (\<forall>req. Router_Match r' req = Router_Match r req))"
proof (cases "validateRoute rt")
  case (Inl e)
  then show ?thesis by (simp add: Router_AddRoute_def)
next
  case (Inr route)
  note inv = router_reach_inv [OF assms]
  show ?thesis
  proof (cases "map_of (r_routesByName r) (route_Name route)")
    case (Some x)
    with Inr show ?thesis by (simp add: Router_AddRoute_def)
  next
    case None
    obtain err r' where add: "addToTables r route = (err, r')" by (cases "addToTables r route")
    with None Inr have eq: "Router_AddRoute r rt = (err, r')" by (simp add: Router_AddRoute_def)
    show ?thesis
    proof (cases err)
      case (Some e)
      with add addToTables_error [OF inv] have "r' = storeHostTrie r (route_Host route) (findOrNew r (route_Host route))"
        by simp
      with eq Some show ?thesis by (simp add: Match_store_findOrNew)
    next
      case ok: None
      with add have "r_routesByName r' = AList.update (route_Name route) route (r_routesByName r)"
        by (auto elim: addToTables_ok)
      with eq ok None Inr show ?thesis
        by (simp add: Router_GetRoute_def map_of_update fun_eq_iff)
    qed
  qed
qed


text \<open>
  After removing a route by name no request is answered by a route of that name, and every other
  registered route is still registered.
\<close>

theorem Router_RemoveRoute_gone:
  assumes "router_reach r"
  shows "Router_GetRoute (Router_RemoveRoute r n) = (Router_GetRoute r)(n := None) \<and>
    (\<forall>req m. Router_Match (Router_RemoveRoute r n) req = Some m \<longrightarrow> route_Name (rm_Route m) \<noteq> n)"
proof -
  let ?r = "Router_RemoveRoute r n"
  note inv = router_reach_inv [OF assms]
  have "map_of (r_routesByName ?r) = (map_of (r_routesByName r))(n := None)"
    by (cases "map_of (r_routesByName r) n")
      (auto simp: RemoveRoute_missing fun_upd_idem map_of_delete elim: RemoveRoute_found [OF inv])
  then have names: "Router_GetRoute ?r = (Router_GetRoute r)(n := None)"
    by (simp add: Router_GetRoute_def fun_eq_iff)
  moreover have "route_Name (rm_Route m) \<noteq> n" if m: "Router_Match ?r req = Some m" for req m
  proof -
    obtain h ht where "findHostTrie ?r h = Some ht" "matchInHostTrie ht (req_URL_Path req) req = Some m"
      using Router_Match_find [OF RemoveRoute_inv [OF inv] m] .
    then have "Router_GetRoute ?r (route_Name (rm_Route m)) = Some (rm_Route m)"
      using matchInHostTrie_SomeD router_invD_find [OF RemoveRoute_inv [OF inv]]
      unfolding Router_GetRoute_def by blast
    then show ?thesis by (auto simp: names)
  qed
  ultimately show ?thesis by blast
qed

text \<open>
  Replacing the whole route table is all or nothing: on any error the router is exactly as it
  was, and on success (with distinct names) exactly the given routes are registered.
\<close>

theorem Router_Swap_atomic:
  "case Router_Swap r rts of
     (Some e, r') \<Rightarrow> r' = r
   | (None, r') \<Rightarrow> \<exists>routes. validateAll rts = Inr routes \<and>
       (distinct (map (map_option route_Name) rts) \<longrightarrow>
        Router_GetRoute r' = map_of (map (\<lambda>rt. (route_Name rt, rt)) routes) \<and>
        Router_RouteCount r' = length rts)"
proof -
  obtain err r' where s: "Router_Swap r rts = (err, r')" by (cases "Router_Swap r rts")
  show ?thesis
  proof (cases err)
    case None
    with s obtain routes where v: "validateAll rts = Inr routes" by (auto elim: Swap_ok)
    have "Router_GetRoute r' = map_of (map (\<lambda>rt. (route_Name rt, rt)) routes) \<and>
        Router_RouteCount r' = length rts" if d: "distinct (map (map_option route_Name) rts)"
    proof -
      have r': "router_inv r'" "map_of (r_routesByName r') = map_of (map (\<lambda>rt. (route_Name rt, rt)) routes)"
        using Swap_inv [OF d _ v] s None by auto
      have dist: "distinct (map route_Name routes)" and len: "length routes = length rts"
        using d validateAll_Inr [OF v] by (metis distinct_map map_map, metis length_map)
      have "fst ` set (r_routesByName r') = route_Name ` set routes"
        using arg_cong [OF r'(2), of dom] by (simp add: dom_map_of_conv_image_fst image_image)
      then have "card (set (map fst (r_routesByName r'))) = card (set (map route_Name routes))" by simp
      then have "length (r_routesByName r') = length routes"
        using r'(1) dist unfolding router_inv_def by (metis distinct_card length_map)
      with r'(2) len show ?thesis by (simp add: Router_GetRoute_def Router_RouteCount_def fun_eq_iff)
    qed
    with s None v show ?thesis by simp
  qed (use s Swap_error in auto)
qed

definition example_route :: "string \<Rightarrow> string \<Rightarrow> string \<Rightarrow> Route" where
  "example_route name host path =
     \<lparr> route_Name = name, route_Host = host, route_Path = path, route_Methods = [''GET''],
       route_Headers = [], route_BackendPool = ''web'', route_Priority = 0 \<rparr>"

definition example_request :: "string \<Rightarrow> string \<Rightarrow> Request" where
  "example_request host path =
     \<lparr> req_Method = ''GET'', req_Host = host, req_URL_Host = '''', req_URL_Path = path,
       req_Header = [], req_Cookies = [], req_Query = [], req_RemoteAddr = [] \<rparr>"

definition example_router :: Router where
  "example_router =
     (let add = (\<lambda>r rt. snd (Router_AddRoute r (Some rt)))
      in add (add (add NewRouter (example_route ''user'' ''a.org'' ''/users/:id''))
           (example_route ''wild'' ''*.b.org'' ''/files/*rest'')) (example_route ''root'' '''' ''/''))"

lemma example_router_reach: "router_reach example_router"
  unfolding example_router_def Let_def by (intro router_reach.intros)


theorem Router_AddRoute_error_witness:
  "Router_Match (snd (Router_AddRoute example_router (Some (example_route ''n'' ''c.org'' ''/*a/b''))))
     (example_request ''c.org'' ''/x'') = Router_Match example_router (example_request ''c.org'' ''/x'')"
proof -
  have "fst (Router_AddRoute example_router (Some (example_route ''n'' ''c.org'' ''/*a/b''))) \<noteq> None"
    by code_simp
  then show ?thesis
    using Router_AddRoute_error [OF example_router_reach, of "Some (example_route ''n'' ''c.org'' ''/*a/b'')"]
    by (auto split: prod.splits)
qed


theorem Router_RemoveRoute_gone_witness:
  "Router_GetRoute (Router_RemoveRoute example_router ''user'') ''user'' = None \<and>
   Router_GetRoute (Router_RemoveRoute example_router ''user'') ''wild'' \<noteq> None"
proof -
  have "Router_GetRoute example_router ''wild'' \<noteq> None" by code_simp
  then show ?thesis using Router_RemoveRoute_gone [OF example_router_reach, of "''user''"] by simp
qed

theorem Router_Swap_atomic_witness:
  "Router_GetRoute (snd (Router_Swap example_router [Some (example_route ''a'' '''' ''/a'')])) ''user'' = None \<and>
   snd (Router_Swap example_router [Some (example_route ''a'' '''' ''/:x''), Some (example_route ''b'' '''' ''/:y'')])
     = example_router"
proof -
  let ?good = "[Some (example_route ''a'' '''' ''/a'')]"
  let ?bad = "[Some (example_route ''a'' '''' ''/:x''), Some (example_route ''b'' '''' ''/:y'')]"
  have g: "fst (Router_Swap example_router ?good) = None" and b: "fst (Router_Swap example_router ?bad) \<noteq> None"
    and v: "validateAll ?good = Inr [example_route ''a'' '''' ''/a'']"
    and d: "distinct (map (map_option route_Name) ?good)"
    by code_simp+
  have "Router_GetRoute (snd (Router_Swap example_router ?good)) ''user'' = None"
    using Router_Swap_atomic [where r = example_router and rts = ?good] g v d
    by (auto simp: example_route_def split: prod.splits)
  moreover have "snd (Router_Swap example_router ?bad) = example_router"
    using Router_Swap_atomic [where r = example_router and rts = ?bad] b by (auto split: prod.splits)
  ultimately show ?thesis by blast
qed

text \<open>
  Two spellings of one path, with and without the trailing slash, share one node of the trie but
  not their entry: after both are added and the second is removed, the first is still registered
  but no request reaches it.
\<close>

theorem Router_slash_alias_lost:
  "let add = (\<lambda>r rt. snd (Router_AddRoute r (Some rt)));
       r2 = add (add NewRouter (example_route ''a'' '''' ''/api'')) (example_route ''b'' '''' ''/api/'');
       r3 = Router_RemoveRoute r2 ''b''
   in Router_GetRoute r3 ''a'' = Some (example_route ''a'' '''' ''/api'') \<and>
      Router_Match r3 (example_request ''x'' ''/api'') = None"
  by code_simp

end
