(* ===== verification/Raft.thy ===== *)
theory Raft
  imports GoLib
begin

text \<open>
  One node of the Raft consensus of \<^verbatim>\<open>internal/cluster/cluster.go\<close> and
  \<^verbatim>\<open>internal/cluster/snapshot_ops.go\<close>: its state, the handlers of the three remote calls, the
  steps of an election, of a heartbeat round and of the replication of a command, and the
  compaction of the log into snapshots. Timers, channels and callbacks carry no state of the
  protocol; what they trigger is an operation here and a step of \<^verbatim>\<open>Raft_Cluster\<close>.

  The replicated state machine is a parameter: a state of type \<open>'s\<close> and a function for
  \<^verbatim>\<open>Apply\<close> that returns the new state and an output or an error. A \<^verbatim>\<open>uint64\<close> is a natural number
  below \<open>2^64\<close>; where the code adds to one, the wrap-around is written out. The mode without a
  transport, in which votes and acknowledgements are simulated for tests, is left out.
\<close>

section \<open>State\<close>

datatype RaftState = StateFollower | StateCandidate | StateLeader

definition u64 :: "nat \<Rightarrow> nat" where
  "u64 n = n mod 2 ^ 64"

record Config =
  cfg_NodeID :: string
  cfg_BindAddr :: string
  cfg_BindPort :: int
  cfg_Peers :: "string list"
  cfg_ElectionTick :: int
  cfg_HeartbeatTick :: int

definition DefaultConfig :: Config where
  "DefaultConfig =
     \<lparr> cfg_NodeID = '''', cfg_BindAddr = '''', cfg_BindPort = 7946, cfg_Peers = [],
       cfg_ElectionTick = 2000000000, cfg_HeartbeatTick = 500000000 \<rparr>"

definition Config_Validate :: "Config \<Rightarrow> string + Config" where
  "Config_Validate c =
     (if cfg_NodeID c = '''' then Inl ''node ID is required''
      else Inr (c\<lparr>cfg_BindAddr := (if cfg_BindAddr c = '''' then ''0.0.0.0'' else cfg_BindAddr c),
                  cfg_BindPort := (if cfg_BindPort c \<le> 0 then 7946 else cfg_BindPort c),
                  cfg_ElectionTick := (if cfg_ElectionTick c \<le> 0 then 2000000000 else cfg_ElectionTick c),
                  cfg_HeartbeatTick := (if cfg_HeartbeatTick c \<le> 0 then 500000000 else cfg_HeartbeatTick c)\<rparr>))"

record Node =
  n_ID :: string
  n_Address :: string
  n_LastSeen :: int
  n_IsLeader :: bool

record LogEntry =
  le_Index :: nat
  le_Term :: nat
  le_Command :: string

record 's Cluster =
  c_config :: Config
  c_state :: RaftState
  c_currentTerm :: nat
  c_votedFor :: string
  c_leaderID :: string
  c_log :: "LogEntry list"
  c_logStartIndex :: nat
  c_logStartTerm :: nat
  c_commitIndex :: nat
  c_lastApplied :: nat
  c_nodes :: "(string, Node) gomap"
  c_peerAck :: "(string, int) gomap option"
  c_stateMachine :: 's

abbreviation c_NodeID :: "'s Cluster \<Rightarrow> string" where
  "c_NodeID c \<equiv> cfg_NodeID (c_config c)"

definition new_Node :: "string \<Rightarrow> string \<Rightarrow> int \<Rightarrow> Node" where
  "new_Node i addr now = \<lparr> n_ID = i, n_Address = addr, n_LastSeen = now, n_IsLeader = False \<rparr>"

definition NewCluster :: "Config \<Rightarrow> 's \<Rightarrow> int \<Rightarrow> string + 's Cluster" where
  "NewCluster config sm now =
     (case Config_Validate config of
        Inl err \<Rightarrow> Inl err
      | Inr cfg \<Rightarrow>
          Inr \<lparr> c_config = cfg, c_state = StateFollower, c_currentTerm = 0, c_votedFor = '''', c_leaderID = '''',
                c_log = [], c_logStartIndex = 0, c_logStartTerm = 0, c_commitIndex = 0, c_lastApplied = 0,
                c_nodes = foldl (\<lambda>m peer. AList.update peer (new_Node peer peer now) m)
                  [(cfg_NodeID cfg,
                    new_Node (cfg_NodeID cfg) (JoinHostPort (cfg_BindAddr cfg) (int_dec (cfg_BindPort cfg))) now)]
                  (cfg_Peers cfg),
                c_peerAck = None, c_stateMachine = sm \<rparr>)"

section \<open>Terms, membership and the log\<close>

definition setState :: "RaftState \<Rightarrow> 's Cluster \<Rightarrow> 's Cluster" where
  "setState st c = (if c_state c \<noteq> st then c\<lparr>c_state := st\<rparr> else c)"

definition IsLeader :: "'s Cluster \<Rightarrow> bool" where
  "IsLeader c = (c_state c = StateLeader)"

definition incrementTerm :: "'s Cluster \<Rightarrow> nat \<times> 's Cluster" where
  "incrementTerm c = (let t = u64 (c_currentTerm c + 1) in (t, c\<lparr>c_currentTerm := t\<rparr>))"

definition CurrentTerm :: "nat \<Rightarrow> 's Cluster \<Rightarrow> 's Cluster" where
  "CurrentTerm t c = c\<lparr>c_currentTerm := t\<rparr>"

definition VotedFor :: "string \<Rightarrow> 's Cluster \<Rightarrow> 's Cluster" where
  "VotedFor i c = c\<lparr>c_votedFor := i\<rparr>"

definition Cluster_AddNode :: "string \<Rightarrow> string \<Rightarrow> int \<Rightarrow> 's Cluster \<Rightarrow> 's Cluster" where
  "Cluster_AddNode nodeID address now c =
     c\<lparr>c_nodes := AList.update nodeID (new_Node nodeID address now) (c_nodes c)\<rparr>"

definition Cluster_RemoveNode :: "string \<Rightarrow> 's Cluster \<Rightarrow> 's Cluster" where
  "Cluster_RemoveNode nodeID c = c\<lparr>c_nodes := AList.delete nodeID (c_nodes c)\<rparr>"

definition GetNodes :: "'s Cluster \<Rightarrow> Node list" where
  "GetNodes c = map snd (c_nodes c)"

definition peer_addrs :: "'s Cluster \<Rightarrow> string list" where
  "peer_addrs c = map (n_Address \<circ> snd) (filter (\<lambda>(i, _). i \<noteq> c_NodeID c) (c_nodes c))"

text \<open>The binary search that finds the position of an index in the log.\<close>

function log_search :: "LogEntry list \<Rightarrow> nat \<Rightarrow> nat \<Rightarrow> nat \<Rightarrow> nat" where
  "log_search l index lo hi =
     (if lo < hi then
        let mid = lo + (hi - lo) div 2
        in if le_Index (l ! mid) < index then log_search l index (mid + 1) hi
           else log_search l index lo mid
      else lo)"
  by pat_completeness auto
termination
  by (relation "measure (\<lambda>(l, i, lo, hi). hi - lo)") auto

declare log_search.simps [simp del]

definition log_slot :: "LogEntry list \<Rightarrow> nat \<Rightarrow> nat option" where
  "log_slot l index =
     (let lo = log_search l index 0 (length l)
      in if lo < length l \<and> le_Index (l ! lo) = index then Some lo else None)"

definition findLogSlotLocked :: "'s Cluster \<Rightarrow> nat \<Rightarrow> nat option" where
  "findLogSlotLocked c index = log_slot (c_log c) index"

definition getLogTermByIndexLocked :: "'s Cluster \<Rightarrow> nat \<Rightarrow> nat" where
  "getLogTermByIndexLocked c index =
     (let lo = log_search (c_log c) index 0 (length (c_log c))
      in if lo < length (c_log c) \<and> le_Index (c_log c ! lo) = index then le_Term (c_log c ! lo) else 0)"

definition getLastLogTermForIndex :: "'s Cluster \<Rightarrow> nat \<Rightarrow> nat" where
  "getLastLogTermForIndex c index = (if index = 0 then 0 else getLogTermByIndexLocked c index)"

definition getLastLogIndex :: "'s Cluster \<Rightarrow> nat" where
  "getLastLogIndex c = (if c_log c = [] then 0 else le_Index (last (c_log c)))"

definition getLastLogIndexLocked :: "'s Cluster \<Rightarrow> nat" where
  "getLastLogIndexLocked c = (if c_log c = [] then c_logStartIndex c else le_Index (last (c_log c)))"

definition getLastLogTermLocked :: "'s Cluster \<Rightarrow> nat" where
  "getLastLogTermLocked c = (if c_log c = [] then c_logStartTerm c else le_Term (last (c_log c)))"

definition getLastLogTerm :: "'s Cluster \<Rightarrow> nat" where
  "getLastLogTerm c = getLastLogTermLocked c"

definition GetLogEntries :: "'s Cluster \<Rightarrow> nat \<Rightarrow> LogEntry list" where
  "GetLogEntries c startIndex = filter (\<lambda>e. le_Index e \<ge> startIndex) (c_log c)"

section \<open>Votes\<close>

record RequestVote =
  rv_Term :: nat
  rv_CandidateID :: string
  rv_LastLogIndex :: nat
  rv_LastLogTerm :: nat

record RequestVoteResponse =
  rvr_Term :: nat
  rvr_VoteGranted :: bool

text \<open>Go compares strings by their bytes.\<close>

fun str_less :: "string \<Rightarrow> string \<Rightarrow> bool" where
  "str_less [] [] = False"
| "str_less [] (y # ys) = True"
| "str_less (x # xs) [] = False"
| "str_less (x # xs) (y # ys) =
     ((of_char x :: nat) < of_char y \<or> (x = y \<and> str_less xs ys))"

definition isLogUpToDate :: "'s Cluster \<Rightarrow> nat \<Rightarrow> nat \<Rightarrow> bool" where
  "isLogUpToDate c lastLogIndex lastLogTerm =
     (let myTerm = (if c_log c = [] then 0 else le_Term (last (c_log c)))
      in if lastLogTerm \<noteq> myTerm then lastLogTerm > myTerm
         else lastLogIndex \<ge> getLastLogIndex c)"

text \<open>The reaction of every handler to a request of a later term.\<close>

definition stepDown :: "nat \<Rightarrow> 's Cluster \<Rightarrow> 's Cluster" where
  "stepDown term c =
     (if term > c_currentTerm c
      then (setState StateFollower (c\<lparr>c_currentTerm := term\<rparr>))\<lparr>c_votedFor := ''''\<rparr> else c)"

text \<open>The condition of the split-vote tiebreaker.\<close>

definition tiebreak :: "'s Cluster \<Rightarrow> RequestVote \<Rightarrow> bool" where
  "tiebreak c req =
     (c_votedFor c = c_NodeID c \<and> rv_Term req = c_currentTerm c \<and>
      str_less (c_NodeID c) (rv_CandidateID req))"

definition HandleRequestVote :: "RequestVote \<Rightarrow> 's Cluster \<Rightarrow> RequestVoteResponse \<times> 's Cluster" where
  "HandleRequestVote req c =
     (if rv_Term req < c_currentTerm c
      then (\<lparr> rvr_Term = c_currentTerm c, rvr_VoteGranted = False \<rparr>, c)
      else
        let c1 = stepDown (rv_Term req) c;
            c2 = (if tiebreak c1 req then (setState StateFollower c1)\<lparr>c_votedFor := ''''\<rparr> else c1)
        in if (c_votedFor c2 = '''' \<or> c_votedFor c2 = rv_CandidateID req) \<and>
              isLogUpToDate c2 (rv_LastLogIndex req) (rv_LastLogTerm req)
           then (\<lparr> rvr_Term = c_currentTerm c2, rvr_VoteGranted = True \<rparr>,
                 c2\<lparr>c_votedFor := rv_CandidateID req\<rparr>)
           else (\<lparr> rvr_Term = c_currentTerm c2, rvr_VoteGranted = False \<rparr>, c2))"

section \<open>Elections\<close>

text \<open>
  An election runs concurrently with the handlers: \<open>startElection\<close> is its first part up to the
  sending of the requests, \<open>voteReply\<close> what is done with a reply, and \<open>finishElection\<close> what
  follows when enough replies are in or the time is up.
\<close>

record election =
  el_term :: nat
  el_lastLogIndex :: nat
  el_lastLogTerm :: nat
  el_peers :: "string list"
  el_needed :: nat
  el_votes :: nat

definition startElection :: "'s Cluster \<Rightarrow> election \<times> 's Cluster" where
  "startElection c =
     (let c1 = setState StateCandidate c;
          (newTerm, c2) = incrementTerm c1;
          c3 = c2\<lparr>c_votedFor := c_NodeID c\<rparr>
      in (\<lparr> el_term = newTerm, el_lastLogIndex = getLastLogIndex c3, el_lastLogTerm = getLastLogTerm c3,
            el_peers = peer_addrs c3, el_needed = length (c_nodes c3) div 2 + 1, el_votes = 1 \<rparr>, c3))"

definition voteRequest :: "string \<Rightarrow> election \<Rightarrow> RequestVote" where
  "voteRequest nodeID el =
     \<lparr> rv_Term = el_term el, rv_CandidateID = nodeID, rv_LastLogIndex = el_lastLogIndex el,
       rv_LastLogTerm = el_lastLogTerm el \<rparr>"

definition storeTerm :: "nat \<Rightarrow> 's Cluster \<Rightarrow> 's Cluster" where
  "storeTerm t c = setState StateFollower (c\<lparr>c_currentTerm := t\<rparr>)"

definition voteReply :: "RequestVoteResponse option \<Rightarrow> election \<Rightarrow> 's Cluster \<Rightarrow> election \<times> 's Cluster" where
  "voteReply resp el c =
     (case resp of
        None \<Rightarrow> (el, c)
      | Some r \<Rightarrow>
          if rvr_Term r > el_term el then (el, storeTerm (rvr_Term r) c)
          else if rvr_VoteGranted r then (el\<lparr>el_votes := el_votes el + 1\<rparr>, c)
          else (el, c))"

definition becomeLeader :: "int \<Rightarrow> 's Cluster \<Rightarrow> 's Cluster" where
  "becomeLeader now c =
     (setState StateLeader
        (c\<lparr>c_peerAck := Some (foldl (\<lambda>m a. AList.update a now m) [] (peer_addrs c))\<rparr>))
       \<lparr>c_leaderID := c_NodeID c,
        c_nodes := map (\<lambda>(k, n). (k, n\<lparr>n_IsLeader := (n_ID n = c_NodeID c)\<rparr>)) (c_nodes c)\<rparr>"

definition finishElection :: "bool \<Rightarrow> int \<Rightarrow> election \<Rightarrow> 's Cluster \<Rightarrow> 's Cluster" where
  "finishElection timedOut now el c =
     (if c_state c \<noteq> StateCandidate then c
      else if \<not> timedOut \<and> el_votes el \<ge> el_needed el then becomeLeader now c
      else setState StateFollower c)"

section \<open>Appending entries\<close>

record AppendEntries =
  ae_Term :: nat
  ae_LeaderID :: string
  ae_PrevLogIndex :: nat
  ae_PrevLogTerm :: nat
  ae_Entries :: "LogEntry list"
  ae_LeaderCommit :: nat

record AppendEntriesResponse =
  aer_Term :: nat
  aer_Success :: bool
  aer_ConflictIndex :: nat
  aer_ConflictTerm :: nat

definition conflict_at :: "'s Cluster \<Rightarrow> nat \<Rightarrow> nat \<Rightarrow> AppendEntriesResponse" where
  "conflict_at c index term =
     \<lparr> aer_Term = c_currentTerm c, aer_Success = False, aer_ConflictIndex = index, aer_ConflictTerm = term \<rparr>"

text \<open>The consistency check on the entry before the new ones: the answer that refuses, if any.\<close>

definition prevCheck :: "AppendEntries \<Rightarrow> 's Cluster \<Rightarrow> AppendEntriesResponse option" where
  "prevCheck req c =
     (if ae_PrevLogIndex req = 0 then None
      else if ae_PrevLogIndex req \<le> c_logStartIndex c then
        (if ae_PrevLogIndex req = c_logStartIndex c \<and> ae_PrevLogTerm req \<noteq> c_logStartTerm c
         then Some (conflict_at c (c_logStartIndex c) (c_logStartTerm c)) else None)
      else if ae_PrevLogIndex req > getLastLogIndexLocked c
      then Some (conflict_at c (getLastLogIndexLocked c) 0)
      else
        (case findLogSlotLocked c (ae_PrevLogIndex req) of
           None \<Rightarrow> Some (conflict_at c (getLastLogIndexLocked c) 0)
         | Some slot \<Rightarrow>
             if le_Term (c_log c ! slot) \<noteq> ae_PrevLogTerm req
             then Some (conflict_at c (ae_PrevLogIndex req) (le_Term (c_log c ! slot))) else None))"

definition append_entry :: "nat \<Rightarrow> LogEntry list \<Rightarrow> LogEntry \<Rightarrow> LogEntry list" where
  "append_entry start l e =
     (if le_Index e \<le> start then l
      else case log_slot l (le_Index e) of
             Some slot \<Rightarrow> if le_Term (l ! slot) \<noteq> le_Term e then take slot l @ [e] else l
           | None \<Rightarrow> l @ [e])"

fun collect_cmds :: "LogEntry list \<Rightarrow> nat list \<Rightarrow> string list" where
  "collect_cmds l [] = []"
| "collect_cmds l (i # is) =
     (case log_slot l i of
        None \<Rightarrow> []
      | Some slot \<Rightarrow> le_Command (l ! slot) # collect_cmds l is)"

type_synonym 's apply_fn = "'s \<Rightarrow> string \<Rightarrow> 's \<times> (string + string)"

definition apply_cmds :: "'s apply_fn \<Rightarrow> string list \<Rightarrow> 's Cluster \<Rightarrow> 's Cluster" where
  "apply_cmds ap cmds c =
     foldl (\<lambda>c cmd. c\<lparr>c_stateMachine := fst (ap (c_stateMachine c) cmd),
                     c_lastApplied := u64 (c_lastApplied c + 1)\<rparr>) c cmds"

text \<open>
  The advance of the commit index. The slice of commands is allocated with the capacity
  \<^verbatim>\<open>commitIdx-lastApplied\<close>, an unsigned difference: when \<^verbatim>\<open>lastApplied\<close> is ahead it is close to
  \<open>2^64\<close> and \<^verbatim>\<open>make\<close> panics, which is \<open>None\<close> here.
\<close>

definition advanceCommit :: "'s apply_fn \<Rightarrow> nat \<Rightarrow> 's Cluster \<Rightarrow> 's Cluster option" where
  "advanceCommit ap leaderCommit c =
     (if leaderCommit > c_commitIndex c then
        let newCommit = min leaderCommit (getLastLogIndex c);
            c1 = c\<lparr>c_commitIndex := newCommit\<rparr>
        in if c_lastApplied c1 > newCommit then None
           else Some (apply_cmds ap (collect_cmds (c_log c1) [c_lastApplied c1 + 1..<newCommit + 1]) c1)
      else Some c)"

definition HandleAppendEntries ::
  "'s apply_fn \<Rightarrow> AppendEntries \<Rightarrow> 's Cluster \<Rightarrow> (AppendEntriesResponse \<times> 's Cluster) option" where
  "HandleAppendEntries ap req c =
     (if ae_Term req < c_currentTerm c
      then Some (\<lparr> aer_Term = c_currentTerm c, aer_Success = False, aer_ConflictIndex = 0, aer_ConflictTerm = 0 \<rparr>, c)
      else
        let c1 = (stepDown (ae_Term req) c)\<lparr>c_leaderID := ae_LeaderID req\<rparr>
        in case prevCheck req c1 of
             Some resp \<Rightarrow> Some (resp, c1)
           | None \<Rightarrow>
               (let c2 = c1\<lparr>c_log := foldl (append_entry (c_logStartIndex c1)) (c_log c1) (ae_Entries req)\<rparr>
                in case advanceCommit ap (ae_LeaderCommit req) c2 of
                     None \<Rightarrow> None
                   | Some c3 \<Rightarrow>
                       Some (\<lparr> aer_Term = c_currentTerm c3, aer_Success = True, aer_ConflictIndex = 0,
                               aer_ConflictTerm = 0 \<rparr>, c3)))"

section \<open>Heartbeats\<close>

definition hasQuorumContact :: "int \<Rightarrow> string list \<Rightarrow> 's Cluster \<Rightarrow> bool" where
  "hasQuorumContact now addrs c =
     (if addrs = [] then True
      else case c_peerAck c of
             None \<Rightarrow> True
           | Some ack \<Rightarrow>
               (let cutoff = now - cfg_ElectionTick (c_config c);
                    reachable = 1 + length (filter (\<lambda>a. case map_of ack a of Some t \<Rightarrow> t > cutoff | None \<Rightarrow> False) addrs)
                in reachable \<ge> (length addrs + 1) div 2 + 1))"

definition heartbeat :: "'s Cluster \<Rightarrow> AppendEntries" where
  "heartbeat c =
     \<lparr> ae_Term = c_currentTerm c, ae_LeaderID = c_NodeID c, ae_PrevLogIndex = getLastLogIndex c,
       ae_PrevLogTerm = getLastLogTerm c, ae_Entries = [], ae_LeaderCommit = c_commitIndex c \<rparr>"

text \<open>A round of heartbeats: the messages by address, or the leader steps down.\<close>

definition sendHeartbeats :: "int \<Rightarrow> 's Cluster \<Rightarrow> (string \<times> AppendEntries) list \<times> 's Cluster" where
  "sendHeartbeats now c =
     (if \<not> hasQuorumContact now (peer_addrs c) c
      then ([], (setState StateFollower c)\<lparr>c_leaderID := ''''\<rparr>)
      else (map (\<lambda>a. (a, heartbeat c)) (peer_addrs c), c))"

definition heartbeatReply ::
  "int \<Rightarrow> string \<Rightarrow> nat \<Rightarrow> AppendEntriesResponse option \<Rightarrow> 's Cluster \<Rightarrow> 's Cluster" where
  "heartbeatReply now addr term resp c =
     (case resp of
        None \<Rightarrow> c
      | Some r \<Rightarrow>
          (let c1 = c\<lparr>c_peerAck := map_option (AList.update addr now) (c_peerAck c)\<rparr>
           in if aer_Term r > term then storeTerm (aer_Term r) c1 else c1))"

section \<open>Commands\<close>

datatype CommandResult =
    Committed (cr_Output: "string + string") (cr_Index: nat) (cr_Term: nat)
  | NotLeader (cr_Leader: string)
  | LostLeadership (cr_Index: nat) (cr_Term: nat)
  | ReplicationTimeout (cr_Index: nat) (cr_Term: nat)

definition commitEntry :: "'s apply_fn \<Rightarrow> LogEntry \<Rightarrow> 's Cluster \<Rightarrow> CommandResult \<times> 's Cluster" where
  "commitEntry ap entry c =
     (let (s', out) = ap (c_stateMachine c) (le_Command entry)
      in (Committed out (le_Index entry) (le_Term entry),
          c\<lparr>c_stateMachine := s', c_commitIndex := le_Index entry, c_lastApplied := le_Index entry\<rparr>))"

definition replicateRequest :: "LogEntry \<Rightarrow> 's Cluster \<Rightarrow> AppendEntries" where
  "replicateRequest entry c =
     \<lparr> ae_Term = c_currentTerm c, ae_LeaderID = c_NodeID c, ae_PrevLogIndex = le_Index entry - 1,
       ae_PrevLogTerm = getLastLogTermForIndex c (le_Index entry - 1), ae_Entries = [entry],
       ae_LeaderCommit = c_commitIndex c \<rparr>"

text \<open>
  The replies of the peers in the order in which they arrive (\<open>None\<close>: the call failed). The loop
  ends when a quorum has acknowledged the entry.
\<close>

fun replicate_loop ::
  "nat \<Rightarrow> nat \<Rightarrow> AppendEntriesResponse option list \<Rightarrow> 's Cluster \<Rightarrow> bool \<times> 's Cluster" where
  "replicate_loop quorum cnt [] c = (False, c)"
| "replicate_loop quorum cnt (resp # rs) c =
     (case resp of
        None \<Rightarrow> replicate_loop quorum cnt rs c
      | Some r \<Rightarrow>
          if aer_Term r > c_currentTerm c then replicate_loop quorum cnt rs (storeTerm (aer_Term r) c)
          else if aer_Success r then
            (if cnt + 1 \<ge> quorum then (True, c) else replicate_loop quorum (cnt + 1) rs c)
          else replicate_loop quorum cnt rs c)"

definition new_entry :: "string \<Rightarrow> 's Cluster \<Rightarrow> LogEntry" where
  "new_entry cmd c =
     \<lparr> le_Index = u64 (getLastLogIndex c + 1), le_Term = c_currentTerm c, le_Command = cmd \<rparr>"

definition handleCommand ::
  "'s apply_fn \<Rightarrow> string \<Rightarrow> AppendEntriesResponse option list \<Rightarrow> 's Cluster \<Rightarrow> CommandResult \<times> 's Cluster" where
  "handleCommand ap cmd replies c =
     (if c_state c \<noteq> StateLeader then (NotLeader (c_leaderID c), c)
      else
        let entry = new_entry cmd c;
            c1 = c\<lparr>c_log := c_log c @ [entry]\<rparr>;
            peers = peer_addrs c1;
            quorum = (length peers + 1) div 2 + 1
        in if peers = [] then commitEntry ap entry c1
           else case replicate_loop quorum 1 replies c1 of
                  (True, c2) \<Rightarrow> commitEntry ap entry c2
                | (False, c2) \<Rightarrow>
                    ((if c_state c2 \<noteq> StateLeader then LostLeadership else ReplicationTimeout)
                       (le_Index entry) (le_Term entry), c2))"

section \<open>Snapshots and compaction\<close>

record Snapshot =
  sn_LastIncludedIndex :: nat
  sn_LastIncludedTerm :: nat
  sn_Data :: string

definition compactLog :: "nat \<Rightarrow> 's Cluster \<Rightarrow> 's Cluster" where
  "compactLog compactIndex c =
     (let startTerm = (case findLogSlotLocked c compactIndex of Some s \<Rightarrow> le_Term (c_log c ! s) | None \<Rightarrow> 0);
          c1 = c\<lparr>c_log := filter (\<lambda>e. le_Index e > compactIndex) (c_log c)\<rparr>
      in if compactIndex > c_logStartIndex c
         then c1\<lparr>c_logStartIndex := compactIndex, c_logStartTerm := startTerm\<rparr> else c1)"

definition CreateSnapshot :: "('s \<Rightarrow> string + string) \<Rightarrow> 's Cluster \<Rightarrow> (string + Snapshot) \<times> 's Cluster" where
  "CreateSnapshot snap c =
     (case snap (c_stateMachine c) of
        Inl err \<Rightarrow> (Inl (''state machine snapshot: '' @ err), c)
      | Inr data \<Rightarrow>
          (let lastIndex = getLastLogIndexLocked c; lastTerm = getLastLogTermLocked c
           in (Inr \<lparr> sn_LastIncludedIndex = lastIndex, sn_LastIncludedTerm = lastTerm, sn_Data = data \<rparr>,
               compactLog lastIndex c)))"

definition RestoreSnapshot :: "('s \<Rightarrow> string \<Rightarrow> string + 's) \<Rightarrow> Snapshot \<Rightarrow> 's Cluster \<Rightarrow> string option \<times> 's Cluster" where
  "RestoreSnapshot restore sn c =
     (case restore (c_stateMachine c) (sn_Data sn) of
        Inl err \<Rightarrow> (Some (''restore state machine: '' @ err), c)
      | Inr s' \<Rightarrow>
          (let c1 = c\<lparr>c_stateMachine := s', c_log := []\<rparr>;
               c2 = (if sn_LastIncludedIndex sn > c_logStartIndex c1
                     then c1\<lparr>c_logStartIndex := sn_LastIncludedIndex sn, c_logStartTerm := sn_LastIncludedTerm sn\<rparr>
                     else c1);
               c3 = c2\<lparr>c_commitIndex := sn_LastIncludedIndex sn, c_lastApplied := sn_LastIncludedIndex sn\<rparr>
           in (None, if sn_LastIncludedTerm sn > c_currentTerm c3
                     then c3\<lparr>c_currentTerm := sn_LastIncludedTerm sn\<rparr> else c3)))"

record InstallSnapshotRequest =
  is_Term :: nat
  is_LeaderID :: string
  is_LastIncludedIndex :: nat
  is_LastIncludedTerm :: nat
  is_Data :: string

record InstallSnapshotResponse =
  isr_Term :: nat
  isr_Success :: bool

definition HandleInstallSnapshot ::
  "('s \<Rightarrow> string \<Rightarrow> string + 's) \<Rightarrow> InstallSnapshotRequest \<Rightarrow> 's Cluster \<Rightarrow> InstallSnapshotResponse \<times> 's Cluster" where
  "HandleInstallSnapshot restore req c =
     (if is_Term req < c_currentTerm c
      then (\<lparr> isr_Term = c_currentTerm c, isr_Success = False \<rparr>, c)
      else
        let c1 = (stepDown (is_Term req) c)\<lparr>c_leaderID := is_LeaderID req\<rparr>;
            (err, c2) = RestoreSnapshot restore
              \<lparr> sn_LastIncludedIndex = is_LastIncludedIndex req, sn_LastIncludedTerm = is_LastIncludedTerm req,
                sn_Data = is_Data req \<rparr> c1
        in (\<lparr> isr_Term = c_currentTerm c2, isr_Success = (err = None) \<rparr>, c2))"

definition ShouldSendSnapshot :: "'s Cluster \<Rightarrow> nat \<Rightarrow> bool" where
  "ShouldSendSnapshot c followerNextIndex =
     (if c_log c = [] then followerNextIndex \<le> c_logStartIndex c
      else followerNextIndex < le_Index (hd (c_log c)))"

definition BuildInstallSnapshotRequest ::
  "('s \<Rightarrow> string + string) \<Rightarrow> 's Cluster \<Rightarrow> (string + InstallSnapshotRequest) \<times> 's Cluster" where
  "BuildInstallSnapshotRequest snap c =
     (case CreateSnapshot snap c of
        (Inl err, c') \<Rightarrow> (Inl err, c')
      | (Inr sn, c') \<Rightarrow>
          (Inr \<lparr> is_Term = c_currentTerm c', is_LeaderID = c_NodeID c', is_LastIncludedIndex = sn_LastIncludedIndex sn,
                 is_LastIncludedTerm = sn_LastIncludedTerm sn, is_Data = sn_Data sn \<rparr>, c'))"

text \<open>Compaction is triggered by the size of the log.\<close>

definition LogCompactionThreshold :: nat where
  "LogCompactionThreshold = 10000"

definition maybeCompactLog :: "('s \<Rightarrow> string + string) \<Rightarrow> 's Cluster \<Rightarrow> 's Cluster" where
  "maybeCompactLog snap c =
     (if length (c_log c) < LogCompactionThreshold then c else snd (CreateSnapshot snap c))"

section \<open>The search in the log\<close>

text \<open>
  On a log whose indices increase, the binary search finds what a scan for the index finds.
\<close>

lemma log_search_loop:
  "lo \<le> hi \<Longrightarrow> log_search l i lo hi = search_loop (\<lambda>k. \<not> le_Index (l ! k) < i) lo hi"
proof (induction l i lo hi rule: log_search.induct)
  case (1 l i lo hi)
  show ?case
  proof (cases "lo < hi")
    case True
    have mid: "lo + (hi - lo) div 2 = (lo + hi) div 2" using True by simp
    from True "1.IH" [OF True refl] show ?thesis
      by (subst log_search.simps, subst search_loop.simps) (simp add: mid Let_def)
  next
    case False
    then show ?thesis by (simp add: log_search.simps search_loop.simps)
  qed
qed

definition increasing :: "LogEntry list \<Rightarrow> bool" where
  "increasing l = sorted_wrt (<) (map le_Index l)"

lemma increasing_nth: "increasing l \<Longrightarrow> a < b \<Longrightarrow> b < length l \<Longrightarrow> le_Index (l ! a) < le_Index (l ! b)"
  unfolding increasing_def using sorted_wrt_nth_less [of "(<)" "map le_Index l" a b] by simp

lemma log_slot_first_index:
  assumes "increasing l"
  shows "log_slot l i = first_index (\<lambda>e. le_Index e = i) l"
proof -
  let ?f = "\<lambda>k. \<not> le_Index (l ! k) < i" and ?lo = "log_search l i 0 (length l)"
  have mono: "\<forall>a b. a \<le> b \<longrightarrow> b < length l \<longrightarrow> ?f a \<longrightarrow> ?f b"
    using increasing_nth [OF assms] by (metis le_neq_implies_less less_le_trans linorder_not_less order_less_imp_le)
  have lo: "?lo = sort_Search (length l) ?f"
    by (simp add: log_search_loop sort_Search_def)
  have below: "k < ?lo \<Longrightarrow> le_Index (l ! k) < i" for k
    using sort_Search_spec(2) [OF mono, of k] lo by simp
  show ?thesis
  proof (cases "first_index (\<lambda>e. le_Index e = i) l")
    case None
    then have "\<forall>e\<in>set l. le_Index e \<noteq> i" by (simp add: first_index_None)
    with None show ?thesis by (auto simp: log_slot_def Let_def)
  next
    case (Some j)
    from first_index_SomeD [OF Some] have j: "j < length l" "le_Index (l ! j) = i" by auto
    have "\<not> j < ?lo" using below j(2) by (metis less_irrefl)
    moreover have "\<not> ?lo < j"
    proof
      assume lt: "?lo < j"
      then have "?f ?lo" using sort_Search_spec(3) [OF mono] j(1) lo by simp
      with increasing_nth [OF assms lt j(1)] j(2) show False by simp
    qed
    ultimately show ?thesis using j Some by (simp add: log_slot_def Let_def)
  qed
qed

section \<open>Contiguous logs\<close>

definition contiguous :: "nat \<Rightarrow> LogEntry list \<Rightarrow> bool" where
  "contiguous start l = (map le_Index l = [start + 1..<start + 1 + length l])"

lemma contiguous_nth: "contiguous start l \<Longrightarrow> k < length l \<Longrightarrow> le_Index (l ! k) = start + 1 + k"
  unfolding contiguous_def by (metis nth_map nth_upt length_map add_less_cancel_left)



lemma contiguous_Nil [simp]: "contiguous start []"
  by (simp add: contiguous_def)




lemma contiguous_last: "contiguous start l \<Longrightarrow> l \<noteq> [] \<Longrightarrow> le_Index (last l) = start + length l"
  by (simp add: last_conv_nth contiguous_nth)


section \<open>Replication\<close>







section \<open>Committing\<close>










section \<open>Properties\<close>

lemma stepDown_sel [simp]:
  "c_log (stepDown t c) = c_log c" "c_logStartIndex (stepDown t c) = c_logStartIndex c"
  "c_logStartTerm (stepDown t c) = c_logStartTerm c" "c_commitIndex (stepDown t c) = c_commitIndex c"
  "c_lastApplied (stepDown t c) = c_lastApplied c" "c_stateMachine (stepDown t c) = c_stateMachine c"
  "c_config (stepDown t c) = c_config c" "c_nodes (stepDown t c) = c_nodes c"
  "c_currentTerm (stepDown t c) = max t (c_currentTerm c)"
  by (auto simp: stepDown_def setState_def)



lemma apply_cmds_log [simp]: "c_log (apply_cmds ap cmds c) = c_log c"
  by (induction cmds arbitrary: c) (simp_all add: apply_cmds_def)







lemma replicate_loop_True:
  "replicate_loop quorum cnt rs c = (True, c') \<Longrightarrow>
   quorum \<le> cnt + length (filter (\<lambda>r. case r of Some x \<Rightarrow> aer_Success x | None \<Rightarrow> False) rs) \<and>
   c_log c' = c_log c \<and> c_stateMachine c' = c_stateMachine c \<and> c_config c' = c_config c"
proof (induction quorum cnt rs c rule: replicate_loop.induct)
  case (2 quorum cnt resp rs c)
  then show ?case
    by (auto simp: storeTerm_def setState_def split: option.splits if_splits)
qed simp

text \<open>
  C10. A leader reports a command as committed only after a majority of the cluster, itself included,
  has acknowledged the entry; then the command has been applied exactly once, on the state the
  machine had before.
\<close>

theorem Raft_commit_needs_quorum:
  assumes "handleCommand ap cmd replies c = (Committed out i t, c')"
  shows "c_state c = StateLeader \<and>
    (length (peer_addrs c) + 1) div 2 + 1 \<le>
      1 + length (filter (\<lambda>r. case r of Some x \<Rightarrow> aer_Success x | None \<Rightarrow> False) replies) +
      (if peer_addrs c = [] then 1 else 0) \<and>
    ap (c_stateMachine c) cmd = (c_stateMachine c', out) \<and>
    c_log c' = c_log c @ [new_entry cmd c] \<and> c_commitIndex c' = le_Index (new_entry cmd c)"
proof -
  let ?c1 = "c\<lparr>c_log := c_log c @ [new_entry cmd c]\<rparr>"
  have lead: "c_state c = StateLeader" using assms by (auto simp: handleCommand_def split: if_splits)
  have peers: "peer_addrs ?c1 = peer_addrs c" by (simp add: peer_addrs_def)
  have cmd: "le_Command (new_entry cmd c) = cmd" by (simp add: new_entry_def)
  show ?thesis
  proof (cases "peer_addrs c = []")
    case True
    with assms lead peers cmd show ?thesis
      by (auto simp: handleCommand_def Let_def commitEntry_def split: prod.splits)
  next
    case False
    let ?q = "(length (peer_addrs c) + 1) div 2 + 1"
    obtain c2 where c2: "replicate_loop ?q 1 replies ?c1 = (True, c2)"
      and commit: "commitEntry ap (new_entry cmd c) c2 = (Committed out i t, c')"
      using assms lead peers False by (auto simp: handleCommand_def Let_def split: prod.splits bool.splits if_splits)
    with replicate_loop_True [OF c2] lead cmd show ?thesis
      by (auto simp: commitEntry_def Let_def split: prod.splits)
  qed
qed

text \<open>
  The binary searches for a log position and for the term at an index return what a scan of the
  log for that index returns, on every log whose indices increase.
\<close>

theorem Raft_log_search_equiv:
  assumes "increasing (c_log c)"
  shows "findLogSlotLocked c i = first_index (\<lambda>e. le_Index e = i) (c_log c) \<and>
    getLogTermByIndexLocked c i =
      (case find (\<lambda>e. le_Index e = i) (c_log c) of Some e \<Rightarrow> le_Term e | None \<Rightarrow> 0)"
proof -
  have slot: "log_slot (c_log c) i = first_index (\<lambda>e. le_Index e = i) (c_log c)"
    by (rule log_slot_first_index [OF assms])
  have at_slot: "getLogTermByIndexLocked c i =
      (case log_slot (c_log c) i of Some s \<Rightarrow> le_Term (c_log c ! s) | None \<Rightarrow> 0)"
    by (simp add: getLogTermByIndexLocked_def log_slot_def Let_def)
  have "find p l = map_option (nth l) (first_index p l)" for p and l :: "LogEntry list"
    by (induction l) (auto simp: option.map_comp o_def)
  then show ?thesis
    by (simp add: at_slot slot findLogSlotLocked_def split: option.split)
qed

text \<open>
  Compaction restarts the numbering of a leader's log: it empties the log, the next command gets
  index 1, and a follower that has compacted up to the same point acknowledges that entry without
  storing it.
\<close>

theorem Raft_compaction_restarts_index:
  assumes "contiguous (c_logStartIndex c) (c_log c)" and "c_log c \<noteq> []"
    and "CreateSnapshot snap c = (Inr sn, c')"
  shows "c_log c' = [] \<and> c_logStartIndex c' = c_logStartIndex c + length (c_log c) \<and>
    le_Index (new_entry cmd c') = 1 \<and>
    (c_log f = [] \<and> c_logStartIndex f = c_logStartIndex c' \<and> c_commitIndex f = c_commitIndex c' \<and>
     c_currentTerm f \<le> c_currentTerm c' \<longrightarrow>
     (\<exists>f'. HandleAppendEntries ap (replicateRequest (new_entry cmd c') c') f =
        Some (\<lparr> aer_Term = c_currentTerm c', aer_Success = True, aer_ConflictIndex = 0, aer_ConflictTerm = 0 \<rparr>, f') \<and>
        c_log f' = [] \<and> c_stateMachine f' = c_stateMachine f))"
proof -
  let ?last = "c_logStartIndex c + length (c_log c)"
  have last: "getLastLogIndexLocked c = ?last"
    using assms(1,2) by (simp add: getLastLogIndexLocked_def contiguous_last)
  have c': "c' = compactLog ?last c"
    using assms(3) last by (auto simp: CreateSnapshot_def Let_def split: sum.splits)
  have "e \<in> set (c_log c) \<Longrightarrow> \<not> ?last < le_Index e" for e
    using contiguous_nth [OF assms(1)] by (auto simp: in_set_conv_nth)
  then have log: "c_log c' = []" and start: "c_logStartIndex c' = ?last"
    using assms(2) by (auto simp: c' compactLog_def Let_def filter_empty_conv)
  moreover have idx: "le_Index (new_entry cmd c') = 1"
    using log by (simp add: new_entry_def getLastLogIndex_def u64_def)
  moreover have "Suc 0 \<le> ?last" using assms(2) by (cases "c_log c") auto
  ultimately show ?thesis
    by (auto simp: HandleAppendEntries_def replicateRequest_def prevCheck_def Let_def append_entry_def advanceCommit_def)
qed

text \<open>
  A follower whose log is empty after a snapshot, and whose machine has already applied
  something, panics on a heartbeat without a previous index that carries a newer commit index:
  the commit index falls back to 0 and the unsigned difference to the applied index is negative.
\<close>

theorem Raft_empty_log_heartbeat_panics:
  assumes "c_log c = []" and "c_lastApplied c > 0" and "ae_Term req \<ge> c_currentTerm c"
    and "ae_PrevLogIndex req = 0" and "ae_Entries req = []" and "ae_LeaderCommit req > c_commitIndex c"
  shows "HandleAppendEntries ap req c = None"
  using assms
  by (auto simp: HandleAppendEntries_def Let_def prevCheck_def advanceCommit_def getLastLogIndex_def)

section \<open>Examples\<close>

definition example_entry :: "nat \<Rightarrow> nat \<Rightarrow> LogEntry" where
  "example_entry i t = \<lparr> le_Index = i, le_Term = t, le_Command = ''set'' \<rparr>"

definition example_cfg :: "string \<Rightarrow> string list \<Rightarrow> Config" where
  "example_cfg n peers = DefaultConfig\<lparr>cfg_NodeID := n, cfg_Peers := peers\<rparr>"

definition example_node :: "string \<Rightarrow> string list \<Rightarrow> nat Cluster" where
  "example_node n peers = projr (NewCluster (example_cfg n peers) 0 0)"

definition example_apply :: "nat apply_fn" where
  "example_apply s cmd = (Suc s, Inr cmd)"

definition example_append :: AppendEntries where
  "example_append = \<lparr> ae_Term = 2, ae_LeaderID = ''L'', ae_PrevLogIndex = 1, ae_PrevLogTerm = 1,
     ae_Entries = [example_entry 2 2], ae_LeaderCommit = 2 \<rparr>"

definition example_follower :: "nat Cluster" where
  "example_follower = (example_node ''F'' [''L'', ''M''])
     \<lparr>c_currentTerm := 1, c_log := [example_entry 1 1, example_entry 2 1]\<rparr>"


lemmas example_raft_defs = example_append_def example_follower_def example_node_def NewCluster_def
  Config_Validate_def example_cfg_def DefaultConfig_def example_entry_def new_Node_def


theorem Raft_commit_needs_quorum_witness:
  "c_commitIndex (snd (handleCommand example_apply ''x''
      [Some \<lparr> aer_Term = 0, aer_Success = True, aer_ConflictIndex = 0, aer_ConflictTerm = 0 \<rparr>]
      ((example_node ''L'' [''F'', ''M''])\<lparr>c_state := StateLeader\<rparr>))) = 1"
proof -
  let ?c = "(example_node ''L'' [''F'', ''M''])\<lparr>c_state := StateLeader\<rparr>"
  let ?rs = "[Some \<lparr> aer_Term = 0, aer_Success = True, aer_ConflictIndex = 0, aer_ConflictTerm = 0 \<rparr>]"
  have "fst (handleCommand example_apply ''x'' ?rs ?c) = Committed (Inr ''x'') 1 0"
    by (simp add: handleCommand_def Let_def peer_addrs_def commitEntry_def new_entry_def u64_def
        getLastLogIndex_def example_apply_def example_raft_defs)
  then have "handleCommand example_apply ''x'' ?rs ?c =
      (Committed (Inr ''x'') 1 0, snd (handleCommand example_apply ''x'' ?rs ?c))"
    by (metis prod.collapse)
  from Raft_commit_needs_quorum [OF this] show ?thesis
    by (simp add: new_entry_def getLastLogIndex_def u64_def example_raft_defs)
qed

theorem Raft_log_search_equiv_witness: "findLogSlotLocked example_follower 2 = Some 1"
proof -
  have "increasing (c_log example_follower)" by (simp add: increasing_def example_raft_defs)
  from Raft_log_search_equiv [OF this, of 2] show ?thesis by (simp add: example_raft_defs)
qed

theorem Raft_compaction_restarts_index_witness:
  "le_Index (new_entry ''x'' (snd (CreateSnapshot (\<lambda>s. Inr '''') example_follower))) = 1 \<and>
   c_logStartIndex (snd (CreateSnapshot (\<lambda>s. Inr '''') example_follower)) = 2"
proof -
  have f: "contiguous (c_logStartIndex example_follower) (c_log example_follower)" "c_log example_follower \<noteq> []"
    "c_logStartIndex example_follower = 0" "length (c_log example_follower) = 2"
    by (simp_all add: contiguous_def example_raft_defs)
  have "fst (CreateSnapshot (\<lambda>s. Inr '''') example_follower) =
      Inr \<lparr> sn_LastIncludedIndex = 2, sn_LastIncludedTerm = 1, sn_Data = '''' \<rparr>"
    by (simp add: CreateSnapshot_def Let_def getLastLogIndexLocked_def getLastLogTermLocked_def example_raft_defs)
  then obtain sn c' where cs: "CreateSnapshot (\<lambda>s. Inr '''') example_follower = (Inr sn, c')"
    by (metis prod.collapse)
  from Raft_compaction_restarts_index [OF f(1,2) cs, of "''x''" example_follower example_apply] f(3,4)
  show ?thesis by (simp add: cs)
qed

theorem Raft_empty_log_heartbeat_panics_witness:
  "HandleAppendEntries example_apply
     \<lparr> ae_Term = 1, ae_LeaderID = ''L'', ae_PrevLogIndex = 0, ae_PrevLogTerm = 0, ae_Entries = [], ae_LeaderCommit = 9 \<rparr>
     ((example_node ''F'' [''L''])\<lparr>c_logStartIndex := 5, c_commitIndex := 5, c_lastApplied := 5\<rparr>) = None"
  by (rule Raft_empty_log_heartbeat_panics) (simp_all add: example_raft_defs)

end
