(* ===== verification/Raft_Cluster.thy ===== *)
theory Raft_Cluster
  imports Raft
begin

text \<open>
  A cluster of Raft nodes as a system of interleaved steps: time-outs that start an election, vote
  requests and replies in flight, the end of an election, and the arrival of append and snapshot
  requests and of late replies at any node and any time. The nodes are named by the addresses
  under which their peers know them, and the membership is fixed. The main lemma is that a term
  has at most one leader in every run without the two behaviours of the code that break it: the
  tiebreaker, which lets a node vote twice in a term, and a late reply that sets a term back.
  The last section shows that the tiebreaker alone is enough for two leaders in one term.
\<close>

section \<open>System state and steps\<close>

text \<open>
  Besides the nodes and the messages in flight the state has the election that each node is
  waiting for, and three history variables: the votes cast, the voters counted in the running
  election, and the leaders that took office, with their terms.
\<close>

record 's sys =
  s_nodes :: "string \<Rightarrow> 's Cluster"
  s_elections :: "string \<Rightarrow> election option"
  s_requests :: "(string \<times> string \<times> RequestVote) list"
  s_replies :: "(string \<times> nat \<times> string \<times> RequestVoteResponse) list"
  s_votes :: "(string \<times> nat \<times> string) list"
  s_counted :: "string \<Rightarrow> string list"
  s_leaders :: "(nat \<times> string) list"


abbreviation set_node :: "string \<Rightarrow> 's Cluster \<Rightarrow> 's sys \<Rightarrow> 's sys" where
  "set_node n c s \<equiv> s\<lparr>s_nodes := (s_nodes s)(n := c)\<rparr>"












section \<open>What a handler may do to the vote of a node\<close>














section \<open>Invariant\<close>

text \<open>How often the answer of one voter in one election is still under way or counted.\<close>

definition pending :: "'s sys \<Rightarrow> string \<Rightarrow> nat \<Rightarrow> string \<Rightarrow> nat" where
  "pending s n t v =
     length (filter (\<lambda>(c, p, r). c = n \<and> p = v \<and> rv_Term r = t) (s_requests s)) +
     length (filter (\<lambda>(c, tag, p, r). c = n \<and> tag = t \<and> p = v) (s_replies s)) +
     (case s_elections s n of
        Some el \<Rightarrow> if el_term el = t \<and> v \<in> set (s_counted s n) then 1 else 0
      | None \<Rightarrow> 0)"










lemma pending_set_node [simp]: "pending (set_node n c s) = pending s"
  by (auto simp: pending_def fun_eq_iff split: option.split)
















lemma setState_sel [simp]:
  "peer_addrs (setState st c) = peer_addrs c" "c_nodes (setState st c) = c_nodes c" "c_config (setState st c) = c_config c"
  "c_currentTerm (setState st c) = c_currentTerm c" "c_votedFor (setState st c) = c_votedFor c" "c_state (setState st c) = st"
  by (auto simp: setState_def peer_addrs_def)










section \<open>Runs\<close>







section \<open>Election safety\<close>













end
