(* ===== verification/Raft_Membership.thy ===== *)
theory Raft_Membership
  imports Raft
begin

text \<open>
  Membership changes of \<^verbatim>\<open>internal/cluster/snapshot_ops.go\<close>: a leader commits a joint and a final entry
  through \<open>handleCommand\<close> and changes its own node table between the two. The encoding of the
  entries with \<^verbatim>\<open>encoding/json\<close> is a parameter; the time-out of \<^verbatim>\<open>Propose\<close> on a full command channel is
  a \<open>None\<close> in place of the replies.
\<close>

section \<open>Operations\<close>

datatype ChangeType = AddNode | RemoveNode | OtherChange

primrec ChangeType_String :: "ChangeType \<Rightarrow> string" where
  "ChangeType_String AddNode = ''AddNode''"
| "ChangeType_String RemoveNode = ''RemoveNode''"
| "ChangeType_String OtherChange = ''Unknown''"

record MembershipChange =
  mc_Type :: ChangeType
  mc_NodeID :: string
  mc_Address :: string

record MembershipChangeEntry =
  mce_Phase :: string
  mce_Change :: MembershipChange

record membershipConfig =
  ms_pending :: "MembershipChange option"
  ms_inTransition :: bool
  ms_jointCommitID :: nat

definition applyMembershipChange :: "MembershipChange \<Rightarrow> int \<Rightarrow> 's Cluster \<Rightarrow> 's Cluster" where
  "applyMembershipChange change now c =
     (case mc_Type change of
        AddNode \<Rightarrow> Cluster_AddNode (mc_NodeID change) (mc_Address change) now c
      | RemoveNode \<Rightarrow> Cluster_RemoveNode (mc_NodeID change) c
      | OtherChange \<Rightarrow> c)"

definition clearMembershipTransition :: "membershipConfig \<Rightarrow> membershipConfig" where
  "clearMembershipTransition m = m\<lparr>ms_inTransition := False, ms_pending := None, ms_jointCommitID := 0\<rparr>"

definition IsMembershipChangeInProgress :: "membershipConfig \<Rightarrow> bool" where
  "IsMembershipChangeInProgress m = ms_inTransition m"

definition result_error :: "CommandResult \<Rightarrow> string option" where
  "result_error r =
     (case r of
        Committed (Inl err) _ _ \<Rightarrow> Some err
      | Committed (Inr _) _ _ \<Rightarrow> None
      | NotLeader l \<Rightarrow> Some (''not leader, forward to '' @ l)
      | LostLeadership _ _ \<Rightarrow> Some ''lost leadership during replication''
      | ReplicationTimeout _ _ \<Rightarrow> Some ''replication timeout: failed to reach quorum'')"

definition result_index :: "CommandResult \<Rightarrow> nat" where
  "result_index r = (case r of NotLeader _ \<Rightarrow> 0 | Committed _ i _ \<Rightarrow> i | LostLeadership i _ \<Rightarrow> i | ReplicationTimeout i _ \<Rightarrow> i)"

definition Propose ::
  "'s apply_fn \<Rightarrow> string \<Rightarrow> AppendEntriesResponse option list option \<Rightarrow> 's Cluster \<Rightarrow> (string + CommandResult) \<times> 's Cluster" where
  "Propose ap command replies c =
     (case replies of
        None \<Rightarrow> (Inl ''command timeout'', c)
      | Some rs \<Rightarrow> (let (r, c') = handleCommand ap command rs c in (Inr r, c')))"

definition ProposeMembershipChange ::
  "(MembershipChangeEntry \<Rightarrow> string + string) \<Rightarrow> 's apply_fn \<Rightarrow> int \<Rightarrow> MembershipChange \<Rightarrow>
   AppendEntriesResponse option list option \<Rightarrow> AppendEntriesResponse option list option \<Rightarrow>
   membershipConfig \<Rightarrow> 's Cluster \<Rightarrow> string option \<times> membershipConfig \<times> 's Cluster" where
  "ProposeMembershipChange marshal ap now change replies1 replies2 m c =
     (if c_state c \<noteq> StateLeader then (Some (''not leader, current leader is '' @ c_leaderID c), m, c)
      else if ms_inTransition m then (Some ''membership change already in progress'', m, c)
      else
        let m1 = m\<lparr>ms_inTransition := True, ms_pending := Some change\<rparr>
        in case marshal \<lparr> mce_Phase = ''joint'', mce_Change = change \<rparr> of
             Inl err \<Rightarrow> (Some (''marshal membership change: '' @ err), clearMembershipTransition m1, c)
           | Inr data \<Rightarrow>
             (case Propose ap data replies1 c of
                (Inl err, c1) \<Rightarrow> (Some (''propose joint config: '' @ err), clearMembershipTransition m1, c1)
              | (Inr result, c1) \<Rightarrow>
                (case result_error result of
                   Some err \<Rightarrow> (Some (''apply joint config: '' @ err), clearMembershipTransition m1, c1)
                 | None \<Rightarrow>
                   (let m2 = m1\<lparr>ms_jointCommitID := result_index result\<rparr>;
                        c2 = applyMembershipChange change now c1
                    in case marshal \<lparr> mce_Phase = ''final'', mce_Change = change \<rparr> of
                         Inl err \<Rightarrow> (Some (''marshal final config: '' @ err), clearMembershipTransition m2, c2)
                       | Inr finalData \<Rightarrow>
                         (case Propose ap finalData replies2 c2 of
                            (Inl err, c3) \<Rightarrow> (Some (''propose final config: '' @ err), clearMembershipTransition m2, c3)
                          | (Inr finalResult, c3) \<Rightarrow>
                            (case result_error finalResult of
                               Some err \<Rightarrow> (Some (''apply final config: '' @ err), clearMembershipTransition m2, c3)
                             | None \<Rightarrow> (None, clearMembershipTransition m2, c3)))))))"

section \<open>Node tables\<close>

lemma c_nodes_storeTerm [simp]: "c_nodes (storeTerm t c) = c_nodes c"
  by (simp add: storeTerm_def setState_def)

lemma c_nodes_replicate [simp]: "c_nodes (snd (replicate_loop q k rs c)) = c_nodes c"
  by (induction q k rs c rule: replicate_loop.induct) (auto split: option.split)

lemma c_nodes_commitEntry [simp]: "c_nodes (snd (commitEntry ap e c)) = c_nodes c"
  by (simp add: commitEntry_def case_prod_beta Let_def)

lemma c_nodes_handleCommand [simp]: "c_nodes (snd (handleCommand ap cmd rs c)) = c_nodes c"
proof -
  define c1 where "c1 = c\<lparr>c_log := c_log c @ [new_entry cmd c]\<rparr>"
  define q where "q = (length (peer_addrs c1) + 1) div 2 + 1"
  obtain b c2 where r: "replicate_loop q 1 rs c1 = (b, c2)" by fastforce
  have "c_nodes c1 = c_nodes c" by (simp add: c1_def)
  moreover have "c_nodes c2 = c_nodes c1" using c_nodes_replicate [of q 1 rs c1] unfolding r by simp
  ultimately show ?thesis
    unfolding handleCommand_def Let_def c1_def [symmetric] q_def [symmetric] r by (cases b) simp_all
qed

lemma Propose_nodes: "Propose ap d rs c = (x, c') \<Longrightarrow> c_nodes c' = c_nodes c"
  by (auto simp: Propose_def case_prod_beta Let_def split: option.splits)

lemma c_nodes_apply [simp]: "c_nodes (apply_cmds ap cmds c) = c_nodes c"
  by (induction cmds rule: rev_induct) (simp_all add: apply_cmds_def)

lemma HandleAppendEntries_nodes:
  "HandleAppendEntries ap req c = Some (resp, c') \<Longrightarrow> c_nodes c' = c_nodes c"
  by (auto simp: HandleAppendEntries_def advanceCommit_def stepDown_def setState_def Let_def simp del: upt_Suc
      split: if_splits option.splits)

text \<open>What a call leaves behind: the flag of a running change, and the node table.\<close>

lemma ProposeMembershipChange_flag:
  "\<not> ms_inTransition m \<Longrightarrow>
   \<not> ms_inTransition (fst (snd (ProposeMembershipChange marshal ap now change r1 r2 m c)))"
  by (simp add: ProposeMembershipChange_def clearMembershipTransition_def Let_def split: prod.split sum.split option.split)

lemma ProposeMembershipChange_nodes:
  assumes "ProposeMembershipChange marshal ap now change r1 r2 m c = (err, m', c')"
  shows "c_nodes c' = c_nodes c \<or> c_nodes c' = c_nodes (applyMembershipChange change now c)"
    and "err = None \<Longrightarrow> c_nodes c' = c_nodes (applyMembershipChange change now c)"
proof -
  have *: "c_nodes (applyMembershipChange change now d) = c_nodes (applyMembershipChange change now c)"
    if "c_nodes d = c_nodes c" for d :: "'a Cluster"
    using that by (simp add: applyMembershipChange_def Cluster_AddNode_def Cluster_RemoveNode_def split: ChangeType.split)
  show "c_nodes c' = c_nodes c \<or> c_nodes c' = c_nodes (applyMembershipChange change now c)"
    and "err = None \<Longrightarrow> c_nodes c' = c_nodes (applyMembershipChange change now c)"
    using assms by (auto simp: ProposeMembershipChange_def Let_def dest!: Propose_nodes intro: *
        split: if_splits prod.splits sum.splits option.splits)
qed

text \<open>
  A membership change that succeeds is effective in the node table of the leader, in either
  outcome no change is left in progress, and the table of a node that receives the entries as a
  follower never changes, whatever is replicated to it: leader and followers count different
  quorums after a change.
\<close>

theorem Raft_membership_leader_only:
  assumes "\<not> ms_inTransition m" and "ProposeMembershipChange marshal ap now change r1 r2 m c = (err, m', c')"
  shows "\<not> IsMembershipChangeInProgress m' \<and>
    (err = None \<longrightarrow>
       (mc_Type change = AddNode \<longrightarrow>
          map_of (c_nodes c') (mc_NodeID change) = Some (new_Node (mc_NodeID change) (mc_Address change) now)) \<and>
       (mc_Type change = RemoveNode \<longrightarrow> map_of (c_nodes c') (mc_NodeID change) = None)) \<and>
    (\<forall>i. i \<noteq> mc_NodeID change \<longrightarrow> map_of (c_nodes c') i = map_of (c_nodes c) i) \<and>
    (\<forall>req f resp f'. HandleAppendEntries ap req f = Some (resp, f') \<longrightarrow> c_nodes f' = c_nodes f)"
proof (intro conjI allI impI)
  show "\<not> IsMembershipChangeInProgress m'"
    using ProposeMembershipChange_flag [OF assms(1), of marshal ap now change r1 r2 c] assms(2)
    by (simp add: IsMembershipChangeInProgress_def)
  show "map_of (c_nodes c') (mc_NodeID change) = Some (new_Node (mc_NodeID change) (mc_Address change) now)"
    if "err = None" "mc_Type change = AddNode"
    using ProposeMembershipChange_nodes(2) [OF assms(2) that(1)] that(2)
    by (simp add: applyMembershipChange_def Cluster_AddNode_def update_conv)
  show "map_of (c_nodes c') (mc_NodeID change) = None" if "err = None" "mc_Type change = RemoveNode"
    using ProposeMembershipChange_nodes(2) [OF assms(2) that(1)] that(2)
    by (simp add: applyMembershipChange_def Cluster_RemoveNode_def delete_conv)
  show "map_of (c_nodes c') i = map_of (c_nodes c) i" if "i \<noteq> mc_NodeID change" for i
    using ProposeMembershipChange_nodes(1) [OF assms(2)] that
    by (auto simp: applyMembershipChange_def Cluster_AddNode_def Cluster_RemoveNode_def update_conv delete_conv
        split: ChangeType.split)
  show "c_nodes f' = c_nodes f" if "HandleAppendEntries ap req f = Some (resp, f')" for req resp and f f' :: "'a Cluster"
    using that by (rule HandleAppendEntries_nodes)
qed

definition example_change :: MembershipChange where
  "example_change = \<lparr> mc_Type = AddNode, mc_NodeID = ''M'', mc_Address = ''m:7946'' \<rparr>"

theorem Raft_membership_leader_only_witness:
  "map_of (c_nodes (snd (snd (ProposeMembershipChange (\<lambda>e. Inr (mce_Phase e)) example_apply 5 example_change
       (Some []) (Some [Some \<lparr> aer_Term = 0, aer_Success = True, aer_ConflictIndex = 0, aer_ConflictTerm = 0 \<rparr>])
       \<lparr> ms_pending = None, ms_inTransition = False, ms_jointCommitID = 0 \<rparr>
       ((example_node ''L'' [])\<lparr>c_state := StateLeader\<rparr>))))) ''M'' = Some (new_Node ''M'' ''m:7946'' 5)"
proof -
  let ?m = "\<lparr> ms_pending = None, ms_inTransition = False, ms_jointCommitID = 0 \<rparr>"
  let ?p = "ProposeMembershipChange (\<lambda>e. Inr (mce_Phase e)) example_apply 5 example_change
       (Some []) (Some [Some \<lparr> aer_Term = 0, aer_Success = True, aer_ConflictIndex = 0, aer_ConflictTerm = 0 \<rparr>]) ?m
       ((example_node ''L'' [])\<lparr>c_state := StateLeader\<rparr>)"
  have "fst ?p = None"
    by (simp add: ProposeMembershipChange_def Propose_def handleCommand_def result_error_def Let_def peer_addrs_def
        commitEntry_def new_entry_def u64_def getLastLogIndex_def example_apply_def applyMembershipChange_def
        Cluster_AddNode_def example_change_def example_raft_defs)
  then obtain m' c' where "?p = (None, m', c')" by (metis prod.collapse)
  with Raft_membership_leader_only [OF _ this] show ?thesis by (simp add: example_change_def)
qed

end
