(* ===== verification/Bytes.thy ===== *)
theory Bytes
  imports GoLib
begin

text \<open>
  Byte slices and the outcomes of decoders. A byte slice is the list of its bytes, of the same type
  as a string, so the conversions between the two are identities. Lengths are natural numbers, and
  a slice or index expression out of range is the outcome \<open>Panics\<close>.
\<close>

section \<open>Bytes\<close>

type_synonym bytes = string

text \<open>\<^verbatim>\<open>binary.BigEndian\<close>.\<close>

definition PutUint16 :: "nat \<Rightarrow> bytes" where
  "PutUint16 n = [char_of (n div 256), char_of n]"

definition Uint16 :: "bytes \<Rightarrow> nat" where
  "Uint16 b = of_char (b ! 0) * 256 + of_char (b ! 1)"

definition PutUint32 :: "32 word \<Rightarrow> bytes" where
  "PutUint32 w = PutUint16 (unat w div 65536) @ PutUint16 (unat w)"

definition Uint32 :: "bytes \<Rightarrow> 32 word" where
  "Uint32 b = of_nat (Uint16 b * 65536 + Uint16 (drop 2 b))"

datatype 'a decoded = Decoded 'a | Malformed string | Panics

fun bind_decoded :: "'a decoded \<Rightarrow> ('a \<Rightarrow> 'b decoded) \<Rightarrow> 'b decoded" where
  "bind_decoded (Decoded x) f = f x"
| "bind_decoded (Malformed e) f = Malformed e"
| "bind_decoded Panics f = Panics"

lemma bind_decoded_cong [fundef_cong]:
  "x = y \<Longrightarrow> (\<And>v. y = Decoded v \<Longrightarrow> f v = g v) \<Longrightarrow> bind_decoded x f = bind_decoded y g"
  by (cases y) auto

text \<open>\<^verbatim>\<open>b[i]\<close>, \<^verbatim>\<open>b[lo : hi]\<close> and \<^verbatim>\<open>b[lo :]\<close>.\<close>

definition byte_at :: "bytes \<Rightarrow> nat \<Rightarrow> nat decoded" where
  "byte_at b i = (if i < length b then Decoded (of_char (b ! i)) else Panics)"

definition slice :: "bytes \<Rightarrow> nat \<Rightarrow> nat \<Rightarrow> bytes decoded" where
  "slice b lo hi = (if lo \<le> hi \<and> hi \<le> length b then Decoded (take (hi - lo) (drop lo b)) else Panics)"

definition slice_from :: "bytes \<Rightarrow> nat \<Rightarrow> bytes decoded" where
  "slice_from b lo = (if lo \<le> length b then Decoded (drop lo b) else Panics)"

text \<open>\<^verbatim>\<open>binary.BigEndian.Uint16(b[lo : lo+2])\<close>.\<close>

definition Uint16_at :: "bytes \<Rightarrow> nat \<Rightarrow> nat decoded" where
  "Uint16_at b lo = bind_decoded (slice b lo (lo + 2)) (\<lambda>w. Decoded (Uint16 w))"

text \<open>\<^verbatim>\<open>b[lo : lo+n]\<close> with the upper bound computed in \<^verbatim>\<open>uint16\<close>.\<close>

definition slice16 :: "bytes \<Rightarrow> nat \<Rightarrow> nat \<Rightarrow> bytes decoded" where
  "slice16 b lo n =
     (let hi = (lo + n) mod 65536
      in if lo \<le> hi \<and> hi \<le> length b then Decoded (take (hi - lo) (drop lo b)) else Panics)"

section \<open>Integers on the wire\<close>

lemma length_Put [simp]: "length (PutUint16 n) = 2" "length (PutUint32 w) = 4"
  by (simp_all add: PutUint16_def PutUint32_def)

lemma Uint16_mod: "Uint16 (PutUint16 n @ xs) = n mod 65536"
  using mod_mult2_eq [of n 256 256] by (simp add: Uint16_def PutUint16_def)

lemma Uint16_Put [simp]: "n < 65536 \<Longrightarrow> Uint16 (PutUint16 n @ xs) = n"
  by (simp add: Uint16_mod)

lemma Uint16_less: "Uint16 b < 65536"
  using nat_of_char_less_256 [of "b ! 0"] nat_of_char_less_256 [of "b ! 1"] unfolding Uint16_def by linarith

lemma Uint32_Put [simp]: "Uint32 (PutUint32 w @ xs) = w"
proof -
  have w: "unat w < 65536 * 65536" using unsigned_less [of w] by simp
  have "Uint16 (PutUint16 (unat w div 65536) @ PutUint16 (unat w) @ xs) = unat w div 65536"
    using w by (intro Uint16_Put) (rule less_mult_imp_div_less)
  moreover have "drop 2 (PutUint16 (unat w div 65536) @ PutUint16 (unat w) @ xs) = PutUint16 (unat w) @ xs"
    by (simp add: PutUint16_def)
  ultimately have "Uint32 (PutUint32 w @ xs) = of_nat (unat w div 65536 * 65536 + unat w mod 65536)"
    unfolding Uint32_def PutUint32_def append_assoc by (simp only: Uint16_mod)
  then show ?thesis by (simp only: div_mult_mod_eq of_nat_unat)  simp
qed

lemma drop_at: "length a = n \<Longrightarrow> drop n (a @ b) = b"
  by simp

lemma slice16_take: "lo + n < 65536 \<Longrightarrow> lo + n \<le> length b \<Longrightarrow> slice16 b lo n = Decoded (take n (drop lo b))"
  by (simp add: slice16_def Let_def)

lemma slice16_panics:
  "lo + n \<le> length b \<Longrightarrow> lo \<le> 65536 \<Longrightarrow> n < 65536 \<Longrightarrow> slice16 b lo n = Panics \<longleftrightarrow> 65536 \<le> lo + n"
proof -
  assume a: "lo + n \<le> length b" "lo \<le> 65536" "n < 65536"
  show ?thesis
  proof (cases "65536 \<le> lo + n")
    case True
    with a have "(lo + n) mod 65536 = lo + n - 65536" by (simp add: mod_if)
    with a True show ?thesis by (simp add: slice16_def Let_def)
  next
    case False
    with a show ?thesis by (simp add: slice16_take)
  qed
qed

lemma bind_decoded_panics: "bind_decoded x f = Panics \<longleftrightarrow> x = Panics \<or> (\<exists>y. x = Decoded y \<and> f y = Panics)"
  by (cases x) auto

lemma bind_Decoded: "bind_decoded x f = Decoded y \<longleftrightarrow> (\<exists>v. x = Decoded v \<and> f v = Decoded y)"
  by (cases x) auto

lemma in_range [simp]:
  "i < length b \<Longrightarrow> byte_at b i = Decoded (of_char (b ! i))"
  "lo \<le> hi \<Longrightarrow> hi \<le> length b \<Longrightarrow> slice b lo hi = Decoded (take (hi - lo) (drop lo b))"
  "lo \<le> length b \<Longrightarrow> slice_from b lo = Decoded (drop lo b)"
  by (simp_all add: byte_at_def slice_def slice_from_def)

lemma out_of_range:
  "byte_at b i = Panics \<longleftrightarrow> length b \<le> i" "slice b lo hi = Panics \<longleftrightarrow> hi < lo \<or> length b < hi"
  "slice_from b lo = Panics \<longleftrightarrow> length b < lo" "Uint16_at b lo = Panics \<longleftrightarrow> length b < lo + 2"
  by (auto simp: byte_at_def slice_def slice_from_def Uint16_at_def)

lemma decoded_slice:
  "slice b lo hi = Decoded r \<longleftrightarrow> lo \<le> hi \<and> hi \<le> length b \<and> r = take (hi - lo) (drop lo b)"
  "slice_from b lo = Decoded r \<longleftrightarrow> lo \<le> length b \<and> r = drop lo b"
  by (auto simp: slice_def slice_from_def)

lemmas no_panic = bind_decoded_panics out_of_range decoded_slice

lemma Uint16_take [simp]: "Uint16 (take 2 b) = Uint16 b"
  by (simp add: Uint16_def)

lemma Uint16_at [simp]: "lo + 2 \<le> length b \<Longrightarrow> Uint16_at b lo = Decoded (Uint16 (drop lo b))"
  by (simp add: Uint16_at_def)

section \<open>Connections\<close>

text \<open>
  A connection is the sequence of the bytes that it will still deliver. A read with a buffer of \<open>k\<close>
  bytes returns at most \<open>k\<close> of them; \<open>n\<close> is the number of bytes that have arrived by then. A law of
  every wrapper that gives back bytes read ahead: nothing is lost, repeated or reordered.
\<close>

definition Conn_Read :: "nat \<Rightarrow> nat \<Rightarrow> bytes \<Rightarrow> bytes \<times> bytes" where
  "Conn_Read k n s = (take (min k n) s, drop (min k n) s)"

text \<open>\<^verbatim>\<open>io.ReadFull\<close>.\<close>

definition ReadFull :: "nat \<Rightarrow> bytes \<Rightarrow> (bytes \<times> bytes) option" where
  "ReadFull n s = (if length s < n then None else Some (take n s, drop n s))"

fun conn_reads :: "(nat \<Rightarrow> nat \<Rightarrow> 'c \<Rightarrow> bytes \<times> 'c) \<Rightarrow> (nat \<times> nat) list \<Rightarrow> 'c \<Rightarrow> bytes \<times> 'c" where
  "conn_reads rd [] c = ([], c)"
| "conn_reads rd ((k, n) # ks) c = (let (out, c') = rd k n c; (rest, c'') = conn_reads rd ks c' in (out @ rest, c''))"

locale connection =
  fixes rd :: "nat \<Rightarrow> nat \<Rightarrow> 'c \<Rightarrow> bytes \<times> 'c"
    and pending :: "'c \<Rightarrow> bytes"
  assumes read_keeps: "fst (rd k n c) @ pending (snd (rd k n c)) = pending c"
    and read_fits: "length (fst (rd k n c)) \<le> k"
    and read_progress: "0 < k \<Longrightarrow> 0 < n \<Longrightarrow> pending c \<noteq> [] \<Longrightarrow> fst (rd k n c) \<noteq> []"
begin

lemma reads_keep: "fst (conn_reads rd ks c) @ pending (snd (conn_reads rd ks c)) = pending c"
proof (induction ks arbitrary: c)
  case (Cons a ks)
  then show ?case using read_keeps [of "fst a" "snd a" c] by (cases a) (simp add: split_beta)
qed simp

lemma reads_all:
  assumes "\<forall>(k, n) \<in> set ks. 0 < k \<and> 0 < n" "length (pending c) \<le> length ks"
  shows "fst (conn_reads rd ks c) = pending c"
  using assms
proof (induction ks arbitrary: c)
  case Nil
  then show ?case by simp
next
  case (Cons a ks)
  obtain k n where a: "a = (k, n)" by force
  define r where "r = rd k n c"
  have keep: "pending c = fst r @ pending (snd r)" using read_keeps [of k n c] by (simp add: r_def)
  have "fst r \<noteq> [] \<or> pending c = []" using read_progress [of k n c] Cons.prems(1) a by (auto simp: r_def)
  then have "length (pending (snd r)) \<le> length ks"
    using keep Cons.prems(2) by (cases "fst r") auto
  with Cons.IH [of "snd r"] Cons.prems(1) have "fst (conn_reads rd ks (snd r)) = pending (snd r)" by simp
  then show ?case using keep a by (simp add: split_beta r_def)
qed

end

interpretation plain: connection Conn_Read "\<lambda>s. s"
  by unfold_locales (auto simp: Conn_Read_def)

end
