(* ===== verification/Gossip_Wire.thy ===== *)
theory Gossip_Wire
  imports Bytes
begin

text \<open>
  The wire format of the gossip protocol, \<^verbatim>\<open>internal/cluster/gossip_encoding.go\<close>. Where the code
  computes a slice bound in \<^verbatim>\<open>uint16\<close> the wrap-around is written out.
\<close>

section \<open>Messages\<close>

datatype MessageType =
    MsgPing | MsgAck | MsgPingReq | MsgSuspect | MsgAlive | MsgDead | MsgJoin | MsgLeave | MsgCompound
  | MsgUnknown char

fun MessageType_byte :: "MessageType \<Rightarrow> char" where
  "MessageType_byte MsgPing = char_of (1::nat)"
| "MessageType_byte MsgAck = char_of (2::nat)"
| "MessageType_byte MsgPingReq = char_of (3::nat)"
| "MessageType_byte MsgSuspect = char_of (4::nat)"
| "MessageType_byte MsgAlive = char_of (5::nat)"
| "MessageType_byte MsgDead = char_of (6::nat)"
| "MessageType_byte MsgJoin = char_of (7::nat)"
| "MessageType_byte MsgLeave = char_of (8::nat)"
| "MessageType_byte MsgCompound = char_of (9::nat)"
| "MessageType_byte (MsgUnknown c) = c"

definition byte_MessageType :: "char \<Rightarrow> MessageType" where
  "byte_MessageType c =
     (let n = of_char c :: nat
      in if n = 1 then MsgPing else if n = 2 then MsgAck else if n = 3 then MsgPingReq
         else if n = 4 then MsgSuspect else if n = 5 then MsgAlive else if n = 6 then MsgDead
         else if n = 7 then MsgJoin else if n = 8 then MsgLeave else if n = 9 then MsgCompound
         else MsgUnknown c)"

primrec MessageType_String :: "MessageType \<Rightarrow> string" where
  "MessageType_String MsgPing = ''PING''"
| "MessageType_String MsgAck = ''ACK''"
| "MessageType_String MsgPingReq = ''PING_REQ''"
| "MessageType_String MsgSuspect = ''SUSPECT''"
| "MessageType_String MsgAlive = ''ALIVE''"
| "MessageType_String MsgDead = ''DEAD''"
| "MessageType_String MsgJoin = ''JOIN''"
| "MessageType_String MsgLeave = ''LEAVE''"
| "MessageType_String MsgCompound = ''COMPOUND''"
| "MessageType_String (MsgUnknown c) = ''UNKNOWN''"

definition encodeUint16Length :: "nat \<Rightarrow> string option" where
  "encodeUint16Length n =
     (if n > 65535 then Some (''gossip: field length '' @ nat_dec n @ '' exceeds uint16 max (65535)'') else None)"

text \<open>A check of lengths before the encoding: the first one that does not fit is the error.\<close>

fun check_lengths :: "(string \<times> nat) list \<Rightarrow> string option" where
  "check_lengths [] = None"
| "check_lengths ((what, n) # ns) =
     (case encodeUint16Length n of
        Some err \<Rightarrow> Some (''gossip: '' @ what @ '': '' @ err)
      | None \<Rightarrow> check_lengths ns)"

definition encodeMessage :: "MessageType \<Rightarrow> bytes \<Rightarrow> string + bytes" where
  "encodeMessage msgType payload =
     (case encodeUint16Length (length payload) of
        Some err \<Rightarrow> Inl (''gossip: message payload too large: '' @ err)
      | None \<Rightarrow> Inr (MessageType_byte msgType # PutUint16 (length payload) @ payload))"

definition decodeMessage :: "bytes \<Rightarrow> (MessageType \<times> bytes \<times> bytes) decoded" where
  "decodeMessage data =
     (if length data < 3 then Malformed (''gossip: message too short: '' @ nat_dec (length data) @ '' bytes'')
      else
        let msgType = byte_MessageType (data ! 0); n = Uint16 (drop 1 data)
        in if n > length data - 3
           then Malformed (''gossip: message payload truncated: want '' @ nat_dec n @ '', have '' @ nat_dec (length data - 3))
           else bind_decoded (slice16 data 3 n) (\<lambda>payload.
             Decoded (msgType, payload, drop ((3 + n) mod 65536) data)))"

section \<open>Probes\<close>

definition probe_payload :: "32 word \<Rightarrow> string \<Rightarrow> string \<Rightarrow> bytes" where
  "probe_payload seqNo senderID targetID =
     PutUint32 seqNo @ PutUint16 (length senderID) @ senderID @ PutUint16 (length targetID) @ targetID"

definition encodePing :: "32 word \<Rightarrow> string \<Rightarrow> string \<Rightarrow> string + bytes" where
  "encodePing seqNo senderID targetID =
     (case check_lengths [(''ping senderID'', length senderID), (''ping targetID'', length targetID)] of
        Some err \<Rightarrow> Inl err
      | None \<Rightarrow> encodeMessage MsgPing (probe_payload seqNo senderID targetID))"

definition decodePing :: "bytes \<Rightarrow> (32 word \<times> string \<times> string) decoded" where
  "decodePing payload =
     (if length payload < 8 then Malformed ''gossip: ping payload too short''
      else
        let seqNo = Uint32 payload; senderLen = Uint16 (drop 4 payload)
        in if length payload < 6 + senderLen + 2 then Malformed ''gossip: ping payload truncated at sender''
           else bind_decoded (slice16 payload 6 senderLen) (\<lambda>senderID.
             let off = 6 + senderLen; targetLen = Uint16 (drop off payload)
             in if length payload < off + 2 + targetLen then Malformed ''gossip: ping payload truncated at target''
                else Decoded (seqNo, senderID, take targetLen (drop (off + 2) payload))))"

definition tagged_payload :: "32 word \<Rightarrow> string \<Rightarrow> bytes" where
  "tagged_payload w s = PutUint32 w @ PutUint16 (length s) @ s"

definition encodeAck :: "32 word \<Rightarrow> string \<Rightarrow> string + bytes" where
  "encodeAck seqNo senderID =
     (case check_lengths [(''ack senderID'', length senderID)] of
        Some err \<Rightarrow> Inl err
      | None \<Rightarrow> encodeMessage MsgAck (tagged_payload seqNo senderID))"

text \<open>Acknowledgements, suspicions and death notices are decoded alike; only the messages differ.\<close>

definition decode_tagged :: "string \<Rightarrow> bytes \<Rightarrow> (32 word \<times> string) decoded" where
  "decode_tagged what payload =
     (if length payload < 6 then Malformed (''gossip: '' @ what @ '' payload too short'')
      else
        let w = Uint32 payload; n = Uint16 (drop 4 payload)
        in if length payload < 6 + n then Malformed (''gossip: '' @ what @ '' payload truncated'')
           else bind_decoded (slice16 payload 6 n) (\<lambda>s. Decoded (w, s)))"

definition decodeAck :: "bytes \<Rightarrow> (32 word \<times> string) decoded" where
  "decodeAck = decode_tagged ''ack''"

definition encodePingReq :: "32 word \<Rightarrow> string \<Rightarrow> string \<Rightarrow> string + bytes" where
  "encodePingReq seqNo senderID targetID =
     (case check_lengths [(''ping_req senderID'', length senderID), (''ping_req targetID'', length targetID)] of
        Some err \<Rightarrow> Inl err
      | None \<Rightarrow> encodeMessage MsgPingReq (probe_payload seqNo senderID targetID))"

definition decodePingReq :: "bytes \<Rightarrow> (32 word \<times> string \<times> string) decoded" where
  "decodePingReq payload = decodePing payload"

definition encodeSuspect :: "32 word \<Rightarrow> string \<Rightarrow> string + bytes" where
  "encodeSuspect incarnation nodeID =
     (case check_lengths [(''suspect nodeID'', length nodeID)] of
        Some err \<Rightarrow> Inl err
      | None \<Rightarrow> encodeMessage MsgSuspect (tagged_payload incarnation nodeID))"

definition decodeSuspect :: "bytes \<Rightarrow> (32 word \<times> string) decoded" where
  "decodeSuspect = decode_tagged ''suspect''"

definition encodeDead :: "32 word \<Rightarrow> string \<Rightarrow> string + bytes" where
  "encodeDead incarnation nodeID =
     (case check_lengths [(''dead nodeID'', length nodeID)] of
        Some err \<Rightarrow> Inl err
      | None \<Rightarrow> encodeMessage MsgDead (tagged_payload incarnation nodeID))"

definition decodeDead :: "bytes \<Rightarrow> (32 word \<times> string) decoded" where
  "decodeDead payload = decodeSuspect payload"

section \<open>Node descriptions\<close>

type_synonym metadata = "(string, string) gomap"

definition encode_pair :: "string \<times> string \<Rightarrow> bytes" where
  "encode_pair kv = PutUint16 (length (fst kv)) @ fst kv @ PutUint16 (length (snd kv)) @ snd kv"

text \<open>
  The count of the metadata has an error text of its own, as the code has it. The quoting of a key
  in an error text (\<^verbatim>\<open>%q\<close>) is left out; no caller looks at the text.
\<close>

definition encodeNodePayload :: "32 word \<Rightarrow> string \<Rightarrow> string \<Rightarrow> int \<Rightarrow> metadata \<Rightarrow> string + bytes" where
  "encodeNodePayload incarnation nodeID address port md =
     (case check_lengths [(''node payload nodeID'', length nodeID), (''node payload address'', length address)] of
        Some err \<Rightarrow> Inl err
      | None \<Rightarrow>
          if encodeUint16Length (length md) \<noteq> None
          then Inl (''gossip: node payload metadata count '' @ nat_dec (length md) @ '' exceeds uint16 max'')
          else
            (case check_lengths (concat (map (\<lambda>(k, v). [(''node payload metadata key '' @ k, length k),
                                   (''node payload metadata value for key '' @ k, length v)]) md)) of
               Some err \<Rightarrow> Inl err
             | None \<Rightarrow>
                 Inr (PutUint32 incarnation @ PutUint16 (length nodeID) @ nodeID @ PutUint16 (length address) @ address @
                      PutUint16 (nat (port mod 65536)) @ PutUint16 (length md) @ concat (map encode_pair md))))"

primrec decode_meta :: "nat \<Rightarrow> bytes \<Rightarrow> nat \<Rightarrow> metadata \<Rightarrow> metadata decoded" where
  "decode_meta 0 payload off md = Decoded md"
| "decode_meta (Suc n) payload off md =
     (if length payload < off + 2 then Malformed ''gossip: node payload truncated at meta key len''
      else
        let kLen = Uint16 (drop off payload); off1 = off + 2
        in if length payload < off1 + kLen + 2 then Malformed ''gossip: node payload truncated at meta key''
           else
             let k = take kLen (drop off1 payload); off2 = off1 + kLen; vLen = Uint16 (drop off2 payload); off3 = off2 + 2
             in if length payload < off3 + vLen then Malformed ''gossip: node payload truncated at meta value''
                else decode_meta n payload (off3 + vLen) (AList.update k (take vLen (drop off3 payload)) md))"

type_synonym node_info = "32 word \<times> string \<times> string \<times> int \<times> metadata"

definition decodeNodePayload :: "bytes \<Rightarrow> node_info decoded" where
  "decodeNodePayload payload =
     (if length payload < 12 then Malformed ''gossip: node payload too short''
      else
        let incarnation = Uint32 payload; nodeIDLen = Uint16 (drop 4 payload)
        in if length payload < 6 + nodeIDLen + 2 then Malformed ''gossip: node payload truncated at nodeID''
           else bind_decoded (slice16 payload 6 nodeIDLen) (\<lambda>nodeID.
             let off = 6 + nodeIDLen; addrLen = Uint16 (drop off payload)
             in if length payload < off + 2 + addrLen + 2 + 2
                then Malformed ''gossip: node payload truncated at address''
                else
                  let address = take addrLen (drop (off + 2) payload); off1 = off + 2 + addrLen;
                      port = int (Uint16 (drop off1 payload)); off2 = off1 + 2
                  in if length payload < off2 + 2 then Malformed ''gossip: node payload truncated at meta count''
                     else bind_decoded (decode_meta (Uint16 (drop off2 payload)) payload (off2 + 2) []) (\<lambda>md.
                       Decoded (incarnation, nodeID, address, port, md))))"

definition encode_node :: "MessageType \<Rightarrow> 32 word \<Rightarrow> string \<Rightarrow> string \<Rightarrow> int \<Rightarrow> metadata \<Rightarrow> string + bytes" where
  "encode_node msgType incarnation nodeID address port md =
     (case encodeNodePayload incarnation nodeID address port md of
        Inl err \<Rightarrow> Inl err
      | Inr payload \<Rightarrow> encodeMessage msgType payload)"

definition encodeAlive :: "32 word \<Rightarrow> string \<Rightarrow> string \<Rightarrow> int \<Rightarrow> metadata \<Rightarrow> string + bytes" where
  "encodeAlive = encode_node MsgAlive"

definition decodeAlive :: "bytes \<Rightarrow> node_info decoded" where
  "decodeAlive payload = decodeNodePayload payload"

section \<open>Compound messages\<close>

definition encodeCompound :: "bytes list \<Rightarrow> string + bytes" where
  "encodeCompound messages =
     (case check_lengths ((''compound message count'', length messages) #
                          map (\<lambda>m. (''compound sub-message'', length m)) messages) of
        Some err \<Rightarrow> Inl err
      | None \<Rightarrow>
          encodeMessage MsgCompound
            (PutUint16 (length messages) @ concat (map (\<lambda>m. PutUint16 (length m) @ m) messages)))"

primrec decode_parts :: "nat \<Rightarrow> nat \<Rightarrow> bytes \<Rightarrow> nat \<Rightarrow> bytes list decoded" where
  "decode_parts 0 i payload off = Decoded []"
| "decode_parts (Suc n) i payload off =
     (if length payload < off + 2
      then Malformed (''gossip: compound truncated at message '' @ nat_dec i @ '' length'')
      else
        let msgLen = Uint16 (drop off payload); off1 = off + 2
        in if length payload < off1 + msgLen
           then Malformed (''gossip: compound truncated at message '' @ nat_dec i @ '' data'')
           else bind_decoded (decode_parts n (i + 1) payload (off1 + msgLen)) (\<lambda>ms.
             Decoded (take msgLen (drop off1 payload) # ms)))"

definition decodeCompound :: "bytes \<Rightarrow> bytes list decoded" where
  "decodeCompound payload =
     (if length payload < 2 then Malformed ''gossip: compound payload too short''
      else decode_parts (Uint16 payload) 0 payload 2)"

section \<open>Round trips\<close>

lemma encodeUint16Length_None [simp]: "encodeUint16Length n = None \<longleftrightarrow> n < 65536"
  by (auto simp: encodeUint16Length_def)

lemma check_lengths_None [simp]: "check_lengths ns = None \<longleftrightarrow> (\<forall>(w, n) \<in> set ns. n < 65536)"
  by (induction ns rule: check_lengths.induct) (auto simp: encodeUint16Length_def)

lemma encodeMessage_ok:
  "encodeMessage t p = Inr b \<longleftrightarrow> length p < 65536 \<and> b = MessageType_byte t # PutUint16 (length p) @ p"
  by (auto simp: encodeMessage_def encodeUint16Length_def)

definition known :: "MessageType \<Rightarrow> bool" where
  "known t = (case t of MsgUnknown c \<Rightarrow> False | _ \<Rightarrow> True)"

lemma byte_MessageType_byte: "known t \<Longrightarrow> byte_MessageType (MessageType_byte t) = t"
  by (cases t) (simp_all add: known_def byte_MessageType_def)



lemma decodeMessage_encode:
  assumes "encodeMessage t p = Inr b" and "known t" and "length p < 65533"
  shows "decodeMessage (b @ rest) = Decoded (t, p, rest)"
proof -
  have b: "b = MessageType_byte t # PutUint16 (length p) @ p" using assms(1) by (simp add: encodeMessage_ok)
  have 3: "drop 3 (b @ rest) = p @ rest" by (simp add: b numeral_3_eq_3 PutUint16_def)
  have n: "Uint16 (drop 1 (b @ rest)) = length p" using assms(3) by (simp add: b)
  have l: "length (b @ rest) = 3 + length p + length rest" by (simp add: b)
  have "slice16 (b @ rest) 3 (length p) = Decoded p"
    using assms(3) l 3 by (subst slice16_take) simp_all
  moreover have "drop ((3 + length p) mod 65536) (b @ rest) = rest"
  proof -
    have "drop (3 + length p) (b @ rest) = drop (length p) (drop 3 (b @ rest))" by (simp only: drop_drop add.commute)
    also have "\<dots> = rest" by (simp only: 3) simp
    finally show ?thesis using assms(3) by (simp only: mod_less)
  qed
  ultimately show ?thesis
    using n l byte_MessageType_byte [OF assms(2)] by (simp add: decodeMessage_def Let_def b)
qed


lemma drop_Put [simp]:
  "drop 2 (PutUint16 n @ xs) = xs" "drop 4 (PutUint32 w @ xs) = xs" "drop 6 (PutUint32 w @ PutUint16 n @ xs) = xs"
  by (simp_all add: PutUint16_def PutUint32_def)

lemma drop_6: "drop (6 + n) (PutUint32 w @ PutUint16 k @ xs) = drop n xs"
  by (metis add.commute drop_Put(3) drop_drop)

text \<open>A field with its length, read at an offset.\<close>

lemma drop_field:
  assumes "drop off b = PutUint16 (length s) @ s @ t" and "length s < 65536"
  shows "Uint16 (drop off b) = length s" "take (length s) (drop (off + 2) b) = s"
    "drop (off + 2 + length s) b = t" "length b = off + 2 + length s + length t"
proof -
  have 2: "drop (off + 2) b = s @ t" by (metis assms(1) add.commute drop_Put(1) drop_drop)
  show "Uint16 (drop off b) = length s" unfolding assms(1) using assms(2) by simp
  show "take (length s) (drop (off + 2) b) = s" unfolding 2 by simp
  show "drop (off + 2 + length s) b = t" by (metis 2 add.commute append_eq_conv_conj drop_drop)
  have "length (drop off b) = 2 + length s + length t" unfolding assms(1) by simp
  then show "length b = off + 2 + length s + length t" by simp
qed

lemma decode_tagged_payload:
  assumes "length s < 65530"
  shows "decode_tagged what (tagged_payload w s) = Decoded (w, s)"
proof -
  let ?b = "tagged_payload w s"
  have l: "length ?b = 6 + length s" by (simp add: tagged_payload_def)
  have "slice16 ?b 6 (length s) = Decoded s"
    using assms l by (subst slice16_take) (simp_all add: tagged_payload_def)
  moreover have "Uint32 ?b = w" "Uint16 (drop 4 ?b) = length s"
    using assms by (simp_all add: tagged_payload_def)
  ultimately show ?thesis using l by (simp add: decode_tagged_def Let_def)
qed

lemma decodePing_payload:
  assumes "length s + length t < 65528"
  shows "decodePing (probe_payload w s t) = Decoded (w, s, t)"
proof -
  let ?b = "probe_payload w s t"
  have l: "length ?b = 8 + length s + length t" by (simp add: probe_payload_def)
  have "slice16 ?b 6 (length s) = Decoded s"
    using assms l by (subst slice16_take) (simp_all add: probe_payload_def)
  moreover have "Uint32 ?b = w" "Uint16 (drop 4 ?b) = length s"
    using assms by (simp_all add: probe_payload_def)
  moreover have o: "drop (6 + length s) ?b = PutUint16 (length t) @ t"
    by (simp add: probe_payload_def drop_6)
  then have "Uint16 (drop (6 + length s) ?b) = length t" using assms Uint16_Put [of "length t" t] by simp
  moreover have "drop (6 + length s + 2) ?b = t"
    by (metis o add.commute drop_drop drop_Put(1))
  ultimately show ?thesis using l by (simp add: decodePing_def Let_def)
qed

text \<open>The metadata of a node, decoded after some prefix.\<close>

lemma decode_meta_pair:
  assumes "drop off b = encode_pair (k, v) @ t" and "length k < 65536" and "length v < 65536"
  shows "decode_meta (Suc n) b off acc = decode_meta n b (off + length (encode_pair (k, v))) (AList.update k v acc)"
    and "drop (off + length (encode_pair (k, v))) b = t"
proof -
  have "drop off b = PutUint16 (length k) @ k @ (PutUint16 (length v) @ v @ t)"
    using assms(1) by (simp add: encode_pair_def)
  note K = drop_field [OF this assms(2)]
  note V = drop_field [OF K(3) assms(3)]
  have l: "off + length (encode_pair (k, v)) = off + 2 + length k + 2 + length v" by (simp add: encode_pair_def)
  show "decode_meta (Suc n) b off acc = decode_meta n b (off + length (encode_pair (k, v))) (AList.update k v acc)"
    unfolding decode_meta.simps Let_def K(1) V(1) K(2) V(2) l using V(4) by (simp add: V(2))
  show "drop (off + length (encode_pair (k, v))) b = t" unfolding l by (rule V(3))
qed

lemma decode_meta_pairs:
  assumes "\<forall>(k, v) \<in> set md. length k < 65536 \<and> length v < 65536" and "drop off b = concat (map encode_pair md)"
  shows "decode_meta (length md) b off acc = Decoded (foldl (\<lambda>m (k, v). AList.update k v m) acc md)"
  using assms
proof (induction md arbitrary: off acc)
  case (Cons kv md)
  obtain k v where kv: "kv = (k, v)" by (cases kv)
  have "drop off b = encode_pair (k, v) @ concat (map encode_pair md)" using Cons.prems(2) by (simp add: kv)
  note step = decode_meta_pair [OF this]
  show ?case
    using Cons.prems(1) step(1) [of "length md" acc] Cons.IH [OF _ step(2)] by (simp add: kv)
qed simp

lemma foldl_update_fresh:
  "distinct (map fst md) \<Longrightarrow> fst ` set md \<inter> fst ` set acc = {} \<Longrightarrow>
   foldl (\<lambda>m (k, v). AList.update k v m) acc md = acc @ md"
  by (induction md arbitrary: acc) (auto simp: update_new_append)

lemma decodeNodePayload_encode:
  assumes "encodeNodePayload inc i a port md = Inr b" and "distinct (map fst md)" and "0 \<le> port" "port < 65536"
    and "length b < 65536"
  shows "decodeNodePayload b = Decoded (inc, i, a, port, md)"
proof -
  have len: "length i < 65536" "length a < 65536" "length md < 65536"
    and mdl: "\<forall>(k, v) \<in> set md. length k < 65536 \<and> length v < 65536"
    and b: "b = PutUint32 inc @ PutUint16 (length i) @ i @ PutUint16 (length a) @ a @
      PutUint16 (nat (port mod 65536)) @ PutUint16 (length md) @ concat (map encode_pair md)"
    using assms(1) by (auto simp: encodeNodePayload_def split: option.splits if_splits)
  let ?m = "concat (map encode_pair md)" and ?p = "nat port"
  have 4: "drop 4 b = PutUint16 (length i) @ i @ (PutUint16 (length a) @ a @ (PutUint16 ?p @ PutUint16 (length md) @ ?m))"
    unfolding b using assms(3,4) by simp
  note I = drop_field [OF 4 len(1), simplified]
  have off: "drop (6 + length i) b = PutUint16 (length a) @ a @ (PutUint16 ?p @ PutUint16 (length md) @ ?m)"
    using I(3) by simp
  note A = drop_field [OF off len(2)]
  have P: "Uint16 (drop (6 + length i + 2 + length a) b) = ?p"
    unfolding A(3) using assms(3,4) by (intro Uint16_Put) linarith
  have mc: "drop (6 + length i + 2 + length a + 2) b = PutUint16 (length md) @ ?m"
    by (metis A(3) add.commute drop_Put(1) drop_drop)
  have M: "Uint16 (drop (6 + length i + 2 + length a + 2) b) = length md" unfolding mc using len(3) by simp
  have d: "drop (6 + length i + 2 + length a + 2 + 2) b = ?m"
    by (metis mc add.commute drop_Put(1) drop_drop)
  have md: "decode_meta (length md) b (6 + length i + 2 + length a + 2 + 2) [] = Decoded md"
    using decode_meta_pairs [OF mdl d, of "[]"] foldl_update_fresh [of md "[]"] assms(2) by simp
  have l: "length b = 12 + length i + length a + length ?m" unfolding b by simp
  have sl: "slice16 b 6 (length i) = Decoded i"
    using l assms(5) I(2) by (subst slice16_take) simp_all
  have u: "Uint32 b = inc" unfolding b by simp
  have lts: "\<not> length b < 12" "\<not> length b < 6 + length i + 2" "\<not> length b < 6 + length i + 2 + length a + 2 + 2"
    using l by simp_all
  show ?thesis
    unfolding decodeNodePayload_def Let_def I(1) sl bind_decoded.simps A(1) A(2) P M md u
    using lts assms(3) by simp
qed

lemma decode_parts_concat:
  assumes "\<forall>m \<in> set ms. length m < 65536" and "drop off b = concat (map (\<lambda>m. PutUint16 (length m) @ m) ms)"
  shows "decode_parts (length ms) i b off = Decoded ms"
  using assms
proof (induction ms arbitrary: off i)
  case (Cons m ms)
  let ?t = "concat (map (\<lambda>m. PutUint16 (length m) @ m) ms)"
  have d: "drop off b = PutUint16 (length m) @ m @ ?t" using Cons.prems(2) by simp
  have l: "length m < 65536" using Cons.prems(1) by simp
  note f = drop_field [OF d l]
  have "decode_parts (length ms) (i + 1) b (off + 2 + length m) = Decoded ms"
    using Cons.prems(1) f(3) by (intro Cons.IH) simp_all
  then show ?case unfolding list.size(4) add_Suc_right add_0_right decode_parts.simps Let_def f(1) f(2) using f(4) by simp
qed simp

lemma decodeCompound_encode:
  assumes "encodeCompound ms = Inr b" and "length b < 65536"
  shows "\<exists>p. decodeMessage (b @ rest) = Decoded (MsgCompound, p, rest) \<and> decodeCompound p = Decoded ms"
proof -
  define p where "p = PutUint16 (length ms) @ concat (map (\<lambda>m. PutUint16 (length m) @ m) ms)"
  have e: "encodeMessage MsgCompound p = Inr b" and len: "length ms < 65536" "\<forall>m \<in> set ms. length m < 65536"
    using assms(1) by (auto simp: encodeCompound_def p_def split: option.splits)
  have "length p < 65533" using e assms(2) by (simp add: encodeMessage_ok)
  then have "decodeMessage (b @ rest) = Decoded (MsgCompound, p, rest)"
    using e by (intro decodeMessage_encode) (simp_all add: known_def)
  moreover have "Uint16 p = length ms" unfolding p_def using len(1) by simp
  moreover have "decode_parts (length ms) 0 p 2 = Decoded ms"
    using len(2) by (intro decode_parts_concat) (simp_all add: p_def)
  moreover have "2 \<le> length p" by (simp add: p_def)
  ultimately show ?thesis by (auto simp: decodeCompound_def)
qed

section \<open>Properties\<close>

text \<open>
  The messages of the protocol, sent by the encoders and read by the decoder that the dispatcher
  chooses for their type.
\<close>

datatype wire_msg =
    Ping "32 word" string string
  | Ack "32 word" string
  | PingReq "32 word" string string
  | Suspect "32 word" string
  | Alive "32 word" string string int metadata
  | Dead "32 word" string
  | Join "32 word" string string int metadata
  | Leave "32 word" string string int metadata
  | Compound "bytes list"

fun encode_wire :: "wire_msg \<Rightarrow> string + bytes" where
  "encode_wire (Ping q s t) = encodePing q s t"
| "encode_wire (Ack q s) = encodeAck q s"
| "encode_wire (PingReq q s t) = encodePingReq q s t"
| "encode_wire (Suspect i n) = encodeSuspect i n"
| "encode_wire (Alive i n a p md) = encodeAlive i n a p md"
| "encode_wire (Dead i n) = encodeDead i n"
| "encode_wire (Join i n a p md) = encode_node MsgJoin i n a p md"
| "encode_wire (Leave i n a p md) = encode_node MsgLeave i n a p md"
| "encode_wire (Compound ms) = encodeCompound ms"

definition decode_payload :: "MessageType \<Rightarrow> bytes \<Rightarrow> wire_msg decoded" where
  "decode_payload t p =
     (case t of
        MsgPing \<Rightarrow> bind_decoded (decodePing p) (\<lambda>(q, s, t). Decoded (Ping q s t))
      | MsgAck \<Rightarrow> bind_decoded (decodeAck p) (\<lambda>(q, s). Decoded (Ack q s))
      | MsgPingReq \<Rightarrow> bind_decoded (decodePingReq p) (\<lambda>(q, s, t). Decoded (PingReq q s t))
      | MsgSuspect \<Rightarrow> bind_decoded (decodeSuspect p) (\<lambda>(i, n). Decoded (Suspect i n))
      | MsgAlive \<Rightarrow> bind_decoded (decodeAlive p) (\<lambda>(i, n, a, q, md). Decoded (Alive i n a q md))
      | MsgDead \<Rightarrow> bind_decoded (decodeDead p) (\<lambda>(i, n). Decoded (Dead i n))
      | MsgJoin \<Rightarrow> bind_decoded (decodeNodePayload p) (\<lambda>(i, n, a, q, md). Decoded (Join i n a q md))
      | MsgLeave \<Rightarrow> bind_decoded (decodeNodePayload p) (\<lambda>(i, n, a, q, md). Decoded (Leave i n a q md))
      | MsgCompound \<Rightarrow> bind_decoded (decodeCompound p) (\<lambda>ms. Decoded (Compound ms))
      | MsgUnknown c \<Rightarrow> Malformed ''unknown type'')"

definition decode_wire :: "bytes \<Rightarrow> (wire_msg \<times> bytes) decoded" where
  "decode_wire data =
     bind_decoded (decodeMessage data) (\<lambda>(t, p, rest). bind_decoded (decode_payload t p) (\<lambda>m. Decoded (m, rest)))"

fun wire_ok :: "wire_msg \<Rightarrow> bool" where
  "wire_ok (Alive i n a p md) = (0 \<le> p \<and> p < 65536 \<and> distinct (map fst md))"
| "wire_ok (Join i n a p md) = (0 \<le> p \<and> p < 65536 \<and> distinct (map fst md))"
| "wire_ok (Leave i n a p md) = (0 \<le> p \<and> p < 65536 \<and> distinct (map fst md))"
| "wire_ok _ = True"

lemma decode_wire_encode:
  assumes "encodeMessage t p = Inr b" and "known t" and "length b < 65536" and "decode_payload t p = Decoded m"
  shows "decode_wire (b @ rest) = Decoded (m, rest)"
proof -
  have "length p < 65533" using assms(1,3) by (simp add: encodeMessage_ok)
  with assms show ?thesis by (simp add: decode_wire_def decodeMessage_encode)
qed

lemma encode_node_ok:
  assumes "encode_node t i n a p md = Inr b" and "length b < 65536" and "0 \<le> p" "p < 65536" "distinct (map fst md)"
  shows "\<exists>q. encodeMessage t q = Inr b \<and> decodeNodePayload q = Decoded (i, n, a, p, md)"
proof -
  obtain q where q: "encodeNodePayload i n a p md = Inr q" "encodeMessage t q = Inr b"
    using assms(1) by (auto simp: encode_node_def split: sum.splits)
  have "length q < 65536" using q(2) assms(2) by (simp add: encodeMessage_ok)
  with decodeNodePayload_encode [OF q(1)] assms q(2) show ?thesis by blast
qed

lemma tagged_ok:
  assumes "encodeMessage t (tagged_payload w s) = Inr b" and "length b < 65536"
  shows "decode_tagged what (tagged_payload w s) = Decoded (w, s)"
  using assms by (intro decode_tagged_payload) (simp add: encodeMessage_ok tagged_payload_def)

lemma probe_ok:
  assumes "encodeMessage t (probe_payload w s r) = Inr b" and "length b < 65536"
  shows "decodePing (probe_payload w s r) = Decoded (w, s, r)"
  using assms by (intro decodePing_payload) (simp add: encodeMessage_ok probe_payload_def)

lemmas wire_codecs = encodePing_def encodeAck_def encodePingReq_def encodeSuspect_def encodeAlive_def encodeDead_def
  decodeAck_def decodePingReq_def decodeSuspect_def decodeAlive_def decodeDead_def

text \<open>
  C25. Every message of the protocol that an encoder produces, compound messages and node descriptions
  with metadata included, is read back by the dispatcher's decoder exactly, also when more
  messages follow it in the same datagram, which are returned as the remaining bytes; the bound
  of 65535 bytes on the message is the largest datagram.
\<close>

theorem Gossip_wire_roundtrip:
  assumes "encode_wire m = Inr b" and "wire_ok m" and "length b < 65536"
  shows "decode_wire (b @ rest) = Decoded (m, rest)"
proof -
  have "\<exists>t p. known t \<and> encodeMessage t p = Inr b \<and> decode_payload t p = Decoded m"
  proof (cases m)
    case (Compound ms)
    obtain p where p: "decodeMessage b = Decoded (MsgCompound, p, [])" "decodeCompound p = Decoded ms"
      using decodeCompound_encode [of ms b "[]"] assms Compound by auto
    obtain q where q: "encodeMessage MsgCompound q = Inr b"
      using assms(1) Compound by (auto simp: encodeCompound_def split: option.splits)
    then have "q = p"
      using decodeMessage_encode [OF q, of "[]"] p(1) assms(3) by (simp add: known_def encodeMessage_ok)
    with p(2) q Compound show ?thesis by (intro exI [of _ MsgCompound] exI [of _ p]) (simp add: known_def decode_payload_def)
  next
    case (Alive i n a p md)
    with encode_node_ok [of MsgAlive i n a p md b] assms show ?thesis
      by (intro exI [of _ MsgAlive]) (auto simp: known_def decode_payload_def wire_codecs)
  next
    case (Join i n a p md)
    with encode_node_ok [of MsgJoin i n a p md b] assms show ?thesis
      by (intro exI [of _ MsgJoin]) (auto simp: known_def decode_payload_def)
  next
    case (Leave i n a p md)
    with encode_node_ok [of MsgLeave i n a p md b] assms show ?thesis
      by (intro exI [of _ MsgLeave]) (auto simp: known_def decode_payload_def)
  next
    case (Ping q s t)
    with assms probe_ok [of MsgPing q s t b] show ?thesis
      by (intro exI [of _ MsgPing] exI [of _ "probe_payload q s t"])
        (auto simp: known_def decode_payload_def wire_codecs split: option.splits)
  next
    case (PingReq q s t)
    with assms probe_ok [of MsgPingReq q s t b] show ?thesis
      by (intro exI [of _ MsgPingReq] exI [of _ "probe_payload q s t"])
        (auto simp: known_def decode_payload_def wire_codecs split: option.splits)
  next
    case (Ack q s)
    with assms tagged_ok [of MsgAck q s b] show ?thesis
      by (intro exI [of _ MsgAck] exI [of _ "tagged_payload q s"])
        (auto simp: known_def decode_payload_def wire_codecs split: option.splits)
  next
    case (Suspect q s)
    with assms tagged_ok [of MsgSuspect q s b] show ?thesis
      by (intro exI [of _ MsgSuspect] exI [of _ "tagged_payload q s"])
        (auto simp: known_def decode_payload_def wire_codecs split: option.splits)
  next
    case (Dead q s)
    with assms tagged_ok [of MsgDead q s b] show ?thesis
      by (intro exI [of _ MsgDead] exI [of _ "tagged_payload q s"])
        (auto simp: known_def decode_payload_def wire_codecs split: option.splits)
  qed
  then show ?thesis using decode_wire_encode assms(3) by blast
qed




lemma decode_meta_no_panic: "decode_meta n p off md \<noteq> Panics"
  by (induction n arbitrary: off md) (auto simp: Let_def)

lemma decode_parts_no_panic: "decode_parts n i p off \<noteq> Panics"
  by (induction n arbitrary: off i) (auto simp: Let_def bind_decoded_panics)

lemma slice16_6_no_panic:
  assumes "length p < 65536" and "6 + Uint16 b \<le> length p"
  shows "slice16 p 6 (Uint16 b) \<noteq> Panics"
  using assms slice16_panics [OF assms(2)] Uint16_less [of b] by simp

lemma decode_payload_no_panic:
  assumes "length p < 65536"
  shows "decode_payload t p \<noteq> Panics"
proof -
  note sl = slice16_6_no_panic [OF assms, of "drop 4 p"]
  have "decodePing p \<noteq> Panics" "decode_tagged w p \<noteq> Panics" for w
    using sl by (auto simp: decodePing_def decode_tagged_def Let_def bind_decoded_panics)
  moreover have "decodeNodePayload p \<noteq> Panics"
    using sl by (auto simp: decodeNodePayload_def Let_def bind_decoded_panics decode_meta_no_panic)
  moreover have "decodeCompound p \<noteq> Panics"
    by (simp add: decodeCompound_def decode_parts_no_panic)
  ultimately show ?thesis
    by (auto simp: decode_payload_def wire_codecs bind_decoded_panics split: MessageType.split)
qed

lemma decodeMessage_panics:
  "decodeMessage data = Panics \<longleftrightarrow> 65536 \<le> length data \<and> 65533 \<le> Uint16 (drop 1 data) \<and> Uint16 (drop 1 data) + 3 \<le> length data"
proof (cases "length data < 3 \<or> Uint16 (drop 1 data) > length data - 3")
  case True
  then show ?thesis by (auto simp: decodeMessage_def Let_def)
next
  case False
  then have "3 + Uint16 (drop 1 data) \<le> length data" by linarith
  from slice16_panics [OF this _ Uint16_less] False show ?thesis
    by (auto simp: decodeMessage_def Let_def bind_decoded_panics)
qed

lemma decodeMessage_size:
  assumes "decodeMessage data = Decoded (t, p, rest)"
  shows "length data = 3 + length p + length rest" and "length p < 65533"
proof -
  let ?n = "Uint16 (drop 1 data)"
  have n: "3 \<le> length data" "?n \<le> length data - 3" using assms by (auto simp: decodeMessage_def Let_def split: if_splits)
  then have l: "3 + ?n \<le> length data" by simp
  have "\<not> 65533 \<le> ?n" using assms decodeMessage_panics [of data] l by auto
  moreover from this have "slice16 data 3 ?n = Decoded (take ?n (drop 3 data))" using l by (intro slice16_take) auto
  ultimately have "p = take ?n (drop 3 data)" "rest = drop (3 + ?n) data"
    using assms n by (auto simp: decodeMessage_def Let_def split: if_splits)
  with l \<open>\<not> 65533 \<le> ?n\<close> show "length data = 3 + length p + length rest" "length p < 65533" by auto
qed

text \<open>
  The decoders are total on everything a datagram can carry: whatever the bytes, reading a message
  of at most 65535 bytes yields a message or an error. A longer input, which the TCP listener
  accepts up to 10 MB, makes the slice expression of \<^verbatim>\<open>decodeMessage\<close> panic exactly when its length
  field is at least 65533, because the upper bound \<^verbatim>\<open>3+length\<close> is computed in \<^verbatim>\<open>uint16\<close>.
\<close>

theorem Gossip_wire_panics:
  "decode_wire data = Panics \<longleftrightarrow>
   65536 \<le> length data \<and> 65533 \<le> Uint16 (drop 1 data) \<and> Uint16 (drop 1 data) + 3 \<le> length data"
proof -
  have "decode_wire data = Panics \<longleftrightarrow> decodeMessage data = Panics"
  proof (cases "decodeMessage data")
    case (Decoded m)
    obtain t p rest where m: "m = (t, p, rest)" by (cases m)
    have "length p < 65536" using decodeMessage_size(2) [of data t p rest] Decoded m by simp
    with Decoded m decode_payload_no_panic [of p t] show ?thesis by (simp add: decode_wire_def bind_decoded_panics)
  qed (simp_all add: decode_wire_def)
  then show ?thesis by (simp only: decodeMessage_panics)
qed

definition example_alive :: wire_msg where
  "example_alive = Alive 7 ''n1'' ''10.0.0.1'' 7946 [(''zone'', ''eu''), (''v'', ''1'')]"

theorem Gossip_wire_roundtrip_witness:
  "\<exists>b. encode_wire example_alive = Inr b \<and> decode_wire (b @ ''xyz'') = Decoded (example_alive, ''xyz'')"
proof -
  have ok: "wire_ok example_alive" by (simp add: example_alive_def)
  have "\<exists>b. encode_wire example_alive = Inr b \<and> length b < 65536"
    by (simp add: example_alive_def encodeAlive_def encode_node_def encodeNodePayload_def encodeMessage_ok
        encodeUint16Length_def encode_pair_def)
  then obtain b where b: "encode_wire example_alive = Inr b" "length b < 65536" by blast
  from Gossip_wire_roundtrip [OF b(1) ok b(2)] b(1) show ?thesis by blast
qed

end
