(* ===== verification/Gossip.thy ===== *)
theory Gossip
  imports Gossip_Wire Http
begin

text \<open>
  The SWIM membership protocol of \<^verbatim>\<open>internal/cluster/gossip*.go\<close>: the member table, the handlers of
  the received messages, probing with its direct and indirect phase, suspicion and its time-out,
  and the queue of piggybacked broadcasts.

  A goroutine that waits for an acknowledgement is an entry of the table of pending
  acknowledgements: what it does next is an operation on the arrival of the acknowledgement and
  another one on the time-out. The emitted events and the datagrams sent are kept in the state as
  lists. The clock, the outcome of a send, the order in which \<^verbatim>\<open>sort.Slice\<close> leaves the broadcasts and
  the choices of \<^verbatim>\<open>math/rand\<close> are parameters. A panic is \<open>None\<close>.
\<close>

section \<open>State\<close>

datatype NodeState = StateAlive | StateSuspect | StateDead | StateLeft

primrec NodeState_String :: "NodeState \<Rightarrow> string" where
  "NodeState_String StateAlive = ''alive''"
| "NodeState_String StateSuspect = ''suspect''"
| "NodeState_String StateDead = ''dead''"
| "NodeState_String StateLeft = ''left''"

record GossipConfig =
  gc_BindAddr :: string
  gc_BindPort :: int
  gc_ProbeInterval :: int
  gc_ProbeTimeout :: int
  gc_IndirectChecks :: int
  gc_SuspicionTimeout :: int
  gc_GossipInterval :: int
  gc_GossipNodes :: int
  gc_RetransmitMult :: int
  gc_MaxMessageSize :: int
  gc_TCPTimeout :: int
  gc_DeadNodeReapInterval :: int
  gc_NodeID :: string

definition DefaultGossipConfig :: GossipConfig where
  "DefaultGossipConfig =
     \<lparr> gc_BindAddr = ''0.0.0.0'', gc_BindPort = 7946, gc_ProbeInterval = 1000000000, gc_ProbeTimeout = 500000000,
       gc_IndirectChecks = 3, gc_SuspicionTimeout = 5000000000, gc_GossipInterval = 200000000, gc_GossipNodes = 3,
       gc_RetransmitMult = 4, gc_MaxMessageSize = 1400, gc_TCPTimeout = 10000000000,
       gc_DeadNodeReapInterval = 30000000000, gc_NodeID = '''' \<rparr>"

definition GossipConfig_Validate :: "GossipConfig \<Rightarrow> string option" where
  "GossipConfig_Validate c =
     (if gc_BindPort c \<le> 0 \<or> gc_BindPort c > 65535 then Some (''gossip: invalid bind port: '' @ int_dec (gc_BindPort c))
      else if gc_ProbeInterval c \<le> 0 then Some ''gossip: probe interval must be positive''
      else if gc_ProbeTimeout c \<le> 0 then Some ''gossip: probe timeout must be positive''
      else if gc_IndirectChecks c < 0 then Some ''gossip: indirect checks must be non-negative''
      else if gc_SuspicionTimeout c \<le> 0 then Some ''gossip: suspicion timeout must be positive''
      else if gc_MaxMessageSize c \<le> 0 then Some ''gossip: max message size must be positive''
      else None)"

record GossipNode =
  gn_ID :: string
  gn_Address :: string
  gn_Port :: int
  gn_State :: NodeState
  gn_Incarnation :: "32 word"
  gn_LastSeen :: int
  gn_Metadata :: metadata

definition GossipNode_Addr :: "GossipNode \<Rightarrow> string" where
  "GossipNode_Addr n = gn_Address n @ '':'' @ int_dec (gn_Port n)"

datatype EventType = EventJoin | EventLeave | EventUpdate

record broadcast =
  bc_msg :: bytes
  bc_retransmit :: int
  bc_created :: int

text \<open>What the goroutine behind a pending acknowledgement waits for.\<close>

datatype waiter =
    DirectProbe GossipNode
  | IndirectProbe GossipNode
  | Relay (relay_from: string) (relay_seqNo: "32 word") (relay_target: string)
  | NoWaiter

datatype channel = UDP | TCP

record Gossip =
  g_config :: GossipConfig
  g_localNode :: GossipNode
  g_members :: "(string, GossipNode) gomap"
  g_seqNo :: "32 word"
  g_ackHandlers :: "(32 word, waiter) gomap"
  g_broadcasts :: "broadcast list"
  g_suspicionTimers :: "string list"
  g_events :: "(EventType \<times> GossipNode) list"
  g_sent :: "(channel \<times> string \<times> bytes) list"

record genv =
  ge_now :: int
  ge_sort :: "broadcast list \<Rightarrow> broadcast list"
  ge_udp :: "string \<Rightarrow> bool"

abbreviation g_ID :: "Gossip \<Rightarrow> string" where
  "g_ID g \<equiv> gn_ID (g_localNode g)"

definition NewGossip :: "int \<Rightarrow> GossipConfig option \<Rightarrow> string + Gossip" where
  "NewGossip now config =
     (let c = (case config of None \<Rightarrow> DefaultGossipConfig | Some c \<Rightarrow> c)
      in case GossipConfig_Validate c of
           Some err \<Rightarrow> Inl err
         | None \<Rightarrow>
             (let nodeID = (if gc_NodeID c = '''' then gc_BindAddr c @ '':'' @ int_dec (gc_BindPort c) else gc_NodeID c)
              in Inr \<lparr> g_config = c,
                   g_localNode = \<lparr> gn_ID = nodeID, gn_Address = gc_BindAddr c, gn_Port = gc_BindPort c,
                     gn_State = StateAlive, gn_Incarnation = 0, gn_LastSeen = now, gn_Metadata = [] \<rparr>,
                   g_members = [], g_seqNo = 0, g_ackHandlers = [], g_broadcasts = [], g_suspicionTimers = [],
                   g_events = [], g_sent = [] \<rparr>))"

section \<open>Events, timers and broadcasts\<close>

definition emitEvent :: "EventType \<Rightarrow> GossipNode \<Rightarrow> Gossip \<Rightarrow> Gossip" where
  "emitEvent e n g = g\<lparr>g_events := g_events g @ [(e, n)]\<rparr>"

definition startSuspicion :: "string \<Rightarrow> Gossip \<Rightarrow> Gossip" where
  "startSuspicion nodeID g = g\<lparr>g_suspicionTimers := List.insert nodeID (g_suspicionTimers g)\<rparr>"

definition cancelSuspicion :: "string \<Rightarrow> Gossip \<Rightarrow> Gossip" where
  "cancelSuspicion nodeID g = g\<lparr>g_suspicionTimers := removeAll nodeID (g_suspicionTimers g)\<rparr>"

definition setMember :: "GossipNode \<Rightarrow> string \<Rightarrow> Gossip \<Rightarrow> Gossip" where
  "setMember n nodeID g = g\<lparr>g_members := AList.update nodeID n (g_members g)\<rparr>"

definition sendUDP :: "genv \<Rightarrow> string \<Rightarrow> bytes \<Rightarrow> Gossip \<Rightarrow> Gossip" where
  "sendUDP env addr msg g = (if ge_udp env addr then g\<lparr>g_sent := g_sent g @ [(UDP, addr, msg)]\<rparr> else g)"

definition sendTCP :: "string \<Rightarrow> bytes \<Rightarrow> Gossip \<Rightarrow> Gossip" where
  "sendTCP addr msg g = g\<lparr>g_sent := g_sent g @ [(TCP, addr, msg)]\<rparr>"

definition nextSeqNo :: "Gossip \<Rightarrow> 32 word \<times> Gossip" where
  "nextSeqNo g = (g_seqNo g + 1, g\<lparr>g_seqNo := g_seqNo g + 1\<rparr>)"

text \<open>
  \<^verbatim>\<open>int(math.Ceil(math.Log2(float64(n))))\<close>: \<^verbatim>\<open>math.Log2\<close> is exact on powers of two and far from an
  integer elsewhere for any number of members that fits in memory.
\<close>

fun ceil_log2 :: "nat \<Rightarrow> nat" where
  "ceil_log2 n = (if n \<le> 1 then 0 else Suc (ceil_log2 ((n + 1) div 2)))"

declare ceil_log2.simps [simp del]

definition retransmitLimit :: "Gossip \<Rightarrow> int" where
  "retransmitLimit g = gc_RetransmitMult (g_config g) * int (ceil_log2 (length (g_members g) + 2))"

definition queueBroadcast :: "genv \<Rightarrow> bytes \<Rightarrow> Gossip \<Rightarrow> Gossip" where
  "queueBroadcast env msg g =
     g\<lparr>g_broadcasts := g_broadcasts g @
        [\<lparr> bc_msg = msg, bc_retransmit = retransmitLimit g, bc_created = ge_now env \<rparr>]\<rparr>"

text \<open>Most callers encode a message and queue it unless the encoder failed.\<close>

definition queueEncoded :: "genv \<Rightarrow> string + bytes \<Rightarrow> Gossip \<Rightarrow> Gossip" where
  "queueEncoded env r g = (case r of Inl err \<Rightarrow> g | Inr msg \<Rightarrow> queueBroadcast env msg g)"

primrec take_broadcasts :: "broadcast list \<Rightarrow> int \<Rightarrow> int \<Rightarrow> bytes list \<times> broadcast list" where
  "take_broadcasts [] limit used = ([], [])"
| "take_broadcasts (b # bs) limit used =
     (if used + int (length (bc_msg b)) \<le> limit then
        (let (result, remaining) = take_broadcasts bs limit (used + int (length (bc_msg b)));
             b' = b\<lparr>bc_retransmit := bc_retransmit b - 1\<rparr>
         in (bc_msg b # result, if bc_retransmit b' > 0 then b' # remaining else remaining))
      else
        (let (result, remaining) = take_broadcasts bs limit used in (result, b # remaining)))"

definition getBroadcasts :: "genv \<Rightarrow> int \<Rightarrow> Gossip \<Rightarrow> bytes list \<times> Gossip" where
  "getBroadcasts env limit g =
     (if g_broadcasts g = [] then ([], g)
      else let (result, remaining) = take_broadcasts (ge_sort env (g_broadcasts g)) limit 0
           in (result, g\<lparr>g_broadcasts := remaining\<rparr>))"

section \<open>Member selection\<close>

definition reachable :: "GossipNode \<Rightarrow> bool" where
  "reachable m = (gn_State m = StateAlive \<or> gn_State m = StateSuspect)"

definition Members :: "Gossip \<Rightarrow> GossipNode list" where
  "Members g = filter reachable (map snd (g_members g))"

definition AllMembers :: "Gossip \<Rightarrow> GossipNode list" where
  "AllMembers g = g_localNode g # map snd (g_members g)"

definition NumMembers :: "Gossip \<Rightarrow> nat" where
  "NumMembers g = length (filter reachable (map snd (g_members g)))"

text \<open>The draw is below the number of eligible members; \<^verbatim>\<open>Shuffle\<close> is some permutation.\<close>

definition randomMember :: "(nat \<Rightarrow> nat) \<Rightarrow> Gossip \<Rightarrow> GossipNode option" where
  "randomMember intn g =
     (let eligible = filter reachable (map snd (g_members g))
      in if eligible = [] then None else Some (eligible ! (intn (length eligible) mod length eligible)))"

definition randomMembers :: "(GossipNode list \<Rightarrow> GossipNode list) \<Rightarrow> int \<Rightarrow> string \<Rightarrow> Gossip \<Rightarrow> GossipNode list" where
  "randomMembers shuffle n excludeID g =
     (let eligible = filter (\<lambda>m. reachable m \<and> gn_ID m \<noteq> excludeID) (map snd (g_members g))
      in if eligible = [] then [] else take (nat n) (shuffle eligible))"

section \<open>Handlers\<close>

definition on_decoded :: "'a decoded \<Rightarrow> ('a \<Rightarrow> Gossip \<Rightarrow> Gossip) \<Rightarrow> Gossip \<Rightarrow> Gossip option" where
  "on_decoded d f g = (case d of Decoded x \<Rightarrow> Some (f x g) | Malformed err \<Rightarrow> Some g | Panics \<Rightarrow> None)"

definition markNodeAlive :: "genv \<Rightarrow> string \<Rightarrow> Gossip \<Rightarrow> Gossip" where
  "markNodeAlive env nodeID g =
     (if nodeID = g_ID g then g
      else case map_of (g_members g) nodeID of
             Some m \<Rightarrow> setMember (m\<lparr>gn_LastSeen := ge_now env\<rparr>) nodeID g
           | None \<Rightarrow> g)"

definition ackPing :: "genv \<Rightarrow> string \<Rightarrow> 32 word \<times> string \<times> string \<Rightarrow> Gossip \<Rightarrow> Gossip" where
  "ackPing env from p g =
     (let (seqNo, senderID, _) = p; g1 = markNodeAlive env senderID g
      in case encodeAck seqNo (g_ID g1) of
           Inl err \<Rightarrow> g1
         | Inr ack \<Rightarrow>
             (let (bs, g2) = getBroadcasts env (gc_MaxMessageSize (g_config g1) - int (length ack)) g1
              in sendUDP env from (ack @ concat bs) g2))"

definition handlePing :: "genv \<Rightarrow> bytes \<Rightarrow> string \<Rightarrow> Gossip \<Rightarrow> Gossip option" where
  "handlePing env payload from g = on_decoded (decodePing payload) (ackPing env from) g"

definition refreshSender :: "genv \<Rightarrow> string \<Rightarrow> Gossip \<Rightarrow> Gossip" where
  "refreshSender env senderID g =
     (case map_of (g_members g) senderID of
        None \<Rightarrow> g
      | Some m \<Rightarrow>
          if gn_State m = StateSuspect then
            let m1 = m\<lparr>gn_State := StateAlive\<rparr>
            in setMember (m1\<lparr>gn_LastSeen := ge_now env\<rparr>) senderID (emitEvent EventUpdate m1 (cancelSuspicion senderID g))
          else setMember (m\<lparr>gn_LastSeen := ge_now env\<rparr>) senderID g)"

definition takeAck :: "genv \<Rightarrow> 32 word \<times> string \<Rightarrow> Gossip \<Rightarrow> Gossip" where
  "takeAck env p g =
     (let (seqNo, senderID) = p
      in case map_of (g_ackHandlers g) seqNo of
           None \<Rightarrow> g
         | Some w \<Rightarrow>
             (let g1 = refreshSender env senderID (g\<lparr>g_ackHandlers := AList.delete seqNo (g_ackHandlers g)\<rparr>)
              in case w of
                   Relay from reqSeq target \<Rightarrow>
                     (case encodeAck reqSeq target of Inl err \<Rightarrow> g1 | Inr ack \<Rightarrow> sendUDP env from ack g1)
                 | _ \<Rightarrow> g1))"

definition handleAck :: "genv \<Rightarrow> bytes \<Rightarrow> Gossip \<Rightarrow> Gossip option" where
  "handleAck env payload g = on_decoded (decodeAck payload) (takeAck env) g"

definition relayPing :: "genv \<Rightarrow> string \<Rightarrow> 32 word \<times> string \<times> string \<Rightarrow> Gossip \<Rightarrow> Gossip" where
  "relayPing env from p g =
     (let (seqNo, _, targetID) = p
      in case map_of (g_members g) targetID of
           None \<Rightarrow> g
         | Some target \<Rightarrow>
             (let (probeSeq, g1) = nextSeqNo g
              in case encodePing probeSeq (g_ID g1) targetID of
                   Inl err \<Rightarrow> g1
                 | Inr ping \<Rightarrow>
                     (let addr = GossipNode_Addr target;
                          w = (if ge_udp env addr then Relay from seqNo targetID else NoWaiter)
                      in sendUDP env addr ping (g1\<lparr>g_ackHandlers := AList.update probeSeq w (g_ackHandlers g1)\<rparr>))))"

definition handlePingReq :: "genv \<Rightarrow> bytes \<Rightarrow> string \<Rightarrow> Gossip \<Rightarrow> Gossip option" where
  "handlePingReq env payload from g = on_decoded (decodePingReq payload) (relayPing env from) g"

text \<open>The refutation of a false claim about this node: it takes the incarnation after the claim.\<close>

definition refute :: "genv \<Rightarrow> 32 word \<Rightarrow> Gossip \<Rightarrow> Gossip" where
  "refute env incarnation g =
     (let l = (g_localNode g)\<lparr>gn_Incarnation := incarnation + 1\<rparr>
      in queueEncoded env (encodeAlive (gn_Incarnation l) (gn_ID l) (gn_Address l) (gn_Port l) (gn_Metadata l))
           (g\<lparr>g_localNode := l\<rparr>))"

definition takeSuspect :: "genv \<Rightarrow> 32 word \<times> string \<Rightarrow> Gossip \<Rightarrow> Gossip" where
  "takeSuspect env p g =
     (let (incarnation, nodeID) = p
      in if nodeID = g_ID g then
           (if incarnation \<ge> gn_Incarnation (g_localNode g) then refute env incarnation g else g)
         else case map_of (g_members g) nodeID of
                None \<Rightarrow> g
              | Some m \<Rightarrow>
                  if gn_State m = StateAlive \<and> incarnation \<ge> gn_Incarnation m then
                    let m1 = m\<lparr>gn_State := StateSuspect, gn_Incarnation := incarnation\<rparr>
                    in emitEvent EventUpdate m1 (startSuspicion nodeID (setMember m1 nodeID g))
                  else g)"

definition handleSuspect :: "genv \<Rightarrow> bytes \<Rightarrow> Gossip \<Rightarrow> Gossip option" where
  "handleSuspect env payload g = on_decoded (decodeSuspect payload) (takeSuspect env) g"

definition describe :: "genv \<Rightarrow> node_info \<Rightarrow> GossipNode" where
  "describe env info =
     (let (incarnation, nodeID, address, port, md) = info
      in \<lparr> gn_ID = nodeID, gn_Address = address, gn_Port = port, gn_State = StateAlive, gn_Incarnation = incarnation,
           gn_LastSeen = ge_now env, gn_Metadata = md \<rparr>)"

definition takeAlive :: "genv \<Rightarrow> node_info \<Rightarrow> Gossip \<Rightarrow> Gossip" where
  "takeAlive env info g =
     (let (incarnation, nodeID, address, port, md) = info
      in if nodeID = g_ID g then g
         else case map_of (g_members g) nodeID of
                None \<Rightarrow> emitEvent EventJoin (describe env info) (setMember (describe env info) nodeID g)
              | Some m \<Rightarrow>
                  if incarnation > gn_Incarnation m then
                    let m1 = (describe env info)\<lparr>gn_ID := gn_ID m\<rparr>; g1 = setMember m1 nodeID g
                    in if gn_State m = StateSuspect \<or> gn_State m = StateDead
                       then emitEvent EventUpdate m1 (cancelSuspicion nodeID g1) else g1
                  else g)"

definition handleAlive :: "genv \<Rightarrow> bytes \<Rightarrow> Gossip \<Rightarrow> Gossip option" where
  "handleAlive env payload g = on_decoded (decodeAlive payload) (takeAlive env) g"

definition takeDead :: "genv \<Rightarrow> 32 word \<times> string \<Rightarrow> Gossip \<Rightarrow> Gossip" where
  "takeDead env p g =
     (let (incarnation, nodeID) = p
      in if nodeID = g_ID g then refute env incarnation g
         else case map_of (g_members g) nodeID of
                None \<Rightarrow> g
              | Some m \<Rightarrow>
                  if incarnation \<ge> gn_Incarnation m \<and> gn_State m \<noteq> StateDead \<and> gn_State m \<noteq> StateLeft then
                    let m1 = m\<lparr>gn_State := StateDead, gn_Incarnation := incarnation\<rparr>
                    in emitEvent EventLeave m1 (cancelSuspicion nodeID (setMember m1 nodeID g))
                  else g)"

definition handleDead :: "genv \<Rightarrow> bytes \<Rightarrow> Gossip \<Rightarrow> Gossip option" where
  "handleDead env payload g = on_decoded (decodeDead payload) (takeDead env) g"

definition node_alive :: "GossipNode \<Rightarrow> string + bytes" where
  "node_alive m = encodeAlive (gn_Incarnation m) (gn_ID m) (gn_Address m) (gn_Port m) (gn_Metadata m)"

definition sendMemberList :: "string \<Rightarrow> Gossip \<Rightarrow> Gossip" where
  "sendMemberList addr g =
     (let messages = concat (map (\<lambda>m. case node_alive m of Inl err \<Rightarrow> [] | Inr a \<Rightarrow> [a])
                       (g_localNode g # filter reachable (map snd (g_members g))))
      in if messages = [] then g
         else case encodeCompound messages of Inl err \<Rightarrow> g | Inr compound \<Rightarrow> sendTCP addr compound g)"

definition takeJoin :: "genv \<Rightarrow> string \<Rightarrow> node_info \<Rightarrow> Gossip \<Rightarrow> Gossip" where
  "takeJoin env from info g =
     (let (incarnation, nodeID, address, port, md) = info
      in if nodeID = g_ID g then g
         else
           let g1 =
             (case map_of (g_members g) nodeID of
                None \<Rightarrow> emitEvent EventJoin (describe env info) (setMember (describe env info) nodeID g)
              | Some m \<Rightarrow>
                  if incarnation > gn_Incarnation m \<or> gn_State m = StateDead \<or> gn_State m = StateLeft then
                    let m1 = (describe env info)\<lparr>gn_ID := gn_ID m\<rparr>
                    in emitEvent EventUpdate m1 (cancelSuspicion nodeID (setMember m1 nodeID g))
                  else g)
           in queueEncoded env (encodeAlive incarnation nodeID address port md) (sendMemberList from g1))"

definition handleJoin :: "genv \<Rightarrow> bytes \<Rightarrow> string \<Rightarrow> Gossip \<Rightarrow> Gossip option" where
  "handleJoin env payload from g = on_decoded (decodeNodePayload payload) (takeJoin env from) g"

definition takeLeave :: "node_info \<Rightarrow> Gossip \<Rightarrow> Gossip" where
  "takeLeave info g =
     (let (_, nodeID, _) = info
      in if nodeID = g_ID g then g
         else case map_of (g_members g) nodeID of
                None \<Rightarrow> g
              | Some m \<Rightarrow>
                  if gn_State m \<noteq> StateLeft then
                    let m1 = m\<lparr>gn_State := StateLeft\<rparr>
                    in emitEvent EventLeave m1 (cancelSuspicion nodeID (setMember m1 nodeID g))
                  else g)"

definition handleLeaveMsg :: "bytes \<Rightarrow> Gossip \<Rightarrow> Gossip option" where
  "handleLeaveMsg payload g = on_decoded (decodeNodePayload payload) takeLeave g"


section \<open>Dispatch\<close>

text \<open>
  A compound message is dispatched part by part and a part may be compound again. The messages
  that follow the first one in a datagram are handled by the loop, which ignores probes and
  compound messages.
\<close>

primrec fold_opt :: "('a \<Rightarrow> 'g \<Rightarrow> 'g option) \<Rightarrow> 'a list \<Rightarrow> 'g \<Rightarrow> 'g option" where
  "fold_opt f [] g = Some g"
| "fold_opt f (x # xs) g = (case f x g of None \<Rightarrow> None | Some g' \<Rightarrow> fold_opt f xs g')"

lemma fold_opt_cong [fundef_cong]:
  "xs = ys \<Longrightarrow> g = h \<Longrightarrow> (\<And>x g. x \<in> set ys \<Longrightarrow> f x g = f' x g) \<Longrightarrow> fold_opt f xs g = fold_opt f' ys h"
  by (induction xs arbitrary: ys g h) (auto split: option.split)

lemma decode_parts_smaller:
  "decode_parts n i p off = Decoded ms \<Longrightarrow> m \<in> set ms \<Longrightarrow> off + 2 + length m \<le> length p"
proof (induction n arbitrary: i off ms)
  case (Suc n)
  let ?k = "Uint16 (drop off p)"
  have l: "off + 2 + ?k \<le> length p" using Suc.prems(1) by (auto simp: Let_def not_less split: if_splits)
  obtain ms' where ms': "decode_parts n (i + 1) p (off + 2 + ?k) = Decoded ms'" "ms = take ?k (drop (off + 2) p) # ms'"
    using Suc.prems(1) l by (cases "decode_parts n (i + 1) p (off + 2 + ?k)") (auto simp: Let_def split: if_splits)
  show ?case
  proof (cases "m \<in> set ms'")
    case True
    with Suc.IH [OF ms'(1)] show ?thesis by simp
  next
    case False
    with Suc.prems(2) ms'(2) l show ?thesis by simp
  qed
qed simp

lemma decodeCompound_smaller: "decodeCompound p = Decoded ms \<Longrightarrow> m \<in> set ms \<Longrightarrow> length m < length p"
  using decode_parts_smaller [of "Uint16 p" 0 p 2 ms m] by (simp add: decodeCompound_def split: if_splits)

definition piggybacked :: "genv \<Rightarrow> string \<Rightarrow> MessageType \<Rightarrow> bytes \<Rightarrow> Gossip \<Rightarrow> Gossip option" where
  "piggybacked env from t payload g =
     (case t of
        MsgSuspect \<Rightarrow> handleSuspect env payload g
      | MsgAlive \<Rightarrow> handleAlive env payload g
      | MsgDead \<Rightarrow> handleDead env payload g
      | MsgJoin \<Rightarrow> handleJoin env payload from g
      | MsgLeave \<Rightarrow> handleLeaveMsg payload g
      | _ \<Rightarrow> Some g)"

function handleRemaining :: "genv \<Rightarrow> string \<Rightarrow> bytes \<Rightarrow> Gossip \<Rightarrow> Gossip option" where
  "handleRemaining env from remaining g =
     (if length remaining < 3 then Some g
      else case decodeMessage remaining of
             Malformed err \<Rightarrow> Some g
           | Panics \<Rightarrow> None
           | Decoded (t, payload, rest) \<Rightarrow>
               (case piggybacked env from t payload g of
                  None \<Rightarrow> None
                | Some g' \<Rightarrow> handleRemaining env from rest g'))"
  by pat_completeness auto
termination
  by (relation "measure (\<lambda>(env, from, remaining, g). length remaining)") (auto dest: decodeMessage_size)

declare handleRemaining.simps [simp del]

function handleMessage :: "genv \<Rightarrow> string \<Rightarrow> bytes \<Rightarrow> Gossip \<Rightarrow> Gossip option" where
  "handleMessage env from data g =
     (case decodeMessage data of
        Malformed err \<Rightarrow> Some g
      | Panics \<Rightarrow> None
      | Decoded (t, payload, remaining) \<Rightarrow>
          (case (case t of
                   MsgPing \<Rightarrow> handlePing env payload from g
                 | MsgAck \<Rightarrow> handleAck env payload g
                 | MsgPingReq \<Rightarrow> handlePingReq env payload from g
                 | MsgCompound \<Rightarrow>
                     (case decodeCompound payload of
                        Decoded messages \<Rightarrow> fold_opt (\<lambda>msg g. handleMessage env from msg g) messages g
                      | Malformed err \<Rightarrow> Some g
                      | Panics \<Rightarrow> None)
                 | _ \<Rightarrow> piggybacked env from t payload g) of
             None \<Rightarrow> None
           | Some g' \<Rightarrow> handleRemaining env from remaining g'))"
  by pat_completeness auto
termination
  by (relation "measure (\<lambda>(env, from, data, g). length data)")
    (auto dest!: decodeMessage_size(1) dest: decodeCompound_smaller)

declare handleMessage.simps [simp del]

section \<open>Probing and suspicion\<close>

definition suspectNode :: "genv \<Rightarrow> string \<Rightarrow> Gossip \<Rightarrow> Gossip" where
  "suspectNode env nodeID g =
     (case map_of (g_members g) nodeID of
        None \<Rightarrow> g
      | Some m \<Rightarrow>
          if gn_State m \<noteq> StateAlive then g
          else
            let m1 = m\<lparr>gn_State := StateSuspect\<rparr>
            in emitEvent EventUpdate m1
                 (queueEncoded env (encodeSuspect (gn_Incarnation m1) (gn_ID m1))
                   (startSuspicion nodeID (setMember m1 nodeID g))))"

text \<open>The indirect phase of a probe, after the direct one failed.\<close>

definition probeIndirect :: "genv \<Rightarrow> (GossipNode list \<Rightarrow> GossipNode list) \<Rightarrow> 32 word \<Rightarrow> GossipNode \<Rightarrow> Gossip \<Rightarrow> Gossip" where
  "probeIndirect env shuffle seqNo target g =
     (let peers = randomMembers shuffle (gc_IndirectChecks (g_config g)) (gn_ID target) g
      in if peers = [] then suspectNode env (gn_ID target) g
         else
           let g1 = foldl (\<lambda>g peer. case encodePingReq seqNo (g_ID g) (gn_ID target) of
                                      Inl err \<Rightarrow> g
                                    | Inr msg \<Rightarrow> sendUDP env (GossipNode_Addr peer) msg g) g peers
           in g1\<lparr>g_ackHandlers := AList.update seqNo (IndirectProbe target) (g_ackHandlers g1)\<rparr>)"

definition probe ::
  "genv \<Rightarrow> (nat \<Rightarrow> nat) \<Rightarrow> (GossipNode list \<Rightarrow> GossipNode list) \<Rightarrow> Gossip \<Rightarrow> Gossip" where
  "probe env intn shuffle g =
     (case randomMember intn g of
        None \<Rightarrow> g
      | Some target \<Rightarrow>
          (let (seqNo, g1) = nextSeqNo g;
               g2 = g1\<lparr>g_ackHandlers := AList.update seqNo (DirectProbe target) (g_ackHandlers g1)\<rparr>
           in case encodePing seqNo (g_ID g2) (gn_ID target) of
                Inl err \<Rightarrow> probeIndirect env shuffle seqNo target g2
              | Inr ping \<Rightarrow>
                  (let (bs, g3) = getBroadcasts env (gc_MaxMessageSize (g_config g2) - int (length ping)) g2;
                       addr = GossipNode_Addr target; g4 = sendUDP env addr (ping @ concat bs) g3
                   in if ge_udp env addr then g4 else probeIndirect env shuffle seqNo target g4)))"

definition ackTimeout ::
  "genv \<Rightarrow> (GossipNode list \<Rightarrow> GossipNode list) \<Rightarrow> 32 word \<Rightarrow> Gossip \<Rightarrow> Gossip" where
  "ackTimeout env shuffle seqNo g =
     (case map_of (g_ackHandlers g) seqNo of
        None \<Rightarrow> g
      | Some w \<Rightarrow>
          (let g1 = g\<lparr>g_ackHandlers := AList.delete seqNo (g_ackHandlers g)\<rparr>
           in case w of
                DirectProbe target \<Rightarrow> probeIndirect env shuffle seqNo target g1
              | IndirectProbe target \<Rightarrow> suspectNode env (gn_ID target) g1
              | _ \<Rightarrow> g1))"

definition suspicionTimeout :: "genv \<Rightarrow> string \<Rightarrow> Gossip \<Rightarrow> Gossip" where
  "suspicionTimeout env nodeID g =
     cancelSuspicion nodeID
       (case map_of (g_members g) nodeID of
          None \<Rightarrow> g
        | Some m \<Rightarrow>
            if gn_State m = StateSuspect then
              let m1 = m\<lparr>gn_State := StateDead\<rparr>
              in emitEvent EventLeave m1
                   (queueEncoded env (encodeDead (gn_Incarnation m1) (gn_ID m1)) (setMember m1 nodeID g))
            else g)"

definition gossip_round :: "genv \<Rightarrow> (GossipNode list \<Rightarrow> GossipNode list) \<Rightarrow> Gossip \<Rightarrow> Gossip" where
  "gossip_round env shuffle g =
     (let targets = randomMembers shuffle (gc_GossipNodes (g_config g)) '''' g
      in if targets = [] then g
         else
           let (bs, g1) = getBroadcasts env (gc_MaxMessageSize (g_config g)) g
           in if bs = [] then g1
              else foldl (\<lambda>g target. sendUDP env (GossipNode_Addr target) (concat bs) g) g1 targets)"

definition SetMetadata :: "string \<Rightarrow> string \<Rightarrow> Gossip \<Rightarrow> Gossip" where
  "SetMetadata key v g = g\<lparr>g_localNode := (g_localNode g)\<lparr>gn_Metadata := AList.update key v (gn_Metadata (g_localNode g))\<rparr>\<rparr>"

definition Gossip_Leave :: "genv \<Rightarrow> Gossip \<Rightarrow> Gossip" where
  "Gossip_Leave env g =
     (let l = (g_localNode g)\<lparr>gn_State := StateLeft\<rparr>; g1 = g\<lparr>g_localNode := l\<rparr>;
          r = encode_node MsgLeave (gn_Incarnation l) (gn_ID l) (gn_Address l) (gn_Port l) (gn_Metadata l);
          g2 = queueEncoded env r g1; msg = (case r of Inl err \<Rightarrow> [] | Inr m \<Rightarrow> m)
      in foldl (\<lambda>g m. sendUDP env (GossipNode_Addr m) msg g) g2 (filter reachable (map snd (g_members g2))))"

definition encodeJoinMessage :: "Gossip \<Rightarrow> string + bytes" where
  "encodeJoinMessage g =
     (let l = g_localNode g
      in encode_node MsgJoin (gn_Incarnation l) (gn_ID l) (gn_Address l) (gn_Port l) (gn_Metadata l))"


text \<open>Joining: the outcome of a TCP send is an error or nothing.\<close>

definition parse_port :: "string \<Rightarrow> int option" where
  "parse_port s =
     (if list_all (\<lambda>c. (48::nat) \<le> of_char c \<and> of_char c \<le> (57::nat)) s
      then Some (foldl (\<lambda>port c. wrap_i64 (port * 10 + (of_char c - 48))) 0 s) else None)"

definition parseHostPort :: "string \<Rightarrow> int \<Rightarrow> string + string \<times> int" where
  "parseHostPort addr defaultPort =
     (case SplitHostPort addr of
        None \<Rightarrow> Inr (addr, defaultPort)
      | Some (host, portStr) \<Rightarrow>
          (case parse_port portStr of
             None \<Rightarrow> Inl (''gossip: invalid port in address '' @ addr)
           | Some port \<Rightarrow>
               if port \<le> 0 \<or> port > 65535 then Inl (''gossip: port out of range in address '' @ addr)
               else Inr (host, port)))"

fun join_loop :: "(string \<Rightarrow> string option) \<Rightarrow> string list \<Rightarrow> string option \<Rightarrow> nat \<Rightarrow> Gossip \<Rightarrow> string option \<times> nat \<times> Gossip" where
  "join_loop tcp [] lastErr joined g = (lastErr, joined, g)"
| "join_loop tcp (addr # as) lastErr joined g =
     (case parseHostPort addr (gc_BindPort (g_config g)) of
        Inl err \<Rightarrow> join_loop tcp as (Some err) joined g
      | Inr (host, port) \<Rightarrow>
          (case encodeJoinMessage g of
             Inl err \<Rightarrow> join_loop tcp as (Some err) joined g
           | Inr msg \<Rightarrow>
               (let a = host @ '':'' @ int_dec port
                in case tcp a of
                     Some err \<Rightarrow> join_loop tcp as (Some err) joined g
                   | None \<Rightarrow> join_loop tcp as lastErr (joined + 1) (sendTCP a msg g))))"

definition Gossip_Join :: "(string \<Rightarrow> string option) \<Rightarrow> string list \<Rightarrow> Gossip \<Rightarrow> string option \<times> Gossip" where
  "Gossip_Join tcp existing g =
     (case join_loop tcp existing None 0 g of
        (lastErr, joined, g') \<Rightarrow>
          (if joined = 0 then map_option (\<lambda>e. ''gossip: failed to join cluster: '' @ e) lastErr else None, g'))"

section \<open>Invariant of the member table\<close>

text \<open>
  The local node is not a member, members are filed under their identifiers, and exactly the
  suspected members have a running suspicion timer.
\<close>

definition table_inv :: "string \<Rightarrow> (string \<rightharpoonup> GossipNode) \<Rightarrow> string set \<Rightarrow> bool" where
  "table_inv l M T =
     (l \<notin> dom M \<and> (\<forall>k m. M k = Some m \<longrightarrow> gn_ID m = k) \<and>
      T = {k. \<exists>m. M k = Some m \<and> gn_State m = StateSuspect})"

definition gossip_inv :: "Gossip \<Rightarrow> bool" where
  "gossip_inv g = table_inv (g_ID g) (map_of (g_members g)) (set (g_suspicionTimers g))"

lemma table_inv_set:
  assumes "table_inv l M T" and "k \<noteq> l" and "gn_ID m = k"
    and "T' = (if gn_State m = StateSuspect then insert k T else T - {k})"
  shows "table_inv l (M(k \<mapsto> m)) T'"
  using assms by (auto simp: table_inv_def)

lemma table_invD: "table_inv l M T \<Longrightarrow> M k = Some m \<Longrightarrow> gn_ID m = k \<and> k \<noteq> l \<and> (k \<in> T \<longleftrightarrow> gn_State m = StateSuspect)"
  by (auto simp: table_inv_def)

text \<open>Operations that leave the table alone.\<close>

definition same_table :: "Gossip \<Rightarrow> Gossip \<Rightarrow> bool" where
  "same_table g g' =
     (g_ID g' = g_ID g \<and> g_members g' = g_members g \<and> g_suspicionTimers g' = g_suspicionTimers g)"

lemma same_table_inv: "same_table g g' \<Longrightarrow> gossip_inv g' = gossip_inv g"
  by (simp add: same_table_def gossip_inv_def)

lemma same_table_refl [simp]: "same_table g g"
  by (simp add: same_table_def)

lemma same_table_trans: "same_table g h \<Longrightarrow> same_table h k \<Longrightarrow> same_table g k"
  by (simp add: same_table_def)

lemma same_table_ops [simp]:
  "same_table g (emitEvent e n g)" "same_table g (sendUDP env a b g)" "same_table g (sendTCP a b g)"
  "same_table g (queueBroadcast env b g)" "same_table g (queueEncoded env r g)" "same_table g (refute env i g)"
  "same_table g (sendMemberList a g)" "same_table g (g\<lparr>g_ackHandlers := hs\<rparr>)" "same_table g (SetMetadata k v g)"
  "same_table g (snd (getBroadcasts env z g))" "same_table g (snd (nextSeqNo g))"
  by (simp_all add: same_table_def emitEvent_def sendUDP_def sendTCP_def queueBroadcast_def queueEncoded_def refute_def
      sendMemberList_def SetMetadata_def getBroadcasts_def nextSeqNo_def Let_def case_prod_beta split: sum.split)

lemmas inv_after = same_table_inv [OF same_table_ops(1)] same_table_inv [OF same_table_ops(2)]
  same_table_inv [OF same_table_ops(3)] same_table_inv [OF same_table_ops(4)] same_table_inv [OF same_table_ops(5)]
  same_table_inv [OF same_table_ops(6)] same_table_inv [OF same_table_ops(7)] same_table_inv [OF same_table_ops(8)]
  same_table_inv [OF same_table_ops(9)]
  same_table_inv [OF same_table_ops(10)] same_table_inv [OF same_table_ops(11)]

text \<open>The three ways in which a record changes.\<close>

lemma inv_setMember_cancel:
  assumes "gossip_inv g" and "k \<noteq> g_ID g" and "gn_ID m = k" and "gn_State m \<noteq> StateSuspect"
  shows "gossip_inv (cancelSuspicion k (setMember m k g))"
  using table_inv_set [OF assms(1) [unfolded gossip_inv_def] assms(2,3) refl] assms(4)
  by (simp add: gossip_inv_def cancelSuspicion_def setMember_def map_of_update)

lemma inv_setMember_start:
  assumes "gossip_inv g" and "k \<noteq> g_ID g" and "gn_ID m = k" and "gn_State m = StateSuspect"
  shows "gossip_inv (startSuspicion k (setMember m k g))"
  using table_inv_set [OF assms(1) [unfolded gossip_inv_def] assms(2,3) refl] assms(4)
  by (simp add: gossip_inv_def startSuspicion_def setMember_def map_of_update)

lemma inv_setMember_keep:
  assumes "gossip_inv g" and "k \<noteq> g_ID g" and "gn_ID m = k"
    and "gn_State m = StateSuspect \<longleftrightarrow> k \<in> set (g_suspicionTimers g)"
  shows "gossip_inv (setMember m k g)"
  using table_inv_set [OF assms(1) [unfolded gossip_inv_def] assms(2,3) refl] assms(4)
  by (auto simp: gossip_inv_def setMember_def map_of_update insert_absorb split: if_splits)

lemma gossip_invD:
  assumes "gossip_inv g" and "map_of (g_members g) k = Some m"
  shows "gn_ID m = k" "k \<noteq> g_ID g" "k \<in> set (g_suspicionTimers g) \<longleftrightarrow> gn_State m = StateSuspect"
  using table_invD [OF assms(1) [unfolded gossip_inv_def] assms(2)] by auto

lemma gossip_inv_new:
  assumes "gossip_inv g" and "map_of (g_members g) k = None"
  shows "k \<notin> set (g_suspicionTimers g)"
  using assms by (simp add: gossip_inv_def table_inv_def)


lemma gossip_inv_local: "gossip_inv g \<Longrightarrow> map_of (g_members g) (g_ID g) = None"
  by (auto simp: gossip_inv_def table_inv_def)

section \<open>Every operation keeps the invariant\<close>

lemma inv_markNodeAlive: "gossip_inv g \<Longrightarrow> gossip_inv (markNodeAlive env i g)"
  by (auto simp: markNodeAlive_def gossip_invD gossip_inv_local split: option.split intro!: inv_setMember_keep)

lemma inv_ackPing: "gossip_inv g \<Longrightarrow> gossip_inv (ackPing env from p g)"
  by (simp add: ackPing_def Let_def case_prod_beta inv_after inv_markNodeAlive split: sum.split)

lemma cancel_setMember: "cancelSuspicion k (emitEvent e n (setMember m k g)) = emitEvent e n (cancelSuspicion k (setMember m k g))"
  "setMember m k (emitEvent e n (cancelSuspicion k g)) = emitEvent e n (cancelSuspicion k (setMember m k g))"
  by (simp_all add: cancelSuspicion_def emitEvent_def setMember_def)

lemma inv_refreshSender: "gossip_inv g \<Longrightarrow> gossip_inv (refreshSender env i g)"
  by (auto simp: refreshSender_def Let_def cancel_setMember inv_after gossip_invD gossip_inv_local split: option.split
      intro!: inv_setMember_keep inv_setMember_cancel)

lemma inv_takeAck:
  assumes "gossip_inv g"
  shows "gossip_inv (takeAck env p g)"
proof -
  have "gossip_inv (refreshSender env i (g\<lparr>g_ackHandlers := hs\<rparr>))" for i hs
    using assms by (simp add: inv_refreshSender inv_after)
  with assms show ?thesis by (simp add: takeAck_def Let_def inv_after split: prod.split option.split waiter.split sum.split)
qed

lemma inv_relayPing: "gossip_inv g \<Longrightarrow> gossip_inv (relayPing env from p g)"
  by (simp add: relayPing_def Let_def case_prod_beta inv_after split: option.split sum.split)

lemma inv_takeSuspect: "gossip_inv g \<Longrightarrow> gossip_inv (takeSuspect env p g)"
  by (auto simp: takeSuspect_def Let_def inv_after gossip_invD gossip_inv_local split: prod.split option.split intro!: inv_setMember_start)

lemma describe_sel [simp]:
  "gn_ID (describe env (i, n, a, p, md)) = n" "gn_State (describe env info) = StateAlive"
  "gn_Incarnation (describe env (i, n, a, p, md)) = i"
  by (simp_all add: describe_def case_prod_beta)

lemma inv_takeAlive: "gossip_inv g \<Longrightarrow> gossip_inv (takeAlive env info g)"
  by (auto simp: takeAlive_def Let_def inv_after gossip_invD gossip_inv_local gossip_inv_new split: prod.split option.split
      intro!: inv_setMember_keep inv_setMember_cancel)

lemma inv_takeDead: "gossip_inv g \<Longrightarrow> gossip_inv (takeDead env p g)"
  by (auto simp: takeDead_def Let_def inv_after gossip_invD gossip_inv_local split: prod.split option.split intro!: inv_setMember_cancel)

lemma inv_takeJoin: "gossip_inv g \<Longrightarrow> gossip_inv (takeJoin env from info g)"
  by (auto simp: takeJoin_def Let_def inv_after gossip_invD gossip_inv_local gossip_inv_new split: prod.split option.split
      intro!: inv_setMember_keep inv_setMember_cancel)

lemma inv_takeLeave: "gossip_inv g \<Longrightarrow> gossip_inv (takeLeave info g)"
  by (auto simp: takeLeave_def Let_def inv_after gossip_invD gossip_inv_local split: prod.split option.split intro!: inv_setMember_cancel)

lemmas inv_takes = inv_ackPing inv_takeAck inv_relayPing inv_takeSuspect inv_takeAlive inv_takeDead inv_takeJoin inv_takeLeave

lemma inv_on_decoded:
  "on_decoded d f g = Some g' \<Longrightarrow> gossip_inv g \<Longrightarrow> (\<And>x g. gossip_inv g \<Longrightarrow> gossip_inv (f x g)) \<Longrightarrow> gossip_inv g'"
  by (auto simp: on_decoded_def split: decoded.splits)

lemmas handler_defs = handlePing_def handleAck_def handlePingReq_def handleSuspect_def handleAlive_def handleDead_def
  handleJoin_def handleLeaveMsg_def

lemma inv_piggybacked: "piggybacked env from t p g = Some g' \<Longrightarrow> gossip_inv g \<Longrightarrow> gossip_inv g'"
  by (auto simp: piggybacked_def handler_defs inv_takes elim!: inv_on_decoded split: MessageType.splits)

lemma inv_handleRemaining: "handleRemaining env from b g = Some g' \<Longrightarrow> gossip_inv g \<Longrightarrow> gossip_inv g'"
proof (induction env "from" b g rule: handleRemaining.induct)
  case (1 env "from" b g)
  show ?case
  proof (cases "length b < 3")
    case True
    with "1.prems" show ?thesis by (simp add: handleRemaining.simps)
  next
    case False
    show ?thesis
    proof (cases "decodeMessage b")
      case (Decoded m)
      obtain t p rest where m: "m = (t, p, rest)" by (cases m)
      with "1.prems"(1) False Decoded obtain h where h: "piggybacked env from t p g = Some h"
        "handleRemaining env from rest h = Some g'"
        by (auto simp: handleRemaining.simps [of env "from" b] split: option.splits)
      from "1.IH" [OF False Decoded m [symmetric] refl h] inv_piggybacked [OF h(1) "1.prems"(2)] show ?thesis .
    qed (use "1.prems" False in \<open>simp_all add: handleRemaining.simps [of env "from" b]\<close>)
  qed
qed

lemma inv_fold_opt:
  "fold_opt f xs g = Some g' \<Longrightarrow> gossip_inv g \<Longrightarrow>
   (\<And>x g g'. x \<in> set xs \<Longrightarrow> f x g = Some g' \<Longrightarrow> gossip_inv g \<Longrightarrow> gossip_inv g') \<Longrightarrow> gossip_inv g'"
proof (induction xs arbitrary: g)
  case (Cons x xs)
  from Cons.prems(1) obtain h where h: "f x g = Some h" "fold_opt f xs h = Some g'" by (auto split: option.splits)
  have "gossip_inv h" using Cons.prems(3) [OF _ h(1) Cons.prems(2)] by simp
  with h(2) show ?case by (rule Cons.IH) (rule Cons.prems(3), auto)
qed simp

lemma inv_handleMessage: "handleMessage env from data g = Some g' \<Longrightarrow> gossip_inv g \<Longrightarrow> gossip_inv g'"
proof (induction env "from" data g arbitrary: g' rule: handleMessage.induct)
  case (1 env "from" data g)
  show ?case
  proof (cases "decodeMessage data")
    case (Decoded m)
    obtain t p rest where m: "m = (t, p, rest)" by (cases m)
    obtain h where h: "(case t of
                   MsgPing \<Rightarrow> handlePing env p from g
                 | MsgAck \<Rightarrow> handleAck env p g
                 | MsgPingReq \<Rightarrow> handlePingReq env p from g
                 | MsgCompound \<Rightarrow>
                     (case decodeCompound p of
                        Decoded messages \<Rightarrow> fold_opt (\<lambda>msg g. handleMessage env from msg g) messages g
                      | Malformed err \<Rightarrow> Some g
                      | Panics \<Rightarrow> None)
                 | _ \<Rightarrow> piggybacked env from t p g) = Some h" and r: "handleRemaining env from rest h = Some g'"
      using "1.prems"(1) Decoded m by (simp add: handleMessage.simps [of env "from" data] split: option.splits)
    have "gossip_inv h"
    proof (cases t)
      case MsgCompound
      note IH = "1.IH" [OF Decoded m [symmetric] refl MsgCompound]
      from h MsgCompound "1.prems"(2) show ?thesis
        by (auto split: decoded.splits elim!: inv_fold_opt dest: IH)
    qed (use h "1.prems"(2) inv_piggybacked in \<open>auto simp: handler_defs inv_takes elim!: inv_on_decoded\<close>)
    with r show ?thesis by (rule inv_handleRemaining)
  qed (use "1.prems" in \<open>simp_all add: handleMessage.simps [of env "from" data]\<close>)
qed



lemma same_table_foldl: "(\<And>x g. same_table g (f g x)) \<Longrightarrow> same_table g (foldl f g xs)"
  by (induction xs arbitrary: g) (auto intro: same_table_trans)

lemma inv_send_all: "gossip_inv (foldl (\<lambda>g m. sendUDP env (GossipNode_Addr m) b g) h ts) = gossip_inv h"
  by (intro same_table_inv same_table_foldl) simp

lemma inv_suspectNode: "gossip_inv g \<Longrightarrow> gossip_inv (suspectNode env i g)"
  by (auto simp: suspectNode_def Let_def inv_after gossip_invD gossip_inv_local split: option.split intro!: inv_setMember_start)

lemma inv_probeIndirect:
  assumes "gossip_inv g"
  shows "gossip_inv (probeIndirect env shuffle q target g)"
proof -
  let ?f = "\<lambda>g peer. case encodePingReq q (g_ID g) (gn_ID target) of
      Inl err \<Rightarrow> g | Inr msg \<Rightarrow> sendUDP env (GossipNode_Addr peer) msg g"
  have "same_table g (foldl ?f g peers)" for peers
    by (intro same_table_foldl) (simp split: sum.split)
  then have "gossip_inv (foldl ?f g peers)" for peers using assms same_table_inv by blast
  with assms show ?thesis by (simp add: probeIndirect_def Let_def inv_suspectNode inv_after)
qed

lemma inv_probe: "gossip_inv g \<Longrightarrow> gossip_inv (probe env intn shuffle g)"
  by (simp add: probe_def Let_def case_prod_beta inv_probeIndirect inv_after split: option.split sum.split)

lemma inv_ackTimeout: "gossip_inv g \<Longrightarrow> gossip_inv (ackTimeout env shuffle q g)"
  by (simp add: ackTimeout_def Let_def inv_probeIndirect inv_suspectNode inv_after split: option.split waiter.split)

lemma cancel_queue:
  "cancelSuspicion k (emitEvent e n (queueEncoded env r g)) = emitEvent e n (queueEncoded env r (cancelSuspicion k g))"
  by (simp add: cancelSuspicion_def emitEvent_def queueEncoded_def queueBroadcast_def retransmitLimit_def split: sum.split)

lemma inv_suspicionTimeout:
  assumes "gossip_inv g"
  shows "gossip_inv (suspicionTimeout env i g)"
proof (cases "\<exists>m. map_of (g_members g) i = Some m \<and> gn_State m = StateSuspect")
  case True
  then obtain m where m: "map_of (g_members g) i = Some m" "gn_State m = StateSuspect" by blast
  note D = gossip_invD [OF assms m(1)]
  have "gossip_inv (cancelSuspicion i (setMember (m\<lparr>gn_State := StateDead\<rparr>) i g))"
    using assms D by (intro inv_setMember_cancel) simp_all
  with m show ?thesis by (simp add: suspicionTimeout_def Let_def cancel_queue inv_after)
next
  case False
  then have "i \<notin> set (g_suspicionTimers g)" using assms by (simp add: gossip_inv_def table_inv_def)
  then have "cancelSuspicion i g = g" by (simp add: cancelSuspicion_def)
  with False assms show ?thesis by (auto simp: suspicionTimeout_def split: option.split)
qed

lemma inv_gossip_round: "gossip_inv g \<Longrightarrow> gossip_inv (gossip_round env shuffle g)"
  by (simp add: gossip_round_def Let_def case_prod_beta inv_send_all inv_after)

lemma inv_Leave: "gossip_inv g \<Longrightarrow> gossip_inv (Gossip_Leave env g)"
  by (simp add: Gossip_Leave_def Let_def inv_send_all inv_after) (simp add: gossip_inv_def)

lemma join_loop_table: "join_loop tcp as e n g = (e', n', g') \<Longrightarrow> same_table g g'"
proof (induction as arbitrary: e n g)
  case (Cons a as)
  have "\<exists>e1 n1 h. (h = g \<or> (\<exists>c m. h = sendTCP c m g)) \<and> join_loop tcp (a # as) e n g = join_loop tcp as e1 n1 h"
    by (auto simp: Let_def split: sum.split option.split prod.split) blast
  then obtain e1 n1 h where h: "h = g \<or> (\<exists>c m. h = sendTCP c m g)" "join_loop tcp as e1 n1 h = (e', n', g')"
    using Cons.prems by metis
  from h(1) have "same_table g h" by auto
  with Cons.IH [OF h(2)] show ?case by (blast intro: same_table_trans)
qed simp

lemma inv_Join: "gossip_inv g \<Longrightarrow> gossip_inv (snd (Gossip_Join tcp as g))"
  by (auto simp: Gossip_Join_def same_table_inv dest!: join_loop_table split: prod.split)

lemma inv_New: "NewGossip now c = Inr g \<Longrightarrow> gossip_inv g"
  by (auto simp: NewGossip_def Let_def gossip_inv_def table_inv_def split: option.splits)

section \<open>Reachable states\<close>

inductive gossip_reach :: "Gossip \<Rightarrow> bool" where
  start: "NewGossip now c = Inr g \<Longrightarrow> gossip_reach g"
| message: "gossip_reach g \<Longrightarrow> handleMessage env from data g = Some g' \<Longrightarrow> gossip_reach g'"
| probe_tick: "gossip_reach g \<Longrightarrow> gossip_reach (probe env intn shuffle g)"
| ack_timeout: "gossip_reach g \<Longrightarrow> gossip_reach (ackTimeout env shuffle q g)"
| suspicion_timeout: "gossip_reach g \<Longrightarrow> gossip_reach (suspicionTimeout env i g)"
| gossip_tick: "gossip_reach g \<Longrightarrow> gossip_reach (gossip_round env shuffle g)"
| join: "gossip_reach g \<Longrightarrow> gossip_reach (snd (Gossip_Join tcp as g))"
| leave: "gossip_reach g \<Longrightarrow> gossip_reach (Gossip_Leave env g)"
| metadata: "gossip_reach g \<Longrightarrow> gossip_reach (SetMetadata k v g)"

lemma gossip_reach_inv: "gossip_reach g \<Longrightarrow> gossip_inv g"
  by (induction rule: gossip_reach.induct)
    (auto simp: inv_after inv_New inv_probe inv_ackTimeout inv_suspicionTimeout inv_gossip_round inv_Leave inv_Join
      dest: inv_handleMessage)


section \<open>Totality\<close>









section \<open>Claims about a member\<close>

text \<open>The order of claims: the incarnation first, then how bad the state is.\<close>

primrec severity :: "NodeState \<Rightarrow> nat" where
  "severity StateAlive = 0"
| "severity StateSuspect = 1"
| "severity StateDead = 2"
| "severity StateLeft = 3"

definition claim_le :: "GossipNode \<Rightarrow> GossipNode \<Rightarrow> bool" where
  "claim_le m m' =
     (gn_Incarnation m < gn_Incarnation m' \<or>
      (gn_Incarnation m = gn_Incarnation m' \<and> severity (gn_State m) \<le> severity (gn_State m')))"

lemma claim_le_refl [simp]: "claim_le m m"
  by (simp add: claim_le_def)

lemma severity_bound: "severity s \<le> 3" "severity StateSuspect \<le> severity s \<longleftrightarrow> s \<noteq> StateAlive"
  by (cases s; simp)+

lemma map_of_members [simp]:
  "map_of (g_members (emitEvent e n g)) = map_of (g_members g)"
  "map_of (g_members (startSuspicion k g)) = map_of (g_members g)"
  "map_of (g_members (cancelSuspicion k g)) = map_of (g_members g)"
  "map_of (g_members (setMember m k g)) = (map_of (g_members g))(k \<mapsto> m)"
  "map_of (g_members (queueEncoded env r g)) = map_of (g_members g)"
  "map_of (g_members (refute env inc g)) = map_of (g_members g)"
  by (simp_all add: emitEvent_def startSuspicion_def cancelSuspicion_def setMember_def queueEncoded_def queueBroadcast_def
      refute_def Let_def map_of_update split: sum.split)

lemma takeSuspect_claim:
  "map_of (g_members g) k = Some m \<Longrightarrow> \<exists>m'. map_of (g_members (takeSuspect env p g)) k = Some m' \<and> claim_le m m'"
  by (cases p) (auto simp: takeSuspect_def Let_def claim_le_def split: option.split)

lemma takeAlive_claim:
  "map_of (g_members g) k = Some m \<Longrightarrow> \<exists>m'. map_of (g_members (takeAlive env info g)) k = Some m' \<and> claim_le m m'"
  by (cases info) (auto simp: takeAlive_def Let_def claim_le_def split: option.split)

lemma takeDead_claim:
  assumes "map_of (g_members g) k = Some m"
  shows "\<exists>m'. map_of (g_members (takeDead env p g)) k = Some m' \<and> claim_le m m'"
  using assms by (cases p; cases "gn_State m") (auto simp: takeDead_def Let_def claim_le_def split: option.split)

lemma takeLeave_claim:
  "map_of (g_members g) k = Some m \<Longrightarrow> \<exists>m'. map_of (g_members (takeLeave info g)) k = Some m' \<and> claim_le m m'"
  by (cases info) (auto simp: takeLeave_def Let_def claim_le_def severity_bound split: option.split)

text \<open>A datagram with one message.\<close>

lemma handleRemaining_nil [simp]: "handleRemaining env from [] g = Some g"
  by (simp add: handleRemaining.simps)

lemma handleMessage_single:
  assumes "encodeMessage t p = Inr b" and "length b < 65536" and "t \<in> {MsgSuspect, MsgAlive, MsgDead, MsgJoin, MsgLeave}"
  shows "handleMessage env from b g = piggybacked env from t p g"
proof -
  have "decodeMessage (b @ []) = Decoded (t, p, [])"
    using assms by (intro decodeMessage_encode) (auto simp: known_def encodeMessage_ok)
  then show ?thesis
    using assms(3) by (auto simp: handleMessage.simps [of env "from" b] split: option.split)
qed

lemma handleMessage_alive:
  assumes "encodeAlive i n a q md = Inr b" and "length b < 65536" and "0 \<le> q" "q < 65536" "distinct (map fst md)"
  shows "handleMessage env from b g = Some (takeAlive env (i, n, a, q, md) g)"
proof -
  obtain p where p: "encodeMessage MsgAlive p = Inr b" "decodeNodePayload p = Decoded (i, n, a, q, md)"
    using encode_node_ok [of MsgAlive i n a q md b] assms by (auto simp: encodeAlive_def)
  with handleMessage_single [OF p(1) assms(2)] show ?thesis
    by (simp add: piggybacked_def handleAlive_def decodeAlive_def on_decoded_def)
qed

lemma handleMessage_tagged:
  assumes "encodeMessage t (tagged_payload i n) = Inr b" and "length b < 65536"
  shows "t = MsgSuspect \<Longrightarrow> handleMessage env from b g = Some (takeSuspect env (i, n) g)"
    and "t = MsgDead \<Longrightarrow> handleMessage env from b g = Some (takeDead env (i, n) g)"
  using handleMessage_single [OF assms] tagged_ok [OF assms]
  by (simp_all add: piggybacked_def handleSuspect_def handleDead_def decodeSuspect_def decodeDead_def on_decoded_def)

lemma handleMessage_suspect:
  "encodeSuspect i n = Inr b \<Longrightarrow> length b < 65536 \<Longrightarrow> handleMessage env from b g = Some (takeSuspect env (i, n) g)"
  by (auto simp: encodeSuspect_def split: option.splits dest: handleMessage_tagged(1))


section \<open>Properties\<close>

text \<open>
  In every reachable state of a node exactly its suspected members have a running suspicion timer,
  so no suspicion is left undecided; when the timer fires the member is dead, and a member whose
  timer was cancelled is not declared dead. The local node never is a member of its own table.
\<close>

theorem Gossip_suspects_timed:
  assumes "gossip_reach g"
  shows "map_of (g_members g) (g_ID g) = None \<and>
    set (g_suspicionTimers g) = {k. \<exists>m. map_of (g_members g) k = Some m \<and> gn_State m = StateSuspect} \<and>
    (\<forall>k m. map_of (g_members g) k = Some m \<longrightarrow>
       gn_ID m = k \<and>
       map_of (g_members (suspicionTimeout env k g)) k =
         Some (if k \<in> set (g_suspicionTimers g) then m\<lparr>gn_State := StateDead\<rparr> else m))"
proof (intro conjI allI impI)
  note inv = gossip_reach_inv [OF assms]
  show "map_of (g_members g) (g_ID g) = None" using inv by (rule gossip_inv_local)
  show "set (g_suspicionTimers g) = {k. \<exists>m. map_of (g_members g) k = Some m \<and> gn_State m = StateSuspect}"
    using inv by (simp add: gossip_inv_def table_inv_def)
  fix k m assume m: "map_of (g_members g) k = Some m"
  note D = gossip_invD [OF inv m]
  show "gn_ID m = k" by (rule D(1))
  show "map_of (g_members (suspicionTimeout env k g)) k =
      Some (if k \<in> set (g_suspicionTimers g) then m\<lparr>gn_State := StateDead\<rparr> else m)"
    using m D(3) by (simp add: suspicionTimeout_def Let_def)
qed


text \<open>
  Refutation. A node that receives a suspicion about itself with its current or a later incarnation
  takes the next incarnation and queues a message which, delivered to any node that knows it with
  an incarnation up to the suspected one, suspected or even dead, makes it alive there with the
  new incarnation and stops the suspicion timer.
\<close>

theorem Gossip_refutation:
  assumes "encodeSuspect inc (g_ID g) = Inr b" and "length b < 65536"
    and "gn_Incarnation (g_localNode g) \<le> inc" and "inc \<noteq> - 1"
    and "0 \<le> gn_Port (g_localNode g)" "gn_Port (g_localNode g) < 65536" "distinct (map fst (gn_Metadata (g_localNode g)))"
    and "node_alive ((g_localNode g)\<lparr>gn_Incarnation := inc + 1\<rparr>) = Inr a" and "length a < 65536"
    and "g_ID g \<noteq> g_ID h" and "map_of (g_members h) (g_ID g) = Some m" and "gn_Incarnation m \<le> inc" and "gossip_inv h"
  shows "\<exists>g' h' m'. handleMessage env from b g = Some g' \<and> gn_Incarnation (g_localNode g') = inc + 1 \<and> inc < inc + 1 \<and>
    bc_msg (last (g_broadcasts g')) = a \<and>
    handleMessage env' from' a h = Some h' \<and> map_of (g_members h') (g_ID g) = Some m' \<and>
    gn_State m' = StateAlive \<and> gn_Incarnation m' = inc + 1 \<and> g_ID g \<notin> set (g_suspicionTimers h')"
proof -
  let ?l = "(g_localNode g)\<lparr>gn_Incarnation := inc + 1\<rparr>"
  have lt: "inc < inc + 1"   proof -
    have "1 + inc \<noteq> 0" using assms(4) by (metis add.commute eq_neg_iff_add_eq_0)
    then show ?thesis by (simp add: word_less_nat_alt unatSuc add.commute)
  qed
  have a: "encodeAlive (inc + 1) (g_ID g) (gn_Address (g_localNode g)) (gn_Port (g_localNode g)) (gn_Metadata (g_localNode g)) = Inr a"
    using assms(8) by (simp add: node_alive_def)
  have g': "handleMessage env from b g = Some (takeSuspect env (inc, g_ID g) g)"
    using assms(1,2) by (rule handleMessage_suspect)
  have r: "takeSuspect env (inc, g_ID g) g = queueBroadcast env a (g\<lparr>g_localNode := ?l\<rparr>)"
    using assms(3) a by (simp add: takeSuspect_def refute_def queueEncoded_def)
  let ?info = "(inc + 1, g_ID g, gn_Address (g_localNode g), gn_Port (g_localNode g), gn_Metadata (g_localNode g))"
  have h': "handleMessage env' from' a h = Some (takeAlive env' ?info h)"
    using handleMessage_alive [OF a assms(9)] assms(5-7) by simp
  have later: "gn_Incarnation m < inc + 1" using assms(12) lt by (rule le_less_trans)
  have inv: "gossip_inv (takeAlive env' ?info h)" using assms(13) by (rule inv_takeAlive)
  have "map_of (g_members (takeAlive env' ?info h)) (g_ID g) = Some ((describe env' ?info)\<lparr>gn_ID := gn_ID m\<rparr>)"
    using assms(10,11) later by (simp add: takeAlive_def Let_def)
  moreover from gossip_invD(3) [OF inv this] have "g_ID g \<notin> set (g_suspicionTimers (takeAlive env' ?info h))" by simp
  ultimately show ?thesis
    using lt by (simp add: g' h' r queueBroadcast_def)
qed

text \<open>
  The claims of other nodes (suspect, alive, dead, leave) move the record of a member only upward in
  the order of incarnation and severity: a stale claim changes nothing for the worse or better.
\<close>

theorem Gossip_claims_monotone:
  assumes "map_of (g_members g) k = Some m"
  shows "(\<exists>m'. map_of (g_members (takeSuspect env (inc, i) g)) k = Some m' \<and> claim_le m m') \<and>
    (\<exists>m'. map_of (g_members (takeAlive env (inc, i, a, port, md) g)) k = Some m' \<and> claim_le m m') \<and>
    (\<exists>m'. map_of (g_members (takeDead env (inc, i) g)) k = Some m' \<and> claim_le m m') \<and>
    (\<exists>m'. map_of (g_members (takeLeave (inc, i, a, port, md) g)) k = Some m' \<and> claim_le m m')"
  using takeSuspect_claim [OF assms] takeAlive_claim [OF assms] takeDead_claim [OF assms] takeLeave_claim [OF assms]
  by blast

text \<open>
  The member tables do not converge: the claims \<^verbatim>\<open>SUSPECT 5\<close>, \<^verbatim>\<open>SUSPECT 3\<close> and \<^verbatim>\<open>ALIVE 4\<close> about a
  member leave it suspected with incarnation 5 when they arrive in this order, and alive with
  incarnation 4 when the two suspicions are swapped, because a suspicion of a later incarnation does
  not replace a suspicion.
\<close>

theorem Gossip_claims_order_matters:
  assumes "k \<noteq> g_ID g" and "map_of (g_members g) k = Some m" and "gn_State m = StateAlive" and "gn_Incarnation m = 0"
  shows "(\<exists>m'. map_of (g_members (takeAlive env (4, k, a, port, md) (takeSuspect env (3, k) (takeSuspect env (5, k) g)))) k = Some m' \<and>
       gn_State m' = StateSuspect \<and> gn_Incarnation m' = 5) \<and>
    (\<exists>m'. map_of (g_members (takeAlive env (4, k, a, port, md) (takeSuspect env (5, k) (takeSuspect env (3, k) g)))) k = Some m' \<and>
       gn_State m' = StateAlive \<and> gn_Incarnation m' = 4)"
proof -
  have ids: "g_ID (emitEvent e n (startSuspicion k (setMember x k h))) = g_ID h" for e n x h
    by (simp add: emitEvent_def startSuspicion_def setMember_def)
  have s: "takeSuspect env (inc, k) g =
      (let m1 = m\<lparr>gn_State := StateSuspect, gn_Incarnation := inc\<rparr>
       in emitEvent EventUpdate m1 (startSuspicion k (setMember m1 k g)))" for inc
    using assms by (simp add: takeSuspect_def)
  show ?thesis
    using assms unfolding s Let_def by (simp add: takeSuspect_def takeAlive_def Let_def ids)
qed


text \<open>The retransmissions that a queue has left.\<close>

definition credit :: "broadcast list \<Rightarrow> int" where
  "credit bs = sum_list (map bc_retransmit bs)"

lemma credit_mset: "mset xs = mset ys \<Longrightarrow> credit xs = credit ys"
  unfolding credit_def by (metis mset_map sum_mset_sum_list)

lemma take_broadcasts_spec:
  assumes "take_broadcasts bs limit used = (result, remaining)" and "\<forall>b \<in> set bs. bc_retransmit b \<ge> 1"
  shows "(result = [] \<or> used + int (length (concat result)) \<le> limit) \<and> set result \<subseteq> bc_msg ` set bs \<and>
    credit remaining = credit bs - int (length result) \<and> (\<forall>b \<in> set remaining. bc_retransmit b \<ge> 1)"
  using assms
proof (induction bs arbitrary: used result remaining)
  case (Cons b bs)
  define fits where "fits \<longleftrightarrow> used + int (length (bc_msg b)) \<le> limit"
  define used' where "used' = (if fits then used + int (length (bc_msg b)) else used)"
  obtain res rem where tb: "take_broadcasts bs limit used' = (res, rem)" by fastforce
  have b: "bc_retransmit b \<ge> 1" and bs: "\<forall>b \<in> set bs. bc_retransmit b \<ge> 1" using Cons.prems(2) by auto
  note IH = Cons.IH [OF tb bs]
  have step: "result = (if fits then bc_msg b # res else res)"
    "remaining = (if \<not> fits then b # rem else if bc_retransmit b - 1 > 0 then b\<lparr>bc_retransmit := bc_retransmit b - 1\<rparr> # rem else rem)"
    using Cons.prems(1) tb by (auto simp: fits_def used'_def Let_def split: if_splits prod.splits)
  have "result = [] \<or> used + int (length (concat result)) \<le> limit"
    using IH step(1) by (auto simp: fits_def used'_def split: if_splits)
  moreover have "set result \<subseteq> bc_msg ` set (b # bs)" using IH step(1) by auto
  moreover have "credit remaining = credit (b # bs) - int (length result)"
    using IH step b by (auto simp: credit_def)
  moreover have "\<forall>b \<in> set remaining. bc_retransmit b \<ge> 1" using IH step b by auto
  ultimately show ?case by blast
qed (simp add: credit_def)

text \<open>
  The broadcasts attached to a datagram fit into the space left for them, all of them come from
  the queue, and every copy sent uses up one of the retransmissions of its broadcast: the sum of
  the retransmissions left falls by the number of messages sent, so a broadcast is sent at most
  \<^verbatim>\<open>retransmitLimit\<close> times. The sorting function is only assumed to permute the queue.
\<close>

theorem Gossip_broadcast_budget:
  assumes "mset (ge_sort env (g_broadcasts g)) = mset (g_broadcasts g)"
    and "\<forall>b \<in> set (g_broadcasts g). bc_retransmit b \<ge> 1" and "getBroadcasts env limit g = (result, g')"
  shows "(result = [] \<or> int (length (concat result)) \<le> limit) \<and> set result \<subseteq> bc_msg ` set (g_broadcasts g) \<and>
    credit (g_broadcasts g') = credit (g_broadcasts g) - int (length result) \<and>
    (\<forall>b \<in> set (g_broadcasts g'). bc_retransmit b \<ge> 1)"
proof (cases "g_broadcasts g = []")
  case True
  with assms(3) show ?thesis by (auto simp: getBroadcasts_def)
next
  case False
  have st: "set (ge_sort env (g_broadcasts g)) = set (g_broadcasts g)" using assms(1) by (rule mset_eq_setD)
  obtain rem where tb: "take_broadcasts (ge_sort env (g_broadcasts g)) limit 0 = (result, rem)" "g' = g\<lparr>g_broadcasts := rem\<rparr>"
    using assms(3) False by (auto simp: getBroadcasts_def split: prod.splits)
  from take_broadcasts_spec [OF tb(1)] assms(2) show ?thesis
    by (simp add: st tb(2) credit_mset [OF assms(1)])
qed


section \<open>Examples\<close>

definition example_env :: genv where
  "example_env = \<lparr> ge_now = 1, ge_sort = (\<lambda>bs. bs), ge_udp = (\<lambda>_. True) \<rparr>"

definition example_gossip :: "string \<Rightarrow> Gossip" where
  "example_gossip i = projr (NewGossip 0 (Some (DefaultGossipConfig\<lparr>gc_NodeID := i\<rparr>)))"

text \<open>Node b has learnt of node a and then heard that it is suspected.\<close>

definition example_b :: Gossip where
  "example_b = takeSuspect example_env (0, ''a'')
     (takeAlive example_env (0, ''a'', ''0.0.0.0'', 7946, []) (example_gossip ''b''))"

lemma example_gossip_new: "i \<noteq> '''' \<Longrightarrow> NewGossip 0 (Some (DefaultGossipConfig\<lparr>gc_NodeID := i\<rparr>)) = Inr (example_gossip i)"
  by (simp add: example_gossip_def NewGossip_def GossipConfig_Validate_def DefaultGossipConfig_def Let_def)

lemmas example_gossip_eq = example_gossip_def NewGossip_def GossipConfig_Validate_def DefaultGossipConfig_def Let_def

lemma example_encodings:
  "\<exists>b. encodeAlive 0 ''a'' ''0.0.0.0'' 7946 [] = Inr b \<and> length b < 65536"
  "\<exists>b. encodeAlive 1 ''a'' ''0.0.0.0'' 7946 [] = Inr b \<and> length b < 65536"
  "\<exists>b. encodeSuspect 0 ''a'' = Inr b \<and> length b < 65536"
  by (simp_all add: encodeAlive_def encode_node_def encodeNodePayload_def encodeSuspect_def tagged_payload_def
      encodeMessage_ok encodeUint16Length_def)

lemma example_b_reach: "gossip_reach example_b"
proof -
  obtain al where al: "encodeAlive 0 ''a'' ''0.0.0.0'' 7946 [] = Inr al" "length al < 65536"
    using example_encodings(1) by blast
  obtain su where su: "encodeSuspect 0 ''a'' = Inr su" "length su < 65536" using example_encodings(3) by blast
  have "gossip_reach (example_gossip ''b'')" by (rule gossip_reach.start [OF example_gossip_new]) simp
  then have "gossip_reach (takeAlive example_env (0, ''a'', ''0.0.0.0'', 7946, []) (example_gossip ''b''))"
    by (rule gossip_reach.message) (rule handleMessage_alive [OF al], simp_all)
  then show ?thesis unfolding example_b_def
    by (rule gossip_reach.message) (rule handleMessage_suspect [OF su])
qed

lemma example_b_member:
  "map_of (g_members example_b) ''a'' = Some \<lparr> gn_ID = ''a'', gn_Address = ''0.0.0.0'', gn_Port = 7946,
     gn_State = StateSuspect, gn_Incarnation = 0, gn_LastSeen = 1, gn_Metadata = [] \<rparr>" "g_ID example_b = ''b''"
  by (simp_all add: example_b_def takeSuspect_def takeAlive_def example_gossip_eq describe_def example_env_def
      emitEvent_def setMember_def startSuspicion_def)

theorem Gossip_suspects_timed_witness:
  "''a'' \<in> set (g_suspicionTimers example_b) \<and>
   map_option gn_State (map_of (g_members (suspicionTimeout example_env ''a'' example_b)) ''a'') = Some StateDead"
  using Gossip_suspects_timed [OF example_b_reach, of example_env] example_b_member by force


theorem Gossip_refutation_witness:
  "\<exists>a h'. handleMessage example_env ''x'' a example_b = Some h' \<and>
     map_option gn_State (map_of (g_members h') ''a'') = Some StateAlive \<and> ''a'' \<notin> set (g_suspicionTimers h')"
proof -
  have la: "g_ID (example_gossip ''a'') = ''a''" "gn_Incarnation (g_localNode (example_gossip ''a'')) = 0"
    "gn_Port (g_localNode (example_gossip ''a'')) = 7946" "gn_Metadata (g_localNode (example_gossip ''a'')) = []"
    "gn_Address (g_localNode (example_gossip ''a'')) = ''0.0.0.0''"
    by (simp_all add: example_gossip_eq)
  obtain su where su: "encodeSuspect 0 ''a'' = Inr su" "length su < 65536" using example_encodings(3) by blast
  obtain al where al: "encodeAlive 1 ''a'' ''0.0.0.0'' 7946 [] = Inr al" "length al < 65536"
    using example_encodings(2) by blast
  obtain m where m: "map_of (g_members example_b) ''a'' = Some m" "gn_Incarnation m = 0" using example_b_member by simp
  have "\<exists>g' h' m'. handleMessage example_env ''x'' su (example_gossip ''a'') = Some g' \<and>
    gn_Incarnation (g_localNode g') = 0 + 1 \<and> (0 :: 32 word) < 0 + 1 \<and> bc_msg (last (g_broadcasts g')) = al \<and>
    handleMessage example_env ''x'' al example_b = Some h' \<and> map_of (g_members h') (g_ID (example_gossip ''a'')) = Some m' \<and>
    gn_State m' = StateAlive \<and> gn_Incarnation m' = 0 + 1 \<and> g_ID (example_gossip ''a'') \<notin> set (g_suspicionTimers h')"
    using su al gossip_reach_inv [OF example_b_reach] example_b_member(2) m
    by (intro Gossip_refutation [where m = m]) (simp_all add: la node_alive_def)
  then show ?thesis by (auto simp: la)
qed

theorem Gossip_claims_monotone_witness:
  "\<exists>m'. map_of (g_members (takeDead example_env (0, ''a'') example_b)) ''a'' = Some m'"
  using Gossip_claims_monotone [OF example_b_member(1)] by blast

theorem Gossip_claims_order_matters_witness:
  "\<exists>g m'. map_of (g_members (takeAlive example_env (4, ''a'', '''', 1, []) (takeSuspect example_env (5, ''a'')
       (takeSuspect example_env (3, ''a'') g)))) ''a'' = Some m' \<and> gn_Incarnation m' = 4"
proof -
  let ?g = "takeAlive example_env (0, ''a'', ''0.0.0.0'', 7946, []) (example_gossip ''b'')"
  have "\<exists>m. map_of (g_members ?g) ''a'' = Some m \<and> gn_State m = StateAlive \<and> gn_Incarnation m = 0" and "''a'' \<noteq> g_ID ?g"
    by (simp_all add: takeAlive_def example_gossip_eq emitEvent_def setMember_def)
  then show ?thesis using Gossip_claims_order_matters [where g = ?g and k = "''a''"] by blast
qed

theorem Gossip_broadcast_budget_witness:
  "fst (getBroadcasts example_env 3 ((example_gossip ''a'')\<lparr>g_broadcasts :=
      [\<lparr> bc_msg = ''xyz'', bc_retransmit = 1, bc_created = 0 \<rparr>, \<lparr> bc_msg = ''v'', bc_retransmit = 2, bc_created = 0 \<rparr>]\<rparr>)) = [''xyz''] \<and>
   int (length ''xyz'') \<le> 3"
proof -
  let ?g = "(example_gossip ''a'')\<lparr>g_broadcasts :=
      [\<lparr> bc_msg = ''xyz'', bc_retransmit = 1, bc_created = 0 \<rparr>, \<lparr> bc_msg = ''v'', bc_retransmit = 2, bc_created = 0 \<rparr>]\<rparr>"
  have r: "fst (getBroadcasts example_env 3 ?g) = [''xyz'']" by (simp add: getBroadcasts_def example_env_def)
  then obtain g' where g': "getBroadcasts example_env 3 ?g = ([''xyz''], g')" by (metis prod.collapse)
  have "mset (ge_sort example_env (g_broadcasts ?g)) = mset (g_broadcasts ?g)" "\<forall>b \<in> set (g_broadcasts ?g). bc_retransmit b \<ge> 1"
    by (simp_all add: example_env_def)
  from Gossip_broadcast_budget [OF this g'] r show ?thesis by simp
qed

end
