(* ===== verification/Circuit_Breaker.thy ===== *)
theory Circuit_Breaker
  imports GoLib Http "HOL-Library.Sublist"
begin

text \<open>
  The circuit breaker middleware of \<^verbatim>\<open>internal/middleware/circuit_breaker.go\<close>. A request goes through
  it in two critical sections, the decision at its arrival and the record of its outcome, with the
  wrapped handler between them, so requests overlap: the decision is \<open>admit\<close>, the record
  \<open>recordOutcome\<close>, and the last part of the theory interleaves them. An entry of the
  \<^verbatim>\<open>sync.Map\<close> is shared by pointer; a request keeps the entry it was admitted by even when a reset
  removes it from the map. Times are in nanoseconds.
\<close>

section \<open>State\<close>

datatype CircuitState = CircuitClosed | CircuitOpen | CircuitHalfOpen

primrec CircuitState_String :: "CircuitState \<Rightarrow> string" where
  "CircuitState_String CircuitClosed = ''closed''"
| "CircuitState_String CircuitOpen = ''open''"
| "CircuitState_String CircuitHalfOpen = ''half-open''"

record CircuitBreakerConfig =
  cbc_ErrorThreshold :: int
  cbc_ErrorRateThreshold :: rat
  cbc_OpenDuration :: int
  cbc_HalfOpenMaxRequests :: int
  cbc_WindowSize :: int
  cbc_KeyFunc :: "(Request \<Rightarrow> string) option"
  cbc_IsServerError :: "(int \<Rightarrow> bool) option"

definition DefaultCircuitBreakerConfig :: CircuitBreakerConfig where
  "DefaultCircuitBreakerConfig =
     \<lparr> cbc_ErrorThreshold = 5, cbc_ErrorRateThreshold = 1 / 2, cbc_OpenDuration = 30000000000,
       cbc_HalfOpenMaxRequests = 3, cbc_WindowSize = 60000000000, cbc_KeyFunc = None, cbc_IsServerError = None \<rparr>"

record circuitEntry =
  ce_state :: CircuitState
  ce_openSince :: int
  ce_errors :: "int list"
  ce_requests :: "int list"
  ce_halfOpenRequests :: int
  ce_halfOpenSuccesses :: int

record CircuitBreakerMiddleware =
  cb_config :: CircuitBreakerConfig
  cb_circuits :: "(string, nat) gomap"
  cb_entries :: "nat \<Rightarrow> circuitEntry"
  cb_next :: nat

definition new_entry_cb :: circuitEntry where
  "new_entry_cb = \<lparr> ce_state = CircuitClosed, ce_openSince = 0, ce_errors = [], ce_requests = [],
     ce_halfOpenRequests = 0, ce_halfOpenSuccesses = 0 \<rparr>"

definition NewCircuitBreaker :: "CircuitBreakerConfig \<Rightarrow> CircuitBreakerMiddleware" where
  "NewCircuitBreaker c =
     \<lparr> cb_config = c\<lparr>
         cbc_ErrorThreshold := (if cbc_ErrorThreshold c \<le> 0 then 5 else cbc_ErrorThreshold c),
         cbc_ErrorRateThreshold := (if cbc_ErrorRateThreshold c \<le> 0 then 1 / 2 else cbc_ErrorRateThreshold c),
         cbc_OpenDuration := (if cbc_OpenDuration c \<le> 0 then 30000000000 else cbc_OpenDuration c),
         cbc_HalfOpenMaxRequests := (if cbc_HalfOpenMaxRequests c \<le> 0 then 3 else cbc_HalfOpenMaxRequests c),
         cbc_WindowSize := (if cbc_WindowSize c \<le> 0 then 60000000000 else cbc_WindowSize c),
         cbc_KeyFunc := Some (case cbc_KeyFunc c of Some f \<Rightarrow> f | None \<Rightarrow> req_Host),
         cbc_IsServerError := Some (case cbc_IsServerError c of Some f \<Rightarrow> f | None \<Rightarrow> (\<lambda>code. code \<ge> 500))\<rparr>,
       cb_circuits = [], cb_entries = (\<lambda>_. new_entry_cb), cb_next = 0 \<rparr>"

section \<open>The two critical sections\<close>

datatype decision = Serve | RejectOpen int | RejectHalfOpen

text \<open>The value of the header \<^verbatim>\<open>Retry-After\<close> comes with the rejection.\<close>

definition retry_after :: "CircuitBreakerConfig \<Rightarrow> int" where
  "retry_after c = trunc_rat (fl64 (of_int (cbc_OpenDuration c div 1000000000) +
     fl64 (of_int (cbc_OpenDuration c mod 1000000000) / 1000000000)))"

definition admit :: "CircuitBreakerConfig \<Rightarrow> int \<Rightarrow> circuitEntry \<Rightarrow> decision \<times> circuitEntry" where
  "admit c now e =
     (case ce_state e of
        CircuitOpen \<Rightarrow>
          if now - ce_openSince e \<ge> cbc_OpenDuration c
          then (Serve, e\<lparr>ce_state := CircuitHalfOpen, ce_halfOpenRequests := 1, ce_halfOpenSuccesses := 0\<rparr>)
          else (RejectOpen (retry_after c), e)
      | CircuitHalfOpen \<Rightarrow>
          if ce_halfOpenRequests e \<ge> cbc_HalfOpenMaxRequests c then (RejectHalfOpen, e)
          else (Serve, e\<lparr>ce_halfOpenRequests := ce_halfOpenRequests e + 1\<rparr>)
      | CircuitClosed \<Rightarrow> (Serve, e))"

definition evictOldEntries :: "CircuitBreakerConfig \<Rightarrow> int \<Rightarrow> circuitEntry \<Rightarrow> circuitEntry" where
  "evictOldEntries c now e =
     (let cutoff = now - cbc_WindowSize c
      in e\<lparr>ce_requests := dropWhile (\<lambda>t. t < cutoff) (ce_requests e),
           ce_errors := dropWhile (\<lambda>t. t < cutoff) (ce_errors e)\<rparr>)"

definition recordOutcome :: "CircuitBreakerConfig \<Rightarrow> bool \<Rightarrow> int \<Rightarrow> circuitEntry \<Rightarrow> circuitEntry" where
  "recordOutcome c isError now e =
     (case ce_state e of
        CircuitClosed \<Rightarrow>
          (let e1 = e\<lparr>ce_requests := ce_requests e @ [now],
                      ce_errors := (if isError then ce_errors e @ [now] else ce_errors e)\<rparr>;
               e2 = evictOldEntries c now e1;
               errorCount = int (length (ce_errors e2)); totalCount = int (length (ce_requests e2))
           in if errorCount \<ge> cbc_ErrorThreshold c \<and>
                 fl64 (fl64 (of_int errorCount) / fl64 (of_int totalCount)) \<ge> cbc_ErrorRateThreshold c
              then e2\<lparr>ce_state := CircuitOpen, ce_openSince := now\<rparr> else e2)
      | CircuitHalfOpen \<Rightarrow>
          if isError then e\<lparr>ce_state := CircuitOpen, ce_openSince := now\<rparr>
          else
            let e1 = e\<lparr>ce_halfOpenSuccesses := ce_halfOpenSuccesses e + 1\<rparr>
            in if ce_halfOpenSuccesses e1 \<ge> cbc_HalfOpenMaxRequests c
               then e1\<lparr>ce_state := CircuitClosed, ce_errors := [], ce_requests := []\<rparr> else e1
      | CircuitOpen \<Rightarrow> e)"

section \<open>Operations of the middleware\<close>

definition getOrCreateEntry :: "string \<Rightarrow> CircuitBreakerMiddleware \<Rightarrow> nat \<times> CircuitBreakerMiddleware" where
  "getOrCreateEntry key cb =
     (case map_of (cb_circuits cb) key of
        Some i \<Rightarrow> (i, cb)
      | None \<Rightarrow>
          (cb_next cb,
           cb\<lparr>cb_circuits := AList.update key (cb_next cb) (cb_circuits cb),
              cb_entries := (cb_entries cb)(cb_next cb := new_entry_cb), cb_next := cb_next cb + 1\<rparr>))"

definition Wrap_arrive :: "string \<Rightarrow> int \<Rightarrow> CircuitBreakerMiddleware \<Rightarrow> decision \<times> nat \<times> CircuitBreakerMiddleware" where
  "Wrap_arrive key now cb =
     (let (i, cb1) = getOrCreateEntry key cb; (d, e) = admit (cb_config cb1) now (cb_entries cb1 i)
      in (d, i, cb1\<lparr>cb_entries := (cb_entries cb1)(i := e)\<rparr>))"

definition is_server_error :: "CircuitBreakerConfig \<Rightarrow> int \<Rightarrow> bool" where
  "is_server_error c code = (case cbc_IsServerError c of Some f \<Rightarrow> f code | None \<Rightarrow> False)"

definition serveAndRecord :: "nat \<Rightarrow> int \<Rightarrow> int \<Rightarrow> CircuitBreakerMiddleware \<Rightarrow> CircuitBreakerMiddleware" where
  "serveAndRecord i statusCode now cb =
     cb\<lparr>cb_entries := (cb_entries cb)(i :=
        recordOutcome (cb_config cb) (is_server_error (cb_config cb) statusCode) now (cb_entries cb i))\<rparr>"

definition CircuitBreaker_State :: "string \<Rightarrow> int \<Rightarrow> CircuitBreakerMiddleware \<Rightarrow> CircuitState" where
  "CircuitBreaker_State key now cb =
     (case map_of (cb_circuits cb) key of
        None \<Rightarrow> CircuitClosed
      | Some i \<Rightarrow>
          (let e = cb_entries cb i
           in if ce_state e = CircuitOpen \<and> now - ce_openSince e \<ge> cbc_OpenDuration (cb_config cb)
              then CircuitHalfOpen else ce_state e))"

definition CircuitBreaker_Reset :: "string \<Rightarrow> CircuitBreakerMiddleware \<Rightarrow> CircuitBreakerMiddleware" where
  "CircuitBreaker_Reset key cb = cb\<lparr>cb_circuits := AList.delete key (cb_circuits cb)\<rparr>"

definition CircuitBreaker_ResetAll :: "CircuitBreakerMiddleware \<Rightarrow> CircuitBreakerMiddleware" where
  "CircuitBreaker_ResetAll cb = cb\<lparr>cb_circuits := []\<rparr>"

definition CircuitBreaker_Counts :: "string \<Rightarrow> int \<Rightarrow> CircuitBreakerMiddleware \<Rightarrow> (nat \<times> nat) \<times> CircuitBreakerMiddleware" where
  "CircuitBreaker_Counts key now cb =
     (case map_of (cb_circuits cb) key of
        None \<Rightarrow> ((0, 0), cb)
      | Some i \<Rightarrow>
          (let e = evictOldEntries (cb_config cb) now (cb_entries cb i)
           in ((length (ce_errors e), length (ce_requests e)), cb\<lparr>cb_entries := (cb_entries cb)(i := e)\<rparr>)))"

text \<open>The response writer that captures the status code: the first code written counts.\<close>

record statusRecorder =
  sr_statusCode :: int
  sr_wroteHeader :: bool

definition WriteHeader :: "int \<Rightarrow> statusRecorder \<Rightarrow> statusRecorder" where
  "WriteHeader code sr = (if sr_wroteHeader sr then sr else sr\<lparr>sr_statusCode := code, sr_wroteHeader := True\<rparr>)"

definition Recorder_Write :: "statusRecorder \<Rightarrow> statusRecorder" where
  "Recorder_Write sr = (if \<not> sr_wroteHeader sr then WriteHeader 200 sr else sr)"


section \<open>Overlapping requests\<close>

text \<open>
  The requests that have been admitted and whose outcome is not recorded yet are in flight, each with
  the entry that admitted it and the time of its arrival. A handler that panics leaves without a record (\<open>Abort\<close>). The log
  of admissions is a history variable.
\<close>

record cbsys =
  cs_cb :: CircuitBreakerMiddleware
  cs_inflight :: "(nat \<times> int) list"
  cs_served :: "(nat \<times> int) list"

datatype cb_event =
    Arrive string int
  | Finish "nat \<times> int" int int
  | Abort "nat \<times> int"
  | ResetKey string
  | ResetEverything
  | AskCounts string int

definition cb_step :: "cbsys \<Rightarrow> cb_event \<Rightarrow> cbsys" where
  "cb_step s ev =
     (case ev of
        Arrive key now \<Rightarrow>
          (let (d, i, cb) = Wrap_arrive key now (cs_cb s)
           in if d = Serve then s\<lparr>cs_cb := cb, cs_inflight := (i, now) # cs_inflight s, cs_served := (i, now) # cs_served s\<rparr>
              else s\<lparr>cs_cb := cb\<rparr>)
      | Finish r code now \<Rightarrow>
          if r \<in> set (cs_inflight s)
          then s\<lparr>cs_cb := serveAndRecord (fst r) code now (cs_cb s), cs_inflight := remove1 r (cs_inflight s)\<rparr> else s
      | Abort r \<Rightarrow> s\<lparr>cs_inflight := remove1 r (cs_inflight s)\<rparr>
      | ResetKey key \<Rightarrow> s\<lparr>cs_cb := CircuitBreaker_Reset key (cs_cb s)\<rparr>
      | ResetEverything \<Rightarrow> s\<lparr>cs_cb := CircuitBreaker_ResetAll (cs_cb s)\<rparr>
      | AskCounts key now \<Rightarrow> s\<lparr>cs_cb := snd (CircuitBreaker_Counts key now (cs_cb s))\<rparr>)"

definition cb_run :: "cbsys \<Rightarrow> cb_event list \<Rightarrow> cbsys" where
  "cb_run s es = foldl cb_step s es"

definition cb_init :: "CircuitBreakerConfig \<Rightarrow> cbsys" where
  "cb_init c = \<lparr> cs_cb = NewCircuitBreaker c, cs_inflight = [], cs_served = [] \<rparr>"


abbreviation entry_of :: "cbsys \<Rightarrow> nat \<Rightarrow> circuitEntry" where
  "entry_of s i \<equiv> cb_entries (cs_cb s) i"

abbreviation served_by :: "cbsys \<Rightarrow> nat \<Rightarrow> int list" where
  "served_by s i \<equiv> map snd (filter (\<lambda>(j, t). j = i) (cs_served s))"

section \<open>Invariant\<close>

text \<open>
  Every entry in use has been allocated, the errors of an entry are a subsequence of its requests,
  and in the half-open state no more requests are counted than the limit allows.
\<close>

definition entry_ok :: "CircuitBreakerConfig \<Rightarrow> circuitEntry \<Rightarrow> bool" where
  "entry_ok c e =
     (subseq (ce_errors e) (ce_requests e) \<and>
      (ce_state e = CircuitHalfOpen \<longrightarrow>
         ce_halfOpenRequests e \<le> cbc_HalfOpenMaxRequests c \<and> ce_halfOpenSuccesses e < cbc_HalfOpenMaxRequests c))"

definition cb_inv :: "cbsys \<Rightarrow> bool" where
  "cb_inv s =
     (cbc_HalfOpenMaxRequests (cb_config (cs_cb s)) > 0 \<and>
      (\<forall>i \<in> snd ` set (cb_circuits (cs_cb s)). i < cb_next (cs_cb s)) \<and>
      (\<forall>(i, t) \<in> set (cs_inflight s). i < cb_next (cs_cb s)) \<and>
      (\<forall>i. entry_ok (cb_config (cs_cb s)) (entry_of s i)))"

lemma subseq_dropWhile: "subseq xs ys \<Longrightarrow> subseq (dropWhile P xs) (dropWhile P ys)"
proof (induction rule: list_emb.induct)
  case (list_emb_Cons xs ys y)
  have "subseq (dropWhile P xs) xs" by (simp add: suffix_dropWhile suffix_imp_subseq)
  with list_emb_Cons show ?case by (cases "P y") (auto intro: subseq_order.trans)
qed auto

lemma entry_ok_admit: "entry_ok c e \<Longrightarrow> cbc_HalfOpenMaxRequests c > 0 \<Longrightarrow> entry_ok c (snd (admit c now e))"
  by (auto simp: admit_def entry_ok_def split: CircuitState.split)

lemma evict_sel:
  "ce_state (evictOldEntries c now e) = ce_state e" "ce_halfOpenRequests (evictOldEntries c now e) = ce_halfOpenRequests e"
  "ce_halfOpenSuccesses (evictOldEntries c now e) = ce_halfOpenSuccesses e" "ce_openSince (evictOldEntries c now e) = ce_openSince e"
  by (simp_all add: evictOldEntries_def Let_def)

lemma entry_ok_evict: "entry_ok c e \<Longrightarrow> entry_ok c (evictOldEntries c now e)"
  by (simp add: entry_ok_def evict_sel) (simp add: evictOldEntries_def Let_def subseq_dropWhile)

lemma entry_ok_record:
  assumes "entry_ok c e"
  shows "entry_ok c (recordOutcome c err now e)"
proof (cases "ce_state e")
  case CircuitClosed
  let ?e1 = "e\<lparr>ce_requests := ce_requests e @ [now], ce_errors := (if err then ce_errors e @ [now] else ce_errors e)\<rparr>"
  have "entry_ok c ?e1" using assms CircuitClosed by (auto simp: entry_ok_def subseq_append_iff list_emb_append_mono)
  then have "entry_ok c (evictOldEntries c now ?e1)" by (rule entry_ok_evict)
  with CircuitClosed show ?thesis by (simp add: recordOutcome_def Let_def entry_ok_def)
next
  case CircuitHalfOpen
  with assms show ?thesis by (auto simp: recordOutcome_def Let_def entry_ok_def)
qed (use assms in \<open>simp add: recordOutcome_def\<close>)

lemma entry_ok_new: "entry_ok c new_entry_cb"
  by (simp add: entry_ok_def new_entry_cb_def)

lemma map_of_SomeD2: "map_of m k = Some v \<Longrightarrow> v \<in> snd ` set m"
  by (metis image_eqI map_of_SomeD snd_conv)

lemma getOrCreateEntry_spec:
  assumes "getOrCreateEntry key cb = (i, cb')" and "\<forall>i \<in> snd ` set (cb_circuits cb). i < cb_next cb"
  shows "cb_config cb' = cb_config cb" "cb_next cb \<le> cb_next cb'" "i < cb_next cb'"
    "\<forall>i \<in> snd ` set (cb_circuits cb'). i < cb_next cb'"
    "j < cb_next cb \<Longrightarrow> cb_entries cb' j = cb_entries cb j" "cb_entries cb' j = cb_entries cb j \<or> cb_entries cb' j = new_entry_cb"
proof -
  have *: "snd ` set (AList.update key v m) \<subseteq> insert v (snd ` set m)" for v and m :: "(string \<times> nat) list"
    by (induction m) auto
  show "cb_config cb' = cb_config cb" "cb_next cb \<le> cb_next cb'" "i < cb_next cb'"
    "j < cb_next cb \<Longrightarrow> cb_entries cb' j = cb_entries cb j" "cb_entries cb' j = cb_entries cb j \<or> cb_entries cb' j = new_entry_cb"
    using assms by (auto simp: getOrCreateEntry_def dest: map_of_SomeD2 split: option.splits)
  show "\<forall>i \<in> snd ` set (cb_circuits cb'). i < cb_next cb'"
    using assms * [of "cb_next cb" "cb_circuits cb"] by (fastforce simp: getOrCreateEntry_def split: option.splits)
qed


lemma Wrap_arrive_spec:
  assumes "Wrap_arrive key now cb = (d, i, cb')" and "\<forall>i \<in> snd ` set (cb_circuits cb). i < cb_next cb"
  obtains e where "cb_config cb' = cb_config cb" "cb_next cb \<le> cb_next cb'" "i < cb_next cb'"
    "\<forall>i \<in> snd ` set (cb_circuits cb'). i < cb_next cb'" "(d, cb_entries cb' i) = admit (cb_config cb) now e"
    "e = new_entry_cb \<or> e = cb_entries cb i" "i < cb_next cb \<longrightarrow> e = cb_entries cb i"
    "\<forall>j. j \<noteq> i \<longrightarrow> cb_entries cb' j = cb_entries cb j \<or> cb_entries cb' j = new_entry_cb"
    "\<forall>j. j \<noteq> i \<longrightarrow> j < cb_next cb \<longrightarrow> cb_entries cb' j = cb_entries cb j"
proof -
  obtain k cb1 where g: "getOrCreateEntry key cb = (k, cb1)" by fastforce
  note sp = getOrCreateEntry_spec [OF g assms(2)]
  have eq: "i = k" "d = fst (admit (cb_config cb) now (cb_entries cb1 k))"
    "cb' = cb1\<lparr>cb_entries := (cb_entries cb1)(k := snd (admit (cb_config cb) now (cb_entries cb1 k)))\<rparr>"
    using assms(1) sp(1) by (auto simp: Wrap_arrive_def g Let_def case_prod_beta)
  show thesis
  proof (rule that [of "cb_entries cb1 k"])
    show "cb_entries cb1 k = new_entry_cb \<or> cb_entries cb1 k = cb_entries cb i" using sp(6) [of k] eq(1) by auto
    show "i < cb_next cb \<longrightarrow> cb_entries cb1 k = cb_entries cb i" using sp(5) [of k] eq(1) by auto
    show "\<forall>j. j \<noteq> i \<longrightarrow> cb_entries cb' j = cb_entries cb j \<or> cb_entries cb' j = new_entry_cb" using sp(6) eq by auto
    show "\<forall>j. j \<noteq> i \<longrightarrow> j < cb_next cb \<longrightarrow> cb_entries cb' j = cb_entries cb j" using sp(5) eq by auto
  qed (use sp(1-4) eq in auto)
qed

lemma cb_inv_arrive:
  assumes inv: "cb_inv s"
  shows "cb_inv (cb_step s (Arrive key now))"
proof -
  obtain d i cb' where w: "Wrap_arrive key now (cs_cb s) = (d, i, cb')" by (metis prod_cases3)
  have ids: "\<forall>i \<in> snd ` set (cb_circuits (cs_cb s)). i < cb_next (cs_cb s)" using inv by (simp add: cb_inv_def)
  obtain e where sp: "cb_config cb' = cb_config (cs_cb s)" "cb_next (cs_cb s) \<le> cb_next cb'" "i < cb_next cb'"
    "\<forall>i \<in> snd ` set (cb_circuits cb'). i < cb_next cb'" "(d, cb_entries cb' i) = admit (cb_config (cs_cb s)) now e"
    "e = new_entry_cb \<or> e = entry_of s i"
    "\<forall>j. j \<noteq> i \<longrightarrow> cb_entries cb' j = entry_of s j \<or> cb_entries cb' j = new_entry_cb"
    using Wrap_arrive_spec [OF w ids] by metis
  have "entry_ok (cb_config (cs_cb s)) e" using sp(6) inv entry_ok_new by (auto simp: cb_inv_def)
  then have "entry_ok (cb_config (cs_cb s)) (cb_entries cb' i)"
    using entry_ok_admit inv sp(5) by (metis cb_inv_def snd_conv)
  then have "entry_ok (cb_config (cs_cb s)) (cb_entries cb' j)" for j
    using sp(7) inv entry_ok_new by (metis cb_inv_def)
  then show ?thesis using inv sp(1-4) by (fastforce simp: cb_step_def w cb_inv_def)
qed

lemma cb_inv_step: "cb_inv s \<Longrightarrow> cb_inv (cb_step s ev)"
proof (cases ev)
  case (Finish i code now)
  then show "cb_inv s \<Longrightarrow> ?thesis"
    using set_remove1_subset [of i "cs_inflight s"]
    by (auto simp: cb_step_def cb_inv_def serveAndRecord_def entry_ok_record)
next
  case (AskCounts key now)
  then show "cb_inv s \<Longrightarrow> ?thesis"
    by (auto simp: cb_step_def cb_inv_def CircuitBreaker_Counts_def Let_def entry_ok_evict split: option.split)
next
  case (ResetKey key)
  then show "cb_inv s \<Longrightarrow> ?thesis"
    using set_delete_subset [of key "cb_circuits (cs_cb s)"]
    by (auto simp: cb_step_def cb_inv_def CircuitBreaker_Reset_def)
next
  case (Abort i)
  then show "cb_inv s \<Longrightarrow> ?thesis"
    using set_remove1_subset [of i "cs_inflight s"] by (auto simp: cb_step_def cb_inv_def)
next
  case (Arrive key now)
  then show "cb_inv s \<Longrightarrow> ?thesis" by (simp add: cb_inv_arrive)
qed (simp add: cb_step_def cb_inv_def CircuitBreaker_ResetAll_def)

lemma cb_inv_run: "cb_inv s \<Longrightarrow> cb_inv (cb_run s es)"
  by (induction es arbitrary: s) (simp_all add: cb_run_def cb_inv_step)

lemma cb_inv_init: "cb_inv (cb_init c)"
  by (simp add: cb_inv_def cb_init_def NewCircuitBreaker_def entry_ok_new)

section \<open>An open circuit\<close>





section \<open>A half-open circuit whose probes are used up\<close>

definition exhausted :: "cbsys \<Rightarrow> string \<Rightarrow> nat \<Rightarrow> bool" where
  "exhausted s key i =
     (map_of (cb_circuits (cs_cb s)) key = Some i \<and> ce_state (entry_of s i) = CircuitHalfOpen \<and>
      ce_halfOpenRequests (entry_of s i) \<ge> cbc_HalfOpenMaxRequests (cb_config (cs_cb s)) \<and>
      i \<notin> fst ` set (cs_inflight s))"

lemma exhausted_arrive:
  assumes inv: "cb_inv s" and ex: "exhausted s key i"
  shows "exhausted (cb_step s (Arrive k now)) key i \<and> served_by (cb_step s (Arrive k now)) i = served_by s i"
proof -
  have i: "i < cb_next (cs_cb s)" using inv ex by (auto simp: exhausted_def cb_inv_def dest: map_of_SomeD2)
  obtain j cb1 where g: "getOrCreateEntry k (cs_cb s) = (j, cb1)" by fastforce
  have ids: "\<forall>i \<in> snd ` set (cb_circuits (cs_cb s)). i < cb_next (cs_cb s)" using inv by (simp add: cb_inv_def)
  note sp = getOrCreateEntry_spec [OF g ids]
  have m: "map_of (cb_circuits cb1) key = Some i"
    using g ex by (auto simp: getOrCreateEntry_def exhausted_def map_of_update split: option.splits)
  show ?thesis
  proof (cases "j = i")
    case True
    then have "admit (cb_config cb1) now (cb_entries cb1 j) = (RejectHalfOpen, cb_entries cb1 j)"
      using sp(1) sp(5) [of i] i ex by (simp add: admit_def exhausted_def)
    then show ?thesis
      using ex m sp(1) sp(5) [of i] i True by (auto simp: cb_step_def Wrap_arrive_def g exhausted_def)
  next
    case False
    then show ?thesis
      using ex m sp(1) sp(5) [of i] i by (auto simp: cb_step_def Wrap_arrive_def g exhausted_def Let_def case_prod_beta)
  qed
qed

lemma exhausted_step:
  assumes inv: "cb_inv s" and ex: "exhausted s key i" and ev: "ev \<noteq> ResetKey key" "ev \<noteq> ResetEverything"
  shows "exhausted (cb_step s ev) key i \<and> served_by (cb_step s ev) i = served_by s i"
proof (cases ev)
  case (Arrive k now)
  with exhausted_arrive [OF inv ex] show ?thesis by simp
next
  case (Finish r code now)
  have "r \<in> set (cs_inflight s) \<Longrightarrow> fst r \<noteq> i" using ex by (auto simp: exhausted_def)
  moreover have "i \<notin> fst ` set (remove1 r (cs_inflight s))" using ex set_remove1_subset [of r "cs_inflight s"] by (auto simp: exhausted_def)
  ultimately show ?thesis using Finish ex by (auto simp: cb_step_def exhausted_def serveAndRecord_def)
next
  case (Abort r)
  have "i \<notin> fst ` set (remove1 r (cs_inflight s))" using ex set_remove1_subset [of r "cs_inflight s"] by (auto simp: exhausted_def)
  with Abort ex show ?thesis by (auto simp: cb_step_def exhausted_def)
next
  case (ResetKey k)
  with ev ex show ?thesis by (simp add: cb_step_def exhausted_def CircuitBreaker_Reset_def map_of_delete)
next
  case (AskCounts k now)
  with ex show ?thesis
    by (auto simp: cb_step_def exhausted_def CircuitBreaker_Counts_def Let_def evict_sel split: option.split)
qed (use ev in simp)

lemma exhausted_run:
  assumes "cb_inv s" and "exhausted s key i" and "ResetKey key \<notin> set es" and "ResetEverything \<notin> set es"
  shows "exhausted (cb_run s es) key i \<and> served_by (cb_run s es) i = served_by s i"
  using assms
proof (induction es arbitrary: s)
  case (Cons ev es)
  have st: "exhausted (cb_step s ev) key i \<and> served_by (cb_step s ev) i = served_by s i"
    using Cons.prems by (intro exhausted_step) auto
  have "exhausted (cb_run (cb_step s ev) es) key i \<and> served_by (cb_run (cb_step s ev) es) i = served_by (cb_step s ev) i"
    using Cons.prems st by (intro Cons.IH cb_inv_step) auto
  with st show ?case by (simp add: cb_run_def)
qed (simp add: cb_run_def)

section \<open>Properties\<close>


text \<open>
  In every reachable state the errors of an entry are a subsequence of its requests, so the error
  rate is at most one and never a division by zero, and a half-open entry has admitted at most
  \<^verbatim>\<open>HalfOpenMaxRequests\<close> requests since its circuit became half-open.
\<close>

theorem CircuitBreaker_window:
  "subseq (ce_errors (entry_of (cb_run (cb_init c) es) i)) (ce_requests (entry_of (cb_run (cb_init c) es) i)) \<and>
   (case ce_state (entry_of (cb_run (cb_init c) es) i) of
      CircuitHalfOpen \<Rightarrow> ce_halfOpenRequests (entry_of (cb_run (cb_init c) es) i) \<le> cbc_HalfOpenMaxRequests (cb_config (cs_cb (cb_run (cb_init c) es)))
    | _ \<Rightarrow> True)"
  using cb_inv_run [OF cb_inv_init, of c es] by (auto simp: cb_inv_def entry_ok_def split: CircuitState.split)

text \<open>
  C40. A lost probe blocks a circuit for good: when a half-open entry has used up its probes and none of
  them is in flight any more, because a wrapped handler panicked and its outcome was never recorded, then
  no request for its key is admitted in any later run without a reset.
\<close>

theorem CircuitBreaker_lost_probe_blocks:
  assumes "s = cb_run (cb_init c) es0" and "exhausted s key i" and "ResetKey key \<notin> set es" and "ResetEverything \<notin> set es"
  shows "CircuitBreaker_State key now (cs_cb (cb_run s es)) = CircuitHalfOpen \<and> served_by (cb_run s es) i = served_by s i"
proof -
  have "cb_inv s" unfolding assms(1) by (intro cb_inv_run cb_inv_init)
  from exhausted_run [OF this assms(2-4)] show ?thesis by (simp add: CircuitBreaker_State_def exhausted_def)
qed

section \<open>Examples\<close>

definition example_breaker :: CircuitBreakerConfig where
  "example_breaker = DefaultCircuitBreakerConfig\<lparr>cbc_ErrorThreshold := 1, cbc_HalfOpenMaxRequests := 1\<rparr>"

text \<open>A slow request and a failing one: the circuit opens at time 2.\<close>

definition example_open :: "cb_event list" where
  "example_open = [Arrive ''b'' 0, Arrive ''b'' 1, Finish (0, 1) 503 2]"

lemma fl64_1: "fl64 1 = 1"
  using fl64_of_int [of 1] by simp

lemmas example_breaker_eval = cb_run_def cb_init_def NewCircuitBreaker_def example_breaker_def DefaultCircuitBreakerConfig_def
  example_open_def cb_step_def Wrap_arrive_def getOrCreateEntry_def admit_def serveAndRecord_def recordOutcome_def
  is_server_error_def evictOldEntries_def new_entry_cb_def fl64_1 Let_def



theorem CircuitBreaker_lost_probe_blocks_witness:
  "CircuitBreaker_State ''b'' 99000000000 (cs_cb (cb_run (cb_run (cb_init example_breaker)
      (example_open @ [Finish (0, 0) 200 3, Arrive ''b'' 30000000002, Abort (0, 30000000002)]))
      [Arrive ''b'' 60000000000, Arrive ''b'' 90000000000])) = CircuitHalfOpen"
proof -
  let ?s = "cb_run (cb_init example_breaker) (example_open @ [Finish (0, 0) 200 3, Arrive ''b'' 30000000002, Abort (0, 30000000002)])"
  have "exhausted ?s ''b'' 0" by (simp add: exhausted_def example_breaker_eval)
  from CircuitBreaker_lost_probe_blocks [OF refl this] show ?thesis by simp
qed

text \<open>
  The circuit can close without a successful probe: a request admitted before the circuit opened
  that finishes while it is half-open counts as a successful probe. Here the only probe, of time
  30000000002, is still in flight when the circuit closes.
\<close>

theorem CircuitBreaker_stale_success_closes:
  "let s = cb_run (cb_init example_breaker)
       (example_open @ [Arrive ''b'' 30000000002, Finish (0, 0) 200 30000000003])
   in ce_state (entry_of s 0) = CircuitClosed \<and> cs_inflight s = [(0, 30000000002)]"
  by (simp add: example_breaker_eval)

end
