(* ===== verification/Lru.thy ===== *)
theory Lru
  imports Prelude
begin

text \<open>
  The LRU cache of \<^verbatim>\<open>pkg/utils/lru.go\<close>: a map from keys to elements of a doubly linked list that is kept
  in the order of use, with expiration times. An element of \<^verbatim>\<open>container/list\<close> is an address, the list
  is the sequence of the addresses of its elements and a store maps an address to the entry. The
  cache implements a list of entries, the most recently used first, and the guarantee that makes it
  an LRU cache is proved on that list.
\<close>

section \<open>The cache\<close>

record ('k, 'v) entry =
  en_key :: 'k
  en_value :: 'v
  en_expiration :: int

definition isExpired :: "int \<Rightarrow> ('k, 'v) entry \<Rightarrow> bool" where
  "isExpired now e = (if en_expiration e = 0 then False else now > en_expiration e)"

text \<open>The calls of the eviction callback are a history variable.\<close>

record ('k, 'v) LRU =
  l_capacity :: int
  l_items :: "('k, nat) gomap"
  l_order :: "nat list"
  l_store :: "nat \<Rightarrow> ('k, 'v) entry"
  l_next :: nat
  l_onEvict :: bool
  l_evicted :: "('k \<times> 'v) list"

definition NewLRU :: "(nat \<Rightarrow> ('k, 'v) entry) \<Rightarrow> int \<Rightarrow> string + ('k, 'v) LRU" where
  "NewLRU store capacity =
     (if capacity \<le> 0 then Inl ''ErrInvalidCapacity''
      else Inr \<lparr> l_capacity = capacity, l_items = [], l_order = [], l_store = store, l_next = 0, l_onEvict = False,
                 l_evicted = [] \<rparr>)"

definition SetOnEvict :: "('k, 'v) LRU \<Rightarrow> ('k, 'v) LRU" where
  "SetOnEvict c = c\<lparr>l_onEvict := True\<rparr>"

definition LRU_Len :: "('k, 'v) LRU \<Rightarrow> nat" where
  "LRU_Len c = length (l_items c)"

definition removeElement :: "nat \<Rightarrow> ('k, 'v) LRU \<Rightarrow> ('k, 'v) LRU" where
  "removeElement elem c =
     (let ent = l_store c elem
      in c\<lparr>l_items := AList.delete (en_key ent) (l_items c), l_order := remove1 elem (l_order c),
           l_evicted := (if l_onEvict c then l_evicted c @ [(en_key ent, en_value ent)] else l_evicted c)\<rparr>)"

definition evictOldest :: "('k, 'v) LRU \<Rightarrow> ('k, 'v) LRU" where
  "evictOldest c = (if l_order c = [] then c else removeElement (last (l_order c)) c)"

definition MoveToFront :: "nat \<Rightarrow> ('k, 'v) LRU \<Rightarrow> ('k, 'v) LRU" where
  "MoveToFront elem c = c\<lparr>l_order := elem # remove1 elem (l_order c)\<rparr>"

definition LRU_Get :: "'k \<Rightarrow> int \<Rightarrow> ('k, 'v) LRU \<Rightarrow> 'v option \<times> ('k, 'v) LRU" where
  "LRU_Get key now c =
     (case map_of (l_items c) key of
        None \<Rightarrow> (None, c)
      | Some elem \<Rightarrow>
          (let ent = l_store c elem
           in if isExpired now ent then (None, removeElement elem c)
              else (Some (en_value ent), MoveToFront elem c)))"

definition PutWithTTL :: "'k \<Rightarrow> 'v \<Rightarrow> int \<Rightarrow> int \<Rightarrow> ('k, 'v) LRU \<Rightarrow> ('k, 'v) LRU" where
  "PutWithTTL key v ttl now c =
     (let expiration = (if ttl > 0 then now + ttl else 0)
      in case map_of (l_items c) key of
           Some elem \<Rightarrow>
             MoveToFront elem
               (c\<lparr>l_store := (l_store c)(elem := (l_store c elem)\<lparr>en_value := v, en_expiration := expiration\<rparr>)\<rparr>)
         | None \<Rightarrow>
             (let elem = l_next c;
                  c1 = c\<lparr>l_store := (l_store c)(elem := \<lparr> en_key = key, en_value = v, en_expiration = expiration \<rparr>),
                         l_order := elem # l_order c, l_items := AList.update key elem (l_items c), l_next := elem + 1\<rparr>
              in if int (length (l_items c1)) > l_capacity c1 then evictOldest c1 else c1))"

definition LRU_Put :: "'k \<Rightarrow> 'v \<Rightarrow> int \<Rightarrow> ('k, 'v) LRU \<Rightarrow> ('k, 'v) LRU" where
  "LRU_Put key v now c = PutWithTTL key v 0 now c"

definition LRU_Contains :: "'k \<Rightarrow> int \<Rightarrow> ('k, 'v) LRU \<Rightarrow> bool \<times> ('k, 'v) LRU" where
  "LRU_Contains key now c =
     (case map_of (l_items c) key of
        None \<Rightarrow> (False, c)
      | Some elem \<Rightarrow> if isExpired now (l_store c elem) then (False, removeElement elem c) else (True, c))"

definition LRU_Peek :: "'k \<Rightarrow> int \<Rightarrow> ('k, 'v) LRU \<Rightarrow> 'v option \<times> ('k, 'v) LRU" where
  "LRU_Peek key now c =
     (case map_of (l_items c) key of
        None \<Rightarrow> (None, c)
      | Some elem \<Rightarrow>
          if isExpired now (l_store c elem) then (None, removeElement elem c) else (Some (en_value (l_store c elem)), c))"

definition LRU_Delete :: "'k \<Rightarrow> ('k, 'v) LRU \<Rightarrow> bool \<times> ('k, 'v) LRU" where
  "LRU_Delete key c =
     (case map_of (l_items c) key of
        None \<Rightarrow> (False, c)
      | Some elem \<Rightarrow> (True, removeElement elem c))"

definition LRU_Clear :: "('k, 'v) LRU \<Rightarrow> ('k, 'v) LRU" where
  "LRU_Clear c =
     c\<lparr>l_evicted := (if l_onEvict c
          then l_evicted c @ map (\<lambda>elem. (en_key (l_store c elem), en_value (l_store c elem))) (rev (l_order c))
          else l_evicted c),
       l_items := [], l_order := []\<rparr>"

text \<open>\<^verbatim>\<open>Keys\<close> and \<^verbatim>\<open>Values\<close> walk over the list and remove what has expired.\<close>

fun live_walk :: "int \<Rightarrow> nat list \<Rightarrow> ('k, 'v) LRU \<Rightarrow> ('k, 'v) entry list \<times> ('k, 'v) LRU" where
  "live_walk now [] c = ([], c)"
| "live_walk now (elem # es) c =
     (if isExpired now (l_store c elem) then live_walk now es (removeElement elem c)
      else let (xs, c') = live_walk now es c in (l_store c elem # xs, c'))"

definition LRU_Keys :: "int \<Rightarrow> ('k, 'v) LRU \<Rightarrow> 'k list \<times> ('k, 'v) LRU" where
  "LRU_Keys now c = (let (es, c') = live_walk now (l_order c) c in (map en_key es, c'))"

definition LRU_Values :: "int \<Rightarrow> ('k, 'v) LRU \<Rightarrow> 'v list \<times> ('k, 'v) LRU" where
  "LRU_Values now c = (let (es, c') = live_walk now (l_order c) c in (map en_value es, c'))"

partial_function (option) resize_loop :: "int \<Rightarrow> nat \<Rightarrow> ('k, 'v) LRU \<Rightarrow> (nat \<times> ('k, 'v) LRU) option" where
  "resize_loop capacity evicted c =
     (if int (length (l_items c)) > capacity then resize_loop capacity (evicted + 1) (evictOldest c)
      else Some (evicted, c))"

definition LRU_Resize :: "int \<Rightarrow> ('k, 'v) LRU \<Rightarrow> (nat \<times> ('k, 'v) LRU) option" where
  "LRU_Resize capacity c =
     (if capacity \<le> 0 then Some (0, c)
      else map_option (\<lambda>(n, c'). (n, c'\<lparr>l_capacity := capacity\<rparr>)) (resize_loop capacity 0 c))"

section \<open>Invariant and content\<close>

text \<open>
  The map and the list hold the same elements, each under the key of its entry; \<^term>\<open>lru_inv\<close> adds that
  there are at most as many as the capacity allows. The content of a cache is its entries, the most
  recently used first.
\<close>

definition lru_wf :: "('k, 'v) LRU \<Rightarrow> bool" where
  "lru_wf c =
     (gomap_wf (l_items c) \<and> distinct (l_order c) \<and> (\<forall>i \<in> set (l_order c). i < l_next c) \<and>
      (\<forall>k i. map_of (l_items c) k = Some i \<longleftrightarrow> i \<in> set (l_order c) \<and> en_key (l_store c i) = k))"

definition content :: "('k, 'v) LRU \<Rightarrow> ('k, 'v) entry list" where
  "content c = map (l_store c) (l_order c)"

definition lru_inv :: "('k, 'v) LRU \<Rightarrow> bool" where
  "lru_inv c = (lru_wf c \<and> 0 < l_capacity c \<and> int (length (l_items c)) \<le> l_capacity c)"

definition without :: "'k \<Rightarrow> ('k, 'v) entry list \<Rightarrow> ('k, 'v) entry list" where
  "without k es = filter (\<lambda>e. en_key e \<noteq> k) es"

lemma lru_wf_items: "lru_wf c \<Longrightarrow> map_of (l_items c) k = Some i \<longleftrightarrow> i \<in> set (l_order c) \<and> en_key (l_store c i) = k"
  by (simp add: lru_wf_def)

lemma lru_wf_inj:
  assumes "lru_wf c" "i \<in> set (l_order c)" "j \<in> set (l_order c)" "en_key (l_store c i) = en_key (l_store c j)"
  shows "i = j"
  using assms lru_wf_items [OF assms(1), of "en_key (l_store c i)"] by (metis option.inject)

lemma lru_wf_keys: "lru_wf c \<Longrightarrow> distinct (map en_key (content c))"
  by (auto simp: content_def distinct_map comp_def inj_on_def lru_wf_inj) (simp add: lru_wf_def)

lemma lru_wf_length:
  assumes "lru_wf c" shows "length (content c) = length (l_items c)"
proof -
  have "fst ` set (l_items c) = en_key ` set (content c)"
    unfolding dom_map_of_conv_image_fst [symmetric] content_def dom_def
    using lru_wf_items [OF assms] by (auto simp: image_iff)
  moreover have "card (fst ` set (l_items c)) = length (l_items c)"
    using assms by (metis distinct_card length_map list.set_map lru_wf_def)
  moreover have "card (en_key ` set (content c)) = length (content c)"
    using lru_wf_keys [OF assms] by (metis distinct_card length_map list.set_map)
  ultimately show ?thesis by simp
qed

lemma lru_find:
  assumes "lru_wf c"
  shows "find (\<lambda>e. en_key e = k) (content c) = map_option (l_store c) (map_of (l_items c) k)"
proof (cases "map_of (l_items c) k")
  case None
  then have "\<forall>i \<in> set (l_order c). en_key (l_store c i) \<noteq> k" using lru_wf_items [OF assms, of k] by auto
  with None show ?thesis by (auto simp: content_def find_None_iff)
next
  case (Some i)
  then have i: "l_store c i \<in> set (content c)" "en_key (l_store c i) = k"
    using lru_wf_items [OF assms] by (auto simp: content_def)
  then obtain e where e: "find (\<lambda>e. en_key e = k) (content c) = Some e"
    by (metis (mono_tags, lifting) find_None_iff option.exhaust)
  then have "e \<in> set (content c)" "en_key e = k" by (auto simp: find_Some_iff)
  with i have "e = l_store c i" using lru_wf_keys [OF assms] by (metis distinct_map inj_on_def)
  with e Some show ?thesis by simp
qed

section \<open>The operations on the content\<close>

lemma without_Cons [simp]: "without k (e # es) = (if en_key e = k then without k es else e # without k es)"
  by (simp add: without_def)

lemma without_append [simp]: "without k (es @ fs) = without k es @ without k fs"
  by (simp add: without_def)

lemma without_absent: "k \<notin> en_key ` set es \<Longrightarrow> without k es = es"
  by (auto simp: without_def filter_id_conv)

lemma keys_without [simp]: "en_key ` set (without k es) = en_key ` set es - {k}"
  by (auto simp: without_def)

lemma distinct_without: "distinct (map en_key es) \<Longrightarrow> distinct (map en_key (without k es))"
  by (simp add: without_def distinct_map_filter)

lemma length_without_le: "length (without k es) \<le> length es"
  by (simp add: without_def)

lemma length_without: "distinct (map en_key es) \<Longrightarrow> k \<in> en_key ` set es \<Longrightarrow> Suc (length (without k es)) = length es"
proof (induction es)
  case (Cons e es)
  then show ?case by (cases "en_key e = k") (auto simp: without_absent)
qed simp

lemma remove_content:
  assumes "lru_wf c" "i \<in> set (l_order c)"
  shows "map (l_store c) (remove1 i (l_order c)) = without (en_key (l_store c i)) (content c)"
proof -
  have "distinct (l_order c)" using assms by (simp add: lru_wf_def)
  then have "remove1 i (l_order c) = filter ((\<noteq>) i) (l_order c)" by (simp add: distinct_remove1_removeAll removeAll_filter_not_eq)
  also have "\<dots> = filter (\<lambda>j. en_key (l_store c j) \<noteq> en_key (l_store c i)) (l_order c)"
    by (rule filter_cong [OF refl]) (metis assms lru_wf_inj)
  finally show ?thesis by (simp add: content_def without_def filter_map comp_def)
qed

lemma removeElement_wf:
  assumes "lru_wf c" "i \<in> set (l_order c)"
  shows "lru_wf (removeElement i c)"
  unfolding lru_wf_def removeElement_def Let_def
  using assms by (auto simp: gomap lru_wf_def dest: lru_wf_inj [OF assms(1)] in_set_remove1 [THEN iffD1])

lemma removeElement_content:
  "lru_wf c \<Longrightarrow> i \<in> set (l_order c) \<Longrightarrow> content (removeElement i c) = without (en_key (l_store c i)) (content c)"
  using remove_content by (simp add: removeElement_def Let_def content_def)

lemma removeElement_capacity [simp]: "l_capacity (removeElement i c) = l_capacity c" "l_store (removeElement i c) = l_store c"
  by (simp_all add: removeElement_def Let_def)

lemma MoveToFront_wf: "lru_wf c \<Longrightarrow> i \<in> set (l_order c) \<Longrightarrow> lru_wf (MoveToFront i c)"
  by (auto simp: lru_wf_def MoveToFront_def distinct_remove1)

lemma MoveToFront_content:
  "lru_wf c \<Longrightarrow> i \<in> set (l_order c) \<Longrightarrow>
   content (MoveToFront i c) = l_store c i # without (en_key (l_store c i)) (content c)"
  using remove_content by (simp add: MoveToFront_def content_def)

lemma MoveToFront_capacity [simp]: "l_capacity (MoveToFront i c) = l_capacity c"
  by (simp add: MoveToFront_def)

lemma evictOldest_wf: "lru_wf c \<Longrightarrow> lru_wf (evictOldest c)"
  by (simp add: evictOldest_def removeElement_wf)

lemma without_last:
  "distinct (map en_key es) \<Longrightarrow> es \<noteq> [] \<Longrightarrow> without (en_key (last es)) es = butlast es"
  by (induction es rule: rev_induct) (auto simp: without_absent)

lemma evictOldest_content:
  assumes "lru_wf c"
  shows "content (evictOldest c) = butlast (content c)"
proof (cases "l_order c = []")
  case False
  then have "l_store c (last (l_order c)) = last (content c)" by (simp add: content_def last_map)
  with False assms show ?thesis
    using without_last [OF lru_wf_keys [OF assms]] removeElement_content [OF assms, of "last (l_order c)"]
    by (simp add: evictOldest_def content_def)
qed (simp add: evictOldest_def content_def)

lemma evictOldest_capacity [simp]: "l_capacity (evictOldest c) = l_capacity c"
  by (simp add: evictOldest_def)

definition new_item :: "'k \<Rightarrow> 'v \<Rightarrow> int \<Rightarrow> int \<Rightarrow> ('k, 'v) entry" where
  "new_item k v ttl now = \<lparr> en_key = k, en_value = v, en_expiration = (if ttl > 0 then now + ttl else 0) \<rparr>"

text \<open>\<^verbatim>\<open>Put\<close> makes the entry the first one and drops what no longer fits.\<close>

lemma Put_old:
  assumes "lru_wf c" "map_of (l_items c) k = Some i"
  shows "\<exists>c1. PutWithTTL k v ttl now c = MoveToFront i c1 \<and> lru_wf c1 \<and> l_capacity c1 = l_capacity c \<and>
           without k (content c1) = without k (content c) \<and> i \<in> set (l_order c1) \<and> l_store c1 i = new_item k v ttl now"
proof (intro exI conjI)
  define c1 where "c1 = c\<lparr>l_store := (l_store c)(i := new_item k v ttl now)\<rparr>"
  have i: "i \<in> set (l_order c)" "en_key (l_store c i) = k" using lru_wf_items [OF assms(1), of k i] assms(2) by simp_all
  then have "(l_store c i)\<lparr>en_value := v, en_expiration := if ttl > 0 then now + ttl else 0\<rparr> = new_item k v ttl now"
    by (simp add: new_item_def)
  then show "PutWithTTL k v ttl now c = MoveToFront i c1"
    using assms by (simp add: PutWithTTL_def Let_def c1_def)
  show "lru_wf c1" using assms(1) i unfolding c1_def lru_wf_def by (auto simp: new_item_def split: if_splits)
  have "filter (\<lambda>j. en_key (l_store c1 j) \<noteq> k) (l_order c) = filter (\<lambda>j. en_key (l_store c j) \<noteq> k) (l_order c)"
    using i by (intro filter_cong) (auto simp: c1_def new_item_def)
  moreover have "map (l_store c1) (filter (\<lambda>j. en_key (l_store c j) \<noteq> k) (l_order c)) =
                 map (l_store c) (filter (\<lambda>j. en_key (l_store c j) \<noteq> k) (l_order c))"
    using i by (auto simp: c1_def)
  ultimately show "without k (content c1) = without k (content c)"
    by (simp add: content_def without_def filter_map comp_def c1_def)
qed (use lru_wf_items [OF assms(1), of k i] assms(2) in simp_all)

lemma Put_new:
  assumes "lru_wf c" "map_of (l_items c) k = None"
  shows "\<exists>c1. PutWithTTL k v ttl now c = (if int (length (content c1)) > l_capacity c then evictOldest c1 else c1) \<and>
           lru_wf c1 \<and> l_capacity c1 = l_capacity c \<and> content c1 = new_item k v ttl now # content c"
proof (intro exI conjI)
  define c1 where "c1 = c\<lparr>l_store := (l_store c)(l_next c := new_item k v ttl now), l_order := l_next c # l_order c,
                   l_items := AList.update k (l_next c) (l_items c), l_next := l_next c + 1\<rparr>"
  have fresh: "l_next c \<notin> set (l_order c)" using assms(1) unfolding lru_wf_def by blast
  have key: "en_key (l_store c i) \<noteq> k" if "i \<in> set (l_order c)" for i
    using lru_wf_items [OF assms(1), of k i] assms(2) that by auto
  show "content c1 = new_item k v ttl now # content c"
    using fresh by (auto simp: content_def c1_def)
  show wf: "lru_wf c1"
    using assms(1) fresh key unfolding c1_def lru_wf_def
    by (auto simp: gomap new_item_def less_Suc_eq split: if_splits)
  show "PutWithTTL k v ttl now c = (if int (length (content c1)) > l_capacity c then evictOldest c1 else c1)"
    unfolding lru_wf_length [OF wf] using assms by (simp add: PutWithTTL_def Let_def new_item_def c1_def)
  show "l_capacity c1 = l_capacity c" by (simp add: c1_def)
qed

lemma lru_inv_content: "lru_inv c \<longleftrightarrow> lru_wf c \<and> 0 < l_capacity c \<and> int (length (content c)) \<le> l_capacity c"
  by (auto simp: lru_inv_def lru_wf_length)

lemma PutWithTTL_steps:
  assumes "lru_inv c"
  shows "content (PutWithTTL k v ttl now c) = take (nat (l_capacity c)) (new_item k v ttl now # without k (content c)) \<and>
         lru_wf (PutWithTTL k v ttl now c) \<and> l_capacity (PutWithTTL k v ttl now c) = l_capacity c"
proof -
  have wf: "lru_wf c" and cap: "0 < l_capacity c" "int (length (content c)) \<le> l_capacity c"
    using assms by (simp_all add: lru_inv_content)
  show ?thesis
  proof (cases "map_of (l_items c) k")
    case None
    then obtain c1 where c1: "PutWithTTL k v ttl now c = (if int (length (content c1)) > l_capacity c then evictOldest c1 else c1)"
      "lru_wf c1" "l_capacity c1 = l_capacity c" "content c1 = new_item k v ttl now # content c"
      using Put_new [OF wf] by blast
    have "find (\<lambda>e. en_key e = k) (content c) = None" using lru_find [OF wf] None by simp
    then have absent: "without k (content c) = content c" by (auto simp: find_None_iff intro: without_absent)
    show ?thesis
    proof (cases "int (length (content c1)) > l_capacity c")
      case True
      then have "nat (l_capacity c) = length (content c)" using c1(4) cap by auto
      with True show ?thesis
        using c1 by (simp add: absent evictOldest_wf evictOldest_content butlast_conv_take)
    next
      case False
      with c1 show ?thesis by (simp add: absent)
    qed
  next
    case (Some i)
    then obtain c1 where c1: "PutWithTTL k v ttl now c = MoveToFront i c1" "lru_wf c1" "l_capacity c1 = l_capacity c"
      "without k (content c1) = without k (content c)" "i \<in> set (l_order c1)" "l_store c1 i = new_item k v ttl now"
      using Put_old [OF wf] by blast
    have "k \<in> en_key ` set (content c)" using wf Some by (auto simp: content_def lru_wf_items)
    with lru_wf_keys [OF wf] have "Suc (length (without k (content c))) = length (content c)" by (rule length_without)
    moreover have "en_key (l_store c1 i) = k" by (simp add: c1(6) new_item_def)
    ultimately have "content (MoveToFront i c1) = new_item k v ttl now # without k (content c)"
      using MoveToFront_content [OF c1(2,5)] by (simp only: c1(4,6))
    moreover have "nat (l_capacity c) \<ge> length (new_item k v ttl now # without k (content c))"
      using \<open>Suc (length (without k (content c))) = length (content c)\<close> cap by simp
    ultimately show ?thesis
      using MoveToFront_wf [OF c1(2,5)] c1(3) unfolding c1(1) by simp
  qed
qed

lemmas PutWithTTL_content = PutWithTTL_steps [THEN conjunct1]

lemma PutWithTTL_inv: "lru_inv c \<Longrightarrow> lru_inv (PutWithTTL k v ttl now c)"
  using PutWithTTL_steps [of c k v ttl now] by (auto simp: lru_inv_content)

text \<open>\<^verbatim>\<open>Get\<close>, \<^verbatim>\<open>Contains\<close>, \<^verbatim>\<open>Peek\<close> and \<^verbatim>\<open>Delete\<close>, and the walk of \<^verbatim>\<open>Keys\<close> and \<^verbatim>\<open>Values\<close>.\<close>

definition spec_lookup :: "int \<Rightarrow> 'k \<Rightarrow> ('k, 'v) entry list \<Rightarrow> ('k, 'v) entry option" where
  "spec_lookup now k es = (case find (\<lambda>e. en_key e = k) es of None \<Rightarrow> None | Some e \<Rightarrow> if isExpired now e then None else Some e)"

lemma find_keyD: "find (\<lambda>e. en_key e = k) es = Some e \<Longrightarrow> e \<in> set es \<and> en_key e = k"
  by (auto simp: find_Some_iff)

lemma find_key_absent: "find (\<lambda>e. en_key e = k) es = None \<Longrightarrow> without k es = es"
  by (auto simp: find_None_iff intro: without_absent)

lemma lru_element:
  assumes "lru_wf c" "map_of (l_items c) k = Some i"
  shows "i \<in> set (l_order c)" "en_key (l_store c i) = k" "find (\<lambda>e. en_key e = k) (content c) = Some (l_store c i)"
  using assms lru_wf_items [OF assms(1), of k i] by (simp_all add: lru_find)

lemma lru_no_element:
  "lru_wf c \<Longrightarrow> map_of (l_items c) k = None \<Longrightarrow> find (\<lambda>e. en_key e = k) (content c) = None"
  by (simp add: lru_find)

lemma removeElement_inv: "lru_inv c \<Longrightarrow> i \<in> set (l_order c) \<Longrightarrow> lru_inv (removeElement i c)"
  using length_without_le [of "en_key (l_store c i)" "content c"]
  by (auto simp: lru_inv_content removeElement_wf removeElement_content)

lemma MoveToFront_inv:
  assumes "lru_inv c" "i \<in> set (l_order c)" shows "lru_inv (MoveToFront i c)"
proof -
  have "Suc (length (without (en_key (l_store c i)) (content c))) = length (content c)"
    using assms by (intro length_without lru_wf_keys) (auto simp: lru_inv_def content_def)
  with assms show ?thesis by (auto simp: lru_inv_content MoveToFront_wf MoveToFront_content)
qed

lemma LRU_Get_content:
  assumes "lru_inv c"
  shows "fst (LRU_Get k now c) = map_option en_value (spec_lookup now k (content c))"
    and "content (snd (LRU_Get k now c)) =
           (case spec_lookup now k (content c) of None \<Rightarrow> without k (content c) | Some e \<Rightarrow> e # without k (content c))"
    and "lru_inv (snd (LRU_Get k now c))" and "l_capacity (snd (LRU_Get k now c)) = l_capacity c"
proof -
  have wf: "lru_wf c" using assms by (simp add: lru_inv_def)
  show "fst (LRU_Get k now c) = map_option en_value (spec_lookup now k (content c))"
    by (cases "map_of (l_items c) k")
      (simp_all add: LRU_Get_def spec_lookup_def Let_def lru_element [OF wf] lru_no_element [OF wf])
  show "content (snd (LRU_Get k now c)) =
          (case spec_lookup now k (content c) of None \<Rightarrow> without k (content c) | Some e \<Rightarrow> e # without k (content c))"
  proof (cases "map_of (l_items c) k")
    case None
    with find_key_absent [OF lru_no_element [OF wf None]] show ?thesis
      by (simp add: LRU_Get_def spec_lookup_def lru_no_element [OF wf])
  next
    case (Some i)
    note el = lru_element [OF wf Some]
    show ?thesis
      using Some removeElement_content [OF wf el(1)] MoveToFront_content [OF wf el(1)]
      by (simp add: LRU_Get_def spec_lookup_def Let_def el(2,3))
  qed
  show "lru_inv (snd (LRU_Get k now c))"
    using assms lru_element(1) [OF wf]
    by (auto simp: LRU_Get_def Let_def MoveToFront_inv removeElement_inv split: option.splits)
  show "l_capacity (snd (LRU_Get k now c)) = l_capacity c"
    by (simp add: LRU_Get_def Let_def split: option.splits)
qed

lemma LRU_Peek_content:
  assumes "lru_inv c"
  shows "fst (LRU_Peek k now c) = map_option en_value (spec_lookup now k (content c))"
    and "content (snd (LRU_Peek k now c)) =
           (if spec_lookup now k (content c) = None then without k (content c) else content c)"
    and "lru_inv (snd (LRU_Peek k now c))" and "l_capacity (snd (LRU_Peek k now c)) = l_capacity c"
proof -
  have wf: "lru_wf c" using assms by (simp add: lru_inv_def)
  show "fst (LRU_Peek k now c) = map_option en_value (spec_lookup now k (content c))"
    by (cases "map_of (l_items c) k")
      (simp_all add: LRU_Peek_def spec_lookup_def lru_element [OF wf] lru_no_element [OF wf])
  show "content (snd (LRU_Peek k now c)) = (if spec_lookup now k (content c) = None then without k (content c) else content c)"
  proof (cases "map_of (l_items c) k")
    case None
    with find_key_absent [OF lru_no_element [OF wf None]] show ?thesis
      by (simp add: LRU_Peek_def spec_lookup_def lru_no_element [OF wf])
  next
    case (Some i)
    note el = lru_element [OF wf Some]
    show ?thesis
      using Some removeElement_content [OF wf el(1)] by (simp add: LRU_Peek_def spec_lookup_def el(2,3))
  qed
  show "lru_inv (snd (LRU_Peek k now c))"
    using assms lru_element(1) [OF wf] by (auto simp: LRU_Peek_def removeElement_inv split: option.splits)
  show "l_capacity (snd (LRU_Peek k now c)) = l_capacity c"
    by (simp add: LRU_Peek_def split: option.splits)
qed

lemma LRU_Contains_Peek: "LRU_Contains k now c = (let (r, c') = LRU_Peek k now c in (r \<noteq> None, c'))"
  by (simp add: LRU_Contains_def LRU_Peek_def split: option.split)

lemma LRU_Delete_content:
  assumes "lru_inv c"
  shows "fst (LRU_Delete k c) \<longleftrightarrow> k \<in> en_key ` set (content c)"
    and "content (snd (LRU_Delete k c)) = without k (content c)"
    and "lru_inv (snd (LRU_Delete k c))" and "l_capacity (snd (LRU_Delete k c)) = l_capacity c"
proof -
  have wf: "lru_wf c" using assms by (simp add: lru_inv_def)
  show "fst (LRU_Delete k c) \<longleftrightarrow> k \<in> en_key ` set (content c)"
    using lru_find [OF wf, of k] by (auto simp: LRU_Delete_def find_None_iff split: option.splits dest!: find_keyD)
  show "content (snd (LRU_Delete k c)) = without k (content c)"
    using removeElement_content [OF wf] lru_element [OF wf] find_key_absent [OF lru_no_element [OF wf]]
    by (auto simp: LRU_Delete_def split: option.splits)
  show "lru_inv (snd (LRU_Delete k c))"
    using assms lru_element(1) [OF wf] by (auto simp: LRU_Delete_def removeElement_inv split: option.splits)
  show "l_capacity (snd (LRU_Delete k c)) = l_capacity c"
    by (simp add: LRU_Delete_def split: option.splits)
qed

lemma live_walk_order:
  assumes "lru_inv c" "l_order c = pre @ es"
  shows "\<exists>c'. live_walk now es c = (filter (\<lambda>e. \<not> isExpired now e) (map (l_store c) es), c') \<and> lru_inv c' \<and>
           content c' = map (l_store c) pre @ filter (\<lambda>e. \<not> isExpired now e) (map (l_store c) es) \<and>
           l_capacity c' = l_capacity c"
  using assms
proof (induction es arbitrary: c pre)
  case (Cons i es)
  have i: "i \<in> set (l_order c)" "i \<notin> set pre" using Cons.prems by (auto simp: lru_inv_def lru_wf_def)
  show ?case
  proof (cases "isExpired now (l_store c i)")
    case True
    have "l_order (removeElement i c) = pre @ es"
      using Cons.prems i by (simp add: removeElement_def Let_def remove1_append)
    with True show ?thesis
      using Cons.IH [OF removeElement_inv [OF Cons.prems(1) i(1)]] by simp
  next
    case False
    then show ?thesis
      using Cons.IH [OF Cons.prems(1), of "pre @ [i]"] Cons.prems by auto
  qed
qed (simp add: content_def)

lemma live_walk_content:
  assumes "lru_inv c"
  shows "\<exists>c'. live_walk now (l_order c) c = (filter (\<lambda>e. \<not> isExpired now e) (content c), c') \<and> lru_inv c' \<and>
           content c' = filter (\<lambda>e. \<not> isExpired now e) (content c) \<and> l_capacity c' = l_capacity c"
  using live_walk_order [OF assms, of "[]"] by (simp add: content_def)

lemma LRU_Clear_content: "content (LRU_Clear c) = []" "lru_inv c \<Longrightarrow> lru_inv (LRU_Clear c)" "l_capacity (LRU_Clear c) = l_capacity c"
  by (simp_all add: LRU_Clear_def content_def lru_inv_def lru_wf_def)

lemma resize_loop_content:
  assumes "lru_wf c" "0 \<le> capacity"
  shows "\<exists>c'. resize_loop capacity n c = Some (n + (length (content c) - nat capacity), c') \<and> lru_wf c' \<and>
           content c' = take (nat capacity) (content c)"
  using assms
proof (induction "length (content c)" arbitrary: c n rule: less_induct)
  case less
  show ?case
  proof (cases "int (length (l_items c)) > capacity")
    case True
    then have len: "nat capacity < length (content c)" using less.prems by (simp add: lru_wf_length)
    then have "length (content (evictOldest c)) < length (content c)"
      using less.prems by (simp add: evictOldest_content)
    from less.hyps [OF this evictOldest_wf [OF less.prems(1)] less.prems(2), of "n + 1"]
    show ?thesis
      using True len less.prems by (subst resize_loop.simps) (auto simp: evictOldest_content butlast_conv_take min_def)
  next
    case False
    then have "length (content c) \<le> nat capacity" using less.prems by (simp add: lru_wf_length)
    with False less.prems show ?thesis by (subst resize_loop.simps) auto
  qed
qed

section \<open>Refinement\<close>

text \<open>
  Every operation of the cache with its result, and the same operation on a list of entries and a
  capacity. \<^verbatim>\<open>Resize\<close> has a loop, so an operation of the cache may fail to return.
\<close>

datatype ('k, 'v) lru_op =
    OpGet 'k | OpPut 'k 'v int | OpContains 'k | OpPeek 'k | OpDelete 'k | OpKeys | OpValues | OpClear | OpResize int | OpLen

datatype ('k, 'v) lru_result =
    RValue "'v option" | RBool bool | RKeys "'k list" | RValues "'v list" | RCount nat | RDone

fun lru_exec :: "('k, 'v) lru_op \<Rightarrow> int \<Rightarrow> ('k, 'v) LRU \<Rightarrow> (('k, 'v) lru_result \<times> ('k, 'v) LRU) option" where
  "lru_exec (OpGet k) now c = (let (r, c') = LRU_Get k now c in Some (RValue r, c'))"
| "lru_exec (OpPut k v ttl) now c = Some (RDone, PutWithTTL k v ttl now c)"
| "lru_exec (OpContains k) now c = (let (r, c') = LRU_Contains k now c in Some (RBool r, c'))"
| "lru_exec (OpPeek k) now c = (let (r, c') = LRU_Peek k now c in Some (RValue r, c'))"
| "lru_exec (OpDelete k) now c = (let (r, c') = LRU_Delete k c in Some (RBool r, c'))"
| "lru_exec OpKeys now c = (let (r, c') = LRU_Keys now c in Some (RKeys r, c'))"
| "lru_exec OpValues now c = (let (r, c') = LRU_Values now c in Some (RValues r, c'))"
| "lru_exec OpClear now c = Some (RDone, LRU_Clear c)"
| "lru_exec (OpResize n) now c = map_option (\<lambda>(r, c'). (RCount r, c')) (LRU_Resize n c)"
| "lru_exec OpLen now c = Some (RCount (LRU_Len c), c)"

type_synonym ('k, 'v) lru_spec = "nat \<times> ('k, 'v) entry list"

fun spec_exec :: "('k, 'v) lru_op \<Rightarrow> int \<Rightarrow> ('k, 'v) lru_spec \<Rightarrow> ('k, 'v) lru_result \<times> ('k, 'v) lru_spec" where
  "spec_exec (OpGet k) now (n, es) =
     (case spec_lookup now k es of
        None \<Rightarrow> (RValue None, n, without k es)
      | Some e \<Rightarrow> (RValue (Some (en_value e)), n, e # without k es))"
| "spec_exec (OpPut k v ttl) now (n, es) = (RDone, n, take n (new_item k v ttl now # without k es))"
| "spec_exec (OpContains k) now (n, es) =
     (case spec_lookup now k es of None \<Rightarrow> (RBool False, n, without k es) | Some e \<Rightarrow> (RBool True, n, es))"
| "spec_exec (OpPeek k) now (n, es) =
     (case spec_lookup now k es of None \<Rightarrow> (RValue None, n, without k es) | Some e \<Rightarrow> (RValue (Some (en_value e)), n, es))"
| "spec_exec (OpDelete k) now (n, es) = (RBool (k \<in> en_key ` set es), n, without k es)"
| "spec_exec OpKeys now (n, es) =
     (let live = filter (\<lambda>e. \<not> isExpired now e) es in (RKeys (map en_key live), n, live))"
| "spec_exec OpValues now (n, es) =
     (let live = filter (\<lambda>e. \<not> isExpired now e) es in (RValues (map en_value live), n, live))"
| "spec_exec OpClear now (n, es) = (RDone, n, [])"
| "spec_exec (OpResize m) now (n, es) =
     (if m \<le> 0 then (RCount 0, n, es) else (RCount (length es - nat m), nat m, take (nat m) es))"
| "spec_exec OpLen now (n, es) = (RCount (length es), n, es)"

definition lru_abs :: "('k, 'v) LRU \<Rightarrow> ('k, 'v) lru_spec" where
  "lru_abs c = (nat (l_capacity c), content c)"

definition refines_exec :: "('k, 'v) lru_op \<Rightarrow> int \<Rightarrow> ('k, 'v) LRU \<Rightarrow> bool" where
  "refines_exec a now c =
     (\<exists>r c'. lru_exec a now c = Some (r, c') \<and> lru_inv c' \<and> spec_exec a now (lru_abs c) = (r, lru_abs c'))"

lemma refines_Get: "lru_inv c \<Longrightarrow> refines_exec (OpGet k) now c"
  using LRU_Get_content [of c k now]
  by (auto simp: refines_exec_def lru_abs_def split_beta split: option.split)

lemma refines_Peek: "lru_inv c \<Longrightarrow> refines_exec (OpPeek k) now c"
  using LRU_Peek_content [of c k now]
  by (auto simp: refines_exec_def lru_abs_def split_beta split: option.split)

lemma refines_Contains: "lru_inv c \<Longrightarrow> refines_exec (OpContains k) now c"
  using LRU_Peek_content [of c k now]
  by (auto simp: refines_exec_def lru_abs_def split_beta LRU_Contains_Peek split: option.split)

lemma refines_Delete: "lru_inv c \<Longrightarrow> refines_exec (OpDelete k) now c"
  using LRU_Delete_content [of c k] by (auto simp: refines_exec_def lru_abs_def split_beta)

lemma refines_Put: "lru_inv c \<Longrightarrow> refines_exec (OpPut k v ttl) now c"
  using PutWithTTL_steps [of c k v ttl now] PutWithTTL_inv [of c k v ttl now]
  by (simp add: refines_exec_def lru_abs_def)

lemma refines_walk: "lru_inv c \<Longrightarrow> refines_exec OpKeys now c" "lru_inv c \<Longrightarrow> refines_exec OpValues now c"
  using live_walk_content [of c now]
  by (auto simp: refines_exec_def lru_abs_def LRU_Keys_def LRU_Values_def Let_def)

lemma refines_Clear: "lru_inv c \<Longrightarrow> refines_exec OpClear now c"
  by (simp add: refines_exec_def lru_abs_def LRU_Clear_content)

lemma refines_Len: "lru_inv c \<Longrightarrow> refines_exec OpLen now c"
  by (simp add: refines_exec_def lru_abs_def LRU_Len_def lru_inv_def lru_wf_length)

lemma refines_Resize:
  assumes "lru_inv c" shows "refines_exec (OpResize m) now c"
proof (cases "m \<le> 0")
  case False
  from resize_loop_content [of c m 0] assms False
  obtain c' where c': "resize_loop m 0 c = Some (length (content c) - nat m, c')" "lru_wf c'"
    "content c' = take (nat m) (content c)" by (auto simp: lru_inv_def)
  have "content (c'\<lparr>l_capacity := m\<rparr>) = content c'" "lru_wf (c'\<lparr>l_capacity := m\<rparr>)"
    using c'(2) by (simp_all add: content_def lru_wf_def)
  with c' False show ?thesis by (auto simp: refines_exec_def lru_abs_def LRU_Resize_def lru_inv_content)
qed (use assms in \<open>simp add: refines_exec_def lru_abs_def LRU_Resize_def\<close>)

lemma exec_refines: "lru_inv c \<Longrightarrow> refines_exec a now c"
  by (cases a) (simp_all add: refines_Get refines_Peek refines_Contains refines_Delete refines_Put refines_walk
      refines_Clear refines_Resize refines_Len)

fun lru_run :: "(('k, 'v) lru_op \<times> int) list \<Rightarrow> ('k, 'v) LRU \<Rightarrow> (('k, 'v) lru_result list \<times> ('k, 'v) LRU) option" where
  "lru_run [] c = Some ([], c)"
| "lru_run ((a, now) # as) c =
     (case lru_exec a now c of
        None \<Rightarrow> None
      | Some (r, c') \<Rightarrow> map_option (\<lambda>(rs, c''). (r # rs, c'')) (lru_run as c'))"

fun spec_run :: "(('k, 'v) lru_op \<times> int) list \<Rightarrow> ('k, 'v) lru_spec \<Rightarrow> ('k, 'v) lru_result list \<times> ('k, 'v) lru_spec" where
  "spec_run [] s = ([], s)"
| "spec_run ((a, now) # as) s = (let (r, s') = spec_exec a now s; (rs, s'') = spec_run as s' in (r # rs, s''))"

lemma run_refines:
  "lru_inv c \<Longrightarrow> \<exists>c'. lru_run as c = Some (fst (spec_run as (lru_abs c)), c') \<and> lru_inv c' \<and> snd (spec_run as (lru_abs c)) = lru_abs c'"
proof (induction as arbitrary: c)
  case (Cons p as)
  obtain a now where p: "p = (a, now)" by force
  obtain r c1 where step: "lru_exec a now c = Some (r, c1)" "lru_inv c1" "spec_exec a now (lru_abs c) = (r, lru_abs c1)"
    using exec_refines [OF Cons.prems, of a now] by (auto simp: refines_exec_def)
  show ?case
    using Cons.IH [OF step(2)] by (auto simp: p step split_beta)
qed simp

lemma NewLRU_inv: "NewLRU st n = Inr c \<Longrightarrow> lru_inv c \<and> lru_abs c = (nat n, [])"
  by (auto simp: NewLRU_def lru_inv_def lru_wf_def lru_abs_def content_def split: if_splits)

section \<open>The working set\<close>

text \<open>A sequence of operations, each at its time.\<close>

definition run_steps :: "('a \<Rightarrow> int \<Rightarrow> 'c \<Rightarrow> 'c) \<Rightarrow> ('a \<times> int) list \<Rightarrow> 'c \<Rightarrow> 'c" where
  "run_steps step as c = fold (\<lambda>(a, now). step a now) as c"

text \<open>
  What a client of a cache with an eviction order relies on: an operation brings at most the keys of
  \<^term>\<open>moves\<close> before an entry, an entry whose key the operation does not alter and which has not
  expired stays while the keys before it leave it room, and a lookup finds it.
\<close>

locale recency_cache =
  fixes inv :: "'c \<Rightarrow> bool" and room :: "'c \<Rightarrow> nat" and items :: "'c \<Rightarrow> ('k, 'v) entry list"
    and step :: "'a \<Rightarrow> int \<Rightarrow> 'c \<Rightarrow> 'c" and moves :: "'a \<Rightarrow> 'k set" and alters :: "'a \<Rightarrow> 'k set"
    and get :: "'k \<Rightarrow> int \<Rightarrow> 'c \<Rightarrow> 'v option"
  assumes inv_step: "inv c \<Longrightarrow> inv (step a now c)"
    and step_keeps:
      "inv c \<Longrightarrow> items c = ys @ e # zs \<Longrightarrow> en_key e \<notin> alters a \<Longrightarrow> \<not> isExpired now e \<Longrightarrow>
       card (en_key ` set ys \<union> (moves a - {en_key e})) < room c \<Longrightarrow>
       room (step a now c) = room c \<and>
       (\<exists>ys' zs'. items (step a now c) = ys' @ e # zs' \<and> en_key ` set ys' \<subseteq> en_key ` set ys \<union> (moves a - {en_key e}))"
    and get_item: "inv c \<Longrightarrow> e \<in> set (items c) \<Longrightarrow> \<not> isExpired now e \<Longrightarrow> get (en_key e) now c = Some (en_value e)"
begin

lemma kept:
  assumes "inv c" "items c = ys @ e # zs" "\<forall>(a, now) \<in> set as. en_key e \<notin> alters a \<and> \<not> isExpired now e"
    and "finite S" "en_key ` set ys \<subseteq> S" "\<forall>(a, now) \<in> set as. moves a - {en_key e} \<subseteq> S" "card S < room c"
  shows "inv (run_steps step as c) \<and> e \<in> set (items (run_steps step as c))"
  using assms
proof (induction as arbitrary: c ys zs)
  case (Cons p as)
  obtain a now where p: "p = (a, now)" by force
  have sub: "en_key ` set ys \<union> (moves a - {en_key e}) \<subseteq> S" using Cons.prems p by auto
  then have room: "card (en_key ` set ys \<union> (moves a - {en_key e})) < room c"
    by (rule le_less_trans [OF card_mono [OF Cons.prems(4)] Cons.prems(7)])
  have live: "en_key e \<notin> alters a" "\<not> isExpired now e" using Cons.prems(3) p by auto
  from step_keeps [OF Cons.prems(1,2) live room] obtain ys' zs' where
    step: "room (step a now c) = room c" "items (step a now c) = ys' @ e # zs'" "en_key ` set ys' \<subseteq> S"
    using subset_trans [OF _ sub] by metis
  have "inv (run_steps step as (step a now c)) \<and> e \<in> set (items (run_steps step as (step a now c)))"
  proof (rule Cons.IH [OF inv_step [OF Cons.prems(1)] step(2) _ Cons.prems(4) step(3)])
    show "\<forall>(a, now) \<in> set as. en_key e \<notin> alters a \<and> \<not> isExpired now e" "\<forall>(a, now) \<in> set as. moves a - {en_key e} \<subseteq> S"
      "card S < room (step a now c)" using Cons.prems step by simp_all
  qed
  then show ?case by (simp add: p run_steps_def)
qed (simp add: run_steps_def)

lemma working_set:
  assumes "inv c" "items c = e # zs" "\<forall>(a, now) \<in> set as. en_key e \<notin> alters a \<and> \<not> isExpired now e"
    and "finite (\<Union>(a, now) \<in> set as. moves a)" "card ((\<Union>(a, now) \<in> set as. moves a) - {en_key e}) < room c"
    and "\<not> isExpired t e"
  shows "get (en_key e) t (run_steps step as c) = Some (en_value e)"
proof -
  have "inv (run_steps step as c) \<and> e \<in> set (items (run_steps step as c))"
    by (rule kept [where ys = "[]" and S = "(\<Union>(a, now) \<in> set as. moves a) - {en_key e}"]) (use assms in auto)
  then show ?thesis using get_item [OF _ _ assms(6)] by simp
qed

end

fun op_moves :: "('k, 'v) lru_op \<Rightarrow> 'k set" where
  "op_moves (OpGet k) = {k}"
| "op_moves (OpPut k v ttl) = {k}"
| "op_moves a = {}"

fun op_alters :: "('k, 'v) lru_op \<Rightarrow> 'k set" where
  "op_alters (OpPut k v ttl) = {k}"
| "op_alters (OpDelete k) = {k}"
| "op_alters OpClear = UNIV"
| "op_alters (OpResize n) = UNIV"
| "op_alters a = {}"

definition lru_step :: "('k, 'v) lru_op \<Rightarrow> int \<Rightarrow> ('k, 'v) LRU \<Rightarrow> ('k, 'v) LRU" where
  "lru_step a now c = (case lru_exec a now c of Some (r, c') \<Rightarrow> c' | None \<Rightarrow> c)"

lemma lru_step_abs: "lru_inv c \<Longrightarrow> lru_inv (lru_step a now c) \<and> lru_abs (lru_step a now c) = snd (spec_exec a now (lru_abs c))"
  using exec_refines [of c a now] by (auto simp: refines_exec_def lru_step_def)

text \<open>An entry stays before the others: the law of the interface, per operation on the list.\<close>

lemma without_split: "en_key e \<noteq> k \<Longrightarrow> without k (ys @ e # zs) = without k ys @ e # without k zs"
  by simp

lemma take_keeps: "length ys < n \<Longrightarrow> take n (ys @ e # zs) = ys @ e # take (n - Suc (length ys)) zs"
  by (simp add: take_Cons')

lemma put_keeps:
  assumes "distinct (map en_key (ys @ e # zs))" "en_key e \<noteq> k" "card (en_key ` set ys \<union> {k}) < n"
  shows "\<exists>zs'. take n (new_item k v ttl now # without k (ys @ e # zs)) = (new_item k v ttl now # without k ys) @ e # zs'"
proof -
  have "distinct (k # map en_key (without k ys))"
    using assms(1) by (auto simp: distinct_without)
  then have "card (set (k # map en_key (without k ys))) = length (k # map en_key (without k ys))" by (rule distinct_card)
  moreover have "set (k # map en_key (without k ys)) = en_key ` set ys \<union> {k}" by auto
  ultimately have "length (new_item k v ttl now # without k ys) < n" using assms(3) by simp
  from take_keeps [OF this, of e "without k zs"] assms(2) show ?thesis by auto
qed

lemma spec_lookup_item:
  assumes "distinct (map en_key es)" "e \<in> set es" "\<not> isExpired now e"
  shows "spec_lookup now (en_key e) es = Some e"
proof -
  obtain e' where "find (\<lambda>d. en_key d = en_key e) es = Some e'"
    using assms(2) by (metis (mono_tags, lifting) find_None_iff option.exhaust)
  moreover from this have "e' = e" using assms(1,2) find_keyD by (metis distinct_map inj_on_def)
  ultimately show ?thesis using assms(3) by (simp add: spec_lookup_def)
qed

lemma spec_exec_keeps:
  assumes "distinct (map en_key (ys @ e # zs))" "en_key e \<notin> op_alters a" "\<not> isExpired now e"
    and "card (en_key ` set ys \<union> (op_moves a - {en_key e})) < n"
  shows "\<exists>ys' zs'. snd (spec_exec a now (n, ys @ e # zs)) = (n, ys' @ e # zs') \<and>
           en_key ` set ys' \<subseteq> en_key ` set ys \<union> (op_moves a - {en_key e})"
proof -
  let ?es = "ys @ e # zs"
  note found = spec_lookup_item [OF assms(1) _ assms(3)]
  have keeps: "\<exists>ys' zs'. without k ?es = ys' @ e # zs' \<and> en_key ` set ys' \<subseteq> en_key ` set ys" if "k \<noteq> en_key e" for k
    using without_split [of e k ys zs] that by (intro exI [of _ "without k ys"] exI [of _ "without k zs"]) auto
  have lookup_key: "k \<noteq> en_key e" if "spec_lookup now k ?es = None" for k
    using found that by auto
  have live: "\<exists>ys' zs'. filter (\<lambda>e. \<not> isExpired now e) ?es = ys' @ e # zs' \<and> en_key ` set ys' \<subseteq> en_key ` set ys"
    using assms(3) by (intro exI [of _ "filter (\<lambda>e. \<not> isExpired now e) ys"] exI [of _ "filter (\<lambda>e. \<not> isExpired now e) zs"]) auto
  show ?thesis
  proof (cases a)
    case (OpGet k)
    show ?thesis
    proof (cases "k = en_key e")
      case True
      with OpGet found show ?thesis by (auto intro: exI [of _ "[]"])
    next
      case False
      from keeps [OF False] obtain ys' zs' where split: "without k ?es = ys' @ e # zs'" "en_key ` set ys' \<subseteq> en_key ` set ys"
        by blast
      show ?thesis
      proof (cases "spec_lookup now k ?es")
        case None
        with split OpGet show ?thesis by (auto simp del: without_append without_Cons)
      next
        case (Some d)
        then have "en_key d = k" by (auto simp: spec_lookup_def split: option.splits if_splits dest: find_keyD)
        have "snd (spec_exec a now (n, ?es)) = (n, (d # ys') @ e # zs')"
          by (simp add: OpGet Some split(1) del: without_append without_Cons)
        moreover have "en_key ` set (d # ys') \<subseteq> en_key ` set ys \<union> (op_moves a - {en_key e})"
          using split(2) \<open>en_key d = k\<close> False OpGet by auto
        ultimately show ?thesis by blast
      qed
    qed
  next
    case (OpPut k v ttl)
    then have "en_key e \<noteq> k" using assms(2) by auto
    with put_keeps [OF assms(1), of k n v ttl now] assms(4) OpPut obtain zs' where
      "take n (new_item k v ttl now # without k ?es) = (new_item k v ttl now # without k ys) @ e # zs'" by auto
    then have "snd (spec_exec a now (n, ?es)) = (n, (new_item k v ttl now # without k ys) @ e # zs')"
      by (simp add: OpPut del: without_append without_Cons)
    moreover have "en_key ` set (new_item k v ttl now # without k ys) \<subseteq> en_key ` set ys \<union> (op_moves a - {en_key e})"
      using keys_without [of k ys] \<open>en_key e \<noteq> k\<close> OpPut by (auto simp: new_item_def)
    ultimately show ?thesis by blast
  next
    case OpKeys
    with live show ?thesis by (simp add: Let_def)
  next
    case OpValues
    with live show ?thesis by (simp add: Let_def)
  next
    case (OpContains k)
    then show ?thesis using keeps [OF lookup_key, of k]
      by (cases "spec_lookup now k ?es") (auto simp del: without_append without_Cons)
  next
    case (OpPeek k)
    then show ?thesis using keeps [OF lookup_key, of k]
      by (cases "spec_lookup now k ?es") (auto simp del: without_append without_Cons)
  next
    case (OpDelete k)
    then show ?thesis using keeps [of k] assms(2) by (auto simp del: without_append without_Cons)
  qed (use assms in auto)
qed

lemma lru_step_keeps:
  assumes "lru_inv c" "content c = ys @ e # zs" "en_key e \<notin> op_alters a" "\<not> isExpired now e"
    and "card (en_key ` set ys \<union> (op_moves a - {en_key e})) < nat (l_capacity c)"
  shows "nat (l_capacity (lru_step a now c)) = nat (l_capacity c) \<and>
         (\<exists>ys' zs'. content (lru_step a now c) = ys' @ e # zs' \<and> en_key ` set ys' \<subseteq> en_key ` set ys \<union> (op_moves a - {en_key e}))"
proof -
  have "distinct (map en_key (ys @ e # zs))" using lru_wf_keys [of c] assms(1,2) by (simp add: lru_inv_def)
  then obtain ys' zs' where "snd (spec_exec a now (nat (l_capacity c), ys @ e # zs)) = (nat (l_capacity c), ys' @ e # zs')"
    "en_key ` set ys' \<subseteq> en_key ` set ys \<union> (op_moves a - {en_key e})"
    using spec_exec_keeps [OF _ assms(3-5)] by blast
  moreover have "lru_abs (lru_step a now c) = snd (spec_exec a now (nat (l_capacity c), ys @ e # zs))"
    using lru_step_abs [OF assms(1), of a now] assms(2) by (simp add: lru_abs_def)
  ultimately show ?thesis by (auto simp only: lru_abs_def Pair_inject)
qed

lemma LRU_Get_item:
  "lru_inv c \<Longrightarrow> e \<in> set (content c) \<Longrightarrow> \<not> isExpired now e \<Longrightarrow> fst (LRU_Get (en_key e) now c) = Some (en_value e)"
  using spec_lookup_item [OF lru_wf_keys, of c e now] LRU_Get_content(1) [of c "en_key e" now] by (simp add: lru_inv_def)

interpretation lru: recency_cache lru_inv "\<lambda>c. nat (l_capacity c)" content lru_step op_moves op_alters
  "\<lambda>k now c. fst (LRU_Get k now c)"
proof
  show "lru_inv (lru_step a now c)" if "lru_inv c" for a now and c :: "('k, 'v) LRU"
    using lru_step_abs [OF that] by blast
qed (rule lru_step_keeps, assumption+, rule LRU_Get_item, assumption+)

section \<open>Properties\<close>

text \<open>
  C28. Every operation of the LRU cache (lookups, insertions with and without a time to live, membership,
  peeking, deletion, listing, clearing, resizing) returns, and any sequence of them on a new cache
  returns the results that the same operations have on a plain list of entries in order of use,
  cut to the capacity; the cache never holds more than its capacity.
\<close>

theorem LRU_refines_list:
  "case NewLRU st n of
     Inl err \<Rightarrow> n \<le> 0
   | Inr c \<Rightarrow> (case lru_run as c of
        None \<Rightarrow> False
      | Some (rs, c') \<Rightarrow> rs = fst (spec_run as (nat n, [])) \<and> snd (spec_run as (nat n, [])) = (nat (l_capacity c'), content c') \<and>
          int (LRU_Len c') \<le> l_capacity c')"
proof (cases "NewLRU st n")
  case (Inr c)
  from NewLRU_inv [OF this] have "lru_inv c" "lru_abs c = (nat n, [])" by simp_all
  with run_refines [of c as] Inr show ?thesis by (auto simp: LRU_Len_def lru_inv_def lru_abs_def)
qed (auto simp: NewLRU_def split: if_splits)

text \<open>
  The working set of an LRU cache is kept: after a key has been stored, as long as the operations that
  follow bring fewer than capacity many other keys to the front and none of them overwrites or
  deletes the key, clears or resizes the cache, and the entry has not expired, a lookup returns the value.
\<close>

theorem LRU_working_set:
  assumes "lru_inv c"
    and "\<forall>(a, t) \<in> set as. k \<notin> op_alters a \<and> \<not> isExpired t (new_item k v ttl now)"
    and "card ((\<Union>(a, t) \<in> set as. op_moves a) - {k}) < nat (l_capacity c)"
    and "\<not> isExpired t (new_item k v ttl now)"
  shows "fst (LRU_Get k t (run_steps lru_step as (PutWithTTL k v ttl now c))) = Some v"
proof -
  have key: "en_key (new_item k v ttl now) = k" "en_value (new_item k v ttl now) = v" by (simp_all add: new_item_def)
  have "finite (op_moves a)" for a :: "('a, 'b) lru_op" by (cases a) auto
  moreover have "content (PutWithTTL k v ttl now c) = new_item k v ttl now # take (nat (l_capacity c) - 1) (without k (content c))"
    using PutWithTTL_content [OF assms(1)] assms(1) by (simp add: take_Cons' lru_inv_def)
  ultimately have "fst (LRU_Get (en_key (new_item k v ttl now)) t (run_steps lru_step as (PutWithTTL k v ttl now c))) =
      Some (en_value (new_item k v ttl now))"
    using assms(2-4) PutWithTTL_steps [OF assms(1), of k v ttl now] 
    by (intro lru.working_set [OF PutWithTTL_inv [OF assms(1)]]) (auto simp: key)
  then show ?thesis by (simp only: key)
qed

definition demo_lru :: "(nat, nat) LRU" where
  "demo_lru = \<lparr> l_capacity = 2, l_items = [], l_order = [], l_store = (\<lambda>_. new_item 0 0 0 0), l_next = 0, l_onEvict = False,
                l_evicted = [] \<rparr>"

theorem LRU_working_set_witness:
  "fst (LRU_Get 7 50 (run_steps lru_step [(OpPut 8 1 0, 10), (OpGet 8, 20), (OpPut 8 2 5, 30)] (PutWithTTL 7 70 0 1 demo_lru))) = Some 70"
proof -
  have "lru_inv demo_lru" by (simp add: demo_lru_def lru_inv_def lru_wf_def)
  then show ?thesis
    by (rule LRU_working_set) (simp_all add: isExpired_def new_item_def demo_lru_def)
qed

end
