(* ===== verification/Go_Net.thy ===== *)
theory Go_Net
  imports Http "HOL-Library.Sublist"
begin

text \<open>
  What the access control and client address code uses of \<^verbatim>\<open>strings\<close>, \<^verbatim>\<open>net\<close> and \<^verbatim>\<open>net/netip\<close>:
  trimming, parsing and printing of IPv4 and IPv6 addresses and of CIDR prefixes, and the test
  whether a network contains an address. A \<^verbatim>\<open>net.IP\<close> is the list of its bytes, of length 4 or 16.
  The main lemma is that parsing the printed form of an address gives the address back.
\<close>

section \<open>Trimming\<close>

text \<open>\<^verbatim>\<open>strings.TrimSpace\<close>: the UTF-8 encodings of the runes that \<^verbatim>\<open>unicode.IsSpace\<close> accepts.\<close>

definition space_runes :: "string list" where
  "space_runes =
     map (\<lambda>b. [char_of (b::nat)]) [9, 10, 11, 12, 13, 32] @
     map (map char_of) ([[0xC2, 0x85], [0xC2, 0xA0], [0xE1, 0x9A, 0x80]] @
       map (\<lambda>b. [0xE2, 0x80, b]) ([0x80..<0x8B] @ [0xA8, 0xA9, 0xAF]) @ [[0xE2, 0x81, 0x9F], [0xE3, 0x80, 0x80 :: nat]])"

function strip_prefixes :: "string list \<Rightarrow> string \<Rightarrow> string" where
  "strip_prefixes ws s =
     (case find (\<lambda>w. w \<noteq> [] \<and> take (length w) s = w) ws of
        None \<Rightarrow> s
      | Some w \<Rightarrow> strip_prefixes ws (drop (length w) s))"
  by pat_completeness auto
termination
proof (relation "measure (\<lambda>(ws, s). length s)", simp, goal_cases)
  case (1 ws s w)
  then have w: "w \<noteq> []" "take (length w) s = w" by (auto simp: find_Some_iff)
  then have "s \<noteq> []" by auto
  with w show ?case by simp
qed

declare strip_prefixes.simps [simp del]

definition TrimSpace :: "string \<Rightarrow> string" where
  "TrimSpace s = rev (strip_prefixes (map rev space_runes) (rev (strip_prefixes space_runes s)))"

section \<open>Addresses\<close>

type_synonym IP = "8 word list"

text \<open>\<^verbatim>\<open>netip.parseIPv4Fields\<close>: the value and number of digits of the current field, the fields before it.\<close>

fun parseIPv4Fields :: "nat \<Rightarrow> nat \<Rightarrow> nat list \<Rightarrow> string \<Rightarrow> nat list option" where
  "parseIPv4Fields val digLen fs [] = (if length fs < 3 then None else Some (fs @ [val]))"
| "parseIPv4Fields val digLen fs (c # cs) =
     (if is_digit c then
        if digLen = 1 \<and> val = 0 then None
        else let val' = val * 10 + (of_char c - 48)
             in if val' > 255 then None else parseIPv4Fields val' (digLen + 1) fs cs
      else if c = CHR ''.'' then
        if digLen = 0 \<or> cs = [] then None
        else if length fs = 3 then None
        else parseIPv4Fields 0 0 (fs @ [val]) cs
      else None)"

definition hex_value :: "char \<Rightarrow> nat option" where
  "hex_value c =
     (let n = of_char c
      in if 48 \<le> n \<and> n \<le> 57 then Some (n - 48)
         else if 97 \<le> n \<and> n \<le> 102 then Some (n - 97 + 10)
         else if 65 \<le> n \<and> n \<le> 70 then Some (n - 65 + 10)
         else None)"

text \<open>The digits of one group of an IPv6 address: how many, and their value; at most four.\<close>

fun hex_group :: "nat \<Rightarrow> nat \<Rightarrow> string \<Rightarrow> (nat \<times> nat) option" where
  "hex_group off acc [] = Some (off, acc)"
| "hex_group off acc (c # cs) =
     (case hex_value c of
        None \<Rightarrow> Some (off, acc)
      | Some d \<Rightarrow>
          if off > 3 then None
          else let acc' = acc * 16 + d in if acc' > 65535 then None else hex_group (off + 1) acc' cs)"

text \<open>
  The loop of \<^verbatim>\<open>netip.parseIPv6\<close>: the bytes found so far, the position of the ellipsis and the rest
  of the input.
\<close>

function v6_loop :: "nat list \<Rightarrow> nat option \<Rightarrow> string \<Rightarrow> (nat list \<times> nat option \<times> string) option" where
  "v6_loop ip ellipsis s =
     (if length ip \<ge> 16 then Some (ip, ellipsis, s)
      else case hex_group 0 0 s of
        None \<Rightarrow> None
      | Some (off, acc) \<Rightarrow>
          if off = 0 then None
          else if off < length s \<and> s ! off = CHR ''.'' then
            (if ellipsis = None \<and> length ip \<noteq> 12 then None
             else if length ip + 4 > 16 then None
             else map_option (\<lambda>f. (ip @ f, ellipsis, [])) (parseIPv4Fields 0 0 [] s))
          else
            (let ip' = ip @ [acc div 256, acc mod 256]
             in case drop off s of
                  [] \<Rightarrow> Some (ip', ellipsis, [])
                | [c] \<Rightarrow> None
                | c # d # r \<Rightarrow>
                    if c \<noteq> CHR '':'' then None
                    else if d = CHR '':'' then
                      (if ellipsis \<noteq> None then None
                       else if r = [] then Some (ip', Some (length ip'), [])
                       else v6_loop ip' (Some (length ip')) r)
                    else v6_loop ip' ellipsis (d # r)))"
  by pat_completeness auto
termination by (relation "measure (\<lambda>(ip, e, s). 16 - length ip)") auto

declare v6_loop.simps [simp del]

definition v6_finish :: "nat list \<times> nat option \<times> string \<Rightarrow> nat list option" where
  "v6_finish r =
     (case r of (ip, ellipsis, s) \<Rightarrow>
        if s \<noteq> [] then None
        else if length ip < 16 then
          (case ellipsis of
             None \<Rightarrow> None
           | Some e \<Rightarrow> Some (take e ip @ replicate (16 - length ip) 0 @ drop e ip))
        else if ellipsis \<noteq> None then None
        else Some ip)"

datatype Addr = Addr4 "nat list" | Addr6 "nat list" string

definition parseIPv6 :: "string \<Rightarrow> Addr option" where
  "parseIPv6 inp =
     (let parts = (case first_index (\<lambda>c. c = CHR ''%'') inp of
                     None \<Rightarrow> Some (inp, '''')
                   | Some i \<Rightarrow> if drop (i + 1) inp = [] then None else Some (take i inp, drop (i + 1) inp))
      in case parts of
           None \<Rightarrow> None
         | Some (s, zone) \<Rightarrow>
             if take 2 s = ''::'' then
               (if drop 2 s = [] then Some (Addr6 (replicate 16 0) zone)
                else map_option (\<lambda>ip. Addr6 ip zone) (Option.bind (v6_loop [] (Some 0) (drop 2 s)) v6_finish))
             else map_option (\<lambda>ip. Addr6 ip zone) (Option.bind (v6_loop [] None s) v6_finish))"

fun ParseAddr_scan :: "string \<Rightarrow> string \<Rightarrow> Addr option" where
  "ParseAddr_scan s [] = None"
| "ParseAddr_scan s (c # cs) =
     (if c = CHR ''.'' then map_option Addr4 (parseIPv4Fields 0 0 [] s)
      else if c = CHR '':'' then parseIPv6 s
      else if c = CHR ''%'' then None
      else ParseAddr_scan s cs)"

definition ParseAddr :: "string \<Rightarrow> Addr option" where
  "ParseAddr s = ParseAddr_scan s s"

definition v4InV6Prefix :: IP where
  "v4InV6Prefix = replicate 10 0 @ [0xff, 0xff]"

fun As16 :: "Addr \<Rightarrow> IP" where
  "As16 (Addr4 bs) = v4InV6Prefix @ map of_nat bs"
| "As16 (Addr6 bs zone) = map of_nat bs"

fun Addr_Zone :: "Addr \<Rightarrow> string" where
  "Addr_Zone (Addr4 bs) = ''''"
| "Addr_Zone (Addr6 bs zone) = zone"

fun BitLen :: "Addr \<Rightarrow> nat" where
  "BitLen (Addr4 bs) = 32"
| "BitLen (Addr6 bs zone) = 128"

definition ParseIP :: "string \<Rightarrow> IP option" where
  "ParseIP s =
     (case ParseAddr s of
        None \<Rightarrow> None
      | Some a \<Rightarrow> if Addr_Zone a \<noteq> '''' then None else Some (As16 a))"

definition To4 :: "IP \<Rightarrow> IP option" where
  "To4 ip =
     (if length ip = 4 then Some ip
      else if length ip = 16 \<and> take 12 ip = v4InV6Prefix then Some (drop 12 ip)
      else None)"

definition To16 :: "IP \<Rightarrow> IP option" where
  "To16 ip = (if length ip = 4 then Some (v4InV6Prefix @ ip) else if length ip = 16 then Some ip else None)"

definition IP_Equal :: "IP \<Rightarrow> IP \<Rightarrow> bool" where
  "IP_Equal ip x =
     (if length ip = length x then ip = x
      else if length ip = 4 \<and> length x = 16 then take 12 x = v4InV6Prefix \<and> ip = drop 12 x
      else if length ip = 16 \<and> length x = 4 then take 12 ip = v4InV6Prefix \<and> drop 12 ip = x
      else False)"

definition IPv6loopback :: IP where
  "IPv6loopback = replicate 15 0 @ [1]"

definition IsPrivate :: "IP \<Rightarrow> bool" where
  "IsPrivate ip =
     (case To4 ip of
        Some ip4 \<Rightarrow> ip4 ! 0 = 10 \<or> ip4 ! 0 = 172 \<and> ip4 ! 1 AND 0xf0 = 16 \<or> ip4 ! 0 = 192 \<and> ip4 ! 1 = 168
      | None \<Rightarrow> length ip = 16 \<and> ip ! 0 AND 0xfe = 0xfc)"

definition IsLoopback :: "IP \<Rightarrow> bool" where
  "IsLoopback ip = (case To4 ip of Some ip4 \<Rightarrow> ip4 ! 0 = 127 | None \<Rightarrow> IP_Equal ip IPv6loopback)"

section \<open>Networks\<close>

record IPNet =
  net_IP :: IP
  net_Mask :: IP

text \<open>\<^verbatim>\<open>net.CIDRMask\<close>: \<open>n\<close> ones, then zeros.\<close>

fun mask_bytes :: "nat \<Rightarrow> nat \<Rightarrow> IP" where
  "mask_bytes 0 n = []"
| "mask_bytes (Suc l) n = (if n \<ge> 8 then 0xff # mask_bytes l (n - 8) else (NOT (drop_bit n 0xff)) # mask_bytes l 0)"

definition CIDRMask :: "nat \<Rightarrow> nat \<Rightarrow> IP" where
  "CIDRMask ones bits = mask_bytes (bits div 8) ones"

definition and_bytes :: "IP \<Rightarrow> IP \<Rightarrow> IP" where
  "and_bytes xs ys = map2 (\<lambda>x y. x AND y) xs ys"

definition IP_Mask :: "IP \<Rightarrow> IP \<Rightarrow> IP" where
  "IP_Mask ip msk =
     (let msk' = (if length msk = 16 \<and> length ip = 4 \<and> take 12 msk = replicate 12 0xff then drop 12 msk else msk);
          ip' = (if length msk' = 4 \<and> length ip = 16 \<and> take 12 ip = v4InV6Prefix then drop 12 ip else ip)
      in if length ip' \<noteq> length msk' then [] else and_bytes ip' msk')"

text \<open>\<^verbatim>\<open>net.dtoi\<close>: the value of the leading digits and how many there are.\<close>

fun dtoi_loop :: "nat \<Rightarrow> nat \<Rightarrow> string \<Rightarrow> (nat \<times> nat) option" where
  "dtoi_loop n i [] = (if i = 0 then None else Some (n, i))"
| "dtoi_loop n i (c # cs) =
     (if is_digit c then
        let n' = n * 10 + (of_char c - 48) in if n' \<ge> 0xFFFFFF then None else dtoi_loop n' (i + 1) cs
      else if i = 0 then None else Some (n, i))"

definition ParseCIDR :: "string \<Rightarrow> (IP \<times> IPNet) option" where
  "ParseCIDR s =
     (case first_index (\<lambda>c. c = CHR ''/'') s of
        None \<Rightarrow> None
      | Some j \<Rightarrow>
          (let addr = take j s; msk = drop (j + 1) s
           in case ParseAddr addr of
                None \<Rightarrow> None
              | Some a \<Rightarrow>
                  if Addr_Zone a \<noteq> '''' then None
                  else (case dtoi_loop 0 0 msk of
                          None \<Rightarrow> None
                        | Some (n, i) \<Rightarrow>
                            if i \<noteq> length msk \<or> n > BitLen a then None
                            else (let m = CIDRMask n (BitLen a)
                                  in Some (As16 a, \<lparr> net_IP = IP_Mask (As16 a) m, net_Mask = m \<rparr>)))))"

definition networkNumberAndMask :: "IPNet \<Rightarrow> (IP \<times> IP) option" where
  "networkNumberAndMask n =
     (let ip = (case To4 (net_IP n) of Some ip4 \<Rightarrow> Some ip4 | None \<Rightarrow> if length (net_IP n) = 16 then Some (net_IP n) else None)
      in case ip of
           None \<Rightarrow> None
         | Some ip \<Rightarrow>
             (let m = net_Mask n
              in if length m = 4 then if length ip \<noteq> 4 then None else Some (ip, m)
                 else if length m = 16 then Some (ip, if length ip = 4 then drop 12 m else m)
                 else None))"

definition IPNet_Contains :: "IPNet \<Rightarrow> IP \<Rightarrow> bool" where
  "IPNet_Contains n ip =
     (let ip' = (case To4 ip of Some x \<Rightarrow> x | None \<Rightarrow> ip)
      in case networkNumberAndMask n of
           None \<Rightarrow> ip' = []
         | Some (nn, m) \<Rightarrow> length ip' = length nn \<and> and_bytes nn m = and_bytes ip' m)"

text \<open>\<^verbatim>\<open>IPMask.Size\<close>: the number of leading ones, or \<open>0\<close> when the mask is not of that form.\<close>

fun byte_ones :: "nat \<Rightarrow> 8 word \<Rightarrow> nat" where
  "byte_ones 0 v = 0"
| "byte_ones (Suc l) v = (if bit v l then 1 + byte_ones l v else 0)"

fun simpleMaskLength :: "IP \<Rightarrow> nat option" where
  "simpleMaskLength [] = Some 0"
| "simpleMaskLength (v # m) =
     (if v = 0xff then map_option ((+) 8) (simpleMaskLength m)
      else let n = byte_ones 8 v
           in if (NOT (drop_bit n 0xff) :: 8 word) \<noteq> v then None
              else if \<forall>x \<in> set m. x = 0 then Some n else None)"

definition IPMask_Size :: "IP \<Rightarrow> nat \<times> nat" where
  "IPMask_Size m = (case simpleMaskLength m of None \<Rightarrow> (0, 0) | Some n \<Rightarrow> (n, length m * 8))"

section \<open>Printing\<close>

fun hex_digits :: "nat \<Rightarrow> string" where
  "hex_digits n =
     (if n < 16 then [''0123456789abcdef'' ! n] else hex_digits (n div 16) @ [''0123456789abcdef'' ! (n mod 16)])"

declare hex_digits.simps [simp del]

fun groups :: "IP \<Rightarrow> nat list" where
  "groups (a # b # r) = (unat a * 256 + unat b) # groups r"
| "groups r = []"

text \<open>The first of the longest runs of at least two zero groups: its start and its end.\<close>

fun zero_run :: "nat list \<Rightarrow> nat" where
  "zero_run (0 # gs) = Suc (zero_run gs)"
| "zero_run gs = 0"

fun longest_zeros :: "nat \<Rightarrow> nat list \<Rightarrow> (nat \<times> nat) option \<Rightarrow> (nat \<times> nat) option" where
  "longest_zeros i [] best = best"
| "longest_zeros i (g # gs) best =
     (let l = zero_run (g # gs)
      in longest_zeros (i + 1) gs
           (if l \<ge> 2 \<and> l > (case best of None \<Rightarrow> 0 | Some (a, b) \<Rightarrow> b - a) then Some (i, i + l) else best))"

definition print6 :: "nat list \<Rightarrow> string" where
  "print6 gs =
     (case longest_zeros 0 gs None of
        None \<Rightarrow> join_with CHR '':'' (map hex_digits gs)
      | Some (a, b) \<Rightarrow>
          join_with CHR '':'' (map hex_digits (take a gs)) @ ''::'' @ join_with CHR '':'' (map hex_digits (drop b gs)))"

definition print4 :: "IP \<Rightarrow> string" where
  "print4 ip = join_with CHR ''.'' (map (\<lambda>b. nat_dec (unat b)) ip)"

definition IP_String :: "IP \<Rightarrow> string" where
  "IP_String ip = (case To4 ip of Some ip4 \<Rightarrow> print4 ip4 | None \<Rightarrow> print6 (groups ip))"

section \<open>Parsing what was printed\<close>

lemma digit_char:
  assumes "d < 10"
  shows "is_digit (char_of (48 + d))" "of_char (char_of (48 + d) :: char) = (48 + d :: nat)"
    "char_of (48 + d) \<noteq> CHR ''.''" "char_of (48 + d) \<noteq> CHR '':''" "char_of (48 + d) \<noteq> CHR ''%''"
proof -
  show eq: "of_char (char_of (48 + d) :: char) = (48 + d :: nat)" using assms by simp
  show "is_digit (char_of (48 + d))" using assms unfolding is_digit_def eq by simp
  have "char_of (48 + d) \<noteq> c" if "of_char c < (48::nat) \<or> of_char c > (57::nat)" for c
    using that assms eq by fastforce
  then show "char_of (48 + d) \<noteq> CHR ''.''" "char_of (48 + d) \<noteq> CHR '':''" "char_of (48 + d) \<noteq> CHR ''%''"
    by simp_all
qed

lemma unat_byte: "unat (x :: 8 word) < 256"
proof -
  have "unat x < 2 ^ LENGTH(8)" by (rule unsigned_less)
  then show ?thesis by simp
qed

lemma v4_digit:
  assumes "d < 10" "digLen \<noteq> 1 \<or> val \<noteq> 0" "val * 10 + d \<le> 255"
  shows "parseIPv4Fields val digLen fs (char_of (48 + d) # cs) = parseIPv4Fields (val * 10 + d) (digLen + 1) fs cs"
  using assms digit_char [of d] by (auto simp: Let_def)

lemma v4_field:
  assumes "n < 256"
  shows "parseIPv4Fields 0 0 fs (nat_dec n @ rest) = parseIPv4Fields n (length (nat_dec n)) fs rest"
proof -
  consider "n < 10" | "10 \<le> n" "n < 100" | "100 \<le> n" by linarith
  then show ?thesis
  proof cases
    case 1
    then show ?thesis by (simp add: nat_dec.simps [of n] v4_digit del: parseIPv4Fields.simps)
  next
    case 2
    then have "nat_dec n = [char_of (48 + n div 10), char_of (48 + n mod 10)]"
      by (simp add: nat_dec.simps [of n] nat_dec.simps [of "n div 10"])
    moreover have "n div 10 < 10" "n div 10 \<noteq> 0" "n div 10 * 10 + n mod 10 = n" using 2 by auto
    ultimately show ?thesis using assms by (simp add: v4_digit del: parseIPv4Fields.simps)
  next
    case 3
    have ds: "nat_dec n = [char_of (48 + n div 100), char_of (48 + (n div 10) mod 10), char_of (48 + n mod 10)]"
    proof -
      have "\<not> n < 10" "\<not> n div 10 < 10" "n div 100 < 10" using 3 assms by auto
      then show ?thesis
        by (simp add: nat_dec.simps [of n] nat_dec.simps [of "n div 10"] nat_dec.simps [of "n div 100"] div_mult2_eq [symmetric])
    qed
    have e: "n div 100 * 10 + (n div 10) mod 10 = n div 10" by (simp add: div_mult2_eq [of n 10 10, simplified])
    have l: "n div 100 < 10" "n div 100 \<noteq> 0" "n div 10 \<le> 255" "n div 10 \<noteq> 0" "n div 10 * 10 + n mod 10 = n" "n div 100 \<le> 255"
      using 3 assms by auto
    show ?thesis unfolding ds using l assms by (simp add: v4_digit e del: parseIPv4Fields.simps)
  qed
qed

lemma v4_dot: "0 < digLen \<Longrightarrow> cs \<noteq> [] \<Longrightarrow> length fs < 3 \<Longrightarrow> parseIPv4Fields val digLen fs (CHR ''.'' # cs) = parseIPv4Fields 0 0 (fs @ [val]) cs"
  by (simp add: is_digit_def)

lemma parse_print4:
  assumes "length ip = 4"
  shows "parseIPv4Fields 0 0 [] (print4 ip) = Some (map unat ip)"
proof -
  obtain a b c d where ip: "ip = [a, b, c, d]"
    using assms by (auto simp: numeral_eq_Suc length_Suc_conv)
  show ?thesis
    using v4_field [of "unat d" "[unat a, unat b, unat c]" "[]"]
    by (simp add: ip print4_def v4_field v4_dot unat_byte del: parseIPv4Fields.simps(2))
qed

lemma scan_skip:
  assumes "set ds \<inter> {CHR ''.'', CHR '':'', CHR ''%''} = {}"
  shows "ParseAddr_scan s (ds @ cs) = ParseAddr_scan s cs"
  using assms by (induction ds) auto

lemma nat_dec_plain: "set (nat_dec n) \<inter> {CHR ''.'', CHR '':'', CHR ''%''} = {}"
  using nat_dec_digits [of _ n] digit_char(3-5) by fastforce

lemma ParseAddr_print4: "length ip = 4 \<Longrightarrow> ParseAddr (print4 ip) = Some (Addr4 (map unat ip))"
proof -
  assume len: "length ip = 4"
  then obtain a r where "ip = a # r" "r \<noteq> []" by (auto simp: numeral_eq_Suc length_Suc_conv)
  then have "print4 ip = nat_dec (unat a) @ CHR ''.'' # print4 r"
    by (cases r) (simp_all add: print4_def)
  then show ?thesis using parse_print4 [OF len] by (simp add: ParseAddr_def scan_skip nat_dec_plain)
qed

abbreviation hex_char :: "nat \<Rightarrow> char" where
  "hex_char d \<equiv> ''0123456789abcdef'' ! d"

lemma hex_char_value: "d < 16 \<Longrightarrow> hex_value (hex_char d) = Some d"
proof -
  have "\<forall>d \<in> set [0..<16]. hex_value (hex_char d) = Some d" by code_simp
  then show "d < 16 \<Longrightarrow> ?thesis" by simp
qed

lemma hex_value_colon [simp]: "hex_value CHR '':'' = None"
  by (simp add: hex_value_def)

lemma hex_digits_cases:
  assumes "n < 65536"
  obtains "n < 16" "hex_digits n = [hex_char n]"
  | "n < 256" "hex_digits n = [hex_char (n div 16), hex_char (n mod 16)]"
  | "n < 4096" "hex_digits n = [hex_char (n div 256), hex_char (n div 16 mod 16), hex_char (n mod 16)]"
  | "hex_digits n = [hex_char (n div 4096), hex_char (n div 256 mod 16), hex_char (n div 16 mod 16), hex_char (n mod 16)]"
proof -
  note unfold = hex_digits.simps [of n] hex_digits.simps [of "n div 16"] hex_digits.simps [of "n div 256"]
    hex_digits.simps [of "n div 4096"] div_mult2_eq [symmetric]
  consider "n < 16" | "16 \<le> n" "n < 256" | "256 \<le> n" "n < 4096" | "4096 \<le> n" by linarith
  then show thesis
  proof cases
    case 1
    then show ?thesis by (intro that(1)) (simp_all add: unfold)
  next
    case 2
    then have "n div 16 < 16" by auto
    with 2 show ?thesis by (intro that(2)) (simp_all add: unfold)
  next
    case 3
    then have "\<not> n div 16 < 16" "n div 256 < 16" by auto
    with 3 show ?thesis by (intro that(3)) (simp_all add: unfold)
  next
    case 4
    then have "\<not> n div 16 < 16" "\<not> n div 256 < 16" "n div 4096 < 16" using assms by auto
    with 4 show ?thesis by (intro that(4)) (simp_all add: unfold)
  qed
qed

lemma hex_group_step: "d < 16 \<Longrightarrow> off \<le> 3 \<Longrightarrow> acc * 16 + d \<le> 65535 \<Longrightarrow> hex_group off acc (hex_char d # cs) = hex_group (off + 1) (acc * 16 + d) cs"
  by (simp add: hex_char_value Let_def)

lemma hex_group_end: "rest = [] \<or> hex_value (hd rest) = None \<Longrightarrow> hex_group off acc rest = Some (off, acc)"
  by (cases rest) auto

lemma hex_group_digits:
  assumes "n < 65536" "rest = [] \<or> hex_value (hd rest) = None"
  shows "hex_group 0 0 (hex_digits n @ rest) = Some (length (hex_digits n), n)"
  using assms(1)
proof (cases rule: hex_digits_cases)
  case 1
  with assms(2) show ?thesis by (simp add: hex_group_step hex_group_end del: hex_group.simps)
next
  case 2
  then have "n div 16 < 16" "n div 16 * 16 + n mod 16 = n" by auto
  with 2 assms show ?thesis by (simp add: hex_group_step hex_group_end del: hex_group.simps)
next
  case 3
  have e: "n div 256 * 16 + n div 16 mod 16 = n div 16" by (simp add: div_mult2_eq [of n 16 16, simplified])
  have "n div 256 < 16" "n div 16 \<le> 65535" "n div 16 * 16 + n mod 16 = n" "n div 256 \<le> 65535" using 3 by auto
  with 3 e assms show ?thesis by (simp add: hex_group_step hex_group_end del: hex_group.simps)
next
  case 4
  have e: "n div 256 * 16 + n div 16 mod 16 = n div 16" "n div 4096 * 16 + n div 256 mod 16 = n div 256"
    by (simp_all add: div_mult2_eq [of n 16 16, simplified] div_mult2_eq [of n 256 16, simplified])
  have "n div 4096 < 16" "n div 4096 \<le> 65535" "n div 256 \<le> 65535" "n div 16 \<le> 65535" "n div 16 * 16 + n mod 16 = n" using assms by auto
  with 4 e assms show ?thesis by (simp add: hex_group_step hex_group_end del: hex_group.simps)
qed

lemma hex_digits_first:
  assumes "n < 65536"
  shows "hex_digits n \<noteq> []" "hex_value (hd (hex_digits n)) \<noteq> None" "length (hex_digits n) \<noteq> 0"
  using assms by (cases n rule: hex_digits_cases; simp add: hex_char_value)+

lemma hex_char_plain: "d < 16 \<Longrightarrow> hex_char d \<notin> {CHR ''.'', CHR '':'', CHR ''%''}"
proof -
  have "\<forall>d \<in> set [0..<16]. hex_char d \<notin> set ''.:%''" by code_simp
  then show "d < 16 \<Longrightarrow> ?thesis" by auto
qed

lemma hex_digits_plain:
  assumes "n < 65536"
  shows "set (hex_digits n) \<inter> {CHR ''.'', CHR '':'', CHR ''%''} = {}"
  using assms
proof (cases rule: hex_digits_cases)
  case 4
  then show ?thesis using assms hex_char_plain [of "n div 4096"] hex_char_plain [of "n div 256 mod 16"]
      hex_char_plain [of "n div 16 mod 16"] hex_char_plain [of "n mod 16"] by auto
qed (use assms hex_char_plain [of n] hex_char_plain [of "n div 16"] hex_char_plain [of "n mod 16"] hex_char_plain [of "n div 256"]
      hex_char_plain [of "n div 16 mod 16"] in auto)

definition bytes_of :: "nat list \<Rightarrow> nat list" where
  "bytes_of gs = concat (map (\<lambda>g. [g div 256, g mod 256]) gs)"

lemma bytes_of_simps [simp]:
  "bytes_of [] = []" "bytes_of (g # gs) = g div 256 # g mod 256 # bytes_of gs" "bytes_of (gs @ hs) = bytes_of gs @ bytes_of hs"
  by (simp_all add: bytes_of_def)

lemma length_bytes_of [simp]: "length (bytes_of gs) = 2 * length gs"
  by (induction gs) auto

lemma bytes_of_zeros [simp]: "bytes_of (replicate n 0) = replicate (2 * n) 0"
  by (induction n) auto

lemma v6_last:
  assumes "g < 65536" "length ip < 16"
  shows "v6_loop ip ell (hex_digits g) = Some (ip @ bytes_of [g], ell, [])"
  using assms hex_group_digits [of g "[]"] hex_digits_first [of g] by (subst v6_loop.simps) simp

lemma v6_colon:
  assumes "g < 65536" "length ip < 16" "d \<noteq> CHR '':''"
  shows "v6_loop ip ell (hex_digits g @ CHR '':'' # d # r) = v6_loop (ip @ bytes_of [g]) ell (d # r)"
  using assms hex_group_digits [of g "CHR '':'' # d # r"] hex_digits_first [of g] by (subst v6_loop.simps) (simp add: nth_append)

lemma v6_ellipsis:
  assumes "g < 65536" "length ip < 16"
  shows "v6_loop ip None (hex_digits g @ ''::'' @ r) =
    (if r = [] then Some (ip @ bytes_of [g], Some (length ip + 2), []) else v6_loop (ip @ bytes_of [g]) (Some (length ip + 2)) r)"
  using assms hex_group_digits [of g "''::'' @ r"] hex_digits_first [of g] by (subst v6_loop.simps) (simp add: nth_append)

lemma hex_digits_Cons:
  assumes "g < 65536"
  obtains d ds where "hex_digits g = d # ds" "d \<noteq> CHR '':''"
proof (cases "hex_digits g")
  case (Cons d ds)
  then have "d \<noteq> CHR '':''" using hex_digits_first(2) [OF assms] by auto
  with Cons that show thesis by blast
qed (use hex_digits_first(1) [OF assms] in simp)

lemma v6_groups:
  assumes "gs \<noteq> []" "\<forall>g \<in> set gs. g < 65536" "length ip + 2 * length gs \<le> 16"
  shows "v6_loop ip ell (join_with CHR '':'' (map hex_digits gs)) = Some (ip @ bytes_of gs, ell, [])"
  using assms
proof (induction gs arbitrary: ip)
  case (Cons g gs)
  show ?case
  proof (cases gs)
    case Nil
    then show ?thesis using Cons.prems v6_last [of g ip ell] by simp
  next
    case (Cons h hs)
    with Cons.prems have "h < 65536" by simp
    then obtain d ds where d: "hex_digits h = d # ds" "d \<noteq> CHR '':''" by (rule hex_digits_Cons)
    then obtain r where r: "join_with CHR '':'' (map hex_digits gs) = d # r"
      using \<open>gs = h # hs\<close> by (cases hs) auto
    then have "join_with CHR '':'' (map hex_digits (g # gs)) = hex_digits g @ CHR '':'' # d # r" using \<open>gs = h # hs\<close> by simp
    then show ?thesis
      using Cons.IH [of "ip @ bytes_of [g]"] Cons.prems r v6_colon [of g ip d ell r] d(2) \<open>gs = h # hs\<close> by simp
  qed
qed simp

lemma v6_groups_ellipsis:
  assumes "gs \<noteq> []" "\<forall>g \<in> set gs. g < 65536" "length ip + 2 * length gs \<le> 16"
  shows "v6_loop ip None (join_with CHR '':'' (map hex_digits gs) @ ''::'' @ r) =
    (if r = [] then Some (ip @ bytes_of gs, Some (length ip + 2 * length gs), [])
     else v6_loop (ip @ bytes_of gs) (Some (length ip + 2 * length gs)) r)"
  using assms
proof (induction gs arbitrary: ip)
  case (Cons g gs)
  show ?case
  proof (cases gs)
    case Nil
    then show ?thesis using Cons.prems v6_ellipsis [of g ip r] by simp
  next
    case (Cons h hs)
    with Cons.prems have "h < 65536" by simp
    then obtain d ds where d: "hex_digits h = d # ds" "d \<noteq> CHR '':''" by (rule hex_digits_Cons)
    then obtain q where q: "join_with CHR '':'' (map hex_digits gs) = d # q"
      using \<open>gs = h # hs\<close> by (cases hs) auto
    then have "join_with CHR '':'' (map hex_digits (g # gs)) = hex_digits g @ CHR '':'' # d # q" using \<open>gs = h # hs\<close> by simp
    then have "v6_loop ip None (join_with CHR '':'' (map hex_digits (g # gs)) @ ''::'' @ r) =
        v6_loop (ip @ bytes_of [g]) None (join_with CHR '':'' (map hex_digits gs) @ ''::'' @ r)"
      using v6_colon [of g ip d None "q @ ''::'' @ r"] Cons.prems d(2) q by simp
    then show ?thesis
      using Cons.IH [of "ip @ bytes_of [g]"] Cons.prems \<open>gs = h # hs\<close> by simp
  qed
qed simp

definition zeros_at :: "nat list \<Rightarrow> (nat \<times> nat) option \<Rightarrow> bool" where
  "zeros_at gs r = (case r of None \<Rightarrow> True | Some (a, b) \<Rightarrow> a + 2 \<le> b \<and> b \<le> length gs \<and> take (b - a) (drop a gs) = replicate (b - a) 0)"

lemma zero_run_prefix: "take (zero_run gs) gs = replicate (zero_run gs) 0 \<and> zero_run gs \<le> length gs"
  by (induction gs rule: zero_run.induct) auto

lemma longest_zeros_at:
  assumes "zeros_at (pre @ gs) best"
  shows "zeros_at (pre @ gs) (longest_zeros (length pre) gs best)"
  using assms
proof (induction gs arbitrary: pre best)
  case (Cons g gs)
  have "zeros_at (pre @ g # gs) (Some (length pre, length pre + zero_run (g # gs)))" if "zero_run (g # gs) \<ge> 2"
    using that zero_run_prefix [of "g # gs"] by (simp add: zeros_at_def)
  with Cons.prems Cons.IH [of "pre @ [g]"] show ?case by (simp add: Let_def)
qed simp

lemma print6_split:
  assumes "zeros_at gs (Some (a, b))"
  shows "gs = take a gs @ replicate (b - a) 0 @ drop b gs" "2 \<le> b - a" "length (take a gs) + (b - a) + length (drop b gs) = length gs"
proof -
  have z: "a + 2 \<le> b" "b \<le> length gs" "take (b - a) (drop a gs) = replicate (b - a) 0" using assms by (auto simp: zeros_at_def)
  have "gs = take a gs @ take (b - a) (drop a gs) @ drop (b - a) (drop a gs)" by (simp only: append_take_drop_id)
  then show "gs = take a gs @ replicate (b - a) 0 @ drop b gs" using z by simp
  show "2 \<le> b - a" "length (take a gs) + (b - a) + length (drop b gs) = length gs" using z by simp_all
qed

lemma v6_finish_ellipsis:
  "length hs < 16 \<Longrightarrow> e \<le> length hs \<Longrightarrow> v6_finish (hs, Some e, []) = Some (take e hs @ replicate (16 - length hs) 0 @ drop e hs)"
  by (simp add: v6_finish_def)

lemma colon_join_plain:
  assumes "\<forall>g \<in> set gs. g < 65536"
  shows "set (join_with CHR '':'' (map hex_digits gs)) \<inter> {CHR ''.'', CHR ''%''} = {}"
  using assms
proof (induction gs)
  case (Cons g gs)
  then show ?case using hex_digits_plain [of g] by (cases gs) auto
qed simp

lemma join_starts_hex:
  assumes "gs \<noteq> []" "\<forall>g \<in> set gs. g < 65536"
  obtains d r where "join_with CHR '':'' (map hex_digits gs) = d # r" "d \<noteq> CHR '':''"
proof -
  obtain g hs where gs: "gs = g # hs" using assms(1) by (cases gs) auto
  then obtain d ds where "hex_digits g = d # ds" "d \<noteq> CHR '':''" using assms(2) by (auto elim: hex_digits_Cons)
  with gs that show thesis by (cases hs) auto
qed

lemma parse_print6:
  assumes "length gs = 8" "\<forall>g \<in> set gs. g < 65536"
  shows "parseIPv6 (print6 gs) = Some (Addr6 (bytes_of gs) '''')"
proof (cases "longest_zeros 0 gs None")
  case None
  have ne: "gs \<noteq> []" using assms by auto
  obtain d r where d: "join_with CHR '':'' (map hex_digits gs) = d # r" "d \<noteq> CHR '':''" by (rule join_starts_hex [OF ne assms(2)])
  have "CHR ''%'' \<notin> set (print6 gs)" using colon_join_plain [OF assms(2)] None by (auto simp: print6_def)
  then have "first_index (\<lambda>c. c = CHR ''%'') (print6 gs) = None" by (auto simp: first_index_None)
  moreover have "take 2 (print6 gs) \<noteq> ''::''" using None d by (simp add: print6_def numeral_eq_Suc)
  moreover have "v6_loop [] None (print6 gs) = Some (bytes_of gs, None, [])"
    using v6_groups [OF ne assms(2), of "[]" None] assms(1) None by (simp add: print6_def)
  ultimately show ?thesis using assms(1) by (simp add: parseIPv6_def v6_finish_def)
next
  case (Some ab)
  obtain a b where ab: "ab = (a, b)" by force
  have "zeros_at gs (Some (a, b))" using longest_zeros_at [of "[]" gs None] Some ab by (simp add: zeros_at_def [of _ None])
  note split = print6_split [OF this]
  define us ws where "us = take a gs" and "ws = drop b gs"
  have lt: "\<forall>g \<in> set us. g < 65536" "\<forall>g \<in> set ws. g < 65536"
    using assms(2) by (auto simp: us_def ws_def dest: in_set_takeD in_set_dropD)
  have len: "2 * length us + 2 * length ws < 16" "16 - (2 * length us + 2 * length ws) = 2 * (b - a)"
    using split assms(1) by (auto simp: us_def ws_def)
  let ?u = "join_with CHR '':'' (map hex_digits us)" and ?w = "join_with CHR '':'' (map hex_digits ws)"
  have pr: "print6 gs = ?u @ ''::'' @ ?w" using Some ab by (simp add: print6_def us_def ws_def)
  have "CHR ''%'' \<notin> set (print6 gs)" unfolding pr using colon_join_plain [OF lt(1)] colon_join_plain [OF lt(2)] by auto
  then have no: "first_index (\<lambda>c. c = CHR ''%'') (print6 gs) = None" by (auto simp: first_index_None)
  have w: "ws \<noteq> [] \<Longrightarrow> v6_loop hs e ?w = Some (hs @ bytes_of ws, e, [])" if "length hs = 2 * length us" for hs e
    using v6_groups [OF _ lt(2), of hs e] that len by simp
  have wn: "?w = [] \<longleftrightarrow> ws = []" by (cases "ws = []") (use lt(2) in \<open>auto elim: join_starts_hex\<close>)
  have fin: "v6_finish (bytes_of us @ bytes_of ws, Some (2 * length us), []) = Some (bytes_of gs)"
  proof -
    have "bytes_of gs = bytes_of us @ replicate (2 * (b - a)) 0 @ bytes_of ws"
      by (subst split(1)) (simp add: us_def ws_def)
    then show ?thesis using v6_finish_ellipsis [of "bytes_of us @ bytes_of ws" "2 * length us"] len by simp
  qed
  show ?thesis
  proof (cases "us = []")
    case True
    then show ?thesis
      using no pr w [of "[]"] wn fin split(1)  assms(1)
      by (auto simp: parseIPv6_def us_def ws_def)
  next
    case False
    obtain d r where d: "?u = d # r" "d \<noteq> CHR '':''" by (rule join_starts_hex [OF False lt(1)])
    have "take 2 (print6 gs) \<noteq> ''::''" unfolding pr d using d(2) by (simp add: numeral_eq_Suc)
    moreover have "v6_loop [] None (print6 gs) = Some (bytes_of us @ bytes_of ws, Some (2 * length us), [])"
      unfolding pr using v6_groups_ellipsis [OF False lt(1), of "[]" ?w] w [of "bytes_of us"] wn len by auto
    ultimately show ?thesis using no fin by (simp add: parseIPv6_def)
  qed
qed

lemma ParseAddr_print6:
  assumes "length gs = 8" "\<forall>g \<in> set gs. g < 65536"
  shows "ParseAddr (print6 gs) = Some (Addr6 (bytes_of gs) '''')"
proof -
  obtain g h hs where gs: "gs = g # h # hs"
    using assms(1) by (cases gs rule: remdups_adj.cases) auto
  with assms(2) have g: "g < 65536" by simp
  have "\<exists>ds r. print6 gs = ds @ CHR '':'' # r \<and> set ds \<inter> {CHR ''.'', CHR '':'', CHR ''%''} = {}"
  proof (cases "longest_zeros 0 gs None")
    case None
    then have "print6 gs = hex_digits g @ CHR '':'' # join_with CHR '':'' (map hex_digits (h # hs))"
      using gs by (simp add: print6_def)
    then show ?thesis using hex_digits_plain [OF g] by blast
  next
    case (Some ab)
    obtain a b where ab: "ab = (a, b)" by force
    show ?thesis
    proof (cases a)
      case 0
      then have "print6 gs = [] @ CHR '':'' # (CHR '':'' # join_with CHR '':'' (map hex_digits (drop b gs)))"
        using Some ab by (simp add: print6_def)
      then show ?thesis by (metis Int_empty_left list.set(1))
    next
      case (Suc n)
      then have "take a gs = g # take n (h # hs)" using gs by simp
      then have "\<exists>r. print6 gs = hex_digits g @ CHR '':'' # r"
        using Some ab by (cases "take n (h # hs)") (simp_all add: print6_def)
      then show ?thesis using hex_digits_plain [OF g] by blast
    qed
  qed
  then obtain ds r where "print6 gs = ds @ CHR '':'' # r" "set ds \<inter> {CHR ''.'', CHR '':'', CHR ''%''} = {}" by blast
  then show ?thesis using parse_print6 [OF assms] by (simp add: ParseAddr_def scan_skip)
qed

lemma groups_bytes: "even (length ip) \<Longrightarrow> map of_nat (bytes_of (groups ip)) = ip \<and> 2 * length (groups ip) = length ip"
proof (induction ip rule: groups.induct)
  case (1 a b r)
  have "(unat a * 256 + unat b) div 256 = unat a" "(unat a * 256 + unat b) mod 256 = unat b"
    using unat_byte [of b] by simp_all
  with 1 show ?case by simp
qed auto

lemma groups_lt: "g \<in> set (groups ip) \<Longrightarrow> g < 65536"
proof (induction ip rule: groups.induct)
  case (1 a b r)
  then show ?case using unat_byte [of a] unat_byte [of b] by auto
qed auto

theorem ParseIP_String:
  assumes "length ip = 16"
  shows "ParseIP (IP_String ip) = Some ip"
proof (cases "To4 ip")
  case None
  have "length (groups ip) = 8" "map of_nat (bytes_of (groups ip)) = ip" using groups_bytes [of ip] assms by auto
  with None show ?thesis
    using ParseAddr_print6 [of "groups ip"] groups_lt [of _ ip] by (simp add: ParseIP_def IP_String_def)
next
  case (Some ip4)
  with assms have "length ip4 = 4" "ip = v4InV6Prefix @ ip4"
    by (auto simp: To4_def split: if_splits) (metis append_take_drop_id)
  with Some show ?thesis
    using ParseAddr_print4 [of ip4] by (simp add: ParseIP_def IP_String_def map_idI)
qed

lemma parseIPv4Fields_length: "parseIPv4Fields v d fs s = Some r \<Longrightarrow> length fs \<le> 3 \<Longrightarrow> length r = 4"
  by (induction v d fs s rule: parseIPv4Fields.induct) (auto simp: Let_def split: if_splits)

section \<open>Addresses as bit strings\<close>

definition byte_bits :: "8 word \<Rightarrow> bool list" where
  "byte_bits b = map (\<lambda>i. bit b (7 - i)) [0..<8]"

definition ip_bits :: "IP \<Rightarrow> bool list" where
  "ip_bits ip = concat (map byte_bits ip)"

lemma length_byte_bits [simp]: "length (byte_bits b) = 8"
  by (simp add: byte_bits_def)

lemma length_ip_bits [simp]: "length (ip_bits ip) = 8 * length ip"
  by (induction ip) (simp_all add: ip_bits_def)

lemma ip_bits_simps [simp]: "ip_bits [] = []" "ip_bits (b # ip) = byte_bits b @ ip_bits ip"
  by (simp_all add: ip_bits_def)

lemma ip_bits_append [simp]: "ip_bits (xs @ ys) = ip_bits xs @ ip_bits ys"
  by (simp add: ip_bits_def)

lemma byte_bits_nth: "i < 8 \<Longrightarrow> byte_bits b ! i = bit b (7 - i)"
  by (simp add: byte_bits_def)

lemma ip_bits_nth: "i < 8 * length ip \<Longrightarrow> ip_bits ip ! i = bit (ip ! (i div 8)) (7 - i mod 8)"
proof (induction ip arbitrary: i)
  case (Cons b ip)
  show ?case
  proof (cases "i < 8")
    case True
    then show ?thesis by (simp add: nth_append byte_bits_nth)
  next
    case False
    then have "i div 8 = Suc ((i - 8) div 8)" "i mod 8 = (i - 8) mod 8"
      by (simp_all add: le_div_geq le_mod_geq)
    with False Cons show ?thesis by (simp add: nth_append)
  qed
qed simp

lemma byte_bits_inject: "byte_bits x = byte_bits y \<longleftrightarrow> x = y"
proof
  assume eq: "byte_bits x = byte_bits y"
  show "x = y"
  proof (rule bit_word_eqI)
    fix n assume "n < LENGTH(8)"
    then show "bit x n = bit y n" using arg_cong [OF eq, of "\<lambda>l. l ! (7 - n)"] by (simp add: byte_bits_nth)
  qed
qed simp

lemma ip_bits_inject: "length xs = length ys \<Longrightarrow> ip_bits xs = ip_bits ys \<longleftrightarrow> xs = ys"
  by (induction xs ys rule: list_induct2) (simp_all add: byte_bits_inject)

lemma byte_bits_and: "byte_bits (x AND y) = map2 (\<and>) (byte_bits x) (byte_bits y)"
  by (simp add: byte_bits_def bit_and_iff map2_map_map)

lemma ip_bits_and: "length xs = length ys \<Longrightarrow> ip_bits (and_bytes xs ys) = map2 (\<and>) (ip_bits xs) (ip_bits ys)"
  unfolding and_bytes_def by (induction xs ys rule: list_induct2) (simp_all add: byte_bits_and)

lemma byte_bits_mask: "n \<le> 8 \<Longrightarrow> byte_bits (NOT (drop_bit n 0xff)) = replicate n True @ replicate (8 - n) False"
proof -
  have "\<forall>n \<in> set [0..<9]. byte_bits (NOT (drop_bit n 0xff)) = replicate n True @ replicate (8 - n) False" by code_simp
  then show "n \<le> 8 \<Longrightarrow> ?thesis" by (auto simp: less_Suc_eq_le)
qed

lemma mask_zero: "ip_bits (mask_bytes l 0) = replicate (8 * l) False"
  by (induction l) (simp_all add: byte_bits_mask [of 0, simplified] replicate_add [symmetric])

lemma ip_bits_mask: "n \<le> 8 * l \<Longrightarrow> ip_bits (mask_bytes l n) = replicate n True @ replicate (8 * l - n) False"
proof (induction l arbitrary: n)
  case (Suc l)
  show ?case
  proof (cases "n \<ge> 8")
    case True
    have "byte_bits 0xff = replicate 8 True" by code_simp
    with True Suc show ?thesis by (simp add: replicate_add [symmetric] append_assoc [symmetric] del: append_assoc)
  next
    case False
    then have "byte_bits (NOT (drop_bit n 0xff)) = replicate n True @ replicate (8 - n) False" by (simp add: byte_bits_mask)
    with False show ?thesis by (simp add: mask_zero replicate_add [symmetric])
  qed
qed simp

lemma length_mask_bytes [simp]: "length (mask_bytes l n) = l"
  by (induction l arbitrary: n) auto

lemma map2_and_mask:
  "n \<le> length bs \<Longrightarrow> map2 (\<and>) bs (replicate n True @ replicate (length bs - n) False) = take n bs @ replicate (length bs - n) False"
proof -
  assume "n \<le> length bs"
  then have "map2 (\<and>) (take n bs @ drop n bs) (replicate n True @ replicate (length bs - n) False) = take n bs @ replicate (length bs - n) False"
    by (subst zip_append) (simp_all add: zip_replicate2 comp_def map_replicate_const)
  then show ?thesis by simp
qed

text \<open>Under a mask of \<open>n\<close> ones two addresses agree when their first \<open>n\<close> bits do.\<close>

lemma mask_prefix:
  assumes "length xs = l" "length ys = l" "n \<le> 8 * l"
  shows "and_bytes xs (mask_bytes l n) = and_bytes ys (mask_bytes l n) \<longleftrightarrow> take n (ip_bits xs) = take n (ip_bits ys)"
proof -
  have bits: "ip_bits (and_bytes zs (mask_bytes l n)) = take n (ip_bits zs) @ replicate (8 * l - n) False" if "length zs = l" for zs
    using that assms(3) map2_and_mask [of n "ip_bits zs"] by (simp add: ip_bits_and ip_bits_mask)
  have "length (and_bytes xs (mask_bytes l n)) = length (and_bytes ys (mask_bytes l n))" using assms by (simp add: and_bytes_def)
  then have "and_bytes xs (mask_bytes l n) = and_bytes ys (mask_bytes l n) \<longleftrightarrow>
      ip_bits (and_bytes xs (mask_bytes l n)) = ip_bits (and_bytes ys (mask_bytes l n))" by (rule ip_bits_inject [symmetric])
  then show ?thesis using assms by (simp add: bits)
qed

lemma and_bytes_mask_take: "length xs = l \<Longrightarrow> n \<le> 8 * l \<Longrightarrow> take n (ip_bits (and_bytes xs (mask_bytes l n))) = take n (ip_bits xs)"
  using map2_and_mask [of n "ip_bits xs"] by (simp add: ip_bits_and ip_bits_mask)

section \<open>Parsed addresses\<close>

lemma v6_loop_length:
  "v6_loop ip e s = Some (ip', e', s') \<Longrightarrow> even (length ip) \<Longrightarrow> length ip \<le> 16 \<Longrightarrow> (\<forall>x. e = Some x \<longrightarrow> x \<le> length ip) \<Longrightarrow>
   length ip' \<le> 16 \<and> (\<forall>x. e' = Some x \<longrightarrow> x \<le> length ip')"
proof (induction ip e s arbitrary: ip' e' s' rule: v6_loop.induct)
  case (1 ip e s)
  note prems = "1.prems" and hyps = "1.IH"
  show ?case
  proof (cases "length ip \<ge> 16")
    case True
    with prems show ?thesis by (simp add: v6_loop.simps [of ip])
  next
    case False
    with prems obtain off acc where g: "hex_group 0 0 s = Some (off, acc)" by (auto simp: v6_loop.simps [of ip] split: option.splits)
    have off: "off \<noteq> 0" using prems(1) False g by (cases "off = 0") (simp_all add: v6_loop.simps [of ip])
    have even: "length ip + 2 \<le> 16" "even (length ip + 2)" using prems False by presburger+
    show ?thesis
    proof (cases "off < length s \<and> s ! off = CHR ''.''")
      case True
      then show ?thesis
        using prems False g off parseIPv4Fields_length [of 0 0 "[]" s]
        by (auto simp: v6_loop.simps [of ip] split: if_splits)
    next
      case nodot: False
      show ?thesis
      proof (cases "drop off s" rule: remdups_adj.cases)
        case 1
        then show ?thesis using prems False g off nodot even by (auto simp: v6_loop.simps [of ip] Let_def)
      next
        case (2 c)
        then show ?thesis using prems False g off nodot by (auto simp: v6_loop.simps [of ip] Let_def)
      next
        case (3 c d r)
        note IH = hyps [OF False g refl off nodot refl 3 refl]
        show ?thesis
        proof (cases "d = CHR '':''")
          case True
          then show ?thesis
            using prems False g off nodot 3 even IH(1) [of ip' e' s']
            by (auto simp: v6_loop.simps [of ip] Let_def split: if_splits)
        next
          case F: False
          have "\<forall>x. e = Some x \<longrightarrow> x \<le> length (ip @ [acc div 256, acc mod 256])" using prems(4) by auto
          with F show ?thesis
            using prems False g off nodot 3 even IH(2) [of ip' e' s']
            by (auto simp: v6_loop.simps [of ip] Let_def split: if_splits)
        qed
      qed
    qed
  qed
qed

lemma v6_finish_length:
  "v6_finish (ip, e, s) = Some r \<Longrightarrow> length ip \<le> 16 \<Longrightarrow> (\<forall>x. e = Some x \<longrightarrow> x \<le> length ip) \<Longrightarrow> length r = 16"
  by (auto simp: v6_finish_def split: if_splits option.splits)

lemma v6_length:
  assumes "Option.bind (v6_loop [] e s) v6_finish = Some ip" "e = None \<or> e = Some 0"
  shows "length ip = 16"
proof -
  obtain ip' e' s' where "v6_loop [] e s = Some (ip', e', s')" "v6_finish (ip', e', s') = Some ip"
    using assms(1) by (cases "v6_loop [] e s") auto
  with assms(2) show ?thesis using v6_loop_length [of "[]" e s ip' e' s'] v6_finish_length by auto
qed

lemma parseIPv6_length:
  assumes "parseIPv6 s = Some a" shows "\<exists>ip zone. a = Addr6 ip zone \<and> length ip = 16"
  using assms unfolding parseIPv6_def Let_def
  by (auto split: option.splits if_splits prod.splits intro: v6_length)

lemma ParseAddr_shape:
  assumes "ParseAddr s = Some a"
  shows "(\<exists>bs. a = Addr4 bs \<and> length bs = 4) \<or> (\<exists>bs zone. a = Addr6 bs zone \<and> length bs = 16)"
proof -
  have "ParseAddr_scan s t = Some a \<Longrightarrow> ?thesis" for t
    using parseIPv6_length [of s] parseIPv4Fields_length [of 0 0 "[]" s]
    by (induction t) (auto split: if_splits)
  with assms show ?thesis by (simp add: ParseAddr_def)
qed

lemma length_As16: "ParseAddr s = Some a \<Longrightarrow> length (As16 a) = 16"
  using ParseAddr_shape [of s a] by (auto simp: v4InV6Prefix_def)

lemma ParseIP_length: "ParseIP s = Some ip \<Longrightarrow> length ip = 16"
  by (auto simp: ParseIP_def length_As16 split: option.splits if_splits)

text \<open>
  The family and the bits of an address, as \<^verbatim>\<open>net.IPNet.Contains\<close> and the prefix trie see them: four
  bytes for an IPv4 address, also when it is written as an IPv6 address.
\<close>

definition ip_family :: "IP \<Rightarrow> bool" where
  "ip_family ip = (To4 ip \<noteq> None)"

definition addr_bits :: "IP \<Rightarrow> bool list" where
  "addr_bits ip = ip_bits (case To4 ip of Some ip4 \<Rightarrow> ip4 | None \<Rightarrow> ip)"

lemma To4_length: "To4 ip = Some ip4 \<Longrightarrow> length ip4 = 4"
  by (auto simp: To4_def split: if_splits)

text \<open>
  A CIDR prefix is written with a base address and a prefix length. For an IPv4 network the length
  counts bits of the IPv4 address; for one written as an IPv6 address that maps an IPv4 address
  it counts from the start of the IPv6 address, so 96 bits are taken off.
\<close>

definition prefix_of :: "IPNet \<Rightarrow> bool list" where
  "prefix_of n =
     (let ones = fst (IPMask_Size (net_Mask n))
      in take (if ip_family (net_IP n) \<and> length (net_Mask n) = 16 then ones - 96 else ones) (addr_bits (net_IP n)))"

lemma byte_ones_mask: "n < 8 \<Longrightarrow> byte_ones 8 (NOT (drop_bit n 0xff)) = n"
proof -
  have "\<forall>n \<in> set [0..<8]. byte_ones 8 (NOT (drop_bit n 0xff)) = n" by code_simp
  then show "n < 8 \<Longrightarrow> ?thesis" by auto
qed

lemma mask_byte_not_full: "n < 8 \<Longrightarrow> (NOT (drop_bit n 0xff) :: 8 word) \<noteq> 0xff"
proof -
  have "\<forall>n \<in> set [0..<8]. (NOT (drop_bit n 0xff) :: 8 word) \<noteq> 0xff" by code_simp
  then show "n < 8 \<Longrightarrow> ?thesis" by auto
qed

lemma mask_bytes_zero: "x \<in> set (mask_bytes l 0) \<Longrightarrow> x = 0"
  by (induction l) auto

lemma simpleMaskLength_mask: "n \<le> 8 * l \<Longrightarrow> simpleMaskLength (mask_bytes l n) = Some n"
proof (induction l arbitrary: n)
  case (Suc l)
  show ?case
  proof (cases "n \<ge> 8")
    case True
    with Suc show ?thesis by simp
  next
    case False
    then show ?thesis using byte_ones_mask [of n] mask_byte_not_full [of n] mask_bytes_zero by (auto simp: Let_def)
  qed
qed simp

lemma IPMask_Size_mask: "n \<le> 8 * l \<Longrightarrow> IPMask_Size (mask_bytes l n) = (n, 8 * l)"
  by (simp add: IPMask_Size_def simpleMaskLength_mask)

lemma drop_mask_bytes: "k \<le> l \<Longrightarrow> 8 * k \<le> n \<Longrightarrow> drop k (mask_bytes l n) = mask_bytes (l - k) (n - 8 * k)"
proof (induction l arbitrary: k n)
  case (Suc l)
  then show ?case by (cases k) auto
qed simp

text \<open>A masked IPv6 address maps an IPv4 address only when the mask covers the mapping prefix.\<close>

lemma mapped_mask:
  assumes "length ip = 16" "take 12 (and_bytes ip (mask_bytes 16 n)) = v4InV6Prefix" "n \<le> 128"
  shows "96 \<le> n"
proof (rule ccontr)
  assume "\<not> 96 \<le> n"
  let ?b = "ip_bits (and_bytes ip (mask_bytes 16 n))"
  have eq: "ip_bits (and_bytes ip (mask_bytes 16 n)) = take n (ip_bits ip) @ replicate (128 - n) False"
    using assms map2_and_mask [of n "ip_bits ip"] by (simp add: ip_bits_and ip_bits_mask)
  have "?b = ip_bits (take 12 (and_bytes ip (mask_bytes 16 n))) @ ip_bits (drop 12 (and_bytes ip (mask_bytes 16 n)))"
    by (simp flip: ip_bits_append)
  then have "?b ! 95 = ip_bits v4InV6Prefix ! 95" unfolding assms(2) by (simp add: nth_append v4InV6Prefix_def)
  also have "\<dots> = True" by code_simp
  finally show False using \<open>\<not> 96 \<le> n\<close> assms(1) unfolding eq by (simp add: nth_append)
qed

definition cidr_shape :: "IPNet \<Rightarrow> nat \<Rightarrow> nat \<Rightarrow> bool" where
  "cidr_shape n l k = ((l = 4 \<or> l = 16) \<and> k \<le> 8 * l \<and> length (net_IP n) = l \<and> net_Mask n = mask_bytes l k \<and>
     (l = 16 \<longrightarrow> To4 (net_IP n) \<noteq> None \<longrightarrow> 96 \<le> k))"

lemma length_and_bytes [simp]: "length (and_bytes xs ys) = min (length xs) (length ys)"
  by (simp add: and_bytes_def)

lemma ParseCIDR_shape:
  assumes "ParseCIDR s = Some (a, n)" obtains l k where "cidr_shape n l k"
proof -
  obtain ad k where ad: "ParseAddr (take (the (first_index (\<lambda>c. c = CHR ''/'') s)) s) = Some ad" "k \<le> BitLen ad"
    and n: "n = \<lparr> net_IP = IP_Mask (As16 ad) (CIDRMask k (BitLen ad)), net_Mask = CIDRMask k (BitLen ad) \<rparr>"
    using assms by (auto simp: ParseCIDR_def Let_def not_less split: option.splits if_splits)
  from ParseAddr_shape [OF ad(1)] show thesis
  proof (elim disjE exE conjE)
    fix bs assume "ad = Addr4 bs" "length bs = 4"
    then have "cidr_shape n 4 k" using n ad(2)
      by (simp add: cidr_shape_def IP_Mask_def CIDRMask_def v4InV6Prefix_def)
    then show thesis by (rule that)
  next
    fix bs zone assume bs: "ad = Addr6 bs zone" "length bs = 16"
    then have "net_IP n = and_bytes (map of_nat bs) (mask_bytes 16 k)" "net_Mask n = mask_bytes 16 k"
      using n by (simp_all add: IP_Mask_def CIDRMask_def)
    moreover have "96 \<le> k" if "To4 (net_IP n) \<noteq> None"
      using that calculation bs ad(2) by (intro mapped_mask [of "map of_nat bs"]) (auto simp: To4_def split: if_splits)
    ultimately have "cidr_shape n 16 k" using bs ad(2) by (simp add: cidr_shape_def)
    then show thesis by (rule that)
  qed
qed

lemma take_prefix: "length xs = length ys \<Longrightarrow> take k xs = take k ys \<longleftrightarrow> prefix (take k xs) ys"
  by (metis append_eq_conv_conj length_take min.commute prefix_def take_is_prefix take_take)

theorem ParseCIDR_Contains:
  assumes "ParseCIDR s = Some (a, n)" "length ip = 16"
  shows "IPNet_Contains n ip \<longleftrightarrow> ip_family ip = ip_family (net_IP n) \<and> prefix (prefix_of n) (addr_bits ip)"
proof -
  obtain l k where shape: "cidr_shape n l k" using assms(1) by (rule ParseCIDR_shape)
  have size: "IPMask_Size (net_Mask n) = (k, 8 * l)" using shape by (simp add: cidr_shape_def IPMask_Size_mask)
  show ?thesis
  proof (cases "To4 (net_IP n)")
    case None
    then have l: "l = 16" using shape by (auto simp: cidr_shape_def To4_def)
    then have nn: "networkNumberAndMask n = Some (net_IP n, mask_bytes 16 k)"
      using None shape by (simp add: networkNumberAndMask_def cidr_shape_def)
    have "prefix_of n = take k (ip_bits (net_IP n))" using None size by (simp add: prefix_of_def ip_family_def addr_bits_def)
    then show ?thesis
      using None l shape assms(2) mask_prefix [of "net_IP n" 16 ip k] take_prefix [of "ip_bits (net_IP n)" "ip_bits ip" k]
      by (cases "To4 ip") (auto simp: IPNet_Contains_def nn ip_family_def addr_bits_def cidr_shape_def dest: To4_length)
  next
    case (Some ip4)
    define k' where "k' = (if l = 16 then k - 96 else k)"
    have k': "k' \<le> 32" using shape Some by (auto simp: cidr_shape_def k'_def)
    have "drop 12 (mask_bytes 16 k) = mask_bytes 4 (k - 96)" if "l = 16"
      using drop_mask_bytes [of 12 16 k] shape that Some by (simp add: cidr_shape_def)
    then have nn: "networkNumberAndMask n = Some (ip4, mask_bytes 4 k')"
      using Some shape To4_length [OF Some] by (auto simp: networkNumberAndMask_def cidr_shape_def k'_def Let_def)
    have "prefix_of n = take k' (ip_bits ip4)"
      using Some size shape by (auto simp: prefix_of_def ip_family_def addr_bits_def k'_def cidr_shape_def)
    then show ?thesis
      using Some assms(2) k' To4_length [OF Some] mask_prefix [of ip4 4 "the (To4 ip)" k']
        take_prefix [of "ip_bits ip4" "ip_bits (the (To4 ip))" k']
      by (cases "To4 ip") (auto simp: IPNet_Contains_def nn ip_family_def addr_bits_def dest: To4_length)
  qed
qed

section \<open>Evaluation\<close>

lemma mask_bytes_numeral:
  "mask_bytes (numeral l) n =
     (if n \<ge> 8 then 0xff # mask_bytes (pred_numeral l) (n - 8) else NOT (drop_bit n 0xff) # mask_bytes (pred_numeral l) 0)"
  by (simp add: numeral_eq_Suc)

lemma replicate_numeral: "replicate (numeral n) x = x # replicate (pred_numeral n) x"
  by (simp add: numeral_eq_Suc)

lemmas net_eval = ParseCIDR_def ParseIP_def ParseAddr_def is_digit_def Let_def CIDRMask_def IP_Mask_def v4InV6Prefix_def
  and_bytes_def hex_value_def parseIPv6_def v6_finish_def v6_loop.simps mask_bytes_numeral replicate_numeral To4_def To16_def
  IPNet_Contains_def networkNumberAndMask_def


text \<open>Trimming leaves a string that starts and ends with visible ASCII characters as it is.\<close>

definition visible :: "char \<Rightarrow> bool" where
  "visible c = (32 < (of_char c :: nat) \<and> (of_char c :: nat) < 128)"

lemma strip_visible:
  assumes "s = [] \<or> visible (hd s)" "\<forall>w \<in> set ws. w = [] \<or> \<not> visible (hd w)"
  shows "strip_prefixes ws s = s"
proof -
  have "find (\<lambda>w. w \<noteq> [] \<and> take (length w) s = w) ws = None"
    unfolding find_None_iff using assms by (metis hd_take length_greater_0_conv take_Nil)
  then show ?thesis by (subst strip_prefixes.simps) simp
qed

lemma space_runes_visible: "\<forall>w \<in> set space_runes. w = [] \<or> \<not> visible (hd w)" "\<forall>w \<in> set (map rev space_runes). w = [] \<or> \<not> visible (hd w)"
  by (simp_all add: space_runes_def visible_def upt_rec_numeral)

lemma TrimSpace_visible: "visible (hd s) \<Longrightarrow> visible (last s) \<Longrightarrow> TrimSpace s = s"
  by (cases "s = []") (simp_all add: TrimSpace_def strip_visible space_runes_visible hd_rev)

lemma TrimSpace_Nil [simp]: "TrimSpace [] = []"
  using strip_visible [OF _ space_runes_visible(1), of "[]"] strip_visible [OF _ space_runes_visible(2), of "[]"]
  by (simp add: TrimSpace_def)

section \<open>Addresses as strings\<close>

definition addr_chars :: "char set" where
  "addr_chars = set ''0123456789abcdef.:''"

lemma join_chars: "c \<in> addr_chars \<Longrightarrow> \<forall>p \<in> set ps. set p \<subseteq> addr_chars \<Longrightarrow> set (join_with c ps) \<subseteq> addr_chars"
  by (induction ps rule: join_with.induct [of _ c]) auto

lemma nat_dec_addr: "set (nat_dec n) \<subseteq> addr_chars"
proof
  fix c assume "c \<in> set (nat_dec n)"
  then obtain d :: nat where "d < 10" "c = char_of (48 + d)" using nat_dec_digits by blast
  moreover have "\<forall>d \<in> set [0..<10]. char_of (48 + d :: nat) \<in> set ''0123456789abcdef.:''" by code_simp
  ultimately show "c \<in> addr_chars" by (auto simp: addr_chars_def)
qed

lemma hex_digits_addr: "set (hex_digits n) \<subseteq> addr_chars"
proof (induction n rule: hex_digits.induct)
  case (1 n)
  have "\<forall>d \<in> set [0..<16]. ''0123456789abcdef'' ! d \<in> set ''0123456789abcdef.:''" by code_simp
  then have "''0123456789abcdef'' ! d \<in> addr_chars" if "d < 16" for d using that by (auto simp: addr_chars_def)
  then show ?case using 1 by (subst hex_digits.simps) (auto split: if_splits)
qed

lemma IP_String_chars: "set (IP_String ip) \<subseteq> addr_chars"
proof -
  have c: "CHR ''.'' \<in> addr_chars" "CHR '':'' \<in> addr_chars" by (simp_all add: addr_chars_def)
  have "set (print4 a) \<subseteq> addr_chars" for a unfolding print4_def using c nat_dec_addr by (intro join_chars) auto
  moreover have "set (print6 gs) \<subseteq> addr_chars" for gs
  proof -
    have j: "set (join_with CHR '':'' (map hex_digits l)) \<subseteq> addr_chars" for l
      using c hex_digits_addr by (intro join_chars) auto
    then show ?thesis using c j by (auto simp: print6_def split: option.split)
  qed
  ultimately show ?thesis by (auto simp: IP_String_def split: option.split)
qed

lemma addr_chars_visible: "CHR '' '' \<notin> addr_chars" "CHR 0x0D \<notin> addr_chars" "CHR ''-'' \<notin> addr_chars" "CHR ''+'' \<notin> addr_chars"
  by (simp_all add: addr_chars_def)

lemma last_index_at: "c \<notin> set t \<Longrightarrow> last_index c (s @ c # t) = Some (length s)"
proof (induction s)
  case Nil
  have "c \<notin> set ys \<Longrightarrow> last_index c ys = None" for ys by (induction ys) auto
  with Nil show ?case by simp
qed simp

lemma first_index_at: "\<forall>x \<in> set s. \<not> P x \<Longrightarrow> P y \<Longrightarrow> first_index P (s @ y # t) = Some (length s)"
  by (induction s) auto

lemma SplitHostPort_Join:
  assumes "set host \<inter> {CHR ''['', CHR '']''} = {}" "set port \<inter> {CHR ''['', CHR '']'', CHR '':''} = {}"
  shows "SplitHostPort (JoinHostPort host port) = Some (host, port)"
proof (cases "CHR '':'' \<in> set host")
  case True
  let ?s = "CHR ''['' # host @ CHR '']'' # CHR '':'' # port"
  have li: "last_index CHR '':'' ((CHR ''['' # host @ [CHR '']'']) @ CHR '':'' # port) = Some (length host + 2)"
    using assms(2) by (subst last_index_at) auto
  have fi: "first_index (\<lambda>c. c = CHR '']'') ((CHR ''['' # host) @ CHR '']'' # CHR '':'' # port) = Some (Suc (length host))"
    using assms(1) by (subst first_index_at) auto
  have d: "drop (Suc (length host) + 1) ?s = CHR '':'' # port" "drop (length host + 2 + 1) ?s = port" by simp_all
  have "SplitHostPort ?s = Some (host, port)"
    using li fi assms d unfolding SplitHostPort_def by auto
  then show ?thesis using True by (simp add: JoinHostPort_def)
next
  case False
  have li: "last_index CHR '':'' (host @ CHR '':'' # port) = Some (length host)" using assms(2) by (subst last_index_at) auto
  have "hd (host @ CHR '':'' # port) \<noteq> CHR ''[''" using assms(1) by (cases host) auto
  then show ?thesis using False li assms by (auto simp: JoinHostPort_def SplitHostPort_def)
qed

end
