(* ===== verification/Cidr.thy ===== *)
theory Cidr
  imports Go_Net
begin

text \<open>
  The address utilities of \<^verbatim>\<open>pkg/utils/ip.go\<close>: the CIDR matcher, a binary trie over the bits of
  addresses, and the helpers that classify addresses. The matcher is shown to answer like
  \<^verbatim>\<open>net.IPNet.Contains\<close> over the added networks, with the exception of networks that are written in
  the IPv4-mapped form of IPv6.
\<close>

section \<open>The trie\<close>

datatype cidrNode = CidrNode (child0: "cidrNode option") (child1: "cidrNode option") (isLeaf: bool)

record CIDRMatcher =
  root4 :: cidrNode
  root6 :: cidrNode

definition new_node :: cidrNode where
  "new_node = CidrNode None None False"

definition NewCIDRMatcher :: CIDRMatcher where
  "NewCIDRMatcher = \<lparr> root4 = new_node, root6 = new_node \<rparr>"

definition ip_bit :: "IP \<Rightarrow> nat \<Rightarrow> bool" where
  "ip_bit ip i = bit (ip ! (i div 8)) (7 - i mod 8)"

definition get_child :: "bool \<Rightarrow> cidrNode \<Rightarrow> cidrNode option" where
  "get_child b n = (if b then child1 n else child0 n)"

definition set_child :: "bool \<Rightarrow> cidrNode \<Rightarrow> cidrNode \<Rightarrow> cidrNode" where
  "set_child b c n = (if b then CidrNode (child0 n) (Some c) (isLeaf n) else CidrNode (Some c) (child1 n) (isLeaf n))"

text \<open>The loop of \<^verbatim>\<open>addCIDR\<close> from bit \<open>i\<close>, with \<open>m\<close> bits to go.\<close>

primrec add_loop :: "nat \<Rightarrow> nat \<Rightarrow> IP \<Rightarrow> cidrNode \<Rightarrow> cidrNode" where
  "add_loop 0 i ip node = CidrNode (child0 node) (child1 node) True"
| "add_loop (Suc m) i ip node =
     (let b = ip_bit ip i;
          c = (case get_child b node of None \<Rightarrow> new_node | Some c \<Rightarrow> c)
      in set_child b (add_loop m (i + 1) ip c) node)"

definition addCIDR :: "cidrNode \<Rightarrow> IP \<Rightarrow> IP \<Rightarrow> cidrNode" where
  "addCIDR node0 ip msk =
     (let bits = length ip * 8; ones = fst (IPMask_Size msk)
      in add_loop (min ones bits) 0 ip node0)"

definition CIDRMatcher_Add :: "string \<Rightarrow> CIDRMatcher \<Rightarrow> bool \<times> CIDRMatcher" where
  "CIDRMatcher_Add cidr cm =
     (case ParseCIDR cidr of
        None \<Rightarrow> (False, cm)
      | Some (_, ipnet) \<Rightarrow>
          (case To4 (net_IP ipnet) of
             Some ip4 \<Rightarrow> (True, cm\<lparr>root4 := addCIDR (root4 cm) ip4 (net_Mask ipnet)\<rparr>)
           | None \<Rightarrow> (True, cm\<lparr>root6 := addCIDR (root6 cm) (the (To16 (net_IP ipnet))) (net_Mask ipnet)\<rparr>)))"

primrec match_loop :: "nat \<Rightarrow> nat \<Rightarrow> IP \<Rightarrow> cidrNode \<Rightarrow> bool" where
  "match_loop 0 i ip node = isLeaf node"
| "match_loop (Suc m) i ip node =
     (case get_child (ip_bit ip i) node of
        None \<Rightarrow> isLeaf node
      | Some c \<Rightarrow> if isLeaf c then True else match_loop m (i + 1) ip c)"

definition match_trie :: "cidrNode \<Rightarrow> IP \<Rightarrow> bool" where
  "match_trie node0 ip = (if isLeaf node0 then True else match_loop (length ip * 8) 0 ip node0)"

definition ContainsIP :: "IP \<Rightarrow> CIDRMatcher \<Rightarrow> bool" where
  "ContainsIP ip cm =
     (case To4 ip of
        Some ip4 \<Rightarrow> match_trie (root4 cm) ip4
      | None \<Rightarrow> match_trie (root6 cm) (case To16 ip of Some ip16 \<Rightarrow> ip16 | None \<Rightarrow> []))"

definition CIDRMatcher_Contains :: "string \<Rightarrow> CIDRMatcher \<Rightarrow> bool" where
  "CIDRMatcher_Contains ip cm = (case ParseIP ip of None \<Rightarrow> False | Some parsedIP \<Rightarrow> ContainsIP parsedIP cm)"

fun count_leaves :: "cidrNode option \<Rightarrow> nat" where
  "count_leaves None = 0"
| "count_leaves (Some (CidrNode c0 c1 l)) = (if l then 1 else count_leaves c0 + count_leaves c1)"

definition CIDRMatcher_Len :: "CIDRMatcher \<Rightarrow> nat" where
  "CIDRMatcher_Len cm = count_leaves (Some (root4 cm)) + count_leaves (Some (root6 cm))"

definition CIDRMatcher_Clear :: "CIDRMatcher \<Rightarrow> CIDRMatcher" where
  "CIDRMatcher_Clear cm = cm\<lparr>root4 := new_node, root6 := new_node\<rparr>"

section \<open>Address helpers\<close>

definition ExtractIP :: "string \<Rightarrow> string" where
  "ExtractIP addr =
     (if CHR '':'' \<in> set addr then (case SplitHostPort addr of Some (host, _) \<Rightarrow> host | None \<Rightarrow> addr) else addr)"

text \<open>\<^verbatim>\<open>parseUint16\<close>: a 32-bit accumulator that is checked after every digit.\<close>

fun parseUint16_loop :: "32 word \<Rightarrow> string \<Rightarrow> 16 word" where
  "parseUint16_loop n [] = ucast n"
| "parseUint16_loop n (c # cs) =
     (if of_char c < (48::nat) \<or> of_char c > (57::nat) then 0
      else let n' = n * 10 + (of_char c - 48) in if n' > 0xFFFF then 0 else parseUint16_loop n' cs)"

definition parseUint16 :: "string \<Rightarrow> 16 word" where
  "parseUint16 s = (if s = [] then 0 else parseUint16_loop 0 s)"

definition ParsePort :: "string \<Rightarrow> int" where
  "ParsePort port = (if port = [] then 0 else let p = parseUint16 port in if p = 0 then 0 else uint p)"

definition IsPrivateIP :: "string \<Rightarrow> bool" where
  "IsPrivateIP ipStr =
     (case ParseIP ipStr of
        None \<Rightarrow> False
      | Some ip \<Rightarrow>
          (case To4 ip of
             Some ip4 \<Rightarrow>
               ip4 ! 0 = 10 \<or> ip4 ! 0 = 172 \<and> ip4 ! 1 \<ge> 16 \<and> ip4 ! 1 \<le> 31 \<or> ip4 ! 0 = 192 \<and> ip4 ! 1 = 168 \<or>
               ip4 ! 0 = 127 \<or> ip4 ! 0 = 169 \<and> ip4 ! 1 = 254
           | None \<Rightarrow>
               IP_Equal ip IPv6loopback \<or> ip ! 0 AND 0xfe = 0xfc \<or> ip ! 0 = 0xfe \<and> ip ! 1 AND 0xc0 = 0x80))"

definition BigEndian_Uint32 :: "IP \<Rightarrow> 32 word" where
  "BigEndian_Uint32 b = ucast (b ! 3) OR push_bit 8 (ucast (b ! 2)) OR push_bit 16 (ucast (b ! 1)) OR push_bit 24 (ucast (b ! 0))"

definition BigEndian_PutUint32 :: "32 word \<Rightarrow> IP" where
  "BigEndian_PutUint32 v = [ucast (drop_bit 24 v), ucast (drop_bit 16 v), ucast (drop_bit 8 v), ucast v]"

definition IPToUint32 :: "string \<Rightarrow> 32 word" where
  "IPToUint32 ipStr =
     (case ParseIP ipStr of
        None \<Rightarrow> 0
      | Some ip \<Rightarrow> (case To4 ip of None \<Rightarrow> 0 | Some ip4 \<Rightarrow> BigEndian_Uint32 ip4))"

definition Uint32ToIP :: "32 word \<Rightarrow> string" where
  "Uint32ToIP n = IP_String (BigEndian_PutUint32 n)"

definition IsValidIP :: "string \<Rightarrow> bool" where
  "IsValidIP ipStr = (ParseIP ipStr \<noteq> None)"

definition IsIPv4 :: "string \<Rightarrow> bool" where
  "IsIPv4 ipStr = (case ParseIP ipStr of None \<Rightarrow> False | Some ip \<Rightarrow> To4 ip \<noteq> None)"

definition IsIPv6 :: "string \<Rightarrow> bool" where
  "IsIPv6 ipStr = (case ParseIP ipStr of None \<Rightarrow> False | Some ip \<Rightarrow> To4 ip = None \<and> To16 ip \<noteq> None)"

section \<open>What the trie holds\<close>

text \<open>A trie denotes the set of the bit strings that lead to a leaf.\<close>

fun has_prefix :: "cidrNode \<Rightarrow> bool list \<Rightarrow> bool" where
  "has_prefix node [] = isLeaf node"
| "has_prefix node (b # bs) = (case get_child b node of None \<Rightarrow> False | Some c \<Rightarrow> has_prefix c bs)"

lemma has_prefix_new [simp]: "\<not> has_prefix new_node p"
  by (cases p) (simp_all add: new_node_def get_child_def)

lemma get_set_child: "get_child a (set_child b c n) = (if a = b then Some c else get_child a n)"
  by (auto simp: get_child_def set_child_def)

lemma isLeaf_set_child [simp]: "isLeaf (set_child b c n) = isLeaf n"
  by (simp add: set_child_def)

lemma ip_bit_nth: "i < 8 * length ip \<Longrightarrow> ip_bit ip i = ip_bits ip ! i"
  by (simp add: ip_bit_def ip_bits_nth)

lemma take_drop_bits: "i + Suc m \<le> 8 * length ip \<Longrightarrow> take (Suc m) (drop i (ip_bits ip)) = ip_bit ip i # take m (drop (Suc i) (ip_bits ip))"
  by (simp add: ip_bit_nth take_Suc_conv_app_nth Cons_nth_drop_Suc [symmetric])

lemma has_prefix_leaf: "has_prefix (CidrNode (child0 n) (child1 n) True) p \<longleftrightarrow> p = [] \<or> has_prefix n p"
  by (cases p) (simp_all add: get_child_def)

lemma add_loop_has:
  "i + m \<le> 8 * length ip \<Longrightarrow> has_prefix (add_loop m i ip node) p \<longleftrightarrow> p = take m (drop i (ip_bits ip)) \<or> has_prefix node p"
proof (induction m arbitrary: i node p)
  case 0
  then show ?case by (simp add: has_prefix_leaf)
next
  case (Suc m)
  let ?b = "ip_bit ip i"
  let ?c = "case get_child ?b node of None \<Rightarrow> new_node | Some c \<Rightarrow> c"
  show ?case
  proof (cases p)
    case Nil
    then show ?thesis using take_drop_bits [OF Suc.prems] by (simp add: Let_def)
  next
    case (Cons b bs)
    have IH: "has_prefix (add_loop m (i + 1) ip ?c) bs \<longleftrightarrow> bs = take m (drop (Suc i) (ip_bits ip)) \<or> has_prefix ?c bs"
      using Suc.IH [of "i + 1" ?c bs] Suc.prems by simp
    have "has_prefix ?c bs \<longleftrightarrow> has_prefix node (?b # bs)" by (simp split: option.split)
    with Cons IH show ?thesis
      unfolding take_drop_bits [OF Suc.prems] by (auto simp: Let_def get_set_child)
  qed
qed

lemma match_loop_has:
  "i + m \<le> 8 * length ip \<Longrightarrow> \<not> isLeaf node \<Longrightarrow>
   match_loop m i ip node \<longleftrightarrow> (\<exists>k \<le> m. has_prefix node (take k (drop i (ip_bits ip))))"
proof (induction m arbitrary: i node)
  case (Suc m)
  have bits: "take (Suc k) (drop i (ip_bits ip)) = ip_bit ip i # take k (drop (Suc i) (ip_bits ip))" if "k \<le> m" for k
    using take_drop_bits [of i k ip] Suc.prems that by simp
  have "(\<exists>k \<le> Suc m. has_prefix node (take k (drop i (ip_bits ip)))) \<longleftrightarrow>
        (\<exists>k \<le> m. has_prefix node (take (Suc k) (drop i (ip_bits ip))))"
    using Suc.prems(2) by (metis Suc_le_mono has_prefix.simps(1) not0_implies_Suc take0)
  also have "\<dots> \<longleftrightarrow> (\<exists>k \<le> m. has_prefix node (ip_bit ip i # take k (drop (Suc i) (ip_bits ip))))"
    using bits by (metis (no_types, lifting))
  also have "\<dots> \<longleftrightarrow> match_loop (Suc m) i ip node"
  proof (cases "get_child (ip_bit ip i) node")
    case (Some c)
    show ?thesis
    proof (cases "isLeaf c")
      case True
      then show ?thesis using Some by (auto intro: exI [of _ 0])
    next
      case False
      then show ?thesis using Some Suc.IH [of "Suc i" c] Suc.prems by simp
    qed
  qed (use Suc.prems in simp)
  finally show ?case by simp
qed simp

lemma match_trie_has: "match_trie node0 ip \<longleftrightarrow> (\<exists>p. prefix p (ip_bits ip) \<and> has_prefix node0 p)"
proof -
  have "match_trie node0 ip \<longleftrightarrow> (\<exists>k \<le> 8 * length ip. has_prefix node0 (take k (ip_bits ip)))"
    using match_loop_has [of 0 "length ip * 8" ip node0] by (auto simp: match_trie_def mult.commute intro: exI [of _ 0])
  also have "\<dots> \<longleftrightarrow> (\<exists>p. prefix p (ip_bits ip) \<and> has_prefix node0 p)"
    by (metis length_ip_bits prefix_length_le take_is_prefix prefix_def append_eq_conv_conj)
  finally show ?thesis .
qed

lemma addCIDR_has:
  "has_prefix (addCIDR node0 ip msk) p \<longleftrightarrow> p = take (fst (IPMask_Size msk)) (ip_bits ip) \<or> has_prefix node0 p"
proof -
  have "take (min n (8 * length ip)) (ip_bits ip) = take n (ip_bits ip)" for n
    by (metis length_ip_bits min.commute take_all_iff take_take linorder_le_cases min.absorb2)
  then show ?thesis by (simp add: addCIDR_def Let_def add_loop_has mult.commute)
qed

section \<open>The matcher as a set of networks\<close>

definition valid_cidr :: "string \<Rightarrow> bool" where
  "valid_cidr c = (ParseCIDR c \<noteq> None)"

text \<open>
  The bits that \<^verbatim>\<open>Add\<close> stores for a network, and the addresses the matcher then accepts: those of the
  same family that start with them.
\<close>

definition stored_bits :: "IPNet \<Rightarrow> bool list" where
  "stored_bits n = take (fst (IPMask_Size (net_Mask n))) (addr_bits (net_IP n))"

definition cidr_covers :: "string \<Rightarrow> string \<Rightarrow> bool" where
  "cidr_covers c s =
     (case (ParseCIDR c, ParseIP s) of
        (Some (_, n), Some ip) \<Rightarrow> ip_family ip = ip_family (net_IP n) \<and> prefix (stored_bits n) (addr_bits ip)
      | _ \<Rightarrow> False)"

lemma ContainsIP_has:
  "length ip = 16 \<Longrightarrow> ContainsIP ip cm \<longleftrightarrow> (\<exists>p. prefix p (addr_bits ip) \<and> has_prefix (if ip_family ip then root4 cm else root6 cm) p)"
  by (auto simp: ContainsIP_def match_trie_has ip_family_def addr_bits_def To16_def split: option.split)

lemma Add_fst: "fst (CIDRMatcher_Add c cm) = valid_cidr c"
  by (auto simp: CIDRMatcher_Add_def valid_cidr_def split: option.split)

lemma Add_Contains:
  "CIDRMatcher_Contains s (snd (CIDRMatcher_Add c cm)) \<longleftrightarrow> cidr_covers c s \<or> CIDRMatcher_Contains s cm"
proof (cases "ParseCIDR c")
  case (Some an)
  obtain a n where an: "an = (a, n)" by force
  have net: "length (net_IP n) = 4 \<or> length (net_IP n) = 16"
    using ParseCIDR_shape [of c a n] Some an by (metis cidr_shape_def)
  show ?thesis
  proof (cases "ParseIP s")
    case ip: (Some ip)
    then have len: "length ip = 16" by (rule ParseIP_length)
    let ?cm = "snd (CIDRMatcher_Add c cm)"
    have roots: "has_prefix (if f then root4 ?cm else root6 ?cm) p \<longleftrightarrow>
        f = ip_family (net_IP n) \<and> p = stored_bits n \<or> has_prefix (if f then root4 cm else root6 cm) p" for f p
      using Some an net
      by (auto simp: CIDRMatcher_Add_def addCIDR_has stored_bits_def ip_family_def addr_bits_def To16_def To4_def
          split: option.splits)
    have "ContainsIP ip ?cm \<longleftrightarrow> ip_family ip = ip_family (net_IP n) \<and> prefix (stored_bits n) (addr_bits ip) \<or> ContainsIP ip cm"
      unfolding ContainsIP_has [OF len] roots by blast
    then show ?thesis using Some an ip by (simp add: CIDRMatcher_Contains_def cidr_covers_def)
  qed (simp add: CIDRMatcher_Contains_def cidr_covers_def split: option.split)
qed (simp add: CIDRMatcher_Add_def cidr_covers_def)

lemma New_Contains: "\<not> CIDRMatcher_Contains s NewCIDRMatcher"
  by (auto simp: CIDRMatcher_Contains_def NewCIDRMatcher_def ContainsIP_has ParseIP_length split: option.split)

lemma Add_invalid: "\<not> valid_cidr c \<Longrightarrow> snd (CIDRMatcher_Add c cm) = cm"
  by (cases "ParseCIDR c") (simp_all add: CIDRMatcher_Add_def valid_cidr_def)

lemma Clear_New: "CIDRMatcher_Clear cm = NewCIDRMatcher"
  by (simp add: CIDRMatcher_Clear_def NewCIDRMatcher_def)

text \<open>
  What the clients of a matcher rely on: adding a network adds the addresses it covers and fails
  exactly for malformed networks, clearing forgets them all.
\<close>

locale network_set =
  fixes none :: "'m" and add :: "string \<Rightarrow> 'm \<Rightarrow> bool \<times> 'm" and member :: "string \<Rightarrow> 'm \<Rightarrow> bool"
    and valid :: "string \<Rightarrow> bool" and covers :: "string \<Rightarrow> string \<Rightarrow> bool"
  assumes member_none: "\<not> member s none"
    and add_valid: "fst (add c m) = valid c"
    and add_invalid: "\<not> valid c \<Longrightarrow> snd (add c m) = m"
    and member_add: "member s (snd (add c m)) \<longleftrightarrow> covers c s \<or> member s m"
begin

lemma covers_valid: "covers c s \<Longrightarrow> valid c"
  using add_invalid [of c none] member_add [of s c none] member_none by metis

lemma member_fold: "member s (fold (\<lambda>c m. snd (add c m)) cs m) \<longleftrightarrow> (\<exists>c \<in> set cs. covers c s) \<or> member s m"
  by (induction cs arbitrary: m) (auto simp: member_add)

lemma member_build: "member s (fold (\<lambda>c m. snd (add c m)) cs none) \<longleftrightarrow> (\<exists>c \<in> set cs. covers c s)"
  by (simp add: member_fold member_none)

end

interpretation cidr: network_set NewCIDRMatcher CIDRMatcher_Add CIDRMatcher_Contains valid_cidr cidr_covers
  by unfold_locales (simp_all add: New_Contains Add_fst Add_invalid Add_Contains)

text \<open>
  \<^verbatim>\<open>Add\<close> takes the prefix length from the mask of the network but the bits from the four bytes of an
  IPv4 address, so the two fit unless the network was written in the IPv4-mapped form.
\<close>

definition mapped_net :: "IPNet \<Rightarrow> bool" where
  "mapped_net n = (To4 (net_IP n) \<noteq> None \<and> length (net_Mask n) = 16)"

lemma cidr_covers_net:
  assumes "ParseCIDR c = Some (a, n)" "ParseIP s = Some ip" "\<not> mapped_net n"
  shows "cidr_covers c s \<longleftrightarrow> IPNet_Contains n ip"
proof -
  have "stored_bits n = prefix_of n"
    using assms(3) by (auto simp: stored_bits_def prefix_of_def mapped_net_def ip_family_def)
  then show ?thesis
    using ParseCIDR_Contains [OF assms(1) ParseIP_length [OF assms(2)]] assms by (simp add: cidr_covers_def)
qed

section \<open>Ports and numeric addresses\<close>

fun dec_value :: "nat \<Rightarrow> string \<Rightarrow> nat" where
  "dec_value n [] = n"
| "dec_value n (c # cs) = dec_value (n * 10 + (of_char c - 48)) cs"

lemma dec_value_mono: "n \<le> dec_value n s"
proof (induction s arbitrary: n)
  case (Cons c cs)
  from Cons [of "n * 10 + (of_char c - 48)"] show ?case by simp
qed simp

lemma digit_word: "is_digit c \<Longrightarrow> (of_char c - 48 :: 32 word) = of_nat (of_char c - 48)"
proof -
  assume "is_digit c"
  then have "(48::nat) \<le> of_char c" by (simp add: is_digit_def)
  then have "(of_nat (of_char c - 48) :: 32 word) = of_nat (of_char c) - of_nat 48" by (rule of_nat_diff)
  then show ?thesis by (simp add: of_nat_of_char)
qed

lemma parseUint16_loop_value:
  "n \<le> 65535 \<Longrightarrow> parseUint16_loop (of_nat n) s =
     (if (\<forall>c \<in> set s. is_digit c) \<and> dec_value n s \<le> 65535 then of_nat (dec_value n s) else 0)"
proof (induction s arbitrary: n)
  case Nil
  then show ?case by (simp add: unsigned_of_nat take_bit_nat_eq_self unsigned_ucast_eq)
next
  case (Cons c cs)
  show ?case
  proof (cases "is_digit c")
    case True
    define d where "d = (of_char c - 48 :: nat)"
    have "d \<le> 9" using True unfolding d_def is_digit_def by linarith
    then have small: "n * 10 + d < 2 ^ 32" using Cons.prems by simp
    have w: "of_nat n * 10 + (of_char c - 48) = (of_nat (n * 10 + d) :: 32 word)"
      by (simp add: digit_word [OF True] d_def)
    have big: "(of_nat (n * 10 + d) :: 32 word) > 0xFFFF \<longleftrightarrow> n * 10 + d > 65535"
      using small by (simp add: word_less_nat_alt unsigned_of_nat take_bit_nat_eq_self del: of_nat_add of_nat_mult)
    have nd: "\<not> (of_char c < (48::nat) \<or> of_char c > (57::nat))" using True by (simp add: is_digit_def not_less)
    show ?thesis
    proof (cases "n * 10 + d > 65535")
      case True
      then show ?thesis
        using big nd w dec_value_mono [of "n * 10 + d" cs] by (simp add: d_def [symmetric] del: of_nat_add of_nat_mult)
    next
      case False
      then show ?thesis
        using big nd w Cons.IH [of "n * 10 + d"] \<open>is_digit c\<close> by (simp add: d_def [symmetric] del: of_nat_add of_nat_mult)
    qed
  qed (auto simp: is_digit_def)
qed

text \<open>\<^verbatim>\<open>ParsePort\<close> reads a decimal number from 1 to 65535 and returns 0 for everything else.\<close>

lemma ParsePort_value:
  "ParsePort s = (if s \<noteq> [] \<and> (\<forall>c \<in> set s. is_digit c) \<and> dec_value 0 s \<le> 65535 then int (dec_value 0 s) else 0)"
proof -
  have "uint (of_nat (dec_value 0 s) :: 16 word) = int (dec_value 0 s)" if "dec_value 0 s \<le> 65535"
    using that by (simp add: unsigned_of_nat take_bit_nat_eq_self)
  then show ?thesis using parseUint16_loop_value [of 0 s] by (auto simp: ParsePort_def parseUint16_def Let_def)
qed

text \<open>An IPv4 address printed from its number is read back as that number.\<close>

lemma Uint32_roundtrip: "IPToUint32 (Uint32ToIP n) = n"
proof -
  let ?ip = "BigEndian_PutUint32 n"
  have "ParseIP (Uint32ToIP n) = Some (v4InV6Prefix @ ?ip)"
    using ParseAddr_print4 [of ?ip] by (simp add: ParseIP_def Uint32ToIP_def IP_String_def To4_def BigEndian_PutUint32_def)
  moreover have "BigEndian_Uint32 ?ip = n"
  proof (rule bit_word_eqI)
    fix i assume "i < LENGTH(32)"
    then consider "i < 8" | "8 \<le> i" "i < 16" | "16 \<le> i" "i < 24" | "24 \<le> i" "i < 32" by force
    then show "bit (BigEndian_Uint32 ?ip) i = bit n i"
      by cases (auto simp: BigEndian_Uint32_def BigEndian_PutUint32_def bit_simps)
  qed
  ultimately show ?thesis by (simp add: IPToUint32_def To4_def v4InV6Prefix_def BigEndian_PutUint32_def)
qed

section \<open>Properties\<close>

text \<open>
  C21. The CIDR matcher is equivalent to testing the networks one by one: for networks not written in
  the IPv4-mapped form, an address string is accepted exactly if it parses and one of the added
  networks that parse contains it by \<^verbatim>\<open>net.IPNet.Contains\<close>, whatever the order and nesting of the networks.
\<close>

theorem CIDRMatcher_equiv:
  assumes "\<forall>c \<in> set cs. \<forall>a n. ParseCIDR c = Some (a, n) \<longrightarrow> \<not> mapped_net n"
  shows "CIDRMatcher_Contains s (fold (\<lambda>c m. snd (CIDRMatcher_Add c m)) cs NewCIDRMatcher) \<longleftrightarrow>
    (\<exists>ip. ParseIP s = Some ip \<and> (\<exists>c \<in> set cs. \<exists>a n. ParseCIDR c = Some (a, n) \<and> IPNet_Contains n ip))"
proof (cases "ParseIP s")
  case None
  then show ?thesis by (simp add: CIDRMatcher_Contains_def)
next
  case (Some ip)
  have "cidr_covers c s \<longleftrightarrow> (\<exists>a n. ParseCIDR c = Some (a, n) \<and> IPNet_Contains n ip)" if "c \<in> set cs" for c
  proof (cases "ParseCIDR c")
    case None
    then show ?thesis by (simp add: cidr_covers_def)
  next
    case (Some an)
    then show ?thesis using cidr_covers_net [OF _ \<open>ParseIP s = Some ip\<close>] assms that by (cases an) auto
  qed
  then show ?thesis using Some by (auto simp: cidr.member_build)
qed

theorem CIDRMatcher_equiv_witness:
  "CIDRMatcher_Contains ''10.1.2.3'' (fold (\<lambda>c m. snd (CIDRMatcher_Add c m)) [''10.0.0.0/8'', ''2001:db8::/32''] NewCIDRMatcher)"
proof -
  have a: "ParseCIDR ''10.0.0.0/8'' = Some ([0,0,0,0,0,0,0,0,0,0,255,255,10,0,0,0], \<lparr> net_IP = [10,0,0,0], net_Mask = [255,0,0,0] \<rparr>)"
    by (simp add: net_eval)
  have b: "case ParseCIDR ''2001:db8::/32'' of Some (x, n) \<Rightarrow> \<not> mapped_net n | None \<Rightarrow> False"
    by (simp add: net_eval mapped_net_def)
  have c: "ParseIP ''10.1.2.3'' = Some [0,0,0,0,0,0,0,0,0,0,255,255,10,1,2,3]" by (simp add: net_eval)
  have d: "IPNet_Contains \<lparr> net_IP = [10,0,0,0], net_Mask = [255,0,0,0] \<rparr> [0,0,0,0,0,0,0,0,0,0,255,255,10,1,2,3]" by (simp add: net_eval)
  have "\<forall>c \<in> set [''10.0.0.0/8'', ''2001:db8::/32'']. \<forall>a n. ParseCIDR c = Some (a, n) \<longrightarrow> \<not> mapped_net n"
    using a b by (auto simp: mapped_net_def split: option.splits)
  from CIDRMatcher_equiv [OF this, of "''10.1.2.3''"] a c d show ?thesis by auto
qed

text \<open>
  The exception is real: of a network written in the IPv4-mapped form the matcher accepts the base
  address only, although \<^verbatim>\<open>net.IPNet.Contains\<close> accepts the whole network.
\<close>

lemma CIDRMatcher_mapped_form:
  assumes "ParseCIDR c = Some (a, n)" "ParseIP s = Some ip" "mapped_net n"
  shows "CIDRMatcher_Contains s (snd (CIDRMatcher_Add c NewCIDRMatcher)) \<longleftrightarrow> To4 ip = To4 (net_IP n)"
proof -
  obtain l k where shape: "cidr_shape n l k" using assms(1) by (rule ParseCIDR_shape)
  obtain ip4 where ip4: "To4 (net_IP n) = Some ip4" "length ip4 = 4"
    using assms(3) by (auto simp: mapped_net_def dest: To4_length)
  have "k \<ge> 96" "IPMask_Size (net_Mask n) = (k, 128)"
    using shape assms(3) by (auto simp: cidr_shape_def mapped_net_def IPMask_Size_mask)
  then have st: "stored_bits n = ip_bits ip4" using ip4 by (simp add: stored_bits_def addr_bits_def)
  have "CIDRMatcher_Contains s (snd (CIDRMatcher_Add c NewCIDRMatcher)) \<longleftrightarrow> cidr_covers c s"
    by (simp add: cidr.member_add cidr.member_none)
  also have "\<dots> \<longleftrightarrow> To4 ip = Some ip4"
  proof (cases "To4 ip")
    case None
    then show ?thesis using assms(1,2) ip4 by (simp add: cidr_covers_def ip_family_def)
  next
    case (Some x)
    then have "prefix (ip_bits ip4) (ip_bits x) \<longleftrightarrow> ip_bits ip4 = ip_bits x"
      using ip4 To4_length [OF Some] by (metis length_ip_bits not_equal_is_parallel parallelE prefix_order.refl)
    then show ?thesis
      using Some assms(1,2) ip4 st To4_length [OF Some] ip_bits_inject [of ip4 x] by (auto simp: cidr_covers_def ip_family_def addr_bits_def)
  qed
  finally show ?thesis using ip4 by simp
qed

lemma CIDRMatcher_mapped_example:
  "\<exists>a n ip. ParseCIDR ''::ffff:1.2.3.0/120'' = Some (a, n) \<and> ParseIP ''1.2.3.9'' = Some ip \<and> IPNet_Contains n ip \<and>
     \<not> CIDRMatcher_Contains ''1.2.3.9'' (snd (CIDRMatcher_Add ''::ffff:1.2.3.0/120'' NewCIDRMatcher))"
proof -
  obtain a n where n: "ParseCIDR ''::ffff:1.2.3.0/120'' = Some (a, n)" "mapped_net n" "To4 (net_IP n) = Some [1, 2, 3, 0]"
    "IPNet_Contains n [0, 0, 0, 0, 0, 0, 0, 0, 0, 0, 255, 255, 1, 2, 3, 9]"
    by (simp add: net_eval mapped_net_def)
  have ip: "ParseIP ''1.2.3.9'' = Some [0, 0, 0, 0, 0, 0, 0, 0, 0, 0, 255, 255, 1, 2, 3, 9]" by (simp add: net_eval)
  show ?thesis using CIDRMatcher_mapped_form [OF n(1) ip n(2)] n ip by (auto simp: net_eval)
qed

end
