(* ===== verification/Ip_Acl.thy ===== *)
theory Ip_Acl
  imports Cidr
begin

text \<open>
  The IP access list of the web application firewall, \<^verbatim>\<open>internal/waf/ipacl/ipacl.go\<close>: white and
  black list rules with expiry, automatic bans, and the matchers that are rebuilt when rules go.
  A time is its number of nanoseconds and the zero time is \<open>None\<close>.
\<close>

section \<open>Rules and lists\<close>

datatype Action = ActionAllow | ActionBlock | ActionBypass

record RuleMetadata =
  rm_ID :: string
  rm_CIDR :: string
  rm_CreatedAt :: int
  rm_ExpiresAt :: "int option"
  rm_Reason :: string
  rm_Source :: string

definition RuleMetadata_IsExpired :: "int \<Rightarrow> RuleMetadata \<Rightarrow> bool" where
  "RuleMetadata_IsExpired now r = (case rm_ExpiresAt r of None \<Rightarrow> False | Some t \<Rightarrow> now > t)"

record AutoBanConfig =
  ab_Enabled :: bool
  ab_DefaultTTL :: int
  ab_MaxTTL :: int

record EntryConfig =
  ec_CIDR :: string
  ec_Reason :: string
  ec_Expires :: "int option"

record AclConfig =
  ac_Whitelist :: "EntryConfig list"
  ac_Blacklist :: "EntryConfig list"
  ac_AutoBan :: AutoBanConfig

record IPAccessList =
  acl_whitelist :: CIDRMatcher
  acl_blacklist :: CIDRMatcher
  acl_whiteMeta :: "(string, RuleMetadata) gomap"
  acl_blackMeta :: "(string, RuleMetadata) gomap"
  acl_autoBan :: AutoBanConfig
  acl_idCounter :: int

function id_digits :: "int \<Rightarrow> string" where
  "id_digits n = (if n > 0 then char_of (48 + nat (n mod 10)) # id_digits (n div 10) else [])"
  by pat_completeness auto
termination by (relation "measure nat") (auto simp: nat_less_iff)

declare id_digits.simps [simp del]

definition formatID :: "string \<Rightarrow> int \<Rightarrow> string" where
  "formatID pre counter = (let s = pre @ ''-'' in if counter = 0 then s @ ''0'' else s @ rev (id_digits counter))"

definition new_rule :: "string \<Rightarrow> string \<Rightarrow> int \<Rightarrow> string \<Rightarrow> string \<Rightarrow> int option \<Rightarrow> int \<Rightarrow> RuleMetadata" where
  "new_rule kind source counter cidr reason expires now =
     \<lparr> rm_ID = formatID kind counter, rm_CIDR = cidr, rm_CreatedAt = now, rm_ExpiresAt = expires, rm_Reason = reason,
       rm_Source = source \<rparr>"

definition AddWhitelist :: "string \<Rightarrow> string \<Rightarrow> int option \<Rightarrow> int \<Rightarrow> IPAccessList \<Rightarrow> bool \<times> IPAccessList" where
  "AddWhitelist cidr reason expires now acl =
     (let (ok, w) = CIDRMatcher_Add cidr (acl_whitelist acl)
      in if \<not> ok then (False, acl)
         else let n = acl_idCounter acl + 1
              in (True, acl\<lparr>acl_whitelist := w, acl_idCounter := n,
                    acl_whiteMeta := AList.update cidr (new_rule ''wl'' ''manual'' n cidr reason expires now) (acl_whiteMeta acl)\<rparr>))"

definition AddBlacklist :: "string \<Rightarrow> string \<Rightarrow> int option \<Rightarrow> int \<Rightarrow> IPAccessList \<Rightarrow> bool \<times> IPAccessList" where
  "AddBlacklist cidr reason expires now acl =
     (let (ok, b) = CIDRMatcher_Add cidr (acl_blacklist acl)
      in if \<not> ok then (False, acl)
         else let n = acl_idCounter acl + 1
              in (True, acl\<lparr>acl_blacklist := b, acl_idCounter := n,
                    acl_blackMeta := AList.update cidr (new_rule ''bl'' ''manual'' n cidr reason expires now) (acl_blackMeta acl)\<rparr>))"

fun load_entries :: "(string \<Rightarrow> string \<Rightarrow> int option \<Rightarrow> int \<Rightarrow> IPAccessList \<Rightarrow> bool \<times> IPAccessList) \<Rightarrow> int \<Rightarrow> EntryConfig list \<Rightarrow>
    IPAccessList \<Rightarrow> IPAccessList option" where
  "load_entries add now [] acl = Some acl"
| "load_entries add now (e # es) acl =
     (let (ok, acl') = add (ec_CIDR e) (ec_Reason e) (ec_Expires e) now acl
      in if ok then load_entries add now es acl' else None)"

definition New_acl :: "AclConfig \<Rightarrow> int \<Rightarrow> IPAccessList option" where
  "New_acl cfg now =
     Option.bind
       (load_entries AddWhitelist now (ac_Whitelist cfg)
         \<lparr> acl_whitelist = NewCIDRMatcher, acl_blacklist = NewCIDRMatcher, acl_whiteMeta = [], acl_blackMeta = [],
           acl_autoBan = ac_AutoBan cfg, acl_idCounter = 0 \<rparr>)
       (load_entries AddBlacklist now (ac_Blacklist cfg))"

definition Check :: "string \<Rightarrow> IPAccessList \<Rightarrow> Action" where
  "Check ip acl =
     (if CIDRMatcher_Contains ip (acl_whitelist acl) then ActionBypass
      else if CIDRMatcher_Contains ip (acl_blacklist acl) then ActionBlock
      else ActionAllow)"

definition rebuild :: "(string, RuleMetadata) gomap \<Rightarrow> CIDRMatcher \<Rightarrow> CIDRMatcher" where
  "rebuild meta m = fold (\<lambda>c m. snd (CIDRMatcher_Add c m)) (map fst meta) (CIDRMatcher_Clear m)"

definition rebuildWhitelist :: "IPAccessList \<Rightarrow> IPAccessList" where
  "rebuildWhitelist acl = acl\<lparr>acl_whitelist := rebuild (acl_whiteMeta acl) (acl_whitelist acl)\<rparr>"

definition rebuildBlacklist :: "IPAccessList \<Rightarrow> IPAccessList" where
  "rebuildBlacklist acl = acl\<lparr>acl_blacklist := rebuild (acl_blackMeta acl) (acl_blacklist acl)\<rparr>"

definition RemoveWhitelist :: "string \<Rightarrow> IPAccessList \<Rightarrow> bool \<times> IPAccessList" where
  "RemoveWhitelist cidr acl =
     (if map_of (acl_whiteMeta acl) cidr = None then (False, acl)
      else (True, rebuildWhitelist (acl\<lparr>acl_whiteMeta := AList.delete cidr (acl_whiteMeta acl)\<rparr>)))"

definition RemoveBlacklist :: "string \<Rightarrow> IPAccessList \<Rightarrow> bool \<times> IPAccessList" where
  "RemoveBlacklist cidr acl =
     (if map_of (acl_blackMeta acl) cidr = None then (False, acl)
      else (True, rebuildBlacklist (acl\<lparr>acl_blackMeta := AList.delete cidr (acl_blackMeta acl)\<rparr>)))"

definition ban_ttl :: "AutoBanConfig \<Rightarrow> int \<Rightarrow> int" where
  "ban_ttl ab ttl =
     (let t1 = (if ttl > ab_MaxTTL ab \<and> ab_MaxTTL ab > 0 then ab_MaxTTL ab else ttl);
          t2 = (if t1 \<le> 0 then ab_DefaultTTL ab else t1)
      in if t2 \<le> 0 then 3600000000000 else t2)"

definition Ban :: "string \<Rightarrow> int \<Rightarrow> string \<Rightarrow> int \<Rightarrow> IPAccessList \<Rightarrow> bool \<times> IPAccessList" where
  "Ban ip ttl reason now acl =
     (if \<not> ab_Enabled (acl_autoBan acl) then (True, acl)
      else let cidr = ip @ ''/32''; expires = now + ban_ttl (acl_autoBan acl) ttl;
               (ok, b) = CIDRMatcher_Add cidr (acl_blacklist acl)
           in if \<not> ok then (False, acl)
              else let n = acl_idCounter acl + 1
                   in (True, acl\<lparr>acl_blacklist := b, acl_idCounter := n,
                         acl_blackMeta := AList.update cidr (new_rule ''ab'' ''auto-ban'' n cidr reason (Some expires) now)
                                            (acl_blackMeta acl)\<rparr>))"

definition ListRules :: "string \<Rightarrow> IPAccessList \<Rightarrow> RuleMetadata list" where
  "ListRules listType acl =
     (if listType \<in> {'''', ''all'', ''whitelist''} then map snd (acl_whiteMeta acl) else []) @
     (if listType \<in> {'''', ''all'', ''blacklist''} then map snd (acl_blackMeta acl) else [])"

definition live_rules :: "int \<Rightarrow> (string, RuleMetadata) gomap \<Rightarrow> (string, RuleMetadata) gomap" where
  "live_rules now meta = filter (\<lambda>(c, r). \<not> RuleMetadata_IsExpired now r) meta"

definition cleanupExpired :: "int \<Rightarrow> IPAccessList \<Rightarrow> IPAccessList" where
  "cleanupExpired now acl =
     (let acl1 = (if live_rules now (acl_blackMeta acl) = acl_blackMeta acl then acl
                  else rebuildBlacklist (acl\<lparr>acl_blackMeta := live_rules now (acl_blackMeta acl)\<rparr>))
      in if live_rules now (acl_whiteMeta acl1) = acl_whiteMeta acl1 then acl1
         else rebuildWhitelist (acl1\<lparr>acl_whiteMeta := live_rules now (acl_whiteMeta acl1)\<rparr>))"

section \<open>The matchers follow the rules\<close>

definition follows :: "CIDRMatcher \<Rightarrow> (string, RuleMetadata) gomap \<Rightarrow> bool" where
  "follows m meta = (gomap_wf meta \<and> (\<forall>c \<in> fst ` set meta. valid_cidr c) \<and> (\<forall>(c, r) \<in> set meta. rm_CIDR r = c) \<and>
     (\<forall>s. CIDRMatcher_Contains s m \<longleftrightarrow> (\<exists>c \<in> fst ` set meta. cidr_covers c s)))"

definition acl_inv :: "IPAccessList \<Rightarrow> bool" where
  "acl_inv acl = (follows (acl_whitelist acl) (acl_whiteMeta acl) \<and> follows (acl_blacklist acl) (acl_blackMeta acl))"

lemma follows_new: "follows NewCIDRMatcher []"
  by (simp add: follows_def cidr.member_none)

lemma rules_update_subset: "set (AList.update k v m) \<subseteq> insert (k, v) (set m)"
  by (induction m) auto

lemma follows_add:
  assumes "follows m meta" "fst (CIDRMatcher_Add c m)" "rm_CIDR r = c"
  shows "follows (snd (CIDRMatcher_Add c m)) (AList.update c r meta)"
proof -
  have "\<forall>(c, r) \<in> set (AList.update c r meta). rm_CIDR r = c"
    using assms rules_update_subset [of c r meta] by (fastforce simp: follows_def)
  then show ?thesis using assms by (auto simp: follows_def gomap cidr.member_add cidr.add_valid)
qed

lemma follows_rebuild:
  assumes "gomap_wf meta'" "set meta' \<subseteq> set meta" "follows m meta"
  shows "follows (rebuild meta' m') meta'"
proof -
  have "\<forall>c \<in> fst ` set meta'. valid_cidr c" "\<forall>(c, r) \<in> set meta'. rm_CIDR r = c" using assms(2,3) unfolding follows_def by blast+
  then show ?thesis using assms(1) by (simp add: follows_def rebuild_def Clear_New cidr.member_build)
qed

lemma live_rules_keys: "set (live_rules now meta) \<subseteq> set meta" "gomap_wf meta \<Longrightarrow> gomap_wf (live_rules now meta)"
  by (auto simp: live_rules_def distinct_map_filter)

lemma acl_inv_adds:
  assumes "acl_inv acl"
  shows "acl_inv (snd (AddWhitelist c reason ex now acl))" "acl_inv (snd (AddBlacklist c reason ex now acl))"
    "acl_inv (snd (Ban ip ttl reason now acl))"
  using assms follows_add [of "acl_whitelist acl" "acl_whiteMeta acl" c] follows_add [of "acl_blacklist acl" "acl_blackMeta acl"]
  by (auto simp: acl_inv_def AddWhitelist_def AddBlacklist_def Ban_def Let_def split_beta new_rule_def)

lemma acl_inv_removes:
  assumes "acl_inv acl"
  shows "acl_inv (snd (RemoveWhitelist c acl))" "acl_inv (snd (RemoveBlacklist c acl))"
proof -
  have "follows (rebuild (AList.delete c meta) m) (AList.delete c meta)" if "follows m meta" for m meta
    using that set_delete_subset [of c meta] by (intro follows_rebuild [OF _ _ that]) (simp_all add: follows_def gomap)
  with assms show "acl_inv (snd (RemoveWhitelist c acl))" "acl_inv (snd (RemoveBlacklist c acl))"
    by (auto simp: acl_inv_def RemoveWhitelist_def RemoveBlacklist_def rebuildWhitelist_def rebuildBlacklist_def)
qed

lemma acl_inv_cleanup: "acl_inv acl \<Longrightarrow> acl_inv (cleanupExpired now acl)"
proof -
  assume inv: "acl_inv acl"
  have "follows (rebuild (live_rules now meta) m) (live_rules now meta)" if "follows m meta" for m meta
    using that by (intro follows_rebuild [OF _ _ that]) (simp_all add: follows_def live_rules_keys)
  with inv show ?thesis
    by (auto simp: acl_inv_def cleanupExpired_def rebuildWhitelist_def rebuildBlacklist_def Let_def)
qed

text \<open>Every operation of an access list, and the states they lead to.\<close>

inductive acl_reach :: "IPAccessList \<Rightarrow> bool" where
  acl_new: "New_acl cfg now = Some acl \<Longrightarrow> acl_reach acl"
| acl_white: "acl_reach acl \<Longrightarrow> acl_reach (snd (AddWhitelist c reason ex now acl))"
| acl_black: "acl_reach acl \<Longrightarrow> acl_reach (snd (AddBlacklist c reason ex now acl))"
| acl_ban: "acl_reach acl \<Longrightarrow> acl_reach (snd (Ban ip ttl reason now acl))"
| acl_unwhite: "acl_reach acl \<Longrightarrow> acl_reach (snd (RemoveWhitelist c acl))"
| acl_unblack: "acl_reach acl \<Longrightarrow> acl_reach (snd (RemoveBlacklist c acl))"
| acl_cleanup: "acl_reach acl \<Longrightarrow> acl_reach (cleanupExpired now acl)"

lemma load_entries_inv:
  assumes "\<And>c reason ex acl. acl_inv acl \<Longrightarrow> acl_inv (snd (add c reason ex now acl))"
  shows "load_entries add now es acl = Some acl' \<Longrightarrow> acl_inv acl \<Longrightarrow> acl_inv acl'"
proof (induction es arbitrary: acl)
  case (Cons e es)
  then show ?case using assms [of acl "ec_CIDR e" "ec_Reason e" "ec_Expires e"] by (auto simp: split_beta Let_def split: if_splits)
qed simp

lemma New_acl_inv:
  assumes "New_acl cfg now = Some acl" shows "acl_inv acl"
proof -
  obtain a1 where "load_entries AddWhitelist now (ac_Whitelist cfg)
      \<lparr> acl_whitelist = NewCIDRMatcher, acl_blacklist = NewCIDRMatcher, acl_whiteMeta = [], acl_blackMeta = [],
        acl_autoBan = ac_AutoBan cfg, acl_idCounter = 0 \<rparr> = Some a1"
    and a2: "load_entries AddBlacklist now (ac_Blacklist cfg) a1 = Some acl"
    using assms by (auto simp: New_acl_def bind_eq_Some_conv)
  then have "acl_inv a1" using acl_inv_adds(1)
    by (elim load_entries_inv [rotated]) (simp_all add: acl_inv_def follows_new)
  with a2 show ?thesis using acl_inv_adds(2) by (elim load_entries_inv [rotated]) auto
qed

lemma acl_reach_inv: "acl_reach acl \<Longrightarrow> acl_inv acl"
  by (induction rule: acl_reach.induct) (simp_all add: New_acl_inv acl_inv_adds acl_inv_removes acl_inv_cleanup)

lemma Check_rules:
  assumes "acl_inv acl"
  shows "Check s acl =
    (if \<exists>c \<in> fst ` set (acl_whiteMeta acl). cidr_covers c s then ActionBypass
     else if \<exists>c \<in> fst ` set (acl_blackMeta acl). cidr_covers c s then ActionBlock
     else ActionAllow)"
  using assms by (auto simp: Check_def acl_inv_def follows_def)

lemma live_rules_live: "(c, r) \<in> set (live_rules now meta) \<longleftrightarrow> (c, r) \<in> set meta \<and> \<not> RuleMetadata_IsExpired now r"
  by (auto simp: live_rules_def)

lemma cleanup_meta:
  "acl_blackMeta (cleanupExpired now acl) = live_rules now (acl_blackMeta acl)"
  "acl_whiteMeta (cleanupExpired now acl) = live_rules now (acl_whiteMeta acl)"
  by (auto simp: cleanupExpired_def rebuildWhitelist_def rebuildBlacklist_def Let_def)


section \<open>Bans\<close>

lemma first_index_append: "(\<forall>x \<in> set xs. \<not> p x) \<Longrightarrow> p y \<Longrightarrow> first_index p (xs @ y # ys) = Some (length xs)"
  by (induction xs) auto

lemma ParseCIDR_32:
  assumes "ParseAddr s = Some a" "Addr_Zone a = ''''" "CHR ''/'' \<notin> set s"
  shows "ParseCIDR (s @ ''/32'') =
    Some (As16 a, \<lparr> net_IP = IP_Mask (As16 a) (CIDRMask 32 (BitLen a)), net_Mask = CIDRMask 32 (BitLen a) \<rparr>)"
proof -
  have "first_index (\<lambda>c. c = CHR ''/'') (s @ ''/32'') = Some (length s)"
    using assms(3) first_index_append [of s "\<lambda>c. c = CHR ''/''" "CHR ''/''" "''32''"] by auto
  moreover have "32 \<le> BitLen a" by (cases a) auto
  moreover have "dtoi_loop 0 0 ''32'' = Some (32, 2)" by (simp add: is_digit_def)
  ultimately show ?thesis using assms by (simp add: ParseCIDR_def Let_def del: dtoi_loop.simps)
qed

lemma and_full: "length xs = 4 \<Longrightarrow> and_bytes xs (mask_bytes 4 32) = (xs :: IP)"
proof -
  assume "length xs = 4"
  then have "take 32 (ip_bits (and_bytes xs (mask_bytes 4 32))) = take 32 (ip_bits xs)" by (intro and_bytes_mask_take) auto
  with \<open>length xs = 4\<close> show ?thesis using ip_bits_inject [of "and_bytes xs (mask_bytes 4 32)" xs] by simp
qed

lemma ban_covers4:
  assumes "ParseAddr s = Some (Addr4 bs)" "CHR ''/'' \<notin> set s" "ParseIP t = Some b"
  shows "cidr_covers (s @ ''/32'') t \<longleftrightarrow> b = v4InV6Prefix @ map of_nat bs"
proof -
  have len: "length bs = 4" using ParseAddr_shape [OF assms(1)] by simp
  define x :: IP where "x = map of_nat bs"
  have x: "length x = 4" using len by (simp add: x_def)
  have "IP_Mask (v4InV6Prefix @ x) (mask_bytes 4 32) = x"
    using x by (simp add: IP_Mask_def v4InV6Prefix_def and_full)
  then have net: "ParseCIDR (s @ ''/32'') = Some (v4InV6Prefix @ x, \<lparr> net_IP = x, net_Mask = mask_bytes 4 32 \<rparr>)"
    using ParseCIDR_32 [OF assms(1) _ assms(2)] by (simp add: CIDRMask_def x_def)
  have "cidr_covers (s @ ''/32'') t \<longleftrightarrow> To4 b \<noteq> None \<and> prefix (ip_bits x) (addr_bits b)"
    using net assms(3) x by (simp add: cidr_covers_def ip_family_def stored_bits_def IPMask_Size_mask addr_bits_def To4_def)
  also have "\<dots> \<longleftrightarrow> To4 b = Some x"
  proof (cases "To4 b")
    case (Some y)
    then have "length y = 4" by (rule To4_length)
    then have "prefix (ip_bits x) (ip_bits y) \<longleftrightarrow> x = y"
      using x ip_bits_inject [of x y] by (metis length_ip_bits not_equal_is_parallel parallelE prefix_order.refl)
    with Some show ?thesis by (auto simp: addr_bits_def)
  qed simp
  also have "\<dots> \<longleftrightarrow> b = v4InV6Prefix @ x"
  proof
    assume "To4 b = Some x"
    then have "take 12 b = v4InV6Prefix" "drop 12 b = x" using ParseIP_length [OF assms(3)] by (simp_all add: To4_def split: if_splits)
    then show "b = v4InV6Prefix @ x" by (metis append_take_drop_id)
  qed (use x in \<open>simp add: To4_def v4InV6Prefix_def\<close>)
  finally show ?thesis by (simp add: x_def)
qed

lemma ban_covers6:
  assumes "ParseAddr s = Some (Addr6 bs '''')" "CHR ''/'' \<notin> set s" "ParseIP t = Some b"
    and "To4 b = None" "take 4 b = take 4 (map of_nat bs)"
  shows "cidr_covers (s @ ''/32'') t"
proof -
  have len: "length bs = 16" using ParseAddr_shape [OF assms(1)] by simp
  define x :: IP where "x = map of_nat bs"
  have x: "length x = 16" using len by (simp add: x_def)
  let ?n = "\<lparr> net_IP = and_bytes x (mask_bytes 16 32), net_Mask = mask_bytes 16 32 \<rparr>"
  have "ParseCIDR (s @ ''/32'') = Some (x, ?n)"
    using ParseCIDR_32 [OF assms(1) _ assms(2)] x by (simp add: CIDRMask_def IP_Mask_def x_def)
  moreover have no4: "To4 (and_bytes x (mask_bytes 16 32)) = None"
    using mapped_mask [of x 32] x by (auto simp: To4_def)
  moreover have bits: "take 32 (ip_bits x) = take 32 (ip_bits b)"
  proof -
    have "ip_bits (take 4 z) = take 32 (ip_bits z)" if "length z = 16" for z
      using that arg_cong [OF append_take_drop_id [of 4 z], of "\<lambda>l. take 32 (ip_bits l)"] by (simp del: append_take_drop_id)
    then show ?thesis using x ParseIP_length [OF assms(3)] assms(5) by (metis x_def)
  qed
  moreover have "take 32 (ip_bits (and_bytes x (mask_bytes 16 32))) = take 32 (ip_bits x)"
    using x by (intro and_bytes_mask_take) simp_all
  ultimately show ?thesis
    using assms(3,4) by (simp add: cidr_covers_def ip_family_def stored_bits_def IPMask_Size_mask addr_bits_def take_is_prefix)
qed

lemma Ban_step:
  assumes "ab_Enabled (acl_autoBan acl)" "valid_cidr (s @ ''/32'')"
  shows "fst (Ban s ttl reason now acl)" "acl_whiteMeta (snd (Ban s ttl reason now acl)) = acl_whiteMeta acl"
    "fst ` set (acl_blackMeta (snd (Ban s ttl reason now acl))) = insert (s @ ''/32'') (fst ` set (acl_blackMeta acl))"
    "map_of (acl_blackMeta (snd (Ban s ttl reason now acl))) (s @ ''/32'') =
       Some (new_rule ''ab'' ''auto-ban'' (acl_idCounter acl + 1) (s @ ''/32'') reason (Some (now + ban_ttl (acl_autoBan acl) ttl)) now)"
  using assms by (auto simp: Ban_def Let_def split_beta cidr.add_valid gomap)

section \<open>Properties\<close>

text \<open>
  C23. In every reachable state the decision for an address is the one of the listed rules: a rule of the
  white list that covers the address wins, then a rule of the black list, and adding, removing,
  banning and expiring rules never leaves a matcher that disagrees with the rules.
\<close>

theorem IPAccessList_Check_rules:
  assumes "acl_reach acl"
  shows "Check s acl =
    (if \<exists>r \<in> set (ListRules ''whitelist'' acl). cidr_covers (rm_CIDR r) s then ActionBypass
     else if \<exists>r \<in> set (ListRules ''blacklist'' acl). cidr_covers (rm_CIDR r) s then ActionBlock
     else ActionAllow)"
proof -
  have inv: "acl_inv acl" using assms by (rule acl_reach_inv)
  have keys: "(\<exists>r \<in> set (map snd meta). cidr_covers (rm_CIDR r) s) \<longleftrightarrow> (\<exists>c \<in> fst ` set meta. cidr_covers c s)"
    if "follows m meta" for m meta
  proof -
    have "\<forall>p \<in> set meta. rm_CIDR (snd p) = fst p" using that unfolding follows_def by auto
    then show ?thesis by simp
  qed
  have fw: "follows (acl_whitelist acl) (acl_whiteMeta acl)" "follows (acl_blacklist acl) (acl_blackMeta acl)"
    using inv by (simp_all add: acl_inv_def)
  have "ListRules ''whitelist'' acl = map snd (acl_whiteMeta acl)" "ListRules ''blacklist'' acl = map snd (acl_blackMeta acl)"
    by (simp_all add: ListRules_def)
  then show ?thesis by (simp only: Check_rules [OF inv] keys [OF fw(1)] keys [OF fw(2)])
qed

definition example_acl :: AclConfig where
  "example_acl = \<lparr> ac_Whitelist = [\<lparr> ec_CIDR = ''10.0.0.1/32'', ec_Reason = [], ec_Expires = None \<rparr>],
     ac_Blacklist = [\<lparr> ec_CIDR = ''10.0.0.0/8'', ec_Reason = [], ec_Expires = None \<rparr>],
     ac_AutoBan = \<lparr> ab_Enabled = True, ab_DefaultTTL = 0, ab_MaxTTL = 0 \<rparr> \<rparr>"

lemma example_acl_new: "\<exists>acl. New_acl example_acl 0 = Some acl \<and> ab_Enabled (acl_autoBan acl) \<and> fst ` set (acl_whiteMeta acl) = {''10.0.0.1/32''}"
  by (simp add: New_acl_def example_acl_def AddWhitelist_def AddBlacklist_def Let_def split_beta cidr.add_valid valid_cidr_def net_eval)

theorem IPAccessList_Check_rules_witness:
  "\<exists>acl. New_acl example_acl 0 = Some acl \<and> Check ''192.0.2.1'' (snd (RemoveWhitelist ''10.0.0.1/32'' acl)) = ActionAllow"
proof -
  obtain acl where acl: "New_acl example_acl 0 = Some acl" using example_acl_new by blast
  let ?acl = "snd (RemoveWhitelist ''10.0.0.1/32'' acl)"
  have reach: "acl_reach ?acl" by (intro acl_unwhite acl_new [OF acl])
  have "ListRules ''blacklist'' ?acl = [new_rule ''bl'' ''manual'' 2 ''10.0.0.0/8'' [] None 0]" "ListRules ''whitelist'' ?acl = []"
    using acl by (auto simp: ListRules_def New_acl_def example_acl_def AddWhitelist_def AddBlacklist_def RemoveWhitelist_def
        rebuildWhitelist_def Let_def split_beta cidr.add_valid valid_cidr_def net_eval)
  moreover have "\<not> cidr_covers ''10.0.0.0/8'' ''192.0.2.1''"
    by (simp add: cidr_covers_net mapped_net_def net_eval)
  ultimately have "Check ''192.0.2.1'' ?acl = ActionAllow"
    unfolding IPAccessList_Check_rules [OF reach] by (simp add: new_rule_def)
  with acl show ?thesis by blast
qed

text \<open>An automatic ban of an IPv4 address blocks that address and changes the decision for no other one.\<close>

lemma Ban_ipv4:
  assumes "acl_inv acl" "ab_Enabled (acl_autoBan acl)" "CHR ''/'' \<notin> set s" "ParseAddr s = Some (Addr4 bs)" "ParseIP t = Some b"
  shows "Check t (snd (Ban s ttl reason now acl)) =
    (if b = v4InV6Prefix @ map of_nat bs \<and> Check t acl = ActionAllow then ActionBlock else Check t acl)"
proof -
  have "valid_cidr (s @ ''/32'')" using ParseCIDR_32 [OF assms(4) _ assms(3)] by (simp add: valid_cidr_def)
  note ban = Ban_step [OF assms(2) this]
  show ?thesis
    using ban_covers4 [OF assms(4,3,5)]
    unfolding Check_rules [OF assms(1)] Check_rules [OF acl_inv_adds(3) [OF assms(1)]] ban by auto
qed

text \<open>
  An automatic ban of an IPv6 address blocks a whole allocation: \<^verbatim>\<open>Ban\<close> appends \<^verbatim>\<open>/32\<close> to the address
  whatever its family, so every IPv6 address that shares the first four bytes with the banned one is
  blocked too, unless the white list lets it through.
\<close>

theorem IPAccessList_Ban_ipv6:
  assumes "acl_reach acl" "ab_Enabled (acl_autoBan acl)" "CHR ''/'' \<notin> set s" "ParseAddr s = Some (Addr6 bs [])"
    and "ParseIP t = Some b" "To4 b = None" "take 4 b = take 4 (map of_nat bs)"
  shows "Check t (snd (Ban s ttl reason now acl)) = (if Check t acl = ActionBypass then ActionBypass else ActionBlock)"
proof -
  note inv = acl_reach_inv [OF assms(1)]
  have "valid_cidr (s @ ''/32'')" using ParseCIDR_32 [OF assms(4) _ assms(3)] by (simp add: valid_cidr_def)
  note ban = Ban_step [OF assms(2) this]
  have "cidr_covers (s @ ''/32'') t" using ban_covers6 [OF _ assms(3,5,6)] assms(4,7) by simp
  then show ?thesis
    unfolding Check_rules [OF inv] Check_rules [OF acl_inv_adds(3) [OF inv]] ban by auto
qed

theorem IPAccessList_Ban_ipv6_witness:
  "\<exists>acl. New_acl example_acl 0 = Some acl \<and> Check ''2001:db8:ffff::7'' (snd (Ban ''2001:db8::1'' 60 [] 5 acl)) = ActionBlock"
proof -
  obtain acl where acl: "New_acl example_acl 0 = Some acl" "ab_Enabled (acl_autoBan acl)"
    "fst ` set (acl_whiteMeta acl) = {''10.0.0.1/32''}" using example_acl_new by blast
  have reach: "acl_reach acl" by (rule acl_new [OF acl(1)])
  have s: "ParseAddr ''2001:db8::1'' = Some (Addr6 [0x20, 1, 0xd, 0xb8, 0, 0, 0, 0, 0, 0, 0, 0, 0, 0, 0, 1] [])"
    by (simp add: net_eval)
  have t: "ParseIP ''2001:db8:ffff::7'' = Some [0x20, 1, 0xd, 0xb8, 0xff, 0xff, 0, 0, 0, 0, 0, 0, 0, 0, 0, 7]"
    by (simp add: net_eval)
  have "\<not> cidr_covers ''10.0.0.1/32'' ''2001:db8:ffff::7''"
    by (simp add: cidr_covers_net mapped_net_def net_eval)
  then have "Check ''2001:db8:ffff::7'' acl \<noteq> ActionBypass"
    unfolding Check_rules [OF acl_reach_inv [OF reach]] acl(3) by simp
  moreover have "Check ''2001:db8:ffff::7'' (snd (Ban ''2001:db8::1'' 60 [] 5 acl)) =
      (if Check ''2001:db8:ffff::7'' acl = ActionBypass then ActionBypass else ActionBlock)"
    by (rule IPAccessList_Ban_ipv6 [OF reach acl(2) _ s t]) (simp_all add: To4_def v4InV6Prefix_def)
  ultimately show ?thesis using acl(1) by auto
qed

end
