(* ===== verification/Go_Strings.thy ===== *)
theory Go_Strings
  imports Http
begin

text \<open>
  The functions of the packages \<^verbatim>\<open>strings\<close>, \<^verbatim>\<open>strconv\<close> and \<^verbatim>\<open>path\<close> that several components call. A string
  is its bytes. Lower case is that of ASCII.
\<close>

section \<open>Prefixes, suffixes and parts\<close>

definition HasPrefix :: "string \<Rightarrow> string \<Rightarrow> bool" where
  "HasPrefix s p = (take (length p) s = p)"

definition HasSuffix :: "string \<Rightarrow> string \<Rightarrow> bool" where
  "HasSuffix s suf = (length suf \<le> length s \<and> drop (length s - length suf) s = suf)"

text \<open>\<^verbatim>\<open>strings.Contains\<close> and \<^verbatim>\<open>strings.ReplaceAll\<close>.\<close>

fun has_infix :: "string \<Rightarrow> string \<Rightarrow> bool" where
  "has_infix p [] = (p = [])"
| "has_infix p (c # s) = (HasPrefix (c # s) p \<or> has_infix p s)"

function replace_all :: "string \<Rightarrow> string \<Rightarrow> string \<Rightarrow> string" where
  "replace_all old new s =
     (if old = [] \<or> s = [] then s
      else if HasPrefix s old then new @ replace_all old new (drop (length old) s)
      else hd s # replace_all old new (tl s))"
  by auto
termination
  by (relation "measure (\<lambda>(old, new, s). length s)") (auto simp: diff_less)

declare replace_all.simps [simp del]

text \<open>
  \<^verbatim>\<open>strings.NewReplacer(...).Replace\<close>: at each position the first pair whose old string is found there is
  used, without looking at the result again.
\<close>

function Replacer_Replace :: "(string \<times> string) list \<Rightarrow> string \<Rightarrow> string" where
  "Replacer_Replace table s =
     (if s = [] then []
      else case find (\<lambda>(old, new). old \<noteq> [] \<and> HasPrefix s old) table of
        Some (old, new) \<Rightarrow> new @ Replacer_Replace table (drop (length old) s)
      | None \<Rightarrow> hd s # Replacer_Replace table (tl s))"
  by auto
termination
  by (relation "measure (\<lambda>(table, s). length s)") (auto simp: find_Some_iff)

declare Replacer_Replace.simps [simp del]

section \<open>Numbers\<close>

text \<open>\<^verbatim>\<open>strconv.Atoi\<close> and \<^verbatim>\<open>strconv.ParseInt(s, 10, 64)\<close>: an optional sign and decimal digits, within 64 bits.\<close>

definition Atoi :: "string \<Rightarrow> int option" where
  "Atoi s =
     (let neg = (s \<noteq> [] \<and> hd s = CHR ''-'');
          digits = (if s \<noteq> [] \<and> hd s \<in> {CHR ''-'', CHR ''+''} then tl s else s)
      in if digits = [] \<or> \<not> list_all is_digit digits then None
         else let v = int (foldl (\<lambda>v c. 10 * v + (of_char c - 48)) (0::nat) digits); i = (if neg then - v else v)
              in if - (2 ^ 63) \<le> i \<and> i < 2 ^ 63 then Some i else None)"

section \<open>Paths\<close>

text \<open>
  \<^verbatim>\<open>path.Clean\<close>: the path is read segment by segment; empty segments and dots are left out, two dots remove
  the segment before them, and are kept at the front of a path that does not start with a slash.
\<close>

definition clean_step :: "bool \<Rightarrow> string list \<Rightarrow> string \<Rightarrow> string list" where
  "clean_step rooted out seg =
     (if seg = [] \<or> seg = ''.'' then out
      else if seg = ''..'' then
        (if out \<noteq> [] \<and> hd out \<noteq> ''..'' then tl out
         else if rooted then out else ''..'' # out)
      else seg # out)"

definition Clean :: "string \<Rightarrow> string" where
  "Clean p =
     (let rooted = (p \<noteq> [] \<and> hd p = CHR ''/'');
          segs = rev (foldl (clean_step rooted) [] (split_on CHR ''/'' p))
      in if rooted then CHR ''/'' # join_with CHR ''/'' segs
         else if segs = [] then ''.'' else join_with CHR ''/'' segs)"

lemma clean_fold:
  assumes "set out \<inter> {[], ''.'', ''..''} = {}"
  shows "set (foldl (clean_step True) out segs) \<inter> {[], ''.'', ''..''} = {}"
    "set (foldl (clean_step True) out segs) \<subseteq> set out \<union> set segs"
proof -
  have "set (foldl (clean_step True) out segs) \<inter> {[], ''.'', ''..''} = {} \<and> set (foldl (clean_step True) out segs) \<subseteq> set out \<union> set segs"
    using assms
  proof (induction segs arbitrary: out)
    case (Cons seg segs)
    have "set (clean_step True out seg) \<inter> {[], ''.'', ''..''} = {} \<and> set (clean_step True out seg) \<subseteq> insert seg (set out)"
      using Cons.prems by (cases out) (auto simp: clean_step_def)
    with Cons.IH [of "clean_step True out seg"] show ?case by auto
  qed simp
  then show "set (foldl (clean_step True) out segs) \<inter> {[], ''.'', ''..''} = {}"
    "set (foldl (clean_step True) out segs) \<subseteq> set out \<union> set segs" by simp_all
qed

end
