(* ===== verification/Client_Ip.thy ===== *)
theory Client_Ip
  imports Cidr Go_Strings
begin

text \<open>
  Who the client of a request is and whether it may pass: the real IP middlewares
  (\<^verbatim>\<open>internal/middleware/real_ip.go\<close> and \<^verbatim>\<open>internal/middleware/realip/realip.go\<close>) and the IP filter
  (\<^verbatim>\<open>internal/middleware/ip_filter.go\<close>). The properties say when a header that the client controls
  decides, and which entry of the allow and deny lists does.
\<close>

section \<open>Headers\<close>

definition Header_Set :: "string \<Rightarrow> string \<Rightarrow> Request \<Rightarrow> Request" where
  "Header_Set key v r = r\<lparr>req_Header := AList.update (CanonicalMIMEHeaderKey key) [v] (req_Header r)\<rparr>"

definition Header_Del :: "string \<Rightarrow> Request \<Rightarrow> Request" where
  "Header_Del key r = r\<lparr>req_Header := AList.delete (CanonicalMIMEHeaderKey key) (req_Header r)\<rparr>"

section \<open>Real IP by the rightmost untrusted hop\<close>

record RealIPConfig =
  ric_TrustedProxies :: "string list"
  ric_Header :: string
  ric_RealIPHeader :: string

record RealIPMiddleware =
  rim_config :: RealIPConfig
  rim_trusted :: CIDRMatcher

fun add_trusted :: "string list \<Rightarrow> CIDRMatcher \<Rightarrow> string + CIDRMatcher" where
  "add_trusted [] m = Inr m"
| "add_trusted (c # cs) m = (let (ok, m') = CIDRMatcher_Add c m in if ok then add_trusted cs m' else Inl c)"

definition NewRealIPMiddleware :: "RealIPConfig \<Rightarrow> string + RealIPMiddleware" where
  "NewRealIPMiddleware config =
     (let c1 = (if ric_Header config = '''' then config\<lparr>ric_Header := ''X-Forwarded-For''\<rparr> else config);
          c2 = (if ric_RealIPHeader c1 = '''' then c1\<lparr>ric_RealIPHeader := ''X-Real-Ip''\<rparr> else c1)
      in case add_trusted (ric_TrustedProxies c2) NewCIDRMatcher of
           Inl c \<Rightarrow> Inl c
         | Inr m \<Rightarrow> Inr \<lparr> rim_config = c2, rim_trusted = m \<rparr>)"

definition parseXForwardedFor :: "string \<Rightarrow> string list" where
  "parseXForwardedFor v = (if v = '''' then [] else filter (\<lambda>ip. ip \<noteq> '''') (map TrimSpace (split_on CHR '','' v)))"

definition RealIP_extractClientIP :: "RealIPMiddleware \<Rightarrow> Request \<Rightarrow> string" where
  "RealIP_extractClientIP m r =
     (let remoteIP = ExtractIP (req_RemoteAddr r)
      in if CIDRMatcher_Len (rim_trusted m) = 0 \<or> \<not> CIDRMatcher_Contains remoteIP (rim_trusted m) then remoteIP
         else
           (let forwardedFor = Header_Get r (ric_Header (rim_config m));
                ips = parseXForwardedFor forwardedFor;
                realIP = Header_Get r (ric_RealIPHeader (rim_config m));
                fallback = (if realIP \<noteq> '''' then TrimSpace realIP else remoteIP)
            in if forwardedFor = '''' then fallback
               else case find (\<lambda>ip. \<not> CIDRMatcher_Contains (TrimSpace ip) (rim_trusted m)) (rev ips) of
                      Some ip \<Rightarrow> TrimSpace ip
                    | None \<Rightarrow> if ips \<noteq> [] then TrimSpace (hd ips) else fallback))"

section \<open>Real IP by a list of headers\<close>

record RealipConfig =
  rc_Enabled :: bool
  rc_Headers :: "string list"
  rc_TrustedProxies :: "string list"
  rc_RejectUntrusted :: bool
  rc_DefaultTrusted :: "string list"

record Realip =
  rp_config :: RealipConfig
  rp_trustedNets :: "IPNet list"

definition private_ranges :: "string list" where
  "private_ranges = [''10.0.0.0/8'', ''172.16.0.0/12'', ''192.168.0.0/16'', ''127.0.0.0/8'', ''fc00::/7'', ''::1/128'']"

definition Realip_DefaultConfig :: RealipConfig where
  "Realip_DefaultConfig =
     \<lparr> rc_Enabled = False,
       rc_Headers = [''CF-Connecting-IP'', ''X-Real-IP'', ''X-Forwarded-For'', ''X-Original-Forwarded-For'', ''True-Client-IP'',
                     ''X-Client-IP'', ''X-Forwarded'', ''Forwarded-For''],
       rc_TrustedProxies = [], rc_RejectUntrusted = False, rc_DefaultTrusted = private_ranges \<rparr>"

definition parsed_nets :: "string list \<Rightarrow> IPNet list" where
  "parsed_nets cs = List.map_filter (\<lambda>c. map_option snd (ParseCIDR c)) cs"

definition Realip_New :: "RealipConfig \<Rightarrow> Realip" where
  "Realip_New config =
     (let dflt = (if rc_TrustedProxies config = [] \<and> rc_DefaultTrusted config = [] then private_ranges else rc_DefaultTrusted config)
      in \<lparr> rp_config = config,
           rp_trustedNets = parsed_nets (if rc_TrustedProxies config = [] then dflt else rc_TrustedProxies config) \<rparr>)"

definition remote_host :: "string \<Rightarrow> string" where
  "remote_host addr = (case SplitHostPort addr of Some (host, _) \<Rightarrow> host | None \<Rightarrow> addr)"

definition Realip_isTrustedProxy :: "Realip \<Rightarrow> string \<Rightarrow> bool" where
  "Realip_isTrustedProxy m remoteAddr =
     (case ParseIP (remote_host remoteAddr) of
        None \<Rightarrow> False
      | Some ip \<Rightarrow> \<exists>n \<in> set (rp_trustedNets m). IPNet_Contains n ip)"

text \<open>\<^verbatim>\<open>strings.Trim\<close> with the cutset of one quote.\<close>

definition trim_quotes :: "string \<Rightarrow> string" where
  "trim_quotes s = rev (dropWhile (\<lambda>c. c = CHR 0x22) (rev (dropWhile (\<lambda>c. c = CHR 0x22) s)))"

definition forwarded_part :: "string \<Rightarrow> string option" where
  "forwarded_part part0 =
     (let part = TrimSpace part0
      in if \<not> HasPrefix part ''for='' then None
         else let ip1 = trim_quotes (drop 4 part);
                  ip2 = (if HasPrefix ip1 ''['' then
                           (case last_index CHR '']'' ip1 of None \<Rightarrow> ip1 | Some idx \<Rightarrow> take (idx - 1) (drop 1 ip1))
                         else ip1)
              in if ParseIP ip2 \<noteq> None then Some ip2 else None)"

definition parseForwardedHeader :: "string \<Rightarrow> string" where
  "parseForwardedHeader v = (case find_map forwarded_part (split_on CHR '';'' v) of Some ip \<Rightarrow> ip | None \<Rightarrow> '''')"

definition header_ip :: "Request \<Rightarrow> string \<Rightarrow> string option" where
  "header_ip r header =
     (let v = Header_Get r header
      in if v = '''' then None
         else if header = ''X-Forwarded-For'' \<or> header = ''X-Original-Forwarded-For'' then
           find (\<lambda>ip. ParseIP ip \<noteq> None) (map TrimSpace (split_on CHR '','' v))
         else if header = ''Forwarded'' then
           (let ip = parseForwardedHeader v in if ip \<noteq> '''' then Some ip else None)
         else (let ip = TrimSpace v in if ParseIP ip \<noteq> None then Some ip else None))"

definition extractRealIP :: "Realip \<Rightarrow> Request \<Rightarrow> string" where
  "extractRealIP m r = (case find_map (header_ip r) (rc_Headers (rp_config m)) of Some ip \<Rightarrow> ip | None \<Rightarrow> '''')"

text \<open>The request that reaches the next handler, or \<open>None\<close> when the peer is refused.\<close>

definition Realip_Wrap :: "Realip \<Rightarrow> Request \<Rightarrow> Request option" where
  "Realip_Wrap m r =
     (if \<not> rc_Enabled (rp_config m) then Some r
      else let trusted = Realip_isTrustedProxy m (req_RemoteAddr r)
           in if \<not> trusted \<and> rc_RejectUntrusted (rp_config m) then None
              else if trusted then
                (let realIP = extractRealIP m r
                 in if realIP = '''' then Some r
                    else Some (Header_Set ''X-Real-IP'' realIP
                      (r\<lparr>req_RemoteAddr := (case SplitHostPort (req_RemoteAddr r) of
                           Some (_, port) \<Rightarrow> JoinHostPort realIP port | None \<Rightarrow> realIP)\<rparr>)))
              else Some (Header_Set ''X-Real-IP'' (remote_host (req_RemoteAddr r))
                     (fold Header_Del (rc_Headers (rp_config m)) r)))"

section \<open>The IP filter\<close>

record IPFilterConfig =
  fc_AllowList :: "string list"
  fc_DenyList :: "string list"
  fc_DefaultAction :: string
  fc_TrustXForwardedFor :: bool

definition DefaultIPFilterConfig :: IPFilterConfig where
  "DefaultIPFilterConfig = \<lparr> fc_AllowList = [], fc_DenyList = [], fc_DefaultAction = ''allow'', fc_TrustXForwardedFor = False \<rparr>"

record IPFilterMiddleware =
  if_config :: IPFilterConfig
  if_allowMatcher :: CIDRMatcher
  if_denyMatcher :: CIDRMatcher
  if_allowIPs :: "string list"
  if_denyIPs :: "string list"
  if_hasAllow :: bool
  if_hasDeny :: bool

definition isCIDR :: "string \<Rightarrow> bool" where
  "isCIDR s = (CHR ''/'' \<in> set s)"

text \<open>One list of entries: the matcher and the set of single addresses, or the entry that is malformed.\<close>

fun build_list :: "string list \<Rightarrow> CIDRMatcher \<times> string list \<Rightarrow> string + CIDRMatcher \<times> string list" where
  "build_list [] acc = Inr acc"
| "build_list (e # es) acc =
     (let entry = TrimSpace e; (m, ips) = acc
      in if entry = '''' then build_list es acc
         else if isCIDR entry then
           (let (ok, m') = CIDRMatcher_Add entry m in if ok then build_list es (m', ips) else Inl entry)
         else case ParseIP entry of
                None \<Rightarrow> Inl entry
              | Some ip \<Rightarrow> build_list es (m, IP_String ip # ips))"

definition buildMatchers :: "string list \<Rightarrow> string list \<Rightarrow> IPFilterMiddleware \<Rightarrow> string + IPFilterMiddleware" where
  "buildMatchers allowList denyList m =
     (case build_list allowList (NewCIDRMatcher, []) of
        Inl e \<Rightarrow> Inl e
      | Inr (am, ai) \<Rightarrow>
          (case build_list denyList (NewCIDRMatcher, []) of
             Inl e \<Rightarrow> Inl e
           | Inr (dm, di) \<Rightarrow>
               Inr (m\<lparr>if_allowMatcher := am, if_denyMatcher := dm, if_allowIPs := ai, if_denyIPs := di,
                      if_hasAllow := allowList \<noteq> [], if_hasDeny := denyList \<noteq> []\<rparr>)))"

definition NewIPFilterMiddleware :: "IPFilterConfig \<Rightarrow> string + IPFilterMiddleware" where
  "NewIPFilterMiddleware config =
     (let action = map to_lower (if fc_DefaultAction config = '''' then ''allow'' else fc_DefaultAction config);
          config' = config\<lparr>fc_DefaultAction := action\<rparr>
      in if action \<noteq> ''allow'' \<and> action \<noteq> ''deny'' then Inl action
         else buildMatchers (fc_AllowList config') (fc_DenyList config')
                \<lparr> if_config = config', if_allowMatcher = NewCIDRMatcher, if_denyMatcher = NewCIDRMatcher, if_allowIPs = [],
                  if_denyIPs = [], if_hasAllow = False, if_hasDeny = False \<rparr>)"

definition IPFilter_extractClientIP :: "IPFilterMiddleware \<Rightarrow> Request \<Rightarrow> string" where
  "IPFilter_extractClientIP m r =
     (let peerIP = ExtractIP (req_RemoteAddr r);
          trustedPeer = (case ParseIP peerIP of None \<Rightarrow> False | Some p \<Rightarrow> IsPrivate p \<or> IsLoopback p);
          xff = Header_Get r ''X-Forwarded-For'';
          ip = TrimSpace (hd (split_on CHR '','' xff))
      in if fc_TrustXForwardedFor (if_config m) \<and> trustedPeer \<and> xff \<noteq> '''' \<and> ip \<noteq> '''' then ip else peerIP)"

definition isAllowed :: "IPFilterMiddleware \<Rightarrow> string \<Rightarrow> bool" where
  "isAllowed m ip =
     (case ParseIP ip of
        None \<Rightarrow> fc_DefaultAction (if_config m) = ''allow''
      | Some parsedIP \<Rightarrow>
          (let normalizedIP = IP_String parsedIP
           in if if_hasDeny m \<and> (normalizedIP \<in> set (if_denyIPs m) \<or> CIDRMatcher_Contains normalizedIP (if_denyMatcher m)) then False
              else if if_hasAllow m then normalizedIP \<in> set (if_allowIPs m) \<or> CIDRMatcher_Contains normalizedIP (if_allowMatcher m)
              else fc_DefaultAction (if_config m) = ''allow''))"

text \<open>Whether the next handler is called.\<close>

definition IPFilter_Wrap :: "IPFilterMiddleware \<Rightarrow> Request \<Rightarrow> bool" where
  "IPFilter_Wrap m r = isAllowed m (IPFilter_extractClientIP m r)"

definition UpdateLists :: "string list \<Rightarrow> string list \<Rightarrow> IPFilterMiddleware \<Rightarrow> string option \<times> IPFilterMiddleware" where
  "UpdateLists allowList denyList m =
     (case buildMatchers allowList denyList m of
        Inl e \<Rightarrow> (Some e, m)
      | Inr m' \<Rightarrow> (None, m'\<lparr>if_config := (if_config m')\<lparr>fc_AllowList := allowList, fc_DenyList := denyList\<rparr>\<rparr>))"

section \<open>Properties of the real IP middlewares\<close>

lemma parseXForwardedFor_append:
  "v \<noteq> [] \<Longrightarrow> parseXForwardedFor (p @ CHR '','' # v) = filter (\<lambda>ip. ip \<noteq> []) (map TrimSpace (split_on CHR '','' p)) @ parseXForwardedFor v"
  by (simp add: parseXForwardedFor_def split_on_append)

lemma find_append: "find P xs = Some y \<Longrightarrow> find P (xs @ ys) = Some y"
  by (induction xs) auto

text \<open>
  C22. A client cannot forge its address past a trusted proxy: whatever it puts into the forwarding header
  before the entries that the proxies append, the extracted address is the one the appended entries
  alone determine, as soon as one of them is not itself a trusted proxy. A peer that is not a trusted proxy
  decides nothing with headers at all.
\<close>

theorem RealIP_spoof_resistant:
  assumes "req_RemoteAddr r = req_RemoteAddr r'"
    and "Header_Get r (ric_Header (rim_config m)) = forged @ CHR '','' # v" "Header_Get r' (ric_Header (rim_config m)) = v"
    and "\<exists>ip \<in> set (parseXForwardedFor v). \<not> CIDRMatcher_Contains (TrimSpace ip) (rim_trusted m)"
  shows "RealIP_extractClientIP m r = RealIP_extractClientIP m r' \<and>
    (CIDRMatcher_Contains (ExtractIP (req_RemoteAddr r)) (rim_trusted m) \<or>
     RealIP_extractClientIP m r = ExtractIP (req_RemoteAddr r))"
proof -
  let ?P = "\<lambda>ip. \<not> CIDRMatcher_Contains (TrimSpace ip) (rim_trusted m)"
  have v: "v \<noteq> []" using assms(4) by (auto simp: parseXForwardedFor_def)
  obtain ip where ip: "find ?P (rev (parseXForwardedFor v)) = Some ip"
    using assms(4) by (cases "find ?P (rev (parseXForwardedFor v))") (auto simp: find_None_iff)
  then have "find ?P (rev (parseXForwardedFor (forged @ CHR '','' # v))) = Some ip"
    by (simp add: parseXForwardedFor_append [OF v] find_append)
  with ip v assms(1-3) show ?thesis by (simp add: RealIP_extractClientIP_def Let_def)
qed

lemma untouched_header:
  "k \<noteq> CanonicalMIMEHeaderKey h \<Longrightarrow> map_of (req_Header (Header_Set h v r)) k = map_of (req_Header r) k"
  "map_of (req_Header (Header_Del h r)) k = (if k = CanonicalMIMEHeaderKey h then None else map_of (req_Header r) k)"
  by (simp_all add: Header_Set_def Header_Del_def gomap)

lemma deleted_headers:
  "map_of (req_Header (fold Header_Del hs r)) k = (if k \<in> CanonicalMIMEHeaderKey ` set hs then None else map_of (req_Header r) k)"
  by (induction hs arbitrary: r) (auto simp: untouched_header)

lemma fold_Header_Del_addr [simp]: "req_RemoteAddr (fold Header_Del hs r) = req_RemoteAddr r"
  by (induction hs arbitrary: r) (simp_all add: Header_Del_def)

text \<open>
  Of a peer that is not in a trusted network no forwarding header reaches the next handler: the request
  keeps its peer address, every configured header other than \<^verbatim>\<open>X-Real-IP\<close> is gone, and \<^verbatim>\<open>X-Real-IP\<close> names the peer.
\<close>

theorem Realip_untrusted_neutralised:
  assumes "rc_Enabled (rp_config m)" "\<not> Realip_isTrustedProxy m (req_RemoteAddr r)" "Realip_Wrap m r = Some r'"
  shows "req_RemoteAddr r' = req_RemoteAddr r \<and> Header_Get r' ''X-Real-IP'' = remote_host (req_RemoteAddr r) \<and>
    (\<forall>h \<in> set (rc_Headers (rp_config m)). CanonicalMIMEHeaderKey h = ''X-Real-Ip'' \<or> Header_Get r' h = '''')"
proof -
  have r': "r' = Header_Set ''X-Real-IP'' (remote_host (req_RemoteAddr r)) (fold Header_Del (rc_Headers (rp_config m)) r)"
    using assms by (simp add: Realip_Wrap_def Let_def split: if_splits)
  have canon: "CanonicalMIMEHeaderKey ''X-Real-IP'' = ''X-Real-Ip''" by code_simp
  have "Header_Get r' h = ''''" if "h \<in> set (rc_Headers (rp_config m))" "CanonicalMIMEHeaderKey h \<noteq> ''X-Real-Ip''" for h
    using that unfolding r' by (simp add: Header_Get_def first_value_def untouched_header canon deleted_headers)
  moreover have "Header_Get r' ''X-Real-IP'' = remote_host (req_RemoteAddr r)"
    unfolding r' by (simp add: Header_Get_def first_value_def Header_Set_def gomap)
  ultimately show ?thesis unfolding r' by (auto simp: Header_Set_def)
qed


section \<open>Properties of the IP filter\<close>

text \<open>An entry of a list covers an address: as a network or as that address, however it is written.\<close>

definition filter_entry :: "string \<Rightarrow> IP \<Rightarrow> bool" where
  "filter_entry e a =
     (let t = TrimSpace e
      in t \<noteq> [] \<and> (if isCIDR t then cidr_covers t (IP_String a) else ParseIP t = Some a))"

lemma IP_String_inject: "length a = 16 \<Longrightarrow> length b = 16 \<Longrightarrow> IP_String a = IP_String b \<longleftrightarrow> a = b"
  using ParseIP_String by (metis option.inject)

lemma build_list_covers:
  "build_list es (m, ips) = Inr (m', ips') \<Longrightarrow> length a = 16 \<Longrightarrow>
   IP_String a \<in> set ips' \<or> CIDRMatcher_Contains (IP_String a) m' \<longleftrightarrow>
     (\<exists>e \<in> set es. filter_entry e a) \<or> IP_String a \<in> set ips \<or> CIDRMatcher_Contains (IP_String a) m"
proof (induction es arbitrary: m ips)
  case (Cons e es)
  let ?t = "TrimSpace e"
  consider (blank) "?t = []" | (net) "?t \<noteq> []" "isCIDR ?t" | (addr) "?t \<noteq> []" "\<not> isCIDR ?t" by blast
  then show ?case
  proof cases
    case blank
    with Cons show ?thesis by (simp add: filter_entry_def)
  next
    case net
    then have "build_list es (snd (CIDRMatcher_Add ?t m), ips) = Inr (m', ips')"
      using Cons.prems(1) by (simp add: Let_def split_beta split: if_splits)
    from Cons.IH [OF this Cons.prems(2)] net show ?thesis by (auto simp: filter_entry_def cidr.member_add)
  next
    case addr
    then obtain ip where ip: "ParseIP ?t = Some ip" "build_list es (m, IP_String ip # ips) = Inr (m', ips')"
      using Cons.prems(1) by (auto simp: Let_def split: option.splits)
    from Cons.IH [OF ip(2) Cons.prems(2)] addr ip(1) show ?thesis
      using IP_String_inject [OF Cons.prems(2) ParseIP_length [OF ip(1)]] by (auto simp: filter_entry_def)
  qed
qed simp

lemma filter_built:
  assumes "buildMatchers al dl m0 = Inr m" "ParseIP ip = Some a"
  shows "isAllowed m ip \<longleftrightarrow>
    \<not> (\<exists>e \<in> set dl. filter_entry e a) \<and> (if al = [] then fc_DefaultAction (if_config m0) = ''allow'' else \<exists>e \<in> set al. filter_entry e a)"
proof -
  obtain am ai dm di where b: "build_list al (NewCIDRMatcher, []) = Inr (am, ai)" "build_list dl (NewCIDRMatcher, []) = Inr (dm, di)"
    and m: "m = m0\<lparr>if_allowMatcher := am, if_denyMatcher := dm, if_allowIPs := ai, if_denyIPs := di,
                   if_hasAllow := al \<noteq> [], if_hasDeny := dl \<noteq> []\<rparr>"
    using assms(1) by (auto simp: buildMatchers_def split: sum.splits)
  note len = ParseIP_length [OF assms(2)]
  have "IP_String a \<in> set ai \<or> CIDRMatcher_Contains (IP_String a) am \<longleftrightarrow> (\<exists>e \<in> set al. filter_entry e a)"
    "IP_String a \<in> set di \<or> CIDRMatcher_Contains (IP_String a) dm \<longleftrightarrow> (\<exists>e \<in> set dl. filter_entry e a)"
    using build_list_covers [OF b(1) len] build_list_covers [OF b(2) len] by (simp_all add: cidr.member_none)
  then show ?thesis using assms(2) by (auto simp: isAllowed_def Let_def m)
qed

text \<open>
  The IP filter decides for every parsable client address by the lists it was built from: an address that
  an entry of the deny list covers is refused, with a non-empty allow list only covered addresses
  pass, otherwise the default action holds; spelling variants of an address are the same address.
\<close>

theorem IPFilter_decides:
  assumes "NewIPFilterMiddleware cfg = Inr m" "ParseIP ip = Some a"
  shows "isAllowed m ip \<longleftrightarrow>
    \<not> (\<exists>e \<in> set (fc_DenyList cfg). filter_entry e a) \<and>
    (if fc_AllowList cfg = [] then fc_DefaultAction (if_config m) = ''allow'' else \<exists>e \<in> set (fc_AllowList cfg). filter_entry e a)"
proof -
  obtain m0 where m0: "buildMatchers (fc_AllowList cfg) (fc_DenyList cfg) m0 = Inr m"
    using assms(1) by (auto simp: NewIPFilterMiddleware_def Let_def split: if_splits)
  then have "if_config m = if_config m0" by (auto simp: buildMatchers_def split: sum.splits)
  with filter_built [OF m0 assms(2)] show ?thesis by simp
qed

definition example_filter :: IPFilterConfig where
  "example_filter = \<lparr> fc_AllowList = [''10.0.0.0/8''], fc_DenyList = [''::ffff:10.1.1.1''], fc_DefaultAction = [], fc_TrustXForwardedFor = True \<rparr>"

lemma TrimSpace_example: "TrimSpace ''10.0.0.0/8'' = ''10.0.0.0/8''" "TrimSpace ''::ffff:10.1.1.1'' = ''::ffff:10.1.1.1''"
  "TrimSpace ''unknown'' = ''unknown''"
  by (rule TrimSpace_visible; simp add: visible_def)+

lemma to_lower_allow: "map to_lower ''allow'' = ''allow''"
  by code_simp

lemma example_filter_new: "\<exists>m. NewIPFilterMiddleware example_filter = Inr m \<and> fc_DefaultAction (if_config m) = ''allow'' \<and>
    fc_TrustXForwardedFor (if_config m)"
  by (simp add: NewIPFilterMiddleware_def example_filter_def buildMatchers_def TrimSpace_example isCIDR_def split_beta
      cidr.add_valid valid_cidr_def net_eval to_lower_def is_upper_def)

theorem IPFilter_decides_witness:
  "\<exists>m. NewIPFilterMiddleware example_filter = Inr m \<and> isAllowed m ''10.2.0.1'' \<and> \<not> isAllowed m ''10.1.1.1''"
proof -
  obtain m where m: "NewIPFilterMiddleware example_filter = Inr m" using example_filter_new by blast
  have a: "ParseIP ''10.2.0.1'' = Some [0,0,0,0,0,0,0,0,0,0,255,255,10,2,0,1]" by (simp add: net_eval)
  have b: "ParseIP ''10.1.1.1'' = Some [0,0,0,0,0,0,0,0,0,0,255,255,10,1,1,1]" by (simp add: net_eval)
  have net: "cidr_covers ''10.0.0.0/8'' (IP_String [0,0,0,0,0,0,0,0,0,0,255,255,10,2,0,1])"
    using cidr_covers_net [OF _ ParseIP_String [of "[0,0,0,0,0,0,0,0,0,0,255,255,10,2,0,1]"], of "''10.0.0.0/8''"]
    by (simp add: net_eval mapped_net_def)
  have "isAllowed m ''10.2.0.1''"
    unfolding IPFilter_decides [OF m a] using net
    by (simp add: example_filter_def filter_entry_def TrimSpace_example isCIDR_def net_eval)
  moreover have "\<not> isAllowed m ''10.1.1.1''"
    unfolding IPFilter_decides [OF m b]
    by (simp add: example_filter_def filter_entry_def TrimSpace_example isCIDR_def net_eval)
  ultimately show ?thesis using m by blast
qed

text \<open>
  Both lists of the IP filter can be passed with a header: when the forwarding header is trusted and the
  default action is to allow, a first entry that is no IP address lets any request through, whatever
  the allow and deny lists say.
\<close>

theorem IPFilter_unparsable_passes:
  assumes "NewIPFilterMiddleware cfg = Inr m" "fc_DefaultAction (if_config m) = ''allow''" "fc_TrustXForwardedFor cfg"
    and "ParseIP (ExtractIP (req_RemoteAddr r)) = Some p" "IsLoopback p \<or> IsPrivate p"
    and "TrimSpace (hd (split_on CHR '','' (Header_Get r ''X-Forwarded-For''))) = bad" "bad \<noteq> []" "ParseIP bad = None"
  shows "IPFilter_Wrap m r"
proof -
  have t: "fc_TrustXForwardedFor (if_config m)"
    using assms(1,3) by (auto simp: NewIPFilterMiddleware_def buildMatchers_def Let_def split: sum.splits if_splits)
  have "Header_Get r ''X-Forwarded-For'' \<noteq> []" using assms(6,7) by auto
  then have "IPFilter_extractClientIP m r = bad"
    using t assms(4-7) by (auto simp: IPFilter_extractClientIP_def Let_def)
  then show ?thesis using assms(2,8) by (simp add: IPFilter_Wrap_def isAllowed_def)
qed

theorem IPFilter_unparsable_passes_witness:
  "\<exists>m. NewIPFilterMiddleware example_filter = Inr m \<and>
     IPFilter_Wrap m \<lparr> req_Method = ''GET'', req_Host = [], req_URL_Host = [], req_URL_Path = ''/'',
       req_Header = [(''X-Forwarded-For'', [''unknown''])], req_Cookies = [], req_Query = [], req_RemoteAddr = ''127.0.0.1:80'' \<rparr>"
proof -
  let ?r = "\<lparr> req_Method = ''GET'', req_Host = [], req_URL_Host = [], req_URL_Path = ''/'',
       req_Header = [(''X-Forwarded-For'', [''unknown''])], req_Cookies = [], req_Query = [], req_RemoteAddr = ''127.0.0.1:80'' \<rparr>"
  obtain m where m: "NewIPFilterMiddleware example_filter = Inr m" "fc_DefaultAction (if_config m) = ''allow''"
    using example_filter_new by blast
  have canon: "CanonicalMIMEHeaderKey ''X-Forwarded-For'' = ''X-Forwarded-For''" by code_simp
  have "SplitHostPort ''127.0.0.1:80'' = Some (''127.0.0.1'', ''80'')" by (simp add: SplitHostPort_def)
  then have peer: "ParseIP (ExtractIP (req_RemoteAddr ?r)) = Some [0,0,0,0,0,0,0,0,0,0,255,255,127,0,0,1]"
    by (simp add: ExtractIP_def net_eval)
  have "IPFilter_Wrap m ?r"
    by (rule IPFilter_unparsable_passes [OF m _ peer _ _ _, where bad = "''unknown''"])
      (simp_all add: example_filter_def IsLoopback_def net_eval Header_Get_def canon first_value_def TrimSpace_example)
  with m show ?thesis by blast
qed


section \<open>Examples for the real IP middlewares\<close>

definition proxied :: "string \<Rightarrow> string \<Rightarrow> Request" where
  "proxied xff addr = \<lparr> req_Method = ''GET'', req_Host = [], req_URL_Host = [], req_URL_Path = ''/'',
       req_Header = [(''X-Forwarded-For'', [xff])], req_Cookies = [], req_Query = [], req_RemoteAddr = addr \<rparr>"

lemma proxied_header: "Header_Get (proxied xff addr) ''X-Forwarded-For'' = xff"
proof -
  have "CanonicalMIMEHeaderKey ''X-Forwarded-For'' = ''X-Forwarded-For''" by code_simp
  then show ?thesis by (simp add: Header_Get_def proxied_def first_value_def)
qed

definition example_realip :: RealIPConfig where
  "example_realip = \<lparr> ric_TrustedProxies = [''10.0.0.0/8''], ric_Header = [], ric_RealIPHeader = [] \<rparr>"

theorem RealIP_spoof_resistant_witness:
  "\<exists>m. NewRealIPMiddleware example_realip = Inr m \<and>
     RealIP_extractClientIP m (proxied ''1.1.1.1,192.0.2.7'' ''10.0.0.9:80'') = RealIP_extractClientIP m (proxied ''192.0.2.7'' ''10.0.0.9:80'')"
proof -
  obtain m where m: "NewRealIPMiddleware example_realip = Inr m" "ric_Header (rim_config m) = ''X-Forwarded-For''"
    "rim_trusted m = snd (CIDRMatcher_Add ''10.0.0.0/8'' NewCIDRMatcher)"
    by (simp add: NewRealIPMiddleware_def example_realip_def split_beta cidr.add_valid valid_cidr_def net_eval)
  have tr: "TrimSpace ''192.0.2.7'' = ''192.0.2.7''" by (rule TrimSpace_visible) (simp_all add: visible_def)
  have "\<not> cidr_covers ''10.0.0.0/8'' ''192.0.2.7''" by (simp add: cidr_covers_net mapped_net_def net_eval)
  then have "\<exists>ip \<in> set (parseXForwardedFor ''192.0.2.7''). \<not> CIDRMatcher_Contains (TrimSpace ip) (rim_trusted m)"
    by (simp add: parseXForwardedFor_def tr m(3) cidr.member_add cidr.member_none)
  then have "RealIP_extractClientIP m (proxied (''1.1.1.1'' @ CHR '','' # ''192.0.2.7'') ''10.0.0.9:80'') =
      RealIP_extractClientIP m (proxied ''192.0.2.7'' ''10.0.0.9:80'')"
    using RealIP_spoof_resistant [of "proxied (''1.1.1.1'' @ CHR '','' # ''192.0.2.7'') ''10.0.0.9:80''" "proxied ''192.0.2.7'' ''10.0.0.9:80''" m
        "''1.1.1.1''" "''192.0.2.7''"]
    unfolding m(2) proxied_header by (simp add: proxied_def)
  with m(1) show ?thesis by auto
qed

theorem Realip_untrusted_neutralised_witness:
  "\<exists>r'. Realip_Wrap (Realip_New (Realip_DefaultConfig\<lparr>rc_Enabled := True\<rparr>)) (proxied ''1.1.1.1'' ''192.0.2.7:80'') = Some r' \<and>
     Header_Get r' ''X-Real-IP'' = ''192.0.2.7'' \<and> Header_Get r' ''X-Forwarded-For'' = []"
proof -
  let ?m = "Realip_New (Realip_DefaultConfig\<lparr>rc_Enabled := True\<rparr>)" and ?r = "proxied ''1.1.1.1'' ''192.0.2.7:80''"
  have host: "remote_host ''192.0.2.7:80'' = ''192.0.2.7''" by (simp add: remote_host_def SplitHostPort_def)
  have un: "\<not> Realip_isTrustedProxy ?m (req_RemoteAddr ?r)"
    by (simp add: Realip_isTrustedProxy_def host proxied_def Realip_New_def Realip_DefaultConfig_def private_ranges_def parsed_nets_def
        List.map_filter_simps net_eval)
  then obtain r' where r': "Realip_Wrap ?m ?r = Some r'"
    by (simp add: Realip_Wrap_def Let_def) (simp add: Realip_New_def Realip_DefaultConfig_def Let_def)
  have "rc_Enabled (rp_config ?m)" by (simp add: Realip_New_def Let_def)
  from Realip_untrusted_neutralised [OF this un r'] have "Header_Get r' ''X-Real-IP'' = ''192.0.2.7''"
    "\<forall>h \<in> set (rc_Headers (rp_config ?m)). CanonicalMIMEHeaderKey h = ''X-Real-Ip'' \<or> Header_Get r' h = ''''"
    by (simp_all add: proxied_def host)
  moreover have "CanonicalMIMEHeaderKey ''X-Forwarded-For'' \<noteq> ''X-Real-Ip''" by code_simp
  ultimately show ?thesis using r' by (auto simp: Realip_New_def Realip_DefaultConfig_def Let_def)
qed

end
