(* ===== verification/Bal_IpHash.thy ===== *)
theory Bal_IpHash
  imports Balancer Go_Net
begin

text \<open>
  \<^verbatim>\<open>internal/balancer/ip_hash.go\<close>: the FNV-1a hash of the bytes of the client address selects the
  backend, so that a client stays on its backend while the offered backends stay the same.
\<close>

type_synonym IPHash = "bref list"

definition NewIPHash :: IPHash where
  "NewIPHash = []"

definition ip_chars :: "IP \<Rightarrow> string" where
  "ip_chars ip = map (\<lambda>b. char_of (unat b)) ip"

definition hashIP :: "string \<Rightarrow> 32 word" where
  "hashIP ip =
     (if ip = '''' then 0
      else case ParseIP ip of
             None \<Rightarrow> fnv32a ip
           | Some parsedIP \<Rightarrow>
               (case To4 parsedIP of
                  Some ipv4 \<Rightarrow> fnv32a (ip_chars ipv4)
                | None \<Rightarrow> fnv32a (ip_chars (case To16 parsedIP of Some x \<Rightarrow> x | None \<Rightarrow> []))))"

text \<open>
  The length is converted to 32 bits; for a multiple of \<open>2^32\<close> backends the division by zero panics,
  which is \<open>None\<close> here.
\<close>

definition IPHash_Next :: "RequestContext option \<Rightarrow> heap \<Rightarrow> bref list \<Rightarrow> IPHash \<Rightarrow> bref option \<times> IPHash" where
  "IPHash_Next ctx h backends ih =
     (if backends = [] then (None, ih)
      else let n = (of_nat (length backends) :: 32 word)
           in if n = 0 then (None, ih) else (Some (backends ! unat (hashIP (ctx_key ctx) mod n)), ih))"

definition IPHash_Add :: "heap \<Rightarrow> bref \<Rightarrow> IPHash \<Rightarrow> IPHash" where
  "IPHash_Add h b ih = track_add h b ih"

definition IPHash_Remove :: "heap \<Rightarrow> string \<Rightarrow> IPHash \<Rightarrow> IPHash" where
  "IPHash_Remove h i ih = track_remove h i ih"

definition IPHash_Update :: "heap \<Rightarrow> bref \<Rightarrow> IPHash \<Rightarrow> IPHash" where
  "IPHash_Update h b ih = track_update h b ih"

definition IPHash_GetBackends :: "IPHash \<Rightarrow> bref list" where
  "IPHash_GetBackends ih = ih"

definition balancer_extractIP :: "string \<Rightarrow> string" where
  "balancer_extractIP hostport =
     (if hostport = '''' then '''' else case SplitHostPort hostport of Some (host, _) \<Rightarrow> host | None \<Rightarrow> hostport)"

definition IPHash_methods :: "IPHash Balancer" where
  "IPHash_methods = \<lparr>bal_Next = IPHash_Next, bal_Add = IPHash_Add, bal_Remove = IPHash_Remove, bal_Update = IPHash_Update\<rparr>"

lemma IPHash_index:
  assumes "(of_nat (length bs) :: 32 word) \<noteq> 0"
  shows "unat (x mod of_nat (length bs) :: 32 word) < length bs"
proof -
  have "0 < unat (of_nat (length bs) :: 32 word)" using assms by (simp add: unat_gt_0 del: of_nat_eq_0_iff word_of_nat_eq_0_iff)
  then have "unat (x mod of_nat (length bs)) < unat (of_nat (length bs) :: 32 word)"
    unfolding unat_mod by (rule mod_less_divisor)
  also have "\<dots> \<le> length bs" by (simp add: unsigned_of_nat take_bit_nat_eq_self_iff take_bit_nat_less_eq_self)
  finally show ?thesis .
qed

interpretation ih: live_balancer IPHash_methods "\<lambda>ctx h bs s. (of_nat (length bs) :: 32 word) \<noteq> 0"
proof unfold_locales
  fix ctx h s r s' and bs :: "bref list"
  assume "bal_Next IPHash_methods ctx h bs s = (Some r, s')"
  then show "r \<in> set bs"
    by (auto simp: IPHash_methods_def IPHash_Next_def Let_def IPHash_index split: if_splits)
qed (simp_all add: IPHash_methods_def IPHash_Next_def Let_def)

text \<open>
  The selection depends on the address, not on how it is written, and on the offered backends only:
  a client that is known by two spellings of one address has one backend.
\<close>

lemma hashIP_spelling: "ParseIP a = Some ip \<Longrightarrow> ParseIP b = Some ip \<Longrightarrow> hashIP a = hashIP b"
  by (auto simp: hashIP_def) (auto simp: ParseIP_def ParseAddr_def)

lemma IPHash_affinity:
  assumes "ParseIP (ctx_key c1) = Some ip" "ParseIP (ctx_key c2) = Some ip"
  shows "fst (IPHash_Next c1 h1 bs s1) = fst (IPHash_Next c2 h2 bs s2)"
  using hashIP_spelling [OF assms] by (simp add: IPHash_Next_def Let_def)

end
