(* ===== verification/Bal_Response.thy ===== *)
theory Bal_Response
  imports Bal_Least
begin

text \<open>
  The algorithms that follow measured response times: \<^verbatim>\<open>least_response_time.go\<close>, plain and weighted,
  over a circular buffer of samples per backend, and \<^verbatim>\<open>peak_ewma.go\<close>. Recording is a lock-free
  sequence of atomic operations for the former, so it is modelled twice: as one call, and as the steps of
  concurrent calls.
\<close>

section \<open>Samples of one backend\<close>

record lrtBackendState =
  lrt_backend :: bref
  lrt_samples :: "64 word list"
  lrt_writePos :: "32 word"
  lrt_count :: "32 word"
  lrt_total :: "64 word"

definition newLRTBackendState :: "bref \<Rightarrow> nat \<Rightarrow> lrtBackendState" where
  "newLRTBackendState b windowSize =
     \<lparr> lrt_backend = b, lrt_samples = replicate windowSize 0, lrt_writePos = 0, lrt_count = 0, lrt_total = 0 \<rparr>"

definition window_size :: "lrtBackendState \<Rightarrow> 32 word" where
  "window_size bs = of_nat (length (lrt_samples bs))"

text \<open>The atomic steps of \<^verbatim>\<open>record\<close>: claim a position, swap the sample in, count, add to the total.\<close>

definition claim_pos :: "lrtBackendState \<Rightarrow> 32 word \<times> lrtBackendState" where
  "claim_pos bs = (lrt_writePos bs, bs\<lparr>lrt_writePos := (lrt_writePos bs + 1) mod window_size bs\<rparr>)"

definition swap_sample :: "32 word \<Rightarrow> 64 word \<Rightarrow> lrtBackendState \<Rightarrow> 64 word \<times> lrtBackendState" where
  "swap_sample pos d bs = (lrt_samples bs ! unat pos, bs\<lparr>lrt_samples := (lrt_samples bs)[unat pos := d]\<rparr>)"

definition bump_count :: "lrtBackendState \<Rightarrow> lrtBackendState" where
  "bump_count bs = (if lrt_count bs < window_size bs then bs\<lparr>lrt_count := lrt_count bs + 1\<rparr> else bs)"

definition add_total :: "64 word \<Rightarrow> 64 word \<Rightarrow> lrtBackendState \<Rightarrow> lrtBackendState" where
  "add_total d oldSample bs =
     (if lrt_count bs = window_size bs then bs\<lparr>lrt_total := lrt_total bs + (d - oldSample)\<rparr>
      else bs\<lparr>lrt_total := lrt_total bs + d\<rparr>)"

definition lrt_record :: "64 word \<Rightarrow> lrtBackendState \<Rightarrow> lrtBackendState" where
  "lrt_record d bs =
     (let (pos, bs1) = claim_pos bs; (oldSample, bs2) = swap_sample pos d bs1
      in add_total d oldSample (bump_count bs2))"

definition lrt_average :: "lrtBackendState \<Rightarrow> int" where
  "lrt_average bs = (if lrt_count bs = 0 then 0 else trunc_div (sint (lrt_total bs)) (uint (lrt_count bs)))"

definition lrt_weightedAverage :: "heap \<Rightarrow> lrtBackendState \<Rightarrow> int" where
  "lrt_weightedAverage h bs =
     (let weight = b_weight (h (lrt_backend bs)) in trunc_div (lrt_average bs) (if weight \<le> 0 then 1 else weight))"

section \<open>Least response time\<close>

record LeastResponseTime =
  lr_backends :: "(string, lrtBackendState) gomap"
  lr_windowSize :: int

definition NewLeastResponseTimeWithWindow :: "int \<Rightarrow> LeastResponseTime" where
  "NewLeastResponseTimeWithWindow windowSize =
     \<lparr> lr_backends = [], lr_windowSize = (if windowSize \<le> 0 then 100 else windowSize) \<rparr>"

definition NewLeastResponseTime :: LeastResponseTime where
  "NewLeastResponseTime = NewLeastResponseTimeWithWindow 100"

text \<open>The scan of \<^verbatim>\<open>Next\<close>: the minimum starts at -1, which stands for no candidate yet.\<close>

fun lr_scan :: "(bref \<Rightarrow> int) \<Rightarrow> heap \<Rightarrow> bref option \<Rightarrow> int \<Rightarrow> bref list \<Rightarrow> bref option" where
  "lr_scan avg h selected minAvg [] = selected"
| "lr_scan avg h selected minAvg (be # bs) =
     (if \<not> State_IsAvailable (b_state (h be)) then lr_scan avg h selected minAvg bs
      else if minAvg = -1 \<or> avg be < minAvg then lr_scan avg h (Some be) (avg be) bs
      else lr_scan avg h selected minAvg bs)"

definition lr_value :: "(lrtBackendState \<Rightarrow> int) \<Rightarrow> heap \<Rightarrow> LeastResponseTime \<Rightarrow> bref \<Rightarrow> int" where
  "lr_value f h l be =
     (case map_of (lr_backends l) (ref_ID h be) of None \<Rightarrow> 0 | Some st \<Rightarrow> if lrt_count st = 0 then 0 else f st)"

definition LeastResponseTime_Next :: "RequestContext option \<Rightarrow> heap \<Rightarrow> bref list \<Rightarrow> LeastResponseTime \<Rightarrow> bref option \<times> LeastResponseTime" where
  "LeastResponseTime_Next ctx h backends l = (lr_scan (lr_value lrt_average h l) h None (-1) backends, l)"

definition WeightedLeastResponseTime_Next ::
  "RequestContext option \<Rightarrow> heap \<Rightarrow> bref list \<Rightarrow> LeastResponseTime \<Rightarrow> bref option \<times> LeastResponseTime" where
  "WeightedLeastResponseTime_Next ctx h backends l = (lr_scan (lr_value (lrt_weightedAverage h) h l) h None (-1) backends, l)"

definition LeastResponseTime_Add :: "heap \<Rightarrow> bref \<Rightarrow> LeastResponseTime \<Rightarrow> LeastResponseTime" where
  "LeastResponseTime_Add h b l =
     l\<lparr>lr_backends := AList.update (ref_ID h b) (newLRTBackendState b (nat (lr_windowSize l))) (lr_backends l)\<rparr>"

definition LeastResponseTime_Remove :: "heap \<Rightarrow> string \<Rightarrow> LeastResponseTime \<Rightarrow> LeastResponseTime" where
  "LeastResponseTime_Remove h i l = l\<lparr>lr_backends := AList.delete i (lr_backends l)\<rparr>"

definition LeastResponseTime_Update :: "heap \<Rightarrow> bref \<Rightarrow> LeastResponseTime \<Rightarrow> LeastResponseTime" where
  "LeastResponseTime_Update h b l =
     (case map_of (lr_backends l) (ref_ID h b) of
        None \<Rightarrow> l
      | Some st \<Rightarrow> l\<lparr>lr_backends := AList.update (ref_ID h b) (st\<lparr>lrt_backend := b\<rparr>) (lr_backends l)\<rparr>)"

definition LeastResponseTime_Record :: "string \<Rightarrow> 64 word \<Rightarrow> LeastResponseTime \<Rightarrow> LeastResponseTime" where
  "LeastResponseTime_Record backendID d l =
     (case map_of (lr_backends l) backendID of
        None \<Rightarrow> l
      | Some st \<Rightarrow> l\<lparr>lr_backends := AList.update backendID (lrt_record d st) (lr_backends l)\<rparr>)"

definition LeastResponseTime_methods :: "LeastResponseTime Balancer" where
  "LeastResponseTime_methods =
     \<lparr>bal_Next = LeastResponseTime_Next, bal_Add = LeastResponseTime_Add, bal_Remove = LeastResponseTime_Remove,
      bal_Update = LeastResponseTime_Update\<rparr>"

definition WeightedLeastResponseTime_methods :: "LeastResponseTime Balancer" where
  "WeightedLeastResponseTime_methods =
     \<lparr>bal_Next = WeightedLeastResponseTime_Next, bal_Add = LeastResponseTime_Add, bal_Remove = LeastResponseTime_Remove,
      bal_Update = LeastResponseTime_Update\<rparr>"

lemma lr_scan_mem:
  "lr_scan avg h sel m bs = Some r \<Longrightarrow> sel = Some r \<or> r \<in> set bs \<and> State_IsAvailable (b_state (h r))"
  by (induction bs arbitrary: sel m) (auto split: if_splits)

lemma lr_scan_some: "\<exists>b \<in> set bs. State_IsAvailable (b_state (h b)) \<Longrightarrow> lr_scan avg h None (-1) bs \<noteq> None"
proof -
  have keep: "sel \<noteq> None \<Longrightarrow> lr_scan avg h sel m bs \<noteq> None" for sel m bs
    by (induction bs arbitrary: sel m) auto
  show "\<exists>b \<in> set bs. State_IsAvailable (b_state (h b)) \<Longrightarrow> ?thesis"
    by (induction bs) (use keep in auto)
qed

interpretation lrt: live_balancer LeastResponseTime_methods "\<lambda>ctx h bs s. \<exists>b \<in> set bs. State_IsAvailable (b_state (h b))"
  by unfold_locales (auto simp: LeastResponseTime_methods_def LeastResponseTime_Next_def lr_scan_some simp del: not_None_eq dest: lr_scan_mem)

interpretation wlrt: live_balancer WeightedLeastResponseTime_methods "\<lambda>ctx h bs s. \<exists>b \<in> set bs. State_IsAvailable (b_state (h b))"
  by unfold_locales (auto simp: WeightedLeastResponseTime_methods_def WeightedLeastResponseTime_Next_def lr_scan_some simp del: not_None_eq dest: lr_scan_mem)

text \<open>Of non-negative averages the scan finds a smallest one, and the first of these.\<close>

lemma lr_scan_min:
  assumes "\<forall>b \<in> set bs. 0 \<le> avg b" "lr_scan avg h sel m bs = Some r" "case sel of None \<Rightarrow> m = -1 | Some s \<Rightarrow> m = avg s \<and> 0 \<le> m"
  shows "(\<forall>b \<in> set bs. State_IsAvailable (b_state (h b)) \<longrightarrow> avg r \<le> avg b) \<and> (\<forall>s. sel = Some s \<longrightarrow> avg r \<le> avg s)"
  using assms
proof (induction bs arbitrary: sel m)
  case (Cons be bs)
  show ?case
  proof (cases "State_IsAvailable (b_state (h be))")
    case False
    with Cons.prems Cons.IH [of sel m] show ?thesis by simp
  next
    case av: True
    show ?thesis
    proof (cases "m = -1 \<or> avg be < m")
      case True
      then have "lr_scan avg h (Some be) (avg be) bs = Some r" using av Cons.prems by simp
      with Cons.IH [OF _ this] Cons.prems have "(\<forall>b \<in> set bs. State_IsAvailable (b_state (h b)) \<longrightarrow> avg r \<le> avg b) \<and> avg r \<le> avg be" by simp
      with True Cons.prems show ?thesis by (auto split: option.splits)
    next
      case False
      then have "lr_scan avg h sel m bs = Some r" using av Cons.prems by simp
      with Cons.IH [OF _ this] Cons.prems False show ?thesis by (auto split: option.splits)
    qed
  qed
qed simp

section \<open>Peak EWMA\<close>

text \<open>The exponential function of \<^verbatim>\<open>math.Exp\<close> on \<^verbatim>\<open>float64\<close> is the parameter \<open>mexp\<close>.\<close>

record peakEWMASample =
  pe_peakLatency :: rat
  pe_requestCount :: "64 word"
  pe_errorCount :: "64 word"
  pe_lastUpdate :: int

record PeakEWMA =
  pw_decay :: rat
  pw_samples :: "(string, peakEWMASample) gomap"

definition NewPeakEWMA :: PeakEWMA where
  "NewPeakEWMA = \<lparr> pw_decay = 10, pw_samples = [] \<rparr>"

definition decay_multiplier :: "(rat \<Rightarrow> rat) \<Rightarrow> PeakEWMA \<Rightarrow> int \<Rightarrow> peakEWMASample \<Rightarrow> rat" where
  "decay_multiplier mexp p now sample = mexp (fl64 (- Duration_Seconds (now - pe_lastUpdate sample) / pw_decay p))"

definition error_rate :: "peakEWMASample \<Rightarrow> rat" where
  "error_rate sample =
     (if pe_requestCount sample > 0 then fl64 (fl64 (of_int (uint (pe_errorCount sample))) / fl64 (of_int (uint (pe_requestCount sample))))
      else 0)"

definition PeakEWMA_score :: "(rat \<Rightarrow> rat) \<Rightarrow> PeakEWMA \<Rightarrow> string \<Rightarrow> int \<Rightarrow> rat" where
  "PeakEWMA_score mexp p backendID now =
     (case map_of (pw_samples p) backendID of
        None \<Rightarrow> 1000000
      | Some sample \<Rightarrow>
          (let peakLatency = fl64 (pe_peakLatency sample * decay_multiplier mexp p now sample);
               errorPenalty = fl64 (1 + fl64 (error_rate sample * 10))
           in fl64 (peakLatency * errorPenalty)))"

fun pe_scan :: "(bref \<Rightarrow> rat) \<Rightarrow> heap \<Rightarrow> bref option \<Rightarrow> rat \<Rightarrow> bref list \<Rightarrow> bref option" where
  "pe_scan score h best bestScore [] = best"
| "pe_scan score h best bestScore (be # bs) =
     (if b_state (h be) \<noteq> StateUp then pe_scan score h best bestScore bs
      else if score be < bestScore then pe_scan score h (Some be) (score be) bs
      else pe_scan score h best bestScore bs)"

definition PeakEWMA_Next :: "(rat \<Rightarrow> rat) \<Rightarrow> int \<Rightarrow> RequestContext option \<Rightarrow> heap \<Rightarrow> bref list \<Rightarrow> PeakEWMA \<Rightarrow> bref option \<times> PeakEWMA" where
  "PeakEWMA_Next mexp now ctx h backends p =
     (if backends = [] then (None, p)
      else case pe_scan (\<lambda>be. PeakEWMA_score mexp p (ref_ID h be) now) h None MaxFloat64 backends of
             None \<Rightarrow> (Some (backends ! 0), p)
           | Some best \<Rightarrow> (Some best, p))"

definition PeakEWMA_Record :: "(rat \<Rightarrow> rat) \<Rightarrow> string \<Rightarrow> int \<Rightarrow> bool \<Rightarrow> int \<Rightarrow> PeakEWMA \<Rightarrow> PeakEWMA" where
  "PeakEWMA_Record mexp backendID latency success now p =
     (let sample = (case map_of (pw_samples p) backendID of
                      Some s \<Rightarrow> s
                    | None \<Rightarrow> \<lparr> pe_peakLatency = fl64 (of_int latency), pe_requestCount = 0, pe_errorCount = 0, pe_lastUpdate = now \<rparr>);
          oldPeak = fl64 (pe_peakLatency sample * decay_multiplier mexp p now sample);
          newLatency = fl64 (of_int latency);
          peak = (if newLatency > oldPeak then newLatency else fl64 (oldPeak * fl64 (95 / 100)));
          sample' = \<lparr> pe_peakLatency = peak, pe_requestCount = pe_requestCount sample + 1,
                      pe_errorCount = (if success then pe_errorCount sample else pe_errorCount sample + 1), pe_lastUpdate = now \<rparr>
      in p\<lparr>pw_samples := AList.update backendID sample' (pw_samples p)\<rparr>)"

definition PeakEWMA_Add :: "int \<Rightarrow> heap \<Rightarrow> bref \<Rightarrow> PeakEWMA \<Rightarrow> PeakEWMA" where
  "PeakEWMA_Add now h b p =
     (case map_of (pw_samples p) (ref_ID h b) of
        Some _ \<Rightarrow> p
      | None \<Rightarrow> p\<lparr>pw_samples := AList.update (ref_ID h b)
                  \<lparr> pe_peakLatency = 1000000, pe_requestCount = 0, pe_errorCount = 0, pe_lastUpdate = now \<rparr> (pw_samples p)\<rparr>)"

definition PeakEWMA_Remove :: "heap \<Rightarrow> string \<Rightarrow> PeakEWMA \<Rightarrow> PeakEWMA" where
  "PeakEWMA_Remove h i p = p\<lparr>pw_samples := AList.delete i (pw_samples p)\<rparr>"

definition PeakEWMA_Update :: "heap \<Rightarrow> bref \<Rightarrow> PeakEWMA \<Rightarrow> PeakEWMA" where
  "PeakEWMA_Update h b p = p"

definition PeakEWMA_methods :: "(rat \<Rightarrow> rat) \<Rightarrow> int \<Rightarrow> PeakEWMA Balancer" where
  "PeakEWMA_methods mexp now =
     \<lparr>bal_Next = PeakEWMA_Next mexp now, bal_Add = PeakEWMA_Add now, bal_Remove = PeakEWMA_Remove, bal_Update = PeakEWMA_Update\<rparr>"

lemma pe_scan_mem: "pe_scan score h best m bs = Some r \<Longrightarrow> best = Some r \<or> r \<in> set bs \<and> b_state (h r) = StateUp"
  by (induction bs arbitrary: best m) (auto split: if_splits)

interpretation pe: live_balancer "PeakEWMA_methods mexp now" "\<lambda>ctx h bs s. True"
  by unfold_locales (auto simp: PeakEWMA_methods_def PeakEWMA_Next_def split: option.splits if_splits dest: pe_scan_mem)

text \<open>Of the backends that are up the selected one has the least score, when the scores are below the initial bound.\<close>

lemma pe_scan_min:
  assumes "pe_scan score h best m bs = Some r" "\<forall>x. best = Some x \<longrightarrow> m = score x"
  shows "(\<forall>b \<in> set bs. b_state (h b) = StateUp \<longrightarrow> score r \<le> score b \<or> score b \<ge> m \<and> score r \<le> m) \<and> (\<forall>x. best = Some x \<longrightarrow> score r \<le> score x)"
  using assms
proof (induction bs arbitrary: best m)
  case (Cons be bs)
  show ?case
  proof (cases "b_state (h be) = StateUp \<and> score be < m")
    case True
    then have "pe_scan score h (Some be) (score be) bs = Some r" using Cons.prems by simp
    from Cons.IH [OF this] True Cons.prems(2) show ?thesis by fastforce
  next
    case False
    then have p: "pe_scan score h best m bs = Some r" using Cons.prems by (auto split: if_splits)
    have "score r \<le> m"
      using p Cons.prems(2)
    proof (induction bs arbitrary: best m)
      case (Cons b bs)
      then show ?case by (auto split: if_splits) fastforce+
    qed auto
    with Cons.IH [OF p Cons.prems(2)] False show ?thesis by auto
  qed
qed simp

text \<open>Errors never make a backend look better.\<close>

lemma PeakEWMA_error_penalty:
  assumes "0 \<le> pe_peakLatency s" "\<And>x. 0 \<le> mexp x" "pe_requestCount s > 0" "pe_errorCount s \<le> e"
    and "map_of (pw_samples p) i = Some s" "map_of (pw_samples q) i = Some (s\<lparr>pe_errorCount := e\<rparr>)" "pw_decay q = pw_decay p"
  shows "PeakEWMA_score mexp p i now \<le> PeakEWMA_score mexp q i now"
proof -
  let ?s = "s\<lparr>pe_errorCount := e\<rparr>"
  have "uint (pe_errorCount s) \<le> uint e" using assms(4) by (simp add: word_le_def)
  then have "fl64 (of_int (uint (pe_errorCount s))) \<le> fl64 (of_int (uint e))" by (intro fl64_mono of_int_le_iff [THEN iffD2])
  moreover have "0 \<le> fl64 (of_int (uint (pe_requestCount s)))" by (intro fl64_nonneg of_int_0_le_iff [THEN iffD2]) simp
  ultimately have "error_rate s \<le> error_rate ?s" unfolding error_rate_def by (auto intro!: fl64_mono divide_right_mono)
  then have pen: "fl64 (1 + fl64 (error_rate s * 10)) \<le> fl64 (1 + fl64 (error_rate ?s * 10))" by (intro fl64_mono add_left_mono) simp
  have "decay_multiplier mexp q now ?s = decay_multiplier mexp p now s" by (simp add: decay_multiplier_def assms(7))
  moreover have "0 \<le> fl64 (pe_peakLatency s * decay_multiplier mexp p now s)"
    using assms(1,2) by (intro fl64_nonneg mult_nonneg_nonneg) (simp_all add: decay_multiplier_def)
  ultimately show ?thesis
    using assms(5,6) pen fl64_mono [OF mult_left_mono [OF pen]] by (simp add: PeakEWMA_score_def Let_def)
qed

section \<open>Recording, one call at a time\<close>

text \<open>After recording \<open>ds\<close> the newest samples are in the buffer and the total is their sum.\<close>

definition recorded :: "nat \<Rightarrow> 64 word list \<Rightarrow> lrtBackendState \<Rightarrow> bool" where
  "recorded w ds st =
     (length (lrt_samples st) = w \<and> unat (lrt_writePos st) = length ds mod w \<and> unat (lrt_count st) = min (length ds) w \<and>
      (\<forall>i < w. lrt_samples st ! i = (if i < length ds then ds ! (length ds - 1 - (length ds - 1 - i) mod w) else 0)) \<and>
      lrt_total st = sum_list (drop (length ds - w) ds))"

lemma newest_index:
  fixes n :: nat
  assumes "i < w" "i < n" "i \<noteq> n mod w"
  shows "n - (n - i) mod w = n - 1 - (n - 1 - i) mod w"
proof -
  have "(n - i) mod w \<noteq> 0"
  proof
    assume "(n - i) mod w = 0"
    then have "n mod w = i mod w" using assms(2) by (simp add: mod_eq_dvd_iff_nat dvd_eq_mod_eq_0)
    with assms show False by simp
  qed
  then have "(n - i) mod w = Suc ((n - 1 - i) mod w)"
    using assms(2) mod_Suc [of "n - 1 - i" w] by (simp split: if_splits add: Suc_diff_Suc)
  then show ?thesis by simp
qed

lemma sum_window:
  fixes ds :: "64 word list"
  shows "0 < w \<Longrightarrow> sum_list (drop (Suc (length ds) - w) (ds @ [d])) =
    (if w \<le> length ds then sum_list (drop (length ds - w) ds) - ds ! (length ds - w) else sum_list (drop (length ds - w) ds)) + d"
proof (cases "w \<le> length ds")
  case True
  assume w: "0 < w"
  then have "drop (length ds - w) ds = ds ! (length ds - w) # drop (Suc (length ds - w)) ds"
    using True by (intro Cons_nth_drop_Suc [symmetric]) simp
  moreover have "Suc (length ds) - w = Suc (length ds - w)" using True by simp
  ultimately show ?thesis using True w by simp
next
  case False
  then show "0 < w \<Longrightarrow> ?thesis" by simp
qed

lemma recorded_new: "recorded w [] (newLRTBackendState b w)"
  by (simp add: recorded_def newLRTBackendState_def)

lemma unat_small: "n < 2 ^ 32 \<Longrightarrow> unat (of_nat n :: 32 word) = n"
  by (simp add: unsigned_of_nat take_bit_nat_eq_self)

lemma unat_window: "recorded w ds st \<Longrightarrow> w < 2 ^ 31 \<Longrightarrow> unat (window_size st) = w"
  by (simp add: recorded_def window_size_def unat_small)

lemma claimed_old:
  assumes "recorded w ds st" "0 < w"
  shows "lrt_samples st ! (length ds mod w) = (if w \<le> length ds then ds ! (length ds - w) else 0)"
proof (cases "w \<le> length ds")
  case True
  define n where "n = length ds"
  have i: "n mod w < n" using True assms(2) by (metis n_def mod_less_divisor order_less_le_trans)
  have "(n - 1 - n mod w) mod w = w - 1"
  proof -
    have "n - n mod w = w * (n div w)" by (simp add: minus_mod_eq_mult_div)
    moreover have "0 < n div w" using True assms(2) by (simp add: n_def div_greater_zero_iff)
    ultimately have "n - 1 - n mod w = w * (n div w - 1) + (w - 1)"
      using assms(2) by (cases "n div w") (auto simp: algebra_simps)
    moreover have "(w * (n div w - 1) + (w - 1)) mod w = w - 1" using assms(2) by (subst mod_mult_self4) simp
    ultimately show ?thesis by (simp only:)
  qed
  then show ?thesis
    using assms i True by (auto simp: recorded_def n_def [symmetric])
next
  case False
  then show ?thesis using assms by (simp add: recorded_def)
qed

lemma claimed_pos:
  assumes "recorded w ds st" "0 < w" "w < 2 ^ 31"
  shows "unat ((lrt_writePos st + 1) mod window_size st) = Suc (length ds) mod w"
proof -
  have p: "unat (lrt_writePos st) = length ds mod w" using assms by (simp add: recorded_def)
  have "length ds mod w < w" using assms(2) by simp
  then have "unat (lrt_writePos st) + 1 < 2 ^ 32" using p assms(3) by simp
  then have "unat (lrt_writePos st + 1) = Suc (length ds mod w)"
    using p by (simp add: unat_add_lem [THEN iffD1])
  then show ?thesis using unat_window [OF assms(1,3)] by (simp add: unat_mod mod_Suc_eq)
qed

lemma bumped_count:
  assumes "recorded w ds st" "w < 2 ^ 31"
  shows "unat (lrt_count (bump_count st)) = min (Suc (length ds)) w"
proof -
  have c: "unat (lrt_count st) = min (length ds) w" using assms by (simp add: recorded_def)
  have "lrt_count st < window_size st \<longleftrightarrow> length ds < w"
    using c unat_window [OF assms] by (auto simp: word_less_nat_alt)
  moreover have "unat (lrt_count st + 1) = Suc (length ds)" if "length ds < w"
    using c that assms(2) by (simp add: unat_add_lem [THEN iffD1])
  ultimately show ?thesis using c by (auto simp: bump_count_def)
qed

lemma recorded_step:
  assumes "recorded w ds st" "0 < w" "w < 2 ^ 31"
  shows "recorded w (ds @ [d]) (lrt_record d st)"
proof -
  define n where "n = length ds"
  have r: "length (lrt_samples st) = w" "unat (lrt_writePos st) = n mod w" "lrt_total st = sum_list (drop (n - w) ds)"
    "\<And>i. i < w \<Longrightarrow> lrt_samples st ! i = (if i < n then ds ! (n - 1 - (n - 1 - i) mod w) else 0)"
    using assms(1) by (simp_all add: recorded_def n_def)
  have nw: "n mod w < w" using assms(2) by simp
  define st2 where "st2 = st\<lparr>lrt_writePos := (lrt_writePos st + 1) mod window_size st, lrt_samples := (lrt_samples st)[n mod w := d]\<rparr>"
  define old where "old = lrt_samples st ! (n mod w)"
  have rec: "lrt_record d st = add_total d old (bump_count st2)"
    by (simp add: lrt_record_def claim_pos_def swap_sample_def r(2) st2_def old_def)
  have win: "window_size st2 = window_size st" by (simp add: window_size_def st2_def)
  have b: "bump_count st2 = st2\<lparr>lrt_count := lrt_count (bump_count st)\<rparr>"
    using win by (simp add: bump_count_def st2_def)
  have cnt: "lrt_count (bump_count st) = window_size st \<longleftrightarrow> w \<le> Suc n"
    using bumped_count [OF assms(1,3)] unat_window [OF assms(1,3)] by (metis n_def min.absorb_iff2 unsigned_word_eqI word_unat_eq_iff)
  have oldv: "old = (if w \<le> n then ds ! (n - w) else 0)" using claimed_old [OF assms(1,2)] by (simp add: old_def n_def)
  have tot: "lrt_total (lrt_record d st) = sum_list (drop (Suc n - w) (ds @ [d]))"
    unfolding rec add_total_def b using sum_window [OF assms(2), of ds d] cnt oldv r(3) win
    by (auto simp: n_def [symmetric] st2_def window_size_def)
  have sel: "lrt_samples (lrt_record d st) = (lrt_samples st)[n mod w := d]" "lrt_count (lrt_record d st) = lrt_count (bump_count st)"
    "lrt_writePos (lrt_record d st) = (lrt_writePos st + 1) mod window_size st"
    unfolding rec add_total_def b by (simp_all add: st2_def)
  have samp: "(lrt_samples st)[n mod w := d] ! i = (if i < Suc n then (ds @ [d]) ! (n - (n - i) mod w) else 0)" if "i < w" for i
  proof (cases "i = n mod w")
    case True
    have "(n - n mod w) mod w = 0" by (simp add: minus_mod_eq_mult_div)
    then show ?thesis using True nw r(1) by (simp add: nth_append n_def le_imp_less_Suc)
  next
    case False
    then have "i \<noteq> n" using that by auto
    then show ?thesis using False that r(1) r(4) [OF that] newest_index [of i w n] by (auto simp: nth_append n_def)
  qed
  show ?thesis
    unfolding recorded_def sel using samp tot r(1) claimed_pos [OF assms] bumped_count [OF assms(1,3)] by (simp add: n_def)
qed

lemma recorded_all:
  assumes "0 < w" "w < 2 ^ 31"
  shows "recorded w ds (fold lrt_record ds (newLRTBackendState b w))"
proof (induction ds rule: rev_induct)
  case (snoc d ds)
  then show ?case using recorded_step [OF _ assms] by simp
qed (simp add: recorded_new)

section \<open>Recording, concurrently\<close>

text \<open>A call of \<^verbatim>\<open>record\<close> between its atomic operations, and one step of one of the running calls.\<close>

datatype rec_call = Entered "64 word" | Claimed "64 word" "32 word" | Swapped "64 word" "64 word" | Counted "64 word" "64 word" | Returned

definition rec_step :: "nat \<Rightarrow> lrtBackendState \<times> rec_call list \<Rightarrow> lrtBackendState \<times> rec_call list" where
  "rec_step i sc =
     (let (st, cs) = sc
      in case cs ! i of
           Entered d \<Rightarrow> let (pos, st') = claim_pos st in (st', cs[i := Claimed d pos])
         | Claimed d pos \<Rightarrow> let (oldSample, st') = swap_sample pos d st in (st', cs[i := Swapped d oldSample])
         | Swapped d oldSample \<Rightarrow> (bump_count st, cs[i := Counted d oldSample])
         | Counted d oldSample \<Rightarrow> (add_total d oldSample st, cs[i := Returned])
         | Returned \<Rightarrow> sc)"

definition rec_run :: "nat list \<Rightarrow> lrtBackendState \<times> rec_call list \<Rightarrow> lrtBackendState \<times> rec_call list" where
  "rec_run schedule sc = fold rec_step schedule sc"

text \<open>A call that runs alone is \<^term>\<open>lrt_record\<close>.\<close>

lemma rec_run_alone: "rec_run [0, 0, 0, 0] (st, [Entered d]) = (lrt_record d st, [Returned])"
  by (simp add: rec_run_def rec_step_def lrt_record_def split_beta)

lemma sum_list_word_update:
  fixes xs :: "64 word list"
  shows "p < length xs \<Longrightarrow> sum_list (xs[p := d]) = sum_list xs - xs ! p + d"
proof (induction xs arbitrary: p)
  case (Cons x xs)
  then show ?case by (cases p) simp_all
qed simp

lemma full_drift:
  assumes "lrt_count st = window_size st" "unat (lrt_writePos st) < length (lrt_samples st)"
    "0 < length (lrt_samples st)" "length (lrt_samples st) < 2 ^ 31"
  shows "lrt_total (lrt_record d st) - sum_list (lrt_samples (lrt_record d st)) = lrt_total st - sum_list (lrt_samples st)"
    and "lrt_count (lrt_record d st) = window_size (lrt_record d st)" "length (lrt_samples (lrt_record d st)) = length (lrt_samples st)"
    "unat (lrt_writePos (lrt_record d st)) < length (lrt_samples st)"
proof -
  let ?p = "unat (lrt_writePos st)"
  have rec: "lrt_record d st = st\<lparr>lrt_writePos := (lrt_writePos st + 1) mod window_size st, lrt_samples := (lrt_samples st)[?p := d],
      lrt_total := lrt_total st + (d - lrt_samples st ! ?p)\<rparr>"
    using assms(1) by (simp add: lrt_record_def claim_pos_def swap_sample_def bump_count_def add_total_def window_size_def)
  have "sum_list ((lrt_samples st)[?p := d]) = sum_list (lrt_samples st) - lrt_samples st ! ?p + d"
    using assms(2) by (rule sum_list_word_update)
  then show "lrt_total (lrt_record d st) - sum_list (lrt_samples (lrt_record d st)) = lrt_total st - sum_list (lrt_samples st)"
    by (simp add: rec)
  show "lrt_count (lrt_record d st) = window_size (lrt_record d st)" "length (lrt_samples (lrt_record d st)) = length (lrt_samples st)"
    using assms(1) by (simp_all add: rec window_size_def)
  have "unat (window_size st) = length (lrt_samples st)" using assms(4) by (simp add: window_size_def unat_small)
  then show "unat (lrt_writePos (lrt_record d st)) < length (lrt_samples st)"
    using assms(3) by (simp add: rec unat_mod)
qed

lemma full_drift_all:
  assumes "lrt_count st = window_size st" "unat (lrt_writePos st) < length (lrt_samples st)"
    "0 < length (lrt_samples st)" "length (lrt_samples st) < 2 ^ 31"
  shows "lrt_total (fold lrt_record ds st) - sum_list (lrt_samples (fold lrt_record ds st)) = lrt_total st - sum_list (lrt_samples st)"
  using assms
proof (induction ds arbitrary: st)
  case (Cons d ds)
  note f = full_drift [OF Cons.prems, of d]
  have "lrt_total (fold lrt_record ds (lrt_record d st)) - sum_list (lrt_samples (fold lrt_record ds (lrt_record d st))) =
      lrt_total (lrt_record d st) - sum_list (lrt_samples (lrt_record d st))"
    using f Cons.prems by (intro Cons.IH) simp_all
  with f(1) show ?case by simp
qed simp

section \<open>Properties\<close>

text \<open>
  Recorded one at a time, the response times give a sliding window: after any sequence of durations the
  average of a backend is the mean of the last \<open>w\<close> of them, in 64-bit arithmetic.
\<close>

theorem LeastResponseTime_window:
  assumes "0 < w" "w < 2 ^ 31" "ds \<noteq> []"
  shows "lrt_average (fold lrt_record ds (newLRTBackendState b w)) =
    trunc_div (sint (sum_list (drop (length ds - w) ds))) (int (min (length ds) w))"
proof -
  let ?st = "fold lrt_record ds (newLRTBackendState b w)"
  have r: "recorded w ds ?st" by (rule recorded_all [OF assms(1,2)])
  then have c: "unat (lrt_count ?st) = min (length ds) w" by (simp add: recorded_def)
  moreover have "min (length ds) w \<noteq> 0" using assms by simp
  ultimately have "lrt_count ?st \<noteq> 0" by (metis unsigned_0)
  moreover have "uint (lrt_count ?st) = int (min (length ds) w)" using c by (metis uint_nat)
  ultimately show ?thesis using r by (simp add: lrt_average_def recorded_def)
qed

theorem LeastResponseTime_window_witness:
  "lrt_average (fold lrt_record [30, 10, 20] (newLRTBackendState 0 2)) = 15"
  using LeastResponseTime_window [of 2 "[30, 10, 20]" 0] by (simp add: trunc_div_def)

text \<open>
  Recorded concurrently, the total can come apart from the samples for good: when two calls have stored
  their samples but not yet counted, a third call overwrites the first sample without subtracting
  it. All three calls return, the total exceeds the sum of the samples by the lost sample, and every
  later call keeps the difference.
\<close>

theorem LeastResponseTime_race_drift:
  "case rec_run [0, 0, 1, 1, 2, 2, 2, 2, 0, 0, 1, 1] (newLRTBackendState 0 2, [Entered 10, Entered 20, Entered 30]) of
     (st, cs) \<Rightarrow> cs = [Returned, Returned, Returned] \<and> lrt_samples st = [30, 20] \<and> lrt_average st = 30 \<and>
       lrt_total (fold lrt_record ds st) - sum_list (lrt_samples (fold lrt_record ds st)) = 10"
proof -
  let ?st = "\<lparr> lrt_backend = 0, lrt_samples = [30, 20], lrt_writePos = 1, lrt_count = 2, lrt_total = 60 \<rparr>"
  have run: "rec_run [0, 0, 1, 1, 2, 2, 2, 2, 0, 0, 1, 1] (newLRTBackendState 0 2, [Entered 10, Entered 20, Entered 30]) =
      (?st, [Returned, Returned, Returned])"
    by (simp add: rec_run_def rec_step_def newLRTBackendState_def claim_pos_def swap_sample_def bump_count_def add_total_def
        window_size_def numeral_2_eq_2)
  have "lrt_total (fold lrt_record ds ?st) - sum_list (lrt_samples (fold lrt_record ds ?st)) = 10"
    using full_drift_all [of ?st ds] by (simp add: window_size_def)
  then show ?thesis unfolding run by (simp add: lrt_average_def trunc_div_def)
qed

end
