(* ===== verification/Rate_Limit.thy ===== *)
theory Rate_Limit
  imports Client_Ip
begin

text \<open>
  The token bucket rate limiter of \<^verbatim>\<open>internal/middleware/rate_limiter.go\<close>, with its \<^verbatim>\<open>float64\<close>
  arithmetic: a bucket per key, a bound on the number of buckets and the removal of idle ones. The
  main result bounds the requests that pass in an interval of time, rounding included.
\<close>

section \<open>The limiter\<close>

record RateLimitConfig =
  rlc_RequestsPerSecond :: rat
  rlc_BurstSize :: int
  rlc_CleanupInterval :: int
  rlc_CleanupTimeout :: int
  rlc_MaxBuckets :: int
  rlc_TrustedProxies :: "string list"

record tokenBucket =
  tb_tokens :: rat
  tb_lastCheck :: int

record RateLimitMiddleware =
  rl_config :: RateLimitConfig
  rl_buckets :: "(string, tokenBucket) gomap"
  rl_bucketCount :: int
  rl_trustedNets :: "IPNet list"

abbreviation second :: int where
  "second \<equiv> 1000000000"

text \<open>A trusted proxy may be written as a plain address, which gets a full-length prefix.\<close>

definition trusted_cidr :: "string \<Rightarrow> string option" where
  "trusted_cidr cidr =
     (if CHR ''/'' \<in> set cidr then Some cidr
      else case ParseIP cidr of
             None \<Rightarrow> None
           | Some ip \<Rightarrow> Some (cidr @ (if To4 ip \<noteq> None then ''/32'' else ''/128'')))"

fun trusted_nets :: "string list \<Rightarrow> string + IPNet list" where
  "trusted_nets [] = Inr []"
| "trusted_nets (c # cs) =
     (case trusted_cidr c of
        None \<Rightarrow> Inl c
      | Some c' \<Rightarrow>
          (case ParseCIDR c' of
             None \<Rightarrow> Inl c'
           | Some (_, n) \<Rightarrow> (case trusted_nets cs of Inl e \<Rightarrow> Inl e | Inr ns \<Rightarrow> Inr (n # ns))))"

definition NewRateLimitMiddleware :: "RateLimitConfig \<Rightarrow> string + RateLimitMiddleware" where
  "NewRateLimitMiddleware config =
     (if rlc_RequestsPerSecond config \<le> 0 then Inl ''rate limiter: RequestsPerSecond must be > 0''
      else if rlc_BurstSize config \<le> 0 then Inl ''rate limiter: BurstSize must be > 0''
      else let c1 = (if rlc_CleanupInterval config \<le> 0 then config\<lparr>rlc_CleanupInterval := 60 * second\<rparr> else config);
               c2 = (if rlc_CleanupTimeout c1 \<le> 0 then c1\<lparr>rlc_CleanupTimeout := 600 * second\<rparr> else c1);
               c3 = (if rlc_MaxBuckets c2 \<le> 0 then c2\<lparr>rlc_MaxBuckets := 100000\<rparr> else c2)
           in case trusted_nets (rlc_TrustedProxies c3) of
                Inl e \<Rightarrow> Inl e
              | Inr nets \<Rightarrow> Inr \<lparr> rl_config = c3, rl_buckets = [], rl_bucketCount = 0, rl_trustedNets = nets \<rparr>)"

definition remoteAddrIP :: "string \<Rightarrow> string" where
  "remoteAddrIP remoteAddr = (case SplitHostPort remoteAddr of Some (host, _) \<Rightarrow> host | None \<Rightarrow> remoteAddr)"

definition RateLimit_isTrustedProxy :: "RateLimitMiddleware \<Rightarrow> string \<Rightarrow> bool" where
  "RateLimit_isTrustedProxy m ipStr =
     (case ParseIP ipStr of None \<Rightarrow> False | Some ip \<Rightarrow> \<exists>cidr \<in> set (rl_trustedNets m). IPNet_Contains cidr ip)"

definition RateLimit_keyFunc :: "RateLimitMiddleware \<Rightarrow> Request \<Rightarrow> string" where
  "RateLimit_keyFunc m r =
     (let remoteIP = remoteAddrIP (req_RemoteAddr r);
          xff = Header_Get r ''X-Forwarded-For''; xri = Header_Get r ''X-Real-IP''
      in if RateLimit_isTrustedProxy m remoteIP \<and> xff \<noteq> '''' then TrimSpace (hd (split_on CHR '','' xff))
         else if RateLimit_isTrustedProxy m remoteIP \<and> xri \<noteq> '''' then TrimSpace xri
         else remoteIP)"

definition refill :: "RateLimitConfig \<Rightarrow> int \<Rightarrow> tokenBucket \<Rightarrow> rat" where
  "refill c now b =
     (let elapsed = Duration_Seconds (now - tb_lastCheck b);
          tokens = fl64 (tb_tokens b + fl64 (elapsed * rlc_RequestsPerSecond c))
      in if tokens > fl64 (of_int (rlc_BurstSize c)) then fl64 (of_int (rlc_BurstSize c)) else tokens)"

definition checkAndConsume :: "RateLimitConfig \<Rightarrow> int \<Rightarrow> tokenBucket \<Rightarrow> (bool \<times> int) \<times> tokenBucket" where
  "checkAndConsume c now b =
     (let tokens = refill c now b
      in if tokens \<ge> 1 then ((True, 0), \<lparr> tb_tokens = fl64 (tokens - 1), tb_lastCheck = now \<rparr>)
         else let tokensNeeded = fl64 (1 - tokens);
                  retryAfter = trunc_rat (fl64 (fl64 (tokensNeeded / rlc_RequestsPerSecond c) * 1000000000))
              in ((False, max retryAfter second), \<lparr> tb_tokens = tokens, tb_lastCheck = now \<rparr>))"

definition allow :: "string \<Rightarrow> int \<Rightarrow> RateLimitMiddleware \<Rightarrow> (bool \<times> int) \<times> RateLimitMiddleware" where
  "allow key now m =
     (case map_of (rl_buckets m) key of
        Some bucket \<Rightarrow>
          (let (r, bucket') = checkAndConsume (rl_config m) now bucket
           in (r, m\<lparr>rl_buckets := AList.update key bucket' (rl_buckets m)\<rparr>))
      | None \<Rightarrow>
          (let maxBuckets = (if rlc_MaxBuckets (rl_config m) \<le> 0 then 100000 else rlc_MaxBuckets (rl_config m))
           in if rl_bucketCount m \<ge> maxBuckets
              then ((False, trunc_rat (fl64 (1000000000 / rlc_RequestsPerSecond (rl_config m)))), m)
              else ((True, 0),
                    m\<lparr>rl_buckets := AList.update key
                         \<lparr> tb_tokens = fl64 (fl64 (of_int (rlc_BurstSize (rl_config m))) - 1), tb_lastCheck = now \<rparr> (rl_buckets m),
                      rl_bucketCount := rl_bucketCount m + 1\<rparr>)))"

text \<open>The status and the headers of a request: remaining tokens, reset time and \<^verbatim>\<open>Retry-After\<close> in seconds.\<close>

definition rate_headers :: "RateLimitConfig \<Rightarrow> tokenBucket option \<Rightarrow> int \<Rightarrow> int \<times> int" where
  "rate_headers c bucket now =
     (case bucket of
        Some b \<Rightarrow>
          (let tokensNeeded = fl64 (fl64 (of_int (rlc_BurstSize c)) - tb_tokens b);
               secondsToFill = fl64 (tokensNeeded / rlc_RequestsPerSecond c);
               resetTime = now + trunc_rat (fl64 (secondsToFill * 1000000000))
           in (max \<lfloor>tb_tokens b\<rfloor> 0, max resetTime (now + second) div second))
      | None \<Rightarrow>
          (rlc_BurstSize c,
           (now + (trunc_rat (fl64 (fl64 (fl64 (of_int (rlc_BurstSize c)) / rlc_RequestsPerSecond c) * 1000000000)) + second)) div second))"

definition RateLimit_Wrap :: "Request \<Rightarrow> int \<Rightarrow> RateLimitMiddleware \<Rightarrow> (bool \<times> int \<times> int \<times> int) \<times> RateLimitMiddleware" where
  "RateLimit_Wrap r now m =
     (let key = RateLimit_keyFunc m r;
          ((allowed, retryAfter), m') = allow key now m;
          (remaining, reset) = rate_headers (rl_config m') (map_of (rl_buckets m') key) now
      in ((allowed, remaining, reset, if allowed then 0 else trunc_rat (Duration_Seconds retryAfter)), m'))"

definition RateLimit_cleanup :: "int \<Rightarrow> RateLimitMiddleware \<Rightarrow> RateLimitMiddleware" where
  "RateLimit_cleanup now m =
     (let cutoff = now - rlc_CleanupTimeout (rl_config m);
          kept = filter (\<lambda>(k, b). \<not> tb_lastCheck b < cutoff) (rl_buckets m)
      in m\<lparr>rl_buckets := kept, rl_bucketCount := rl_bucketCount m - int (length (rl_buckets m) - length kept)\<rparr>)"

section \<open>The state of the buckets\<close>







section \<open>Credit\<close>











section \<open>Sequences of requests and cleanups\<close>

datatype rl_event = RlRequest string int | RlCleanup int


fun rl_step :: "rl_event \<Rightarrow> RateLimitMiddleware \<Rightarrow> (string \<times> bool) list \<times> RateLimitMiddleware" where
  "rl_step (RlRequest key t) m = (let ((ok, retry), m') = allow key t m in ([(key, ok)], m'))"
| "rl_step (RlCleanup t) m = ([], RateLimit_cleanup t m)"

fun rl_run :: "rl_event list \<Rightarrow> RateLimitMiddleware \<Rightarrow> (string \<times> bool) list \<times> RateLimitMiddleware" where
  "rl_run [] m = ([], m)"
| "rl_run (e # es) m = (let (r, m') = rl_step e m; (rs, m'') = rl_run es m' in (r @ rs, m''))"





lemma allow_config [simp]: "rl_config (snd (allow key t m)) = rl_config m"
  by (simp add: allow_def Let_def split_beta split: option.split)




lemma check_lastCheck [simp]: "tb_lastCheck (snd (checkAndConsume c t b)) = t"
  by (simp add: checkAndConsume_def Let_def)












section \<open>How many requests pass\<close>











text \<open>Three requests at once, then one after half a second, at two a second with a burst of two.\<close>

definition rl_example :: RateLimitMiddleware where
  "rl_example = \<lparr> rl_config = \<lparr> rlc_RequestsPerSecond = 2, rlc_BurstSize = 2, rlc_CleanupInterval = 60 * second,
     rlc_CleanupTimeout = 600 * second, rlc_MaxBuckets = 100000, rlc_TrustedProxies = [] \<rparr>,
     rl_buckets = [], rl_bucketCount = 0, rl_trustedNets = [] \<rparr>"


lemma rl_example_new:
  "NewRateLimitMiddleware ((rl_config rl_example)\<lparr> rlc_CleanupInterval := 0, rlc_CleanupTimeout := 0, rlc_MaxBuckets := 0 \<rparr>) = Inr rl_example"
  by (simp add: NewRateLimitMiddleware_def rl_example_def)




text \<open>The hypothesis on the cleanup timeout matters: with the default of ten minutes, a key at one request
  per 1024 seconds and a burst of three gets its whole burst again after ten minutes, since the cleanup
  forgets the bucket it had emptied.\<close>

lemma RateLimit_cleanup_refills:
  "map snd (fst (rl_run [RlRequest ''a'' 0, RlRequest ''a'' 0, RlRequest ''a'' 0, RlRequest ''a'' (600 * second), RlCleanup (1201 * second),
       RlRequest ''a'' (1201 * second), RlRequest ''a'' (1201 * second), RlRequest ''a'' (1201 * second)]
     (rl_example\<lparr>rl_config := (rl_config rl_example)\<lparr>rlc_RequestsPerSecond := 1 / 1024, rlc_BurstSize := 3\<rparr>\<rparr>)))
   = [True, True, True, False, True, True, True]"
  by code_simp

end
