(* ===== verification/Sni.thy ===== *)
theory Sni
  imports Bytes Go_Strings Backend Errors
begin

text \<open>
  Routing of TLS connections by server name, \<^verbatim>\<open>internal/proxy/l4/sni.go\<close>: the parser of the
  ClientHello, the connection that gives back the bytes read ahead, the routing table and the
  matcher. The parser is written with partial slice expressions, so that it could panic.
\<close>

section \<open>The ClientHello\<close>

text \<open>A length in one byte, or in two, and so many bytes to skip.\<close>

definition skip_vec8 :: "string \<Rightarrow> string \<Rightarrow> bytes \<Rightarrow> bytes decoded" where
  "skip_vec8 e1 e2 data =
     (if length data < 1 then Malformed e1
      else bind_decoded (byte_at data 0) (\<lambda>n.
           bind_decoded (slice_from data 1) (\<lambda>data.
             if length data < n then Malformed e2 else slice_from data n)))"

definition skip_vec16 :: "string \<Rightarrow> string \<Rightarrow> bytes \<Rightarrow> bytes decoded" where
  "skip_vec16 e1 e2 data =
     (if length data < 2 then Malformed e1
      else bind_decoded (Uint16_at data 0) (\<lambda>n.
           bind_decoded (slice_from data 2) (\<lambda>data.
             if length data < n then Malformed e2 else slice_from data n)))"

definition alnum :: "char \<Rightarrow> bool" where
  "alnum c = (is_lower c \<or> is_upper c \<or> is_digit c)"

fun scan_hostname :: "nat \<Rightarrow> string \<Rightarrow> string option" where
  "scan_hostname i [] = None"
| "scan_hostname i (c # cs) =
     (if of_char c < (0x20 :: nat) \<or> of_char c = (0x7f :: nat)
      then Some (''invalid SNI hostname: control character at position '' @ nat_dec i)
      else if \<not> alnum c \<and> c \<noteq> CHR ''-'' \<and> c \<noteq> CHR ''.''
      then Some (''invalid SNI hostname: invalid character at position '' @ nat_dec i)
      else scan_hostname (i + 1) cs)"

definition validateSNIHostname :: "string \<Rightarrow> string option" where
  "validateSNIHostname host =
     (if length host = 0 \<or> length host > 253 then Some (''invalid SNI hostname length: '' @ nat_dec (length host))
      else scan_hostname 0 host)"

function sni_entries :: "bytes \<Rightarrow> string decoded" where
  "sni_entries data =
     (if length data < 3 then Malformed ''no host name SNI found''
      else bind_decoded (byte_at data 0) (\<lambda>sniType.
           bind_decoded (Uint16_at data 1) (\<lambda>sniLen.
             if length data < 3 + sniLen then Malformed ''data too short for SNI entry''
             else bind_decoded (slice data 3 (3 + sniLen)) (\<lambda>host.
               if sniType = 0 then (case validateSNIHostname host of Some e \<Rightarrow> Malformed e | None \<Rightarrow> Decoded host)
               else bind_decoded (slice_from data (3 + sniLen)) sni_entries))))"
  by auto
termination
  by (relation "measure length") (auto simp: slice_from_def split: if_splits)

declare sni_entries.simps [simp del]

definition parseSNIList :: "bytes \<Rightarrow> string decoded" where
  "parseSNIList data =
     (if length data < 2 then Malformed ''data too short for SNI list length''
      else bind_decoded (Uint16_at data 0) (\<lambda>sniListLen.
             if length data < 2 + sniListLen then Malformed ''data too short for SNI list''
             else bind_decoded (slice data 2 (2 + sniListLen)) sni_entries))"

function parseSNIExtension :: "bytes \<Rightarrow> string decoded" where
  "parseSNIExtension extensions =
     (if length extensions < 4 then Malformed ''sni extension not found''
      else bind_decoded (Uint16_at extensions 0) (\<lambda>extensionType.
           bind_decoded (Uint16_at extensions 2) (\<lambda>extensionLen.
             if length extensions < 4 + extensionLen then Malformed ''incomplete extension''
             else bind_decoded (slice extensions 4 (4 + extensionLen)) (\<lambda>extensionData.
               if extensionType = 0 then parseSNIList extensionData
               else bind_decoded (slice_from extensions (4 + extensionLen)) parseSNIExtension))))"
  by auto
termination
  by (relation "measure length") (auto simp: slice_from_def split: if_splits)

declare parseSNIExtension.simps [simp del]

definition parseClientHello :: "bytes \<Rightarrow> string decoded" where
  "parseClientHello data =
     (if length data < 4 then Malformed ''data too short''
      else bind_decoded (byte_at data 1) (\<lambda>a. bind_decoded (byte_at data 2) (\<lambda>b. bind_decoded (byte_at data 3) (\<lambda>c.
        if a * 65536 + b * 256 + c + 4 > length data then Malformed ''incomplete ClientHello''
        else bind_decoded (slice_from data 4) (\<lambda>data.
        if length data < 2 then Malformed ''data too short for version''
        else bind_decoded (Uint16_at data 0) (\<lambda>version.
        if version < 0x0300 \<or> version > 0x0304 then Malformed ''invalid ClientHello version''
        else bind_decoded (slice_from data 2) (\<lambda>data.
        if length data < 32 then Malformed ''data too short for random''
        else bind_decoded (slice_from data 32) (\<lambda>data.
        bind_decoded (skip_vec8 ''data too short for session ID length'' ''data too short for session ID'' data) (\<lambda>data.
        bind_decoded (skip_vec16 ''data too short for cipher suites length'' ''data too short for cipher suites'' data) (\<lambda>data.
        bind_decoded (skip_vec8 ''data too short for compression length'' ''data too short for compression methods'' data) (\<lambda>data.
        if length data < 2 then Malformed ''no extensions''
        else bind_decoded (Uint16_at data 0) (\<lambda>extensionsLen.
        bind_decoded (slice_from data 2) (\<lambda>data.
        if length data < extensionsLen then Malformed ''data too short for extensions''
        else bind_decoded (slice data 0 extensionsLen) parseSNIExtension)))))))))))))"

definition ParseClientHelloSNI :: "bytes \<Rightarrow> string decoded" where
  "ParseClientHelloSNI data =
     (if length data < 5 then Malformed ''data too short for TLS record''
      else bind_decoded (byte_at data 0) (\<lambda>contentType.
        if contentType \<noteq> 0x16 then Malformed ''not a TLS handshake record''
        else bind_decoded (Uint16_at data 1) (\<lambda>version.
        if version < 0x0300 \<or> version > 0x0304 then Malformed ''invalid TLS version''
        else bind_decoded (Uint16_at data 3) (\<lambda>recordLen.
        if recordLen + 5 > length data then Malformed ''incomplete TLS record''
        else if length data < 9 then Malformed ''data too short for handshake header''
        else bind_decoded (byte_at data 5) (\<lambda>handshakeType.
        if handshakeType \<noteq> 0x01 then Malformed ''not a ClientHello message''
        else bind_decoded (slice_from data 5) parseClientHello)))))"

definition IsTLSConnection :: "bytes \<Rightarrow> bool decoded" where
  "IsTLSConnection data =
     (if length data < 6 then Decoded False
      else bind_decoded (byte_at data 0) (\<lambda>t.
        if t \<noteq> 0x16 then Decoded False
        else bind_decoded (Uint16_at data 1) (\<lambda>version.
        if version < 0x0300 \<or> version > 0x0304 then Decoded False
        else bind_decoded (byte_at data 5) (\<lambda>h. Decoded (h = 0x01)))))"

fun hex4 :: "nat \<Rightarrow> nat \<Rightarrow> string" where
  "hex4 0 n = []"
| "hex4 (Suc k) n = hex4 k (n div 16) @ [''0123456789abcdef'' ! (n mod 16)]"

definition ParseTLSVersion :: "bytes \<Rightarrow> string decoded" where
  "ParseTLSVersion data =
     (if length data < 3 then Malformed ''data too short''
      else bind_decoded (Uint16_at data 1) (\<lambda>version.
        Decoded (if version = 0x0300 then ''SSL 3.0'' else if version = 0x0301 then ''TLS 1.0''
                 else if version = 0x0302 then ''TLS 1.1'' else if version = 0x0303 then ''TLS 1.2''
                 else if version = 0x0304 then ''TLS 1.3'' else ''Unknown (0x'' @ hex4 4 version @ '')'')))"

record TLSRecordInfo =
  tri_ContentType :: string
  tri_Version :: string
  tri_Length :: nat
  tri_IsClientHello :: bool

definition ParseTLSRecordInfo :: "bytes \<Rightarrow> TLSRecordInfo decoded" where
  "ParseTLSRecordInfo data =
     (if length data < 5 then Malformed ''data too short for TLS record''
      else bind_decoded (byte_at data 0) (\<lambda>t.
           bind_decoded (ParseTLSVersion data) (\<lambda>version.
           bind_decoded (Uint16_at data 3) (\<lambda>n.
             Decoded \<lparr> tri_ContentType = (if t = 0x16 then ''Handshake'' else if t = 0x14 then ''ChangeCipherSpec''
                         else if t = 0x15 then ''Alert'' else if t = 0x17 then ''Application''
                         else ''Unknown ('' @ nat_dec t @ '')''),
                       tri_Version = version, tri_Length = n,
                       tri_IsClientHello = (length data > 5 \<and> data ! 5 = CHR 0x01) \<rparr>))))"

section \<open>Connections with bytes read ahead\<close>

record peekedConn =
  pc_Conn :: bytes
  pc_peeked :: bytes
  pc_peekOffset :: nat

definition peekedConn_Read :: "nat \<Rightarrow> nat \<Rightarrow> peekedConn \<Rightarrow> bytes \<times> peekedConn" where
  "peekedConn_Read k n c =
     (if pc_peekOffset c < length (pc_peeked c)
      then let p = take k (drop (pc_peekOffset c) (pc_peeked c))
           in (p, c\<lparr>pc_peekOffset := pc_peekOffset c + length p\<rparr>)
      else let (p, s) = Conn_Read k n (pc_Conn c) in (p, c\<lparr>pc_Conn := s\<rparr>))"

definition unpeeked :: "bytes \<Rightarrow> peekedConn" where
  "unpeeked s = \<lparr> pc_Conn = s, pc_peeked = [], pc_peekOffset = 0 \<rparr>"

definition peeked :: "bytes \<Rightarrow> bytes \<Rightarrow> peekedConn" where
  "peeked s buf = \<lparr> pc_Conn = s, pc_peeked = buf, pc_peekOffset = 0 \<rparr>"

definition pc_pending :: "peekedConn \<Rightarrow> bytes" where
  "pc_pending c = drop (pc_peekOffset c) (pc_peeked c) @ pc_Conn c"

interpretation peek: connection peekedConn_Read pc_pending
proof
  fix k n c
  show "fst (peekedConn_Read k n c) @ pc_pending (snd (peekedConn_Read k n c)) = pc_pending c"
    by (auto simp: peekedConn_Read_def pc_pending_def Let_def split_beta Conn_Read_def min_def)
      (metis append_take_drop_id drop_drop add.commute)
qed (auto simp: peekedConn_Read_def pc_pending_def Let_def split_beta Conn_Read_def)

text \<open>The reader of a \<^verbatim>\<open>BufferedConn\<close> is the bytes it still holds.\<close>

record BufferedConn =
  bc_Conn :: bytes
  bc_reader :: bytes

definition NewBufferedConn :: "bytes \<Rightarrow> bytes \<Rightarrow> BufferedConn" where
  "NewBufferedConn conn initial = \<lparr> bc_Conn = conn, bc_reader = initial \<rparr>"

definition BufferedConn_Read :: "nat \<Rightarrow> nat \<Rightarrow> BufferedConn \<Rightarrow> bytes \<times> BufferedConn" where
  "BufferedConn_Read k n c =
     (if length (bc_reader c) > 0 then (take k (bc_reader c), c\<lparr>bc_reader := drop k (bc_reader c)\<rparr>)
      else let (p, s) = Conn_Read k n (bc_Conn c) in (p, c\<lparr>bc_Conn := s\<rparr>))"

interpretation buffered: connection BufferedConn_Read "\<lambda>c. bc_reader c @ bc_Conn c"
  by unfold_locales (auto simp: BufferedConn_Read_def Conn_Read_def split_beta Let_def)

section \<open>Routing\<close>

record SNIRouterConfig =
  src_DefaultBackend :: string
  src_Passthrough :: bool
  src_ReadTimeout :: int
  src_MaxHandshakeSize :: int
  src_MaxConnections :: int

definition DefaultSNIRouterConfig :: SNIRouterConfig where
  "DefaultSNIRouterConfig = \<lparr> src_DefaultBackend = '''', src_Passthrough = True, src_ReadTimeout = 5000000000,
     src_MaxHandshakeSize = 16 * 1024, src_MaxConnections = 10000 \<rparr>"

record SNIRouter =
  sr_config :: SNIRouterConfig
  sr_routes :: "(string, bref) gomap"

definition NewSNIRouter :: "SNIRouterConfig option \<Rightarrow> SNIRouter" where
  "NewSNIRouter config =
     \<lparr> sr_config = (case config of None \<Rightarrow> DefaultSNIRouterConfig | Some c \<Rightarrow> c), sr_routes = [] \<rparr>"

definition SNIRouter_AddRoute :: "string \<Rightarrow> bref \<Rightarrow> SNIRouter \<Rightarrow> SNIRouter" where
  "SNIRouter_AddRoute sni b r = r\<lparr>sr_routes := AList.update (map to_lower sni) b (sr_routes r)\<rparr>"

definition SNIRouter_RemoveRoute :: "string \<Rightarrow> SNIRouter \<Rightarrow> SNIRouter" where
  "SNIRouter_RemoveRoute sni r = r\<lparr>sr_routes := AList.delete (map to_lower sni) (sr_routes r)\<rparr>"

text \<open>The wildcard patterns that are tried for a name, the most specific first.\<close>

definition wildcards :: "string \<Rightarrow> string list" where
  "wildcards sni =
     (let parts = split_on CHR ''.'' sni
      in map (\<lambda>i. ''*.'' @ join_with CHR ''.'' (drop i parts)) [1..<length parts])"

definition lookup_route :: "string \<Rightarrow> (string, 'r) gomap \<Rightarrow> 'r option" where
  "lookup_route sni routes =
     (case map_of routes (map to_lower sni) of
        Some b \<Rightarrow> Some b
      | None \<Rightarrow> find_map (map_of routes) (wildcards sni))"

definition SNIRouter_GetRoute :: "string \<Rightarrow> SNIRouter \<Rightarrow> bref option" where
  "SNIRouter_GetRoute sni r = lookup_route sni (sr_routes r)"

definition peekClientHello :: "SNIRouter \<Rightarrow> bytes \<Rightarrow> string decoded \<times> peekedConn" where
  "peekClientHello r conn =
     (case ReadFull 5 conn of
        None \<Rightarrow> (Malformed ''EOF'', unpeeked [])
      | Some (header, conn1) \<Rightarrow>
          if header ! 0 \<noteq> CHR 0x16 then (Malformed ''not a TLS handshake record'', peeked conn1 header)
          else let recordLen = of_char (header ! 3) * 256 + of_char (header ! 4)
               in if int recordLen > src_MaxHandshakeSize (sr_config r)
                  then (Malformed ''TLS ClientHello too large'', unpeeked conn1)
                  else case ReadFull recordLen conn1 of
                         None \<Rightarrow> (Malformed ''EOF'', unpeeked [])
                       | Some (record, conn2) \<Rightarrow>
                           let buf = header @ record in (ParseClientHelloSNI buf, peeked conn2 buf))"

definition routeToDefault :: gerror where
  "routeToDefault = New CodeNotFound ''no route found and no default backend''"

datatype RouteResult = RouteTo bref peekedConn | RouteFailed gerror | RoutePanics

definition RouteConnection :: "SNIRouter \<Rightarrow> bytes \<Rightarrow> RouteResult" where
  "RouteConnection r conn =
     (case peekClientHello r conn of
        (Malformed e, c) \<Rightarrow> RouteFailed routeToDefault
      | (Panics, c) \<Rightarrow> RoutePanics
      | (Decoded sni, c) \<Rightarrow>
          (case SNIRouter_GetRoute sni r of
             None \<Rightarrow> RouteFailed (if src_DefaultBackend (sr_config r) \<noteq> '''' then routeToDefault
                                 else New CodeNotFound (''no route for SNI: '' @ sni))
           | Some b \<Rightarrow> RouteTo b c))"

text \<open>
  One connection to a backend from beginning to end: a slot is taken, the backend is dialled, the bytes
  are copied both ways, and the slot is given back on every path. The outcomes of dialling and
  copying are arguments.
\<close>

definition proxyToBackend :: "gerror option \<Rightarrow> gerror option \<Rightarrow> bref \<Rightarrow> heap \<Rightarrow> gerror option \<times> heap" where
  "proxyToBackend dialErr copyErr b h =
     (let (ok, be) = Backend_AcquireConn (h b)
      in if \<not> ok then (Some (New CodeUnavailable ''backend at max connections''), h)
         else case dialErr of
                Some e \<Rightarrow> (Some e, h(b := Backend_ReleaseConn (Backend_RecordError be)))
              | None \<Rightarrow> (copyErr, h(b := Backend_ReleaseConn be)))"

text \<open>The bound on the connections of \<^verbatim>\<open>SNIBasedProxy\<close>: an accepted connection and the end of one.\<close>

record SNIBasedProxy =
  sp_router :: SNIRouter
  sp_maxConns :: int
  sp_activeConns :: int

definition NewSNIBasedProxy :: "SNIRouterConfig option \<Rightarrow> SNIBasedProxy" where
  "NewSNIBasedProxy config =
     (let c = (case config of None \<Rightarrow> DefaultSNIRouterConfig | Some c \<Rightarrow> c)
      in \<lparr> sp_router = NewSNIRouter (Some c),
           sp_maxConns = (if src_MaxConnections c \<le> 0 then 10000 else src_MaxConnections c), sp_activeConns = 0 \<rparr>)"

definition sni_accept :: "SNIBasedProxy \<Rightarrow> bool \<times> SNIBasedProxy" where
  "sni_accept p =
     (if sp_activeConns p \<ge> sp_maxConns p then (False, p)
      else (True, p\<lparr>sp_activeConns := sp_activeConns p + 1\<rparr>))"

definition sni_done :: "SNIBasedProxy \<Rightarrow> SNIBasedProxy" where
  "sni_done p = p\<lparr>sp_activeConns := sp_activeConns p - 1\<rparr>"

definition SNIBasedProxy_AddRoute :: "string \<Rightarrow> bref \<Rightarrow> SNIBasedProxy \<Rightarrow> SNIBasedProxy" where
  "SNIBasedProxy_AddRoute sni b p = p\<lparr>sp_router := SNIRouter_AddRoute sni b (sp_router p)\<rparr>"

definition SNIBasedProxy_RemoveRoute :: "string \<Rightarrow> SNIBasedProxy \<Rightarrow> SNIBasedProxy" where
  "SNIBasedProxy_RemoveRoute sni p = p\<lparr>sp_router := SNIRouter_RemoveRoute sni (sp_router p)\<rparr>"

section \<open>The proxy by addresses\<close>

text \<open>\<^verbatim>\<open>ExtractSNI\<close> reads once; \<open>n\<close> bytes have arrived by then.\<close>

definition ExtractSNI :: "nat \<Rightarrow> bytes \<Rightarrow> string decoded \<times> peekedConn" where
  "ExtractSNI n conn =
     (let (buf, conn1) = Conn_Read (16 * 1024) n conn
      in (bind_decoded (IsTLSConnection buf) (\<lambda>tls.
            if tls then ParseClientHelloSNI buf else Malformed ''not a TLS connection''),
          peeked conn1 buf))"

record SNIProxy =
  snp_routes :: "(string, string) gomap"
  snp_config :: SNIRouterConfig

definition NewSNIProxy :: "SNIRouterConfig option \<Rightarrow> SNIProxy" where
  "NewSNIProxy config =
     \<lparr> snp_routes = [], snp_config = (case config of None \<Rightarrow> DefaultSNIRouterConfig | Some c \<Rightarrow> c) \<rparr>"

definition SNIProxy_AddRoute :: "string \<Rightarrow> string \<Rightarrow> SNIProxy \<Rightarrow> SNIProxy" where
  "SNIProxy_AddRoute sni addr p = p\<lparr>snp_routes := AList.update (map to_lower sni) addr (snp_routes p)\<rparr>"

definition SNIProxy_GetBackend :: "string \<Rightarrow> SNIProxy \<Rightarrow> string" where
  "SNIProxy_GetBackend sni p = (case lookup_route sni (snp_routes p) of Some addr \<Rightarrow> addr | None \<Rightarrow> '''')"

text \<open>The address that is dialled and the connection that is copied to it.\<close>

definition SNIProxy_HandleConnection :: "nat \<Rightarrow> bytes \<Rightarrow> SNIProxy \<Rightarrow> (string \<times> peekedConn) option" where
  "SNIProxy_HandleConnection n conn p =
     (case ExtractSNI n conn of
        (Decoded sni, c) \<Rightarrow>
          (let a = SNIProxy_GetBackend sni p;
               addr = (if a = '''' then src_DefaultBackend (snp_config p) else a)
           in if addr = '''' then None else Some (addr, c))
      | (_, c) \<Rightarrow> None)"

section \<open>The matcher\<close>

record SNIMatcher =
  sm_exact :: "string list"
  sm_wildcards :: "string list"

definition NewSNIMatcher :: SNIMatcher where
  "NewSNIMatcher = \<lparr> sm_exact = [], sm_wildcards = [] \<rparr>"

definition SNIMatcher_Add :: "string \<Rightarrow> SNIMatcher \<Rightarrow> SNIMatcher" where
  "SNIMatcher_Add pattern m =
     (if take 2 pattern = ''*.'' then m\<lparr>sm_wildcards := sm_wildcards m @ [drop 2 pattern]\<rparr>
      else m\<lparr>sm_exact := List.insert pattern (sm_exact m)\<rparr>)"

definition SNIMatcher_Match :: "string \<Rightarrow> SNIMatcher \<Rightarrow> bool" where
  "SNIMatcher_Match sni m =
     (sni \<in> set (sm_exact m) \<or> (\<exists>w \<in> set (sm_wildcards m). HasSuffix sni w \<and> sni \<noteq> w))"

section \<open>The parser cannot panic\<close>

lemma skip_no_panic: "skip_vec8 e1 e2 data \<noteq> Panics" "skip_vec16 e1 e2 data \<noteq> Panics"
  by (simp_all add: skip_vec8_def skip_vec16_def no_panic del: in_range Uint16_at)

lemma sni_entries_no_panic: "sni_entries data \<noteq> Panics"
proof (induction data rule: sni_entries.induct)
  case (1 data)
  then show ?case
    by (subst sni_entries.simps) (auto simp: no_panic simp del: in_range Uint16_at split: option.split)
qed

lemma parseSNIList_no_panic: "parseSNIList data \<noteq> Panics"
  by (simp add: parseSNIList_def sni_entries_no_panic no_panic del: in_range Uint16_at)

lemma parseSNIExtension_no_panic: "parseSNIExtension data \<noteq> Panics"
proof (induction data rule: parseSNIExtension.induct)
  case (1 data)
  then show ?case
    by (subst parseSNIExtension.simps) (auto simp: no_panic parseSNIList_no_panic simp del: in_range Uint16_at)
qed

lemma parseClientHello_no_panic: "parseClientHello data \<noteq> Panics"
  unfolding parseClientHello_def
  by (simp add: no_panic skip_no_panic parseSNIExtension_no_panic del: in_range Uint16_at)

lemma ParseClientHelloSNI_no_panic: "ParseClientHelloSNI data \<noteq> Panics"
  by (auto simp: ParseClientHelloSNI_def parseClientHello_no_panic no_panic simp del: in_range Uint16_at)

section \<open>A grammar of ClientHello records\<close>

record ClientHello =
  ch_version :: nat
  ch_random :: bytes
  ch_session :: bytes
  ch_suites :: bytes
  ch_compression :: bytes
  ch_extensions :: "(nat \<times> bytes) list"

definition vec8 :: "bytes \<Rightarrow> bytes" where
  "vec8 d = char_of (length d) # d"

definition vec16 :: "bytes \<Rightarrow> bytes" where
  "vec16 d = PutUint16 (length d) @ d"

definition extension :: "nat \<times> bytes \<Rightarrow> bytes" where
  "extension e = PutUint16 (fst e) @ vec16 (snd e)"

definition hello_body :: "ClientHello \<Rightarrow> bytes" where
  "hello_body ch = PutUint16 (ch_version ch) @ ch_random ch @ vec8 (ch_session ch) @ vec16 (ch_suites ch) @
     vec8 (ch_compression ch) @ vec16 (concat (map extension (ch_extensions ch)))"

definition handshake :: "ClientHello \<Rightarrow> bytes" where
  "handshake ch = (let n = length (hello_body ch)
     in CHR 0x01 # char_of (n div 65536) # char_of (n div 256) # char_of n # hello_body ch)"

definition hello_record :: "nat \<Rightarrow> ClientHello \<Rightarrow> bytes" where
  "hello_record v ch = CHR 0x16 # PutUint16 v @ vec16 (handshake ch)"

definition name_entry :: "nat \<times> string \<Rightarrow> bytes" where
  "name_entry e = char_of (fst e) # vec16 (snd e)"

definition name_list :: "(nat \<times> string) list \<Rightarrow> bytes" where
  "name_list ns = vec16 (concat (map name_entry ns))"

definition hello_ok :: "ClientHello \<Rightarrow> bool" where
  "hello_ok ch = (0x0300 \<le> ch_version ch \<and> ch_version ch \<le> 0x0304 \<and> length (ch_random ch) = 32 \<and>
     length (ch_session ch) < 256 \<and> length (ch_compression ch) < 256 \<and>
     (\<forall>(t, d) \<in> set (ch_extensions ch). t < 65536) \<and> length (handshake ch) < 65536)"

text \<open>What the parser should find: the first entry that is a host name, if it is a valid name.\<close>

definition server_name :: "(nat \<times> string) list \<Rightarrow> string decoded" where
  "server_name ns =
     (case find (\<lambda>(t, h). t = 0) ns of
        None \<Rightarrow> Malformed ''no host name SNI found''
      | Some (t, h) \<Rightarrow> (case validateSNIHostname h of Some e \<Rightarrow> Malformed e | None \<Rightarrow> Decoded h))"

lemma length_vec [simp]: "length (vec8 d) = Suc (length d)" "length (vec16 d) = length d + 2"
  by (simp_all add: vec8_def vec16_def)

lemma drop_PutUint16 [simp]: "drop 2 (PutUint16 n @ xs) = xs"
  by (simp add: PutUint16_def)

lemma Uint16_vec16 [simp]: "length d < 65536 \<Longrightarrow> Uint16 (vec16 d @ xs) = length d"
  by (simp add: vec16_def)

lemma drop_vec16 [simp]: "drop 2 (vec16 d @ xs) = d @ xs" "drop 2 (vec16 d) = d"
  by (simp_all add: vec16_def PutUint16_def)

lemma skip_vec [simp]:
  "length d < 256 \<Longrightarrow> skip_vec8 e1 e2 (vec8 d @ xs) = Decoded xs"
  "length d < 65536 \<Longrightarrow> skip_vec16 e1 e2 (vec16 d @ xs) = Decoded xs"
  by (simp_all add: skip_vec8_def skip_vec16_def vec8_def)

lemma sni_entries_names:
  assumes "\<forall>(t, h) \<in> set ns. t < 256 \<and> length h < 65536"
  shows "sni_entries (concat (map name_entry ns)) = server_name ns"
  using assms
proof (induction ns)
  case Nil
  then show ?case by (simp add: sni_entries.simps [of "[]"] server_name_def)
next
  case (Cons e ns)
  obtain t h where e: "e = (t, h)" and t: "t < 256" "length h < 65536" using Cons.prems by (cases e) auto
  let ?r = "concat (map name_entry ns)"
  have d: "drop 1 (name_entry e @ ?r) = vec16 h @ ?r" "(name_entry e @ ?r) ! 0 = char_of t" "length (name_entry e) = length h + 3"
    by (simp_all add: name_entry_def e)
  have "drop 3 (name_entry e @ ?r) = h @ ?r" using drop_vec16(1) [of h ?r] d(1) by (metis drop_drop numeral_3_eq_3 numeral_2_eq_2 One_nat_def add_Suc_right add_0_right)
  moreover from this have "drop (3 + length h) (name_entry e @ ?r) = ?r" by (metis add.commute append_eq_conv_conj drop_drop)
  ultimately show ?case
    using Cons t d by (subst sni_entries.simps) (simp add: server_name_def e)
qed


lemma parseSNIList_names:
  assumes "\<forall>(t, h) \<in> set ns. t < 256 \<and> length h < 65536" "length (concat (map name_entry ns)) < 65536"
  shows "parseSNIList (name_list ns) = server_name ns"
  using sni_entries_names [OF assms(1)] assms(2) Uint16_vec16 [OF assms(2), of "[]"] drop_vec16(1) [of "concat (map name_entry ns)" "[]"]
  by (simp add: parseSNIList_def name_list_def del: Uint16_vec16 drop_vec16 length_concat)

lemma extension_fields:
  assumes "t < 65536" "length d < 65536"
  shows "length (extension (t, d)) = length d + 4" "Uint16 (extension (t, d) @ r) = t" "Uint16 (drop 2 (extension (t, d) @ r)) = length d"
    "drop 4 (extension (t, d) @ r) = d @ r" "drop (4 + length d) (extension (t, d) @ r) = r"
proof -
  show d: "drop 4 (extension (t, d) @ r) = d @ r" by (simp add: extension_def vec16_def PutUint16_def)
  show "drop (4 + length d) (extension (t, d) @ r) = r" by (metis d add.commute append_eq_conv_conj drop_drop)
qed (use assms in \<open>simp_all add: extension_def vec16_def PutUint16_def Uint16_def\<close>)

lemma parseSNIExtension_skip:
  assumes "t < 65536" "length d < 65536" "t \<noteq> 0"
  shows "parseSNIExtension (extension (t, d) @ r) = parseSNIExtension r"
  using assms extension_fields [OF assms(1,2)] by (subst parseSNIExtension.simps) simp

lemma parseSNIExtension_names:
  assumes "length d < 65536"
  shows "parseSNIExtension (extension (0, d) @ r) = parseSNIList d"
  using assms extension_fields [of 0 d] by (subst parseSNIExtension.simps) simp

lemma parseSNIExtension_skips:
  assumes "\<forall>(t, d) \<in> set es. t < 65536 \<and> length d < 65536 \<and> t \<noteq> 0"
  shows "parseSNIExtension (concat (map extension es) @ r) = parseSNIExtension r"
  using assms by (induction es) (auto simp: parseSNIExtension_skip)

lemma member_length_concat: "x \<in> set xs \<Longrightarrow> length (f x) \<le> length (concat (map f xs))"
  by (induction xs) auto

lemma hello_sizes:
  assumes "hello_ok ch"
  shows "length (ch_suites ch) < 65536" "length (concat (map extension (ch_extensions ch))) < 65536"
    "length (hello_body ch) < 65532" "e \<in> set (ch_extensions ch) \<Longrightarrow> fst e < 65536 \<and> length (snd e) < 65536"
proof -
  show b: "length (hello_body ch) < 65532" using assms by (simp add: hello_ok_def handshake_def Let_def)
  then show "length (ch_suites ch) < 65536" "length (concat (map extension (ch_extensions ch))) < 65536"
    by (simp_all add: hello_body_def del: length_concat)
  then show "fst e < 65536 \<and> length (snd e) < 65536" if "e \<in> set (ch_extensions ch)"
    using that assms member_length_concat [OF that, of extension] by (auto simp: hello_ok_def extension_def)
qed

lemma parseClientHello_handshake:
  assumes "hello_ok ch"
  shows "parseClientHello (handshake ch @ r) = parseSNIExtension (concat (map extension (ch_extensions ch)))"
proof -
  let ?n = "length (hello_body ch)" and ?e = "concat (map extension (ch_extensions ch))"
  note sz = hello_sizes [OF assms]
  have v: "0x0300 \<le> ch_version ch" "ch_version ch \<le> 0x0304" "length (ch_random ch) = 32" "length (ch_session ch) < 256" "length (ch_compression ch) < 256"
    using assms by (auto simp: hello_ok_def)
  have n: "?n < 65536" "?n div 256 < 256" using sz(3) by (simp_all add: less_mult_imp_div_less)
  have hs: "length (handshake ch @ r) = ?n + 4 + length r" "drop 4 (handshake ch @ r) = hello_body ch @ r"
    "(handshake ch @ r) ! 1 = char_of (?n div 65536)" "(handshake ch @ r) ! 2 = char_of (?n div 256)" "(handshake ch @ r) ! 3 = char_of ?n"
    by (simp_all add: handshake_def Let_def)
  have body: "hello_body ch @ r = PutUint16 (ch_version ch) @ ch_random ch @ vec8 (ch_session ch) @ vec16 (ch_suites ch) @ vec8 (ch_compression ch) @ vec16 ?e @ r"
    by (simp add: hello_body_def)
  have len: "2 \<le> length (hello_body ch @ r)" by (simp add: hello_body_def)
  show ?thesis
    unfolding parseClientHello_def using hs n v sz(1,2) len
    by (simp add: body del: length_concat)
qed


lemma hello_record_parse:
  assumes "hello_ok ch" "0x0300 \<le> v" "v \<le> 0x0304"
  shows "ParseClientHelloSNI (hello_record v ch @ r) = parseSNIExtension (concat (map extension (ch_extensions ch)))"
proof -
  let ?h = "handshake ch" and ?d = "hello_record v ch @ r"
  have l: "length ?h < 65536" "4 \<le> length ?h" "?h ! 0 = CHR 0x01" using assms(1) by (simp_all add: hello_ok_def handshake_def Let_def)
  have d: "length ?d = length ?h + 5 + length r" "?d ! 0 = CHR 0x16" "drop 1 ?d = PutUint16 v @ vec16 ?h @ r"
    "drop 3 ?d = vec16 ?h @ r" "drop 5 ?d = ?h @ r"
    by (simp_all add: hello_record_def vec16_def PutUint16_def)
  have "?d ! 5 = (drop 5 ?d) ! 0" using d(1) nth_drop [of 5 ?d 0] by simp
  also have "\<dots> = CHR 0x01" unfolding d(5) using l by (cases ?h) simp_all
  finally have "?d ! 5 = CHR 0x01" .
  moreover have "?h \<noteq> []" using l(2) by auto
  ultimately show ?thesis using l d assms(2,3)    unfolding ParseClientHelloSNI_def by (simp add: parseClientHello_handshake [OF assms(1)])
qed

section \<open>Routes\<close>

text \<open>A wildcard pattern covers a name with one or more labels before its suffix.\<close>

definition wildcard_covers :: "string \<Rightarrow> string \<Rightarrow> bool" where
  "wildcard_covers p sni = (\<exists>pre suf. p = ''*.'' @ suf \<and> sni = pre @ CHR ''.'' # suf)"

lemma join_split: "join_with c (split_on c s) = s"
proof (induction s)
  case (Cons x s)
  obtain p ps where "split_on c s = p # ps" using split_on_nonempty [of c s] by (cases "split_on c s") auto
  with Cons show ?case by (cases ps) auto
qed simp

lemma join_append: "ps \<noteq> [] \<Longrightarrow> qs \<noteq> [] \<Longrightarrow> join_with c (ps @ qs) = join_with c ps @ c # join_with c qs"
proof (induction ps)
  case (Cons p ps)
  then show ?case by (cases ps; cases qs) auto
qed simp

lemma wildcards_covers: "set (wildcards sni) = {p. wildcard_covers p sni}"
proof (intro set_eqI iffI)
  let ?P = "split_on CHR ''.'' sni"
  fix p
  assume "p \<in> set (wildcards sni)"
  then obtain i where i: "1 \<le> i" "i < length ?P" "p = ''*.'' @ join_with CHR ''.'' (drop i ?P)" by (auto simp: wildcards_def Let_def)
  then have "sni = join_with CHR ''.'' (take i ?P) @ CHR ''.'' # join_with CHR ''.'' (drop i ?P)"
    using join_append [of "take i ?P" "drop i ?P" "CHR ''.''"] join_split [of "CHR ''.''" sni] by auto
  with i(3) show "p \<in> {p. wildcard_covers p sni}" unfolding wildcard_covers_def by blast
next
  fix p
  assume "p \<in> {p. wildcard_covers p sni}"
  then obtain pre suf where p: "p = ''*.'' @ suf" "sni = pre @ CHR ''.'' # suf" by (auto simp: wildcard_covers_def)
  let ?i = "length (split_on CHR ''.'' pre)"
  have "split_on CHR ''.'' sni = split_on CHR ''.'' pre @ split_on CHR ''.'' suf" using p(2) by (simp add: split_on_append)
  moreover have "0 < ?i" "0 < length (split_on CHR ''.'' suf)" by simp_all
  ultimately show "p \<in> set (wildcards sni)"
    using p(1) unfolding wildcards_def Let_def by (auto simp: join_split Suc_le_eq intro!: image_eqI [of _ _ ?i])
qed


lemma wildcards_longer: "sorted_wrt (\<lambda>p q. length q < length p) (wildcards sni)"
proof -
  let ?P = "split_on CHR ''.'' sni"
  have "length (join_with CHR ''.'' (drop j ?P)) < length (join_with CHR ''.'' (drop i ?P))" if "i < j" "j < length ?P" for i j
  proof -
    have "drop i ?P = take (j - i) (drop i ?P) @ drop j ?P" using that by (metis append_take_drop_id drop_drop le_add_diff_inverse2 less_imp_le)
    moreover have "take (j - i) (drop i ?P) \<noteq> []" "drop j ?P \<noteq> []" using that by auto
    ultimately have "join_with CHR ''.'' (drop i ?P) = join_with CHR ''.'' (take (j - i) (drop i ?P)) @ CHR ''.'' # join_with CHR ''.'' (drop j ?P)"
      by (metis join_append)
    then show ?thesis by simp
  qed
  then show ?thesis unfolding wildcards_def Let_def by (simp add: sorted_wrt_map sorted_wrt_iff_nth_less)
qed

lemma find_map_longest:
  assumes "sorted_wrt (\<lambda>p q. length q < length p) ps" "find_map f ps = Some b"
  shows "\<exists>p \<in> set ps. f p = Some b \<and> (\<forall>q \<in> set ps. length p < length q \<longrightarrow> f q = None)"
  using assms
proof (induction ps)
  case (Cons p ps)
  show ?case
  proof (cases "f p")
    case None
    with Cons obtain q where "q \<in> set ps" "f q = Some b" "\<forall>q' \<in> set ps. length q < length q' \<longrightarrow> f q' = None" by auto
    with None show ?thesis by auto
  next
    case (Some x)
    with Cons.prems show ?thesis by force
  qed
qed simp

section \<open>Properties\<close>

lemma scan_hostname_None: "scan_hostname i h = None \<longleftrightarrow> (\<forall>c \<in> set h. \<not> (of_char c < (0x20 :: nat) \<or> of_char c = (0x7f :: nat)) \<and> (alnum c \<or> c = CHR ''-'' \<or> c = CHR ''.''))"
  by (induction h arbitrary: i) auto

lemma validate_None:
  "validateSNIHostname h = None \<Longrightarrow> 0 < length h \<and> length h \<le> 253 \<and> list_all (\<lambda>c. alnum c \<or> c = CHR ''-'' \<or> c = CHR ''.'') h"
  by (auto simp: validateSNIHostname_def scan_hostname_None list_all_iff split: if_splits)

lemma sni_entries_valid: "sni_entries data = Decoded h \<Longrightarrow> validateSNIHostname h = None"
proof (induction data rule: measure_induct_rule [of length])
  case (less data)
  from less.prems show ?case
    by (subst (asm) sni_entries.simps)
      (auto simp: bind_Decoded decoded_slice simp del: in_range Uint16_at split: if_splits option.splits dest!: less.IH [rotated])
qed

lemma parseSNIExtension_valid: "parseSNIExtension data = Decoded h \<Longrightarrow> validateSNIHostname h = None"
proof (induction data rule: measure_induct_rule [of length])
  case (less data)
  from less.prems show ?case
    by (subst (asm) parseSNIExtension.simps)
      (auto simp: bind_Decoded decoded_slice parseSNIList_def sni_entries_valid simp del: in_range Uint16_at split: if_splits dest!: less.IH [rotated])
qed

lemma ParseClientHelloSNI_valid: "ParseClientHelloSNI data = Decoded h \<Longrightarrow> validateSNIHostname h = None"
  unfolding ParseClientHelloSNI_def parseClientHello_def
  by (auto simp: bind_Decoded simp del: in_range Uint16_at split: if_splits dest: parseSNIExtension_valid)

text \<open>
  C15. The parser of the ClientHello is total and typed: on every byte string it returns an error or a host name
  of 1 to 253 letters, digits, hyphens and dots; no slice expression is ever out of range.
\<close>

theorem SNI_parse_typed:
  "case ParseClientHelloSNI data of
     Decoded h \<Rightarrow> 0 < length h \<and> length h \<le> 253 \<and> list_all (\<lambda>c. alnum c \<or> c = CHR ''-'' \<or> c = CHR ''.'') h
   | Malformed e \<Rightarrow> True
   | Panics \<Rightarrow> False"
  using ParseClientHelloSNI_no_panic [of data] validate_None [OF ParseClientHelloSNI_valid]
  by (auto split: decoded.split)

text \<open>
  C14. The parser reads what a client wrote: from the record of any ClientHello of the grammar, whatever its
  session, cipher suites and other extensions, and whatever follows the record, it returns the
  first host name of the server name extension, or the error of that name.
\<close>

theorem SNI_hello_parsed:
  assumes "hello_ok ch" "0x0300 \<le> v" "v \<le> 0x0304"
    and "ch_extensions ch = pre @ (0, name_list ns) # post" "0 \<notin> fst ` set pre"
    and "\<forall>(t, h) \<in> set ns. t < 256 \<and> length h < 65536"
  shows "ParseClientHelloSNI (hello_record v ch @ rest) = server_name ns"
proof -
  have sz: "\<forall>(t, d) \<in> set pre. t < 65536 \<and> length d < 65536 \<and> t \<noteq> 0" "length (name_list ns) < 65536"
    using hello_sizes(4) [OF assms(1)] assms(4,5) by (force simp: image_iff)+
  then have "length (concat (map name_entry ns)) < 65536" by (simp add: name_list_def del: length_concat)
  with sz show ?thesis
    unfolding hello_record_parse [OF assms(1-3)] assms(4)
    by (simp add: parseSNIExtension_skips parseSNIExtension_names parseSNIList_names [OF assms(6)] del: length_concat)
qed

text \<open>
  C16. Reading ahead is invisible to the backend: when a connection is routed, reading the connection that is
  handed on gives every byte the client sent, from the first byte of the record header, in order and
  whatever the sizes of the reads; and the route is the one of the name in that record.
\<close>

theorem SNI_route_transparent:
  assumes "RouteConnection r conn = RouteTo b c" "\<forall>(k, n) \<in> set ks. 0 < k \<and> 0 < n" "length conn \<le> length ks"
  shows "fst (conn_reads peekedConn_Read ks c) = conn \<and>
    (\<exists>n sni. ParseClientHelloSNI (take n conn) = Decoded sni \<and> SNIRouter_GetRoute sni r = Some b)"
proof -
  obtain sni where p: "peekClientHello r conn = (Decoded sni, c)" "SNIRouter_GetRoute sni r = Some b"
    using assms(1) by (auto simp: RouteConnection_def split: prod.splits decoded.splits option.splits)
  then obtain n where "ParseClientHelloSNI (take n conn) = Decoded sni" "c = peeked (drop n conn) (take n conn)"
    by (auto simp: peekClientHello_def ReadFull_def Let_def take_add [symmetric] add.commute split: if_splits)
  moreover from this have "pc_pending c = conn" by (simp add: pc_pending_def peeked_def)
  ultimately show ?thesis using peek.reads_all [OF assms(2), of c] assms(3) p(2) by auto
qed

text \<open>
  Routes are chosen by specificity: an exact route of the name wins, otherwise the longest wildcard route
  that covers the name, and no route is found only if none covers it.
\<close>

theorem SNI_GetRoute_specific:
  "case SNIRouter_GetRoute sni r of
     None \<Rightarrow> map_of (sr_routes r) (map to_lower sni) = None \<and> {p. wildcard_covers p sni} \<inter> fst ` set (sr_routes r) = {}
   | Some b \<Rightarrow>
       map_of (sr_routes r) (map to_lower sni) = Some b \<or>
       map_of (sr_routes r) (map to_lower sni) = None \<and>
       (\<exists>p. wildcard_covers p sni \<and> map_of (sr_routes r) p = Some b \<and>
            {q. wildcard_covers q sni \<and> length p < length q} \<inter> fst ` set (sr_routes r) = {})"
proof (cases "map_of (sr_routes r) (map to_lower sni)")
  case (Some b)
  then show ?thesis by (simp add: SNIRouter_GetRoute_def lookup_route_def)
next
  case None
  show ?thesis
  proof (cases "find_map (map_of (sr_routes r)) (wildcards sni)")
    case n: None
    then have "\<forall>p. wildcard_covers p sni \<longrightarrow> p \<notin> fst ` set (sr_routes r)"
      using wildcards_covers [of sni] by (auto simp: find_map_None map_of_None_iff_key)
    with None n show ?thesis by (auto simp: SNIRouter_GetRoute_def lookup_route_def)
  next
    case (Some b)
    from find_map_longest [OF wildcards_longer this] obtain p where p: "wildcard_covers p sni" "map_of (sr_routes r) p = Some b"
      "\<forall>q. wildcard_covers q sni \<longrightarrow> length p < length q \<longrightarrow> q \<notin> fst ` set (sr_routes r)"
      using wildcards_covers [of sni] by (auto simp: map_of_None_iff_key)
    with None Some show ?thesis by (auto simp: SNIRouter_GetRoute_def lookup_route_def)
  qed
qed


lemma peek_hello:
  assumes "hello_ok ch" "int (length (handshake ch)) \<le> src_MaxHandshakeSize (sr_config r)"
  shows "peekClientHello r (hello_record v ch @ rest) = (ParseClientHelloSNI (hello_record v ch), peeked rest (hello_record v ch))"
proof -
  let ?h = "handshake ch" and ?hd = "CHR 0x16 # PutUint16 v @ PutUint16 (length (handshake ch))"
  have "Uint16 (PutUint16 (length ?h) @ []) = length ?h" using assms(1) by (intro Uint16_Put) (simp add: hello_ok_def)
  then have len: "of_char (?hd ! 3) * 256 + of_char (?hd ! 4) = length ?h" by (simp add: Uint16_def PutUint16_def)
  have rec: "hello_record v ch @ rest = ?hd @ ?h @ rest" "length ?hd = 5" by (simp_all add: hello_record_def vec16_def)
  then have "ReadFull 5 (hello_record v ch @ rest) = Some (?hd, ?h @ rest)" by (simp add: ReadFull_def)
  moreover have "ReadFull (length ?h) (?h @ rest) = Some (?h, rest)" by (simp add: ReadFull_def)
  ultimately show ?thesis
    unfolding peekClientHello_def Let_def using assms(2) by (simp only: option.case prod.case len) (simp add: hello_record_def vec16_def)
qed

section \<open>Examples\<close>

definition example_hello :: ClientHello where
  "example_hello = \<lparr> ch_version = 0x0303, ch_random = replicate 32 (CHR 0x07), ch_session = [], ch_suites = [CHR 0x13, CHR 0x01],
     ch_compression = [CHR 0x00], ch_extensions = [(23, []), (0, name_list [(0, ''a.example.com'')]), (43, [CHR 0x02])] \<rparr>"

definition example_router :: SNIRouter where
  "example_router = SNIRouter_AddRoute ''*.Example.com'' 7 (SNIRouter_AddRoute ''*.com'' 8 (NewSNIRouter None))"

lemmas hello_eval = hello_record_def handshake_def hello_body_def extension_def example_hello_def name_list_def name_entry_def vec16_def vec8_def

lemma example_hello_ok: "hello_ok example_hello"
  by (simp add: hello_ok_def hello_eval)

lemma example_name: "server_name [(0, ''a.example.com'')] = Decoded ''a.example.com''"
  by (simp add: server_name_def validateSNIHostname_def alnum_def is_lower_def)

theorem SNI_hello_parsed_witness:
  "ParseClientHelloSNI (hello_record 0x0301 example_hello @ ''more'') = Decoded ''a.example.com''"
proof -
  have "ch_extensions example_hello = [(23, [])] @ (0, name_list [(0, ''a.example.com'')]) # [(43, [CHR 0x02])]"
    by (simp add: example_hello_def)
  from SNI_hello_parsed [OF example_hello_ok _ _ this, of "0x0301" "''more''"] show ?thesis by (simp add: example_name)
qed

lemma example_routed: "RouteConnection example_router (hello_record 0x0301 example_hello) = RouteTo 7 (peeked [] (hello_record 0x0301 example_hello))"
proof -
  have "ch_extensions example_hello = [(23, [])] @ (0, name_list [(0, ''a.example.com'')]) # [(43, [CHR 0x02])]"
    by (simp add: example_hello_def)
  then have "ParseClientHelloSNI (hello_record 0x0301 example_hello) = Decoded ''a.example.com''"
    using hello_record_parse [OF example_hello_ok, of "0x0301" "[]"] parseSNIExtension_skip [of 23 "[]"]
      parseSNIExtension_names [of "name_list [(0, ''a.example.com'')]"] parseSNIList_names [of "[(0, ''a.example.com'')]"]
    by (simp add: example_name) (simp add: name_list_def name_entry_def)
  moreover have "SNIRouter_GetRoute ''a.example.com'' example_router = Some 7" by code_simp
  moreover have "length (handshake example_hello) \<le> 16384" by (simp add: hello_eval)
  moreover have "src_MaxHandshakeSize (sr_config example_router) = 16384"
    by (simp add: example_router_def SNIRouter_AddRoute_def NewSNIRouter_def DefaultSNIRouterConfig_def)
  ultimately show ?thesis using peek_hello [OF example_hello_ok, of example_router "0x0301" "[]"] by (simp add: RouteConnection_def)
qed

theorem SNI_route_transparent_witness:
  "fst (conn_reads peekedConn_Read (replicate 200 (1, 1)) (peeked [] (hello_record 0x0301 example_hello))) = hello_record 0x0301 example_hello"
proof -
  have "length (hello_record 0x0301 example_hello) \<le> length (replicate 200 (1 :: nat, 1 :: nat))" by (simp add: hello_eval)
  from SNI_route_transparent [OF example_routed _ this] show ?thesis by simp
qed

text \<open>The exact lookup ignores the case of a name, the wildcard lookup does not, although server names are
  case-insensitive and the routes are stored in lower case.\<close>

lemma SNI_wildcard_case:
  "SNIRouter_GetRoute ''a.example.com'' example_router = Some 7" "SNIRouter_GetRoute ''a.Example.com'' example_router = Some 8"
  "SNIRouter_GetRoute ''A.EXAMPLE.COM'' example_router = None"
  by code_simp+

text \<open>A connection without a matching route is closed even if a default backend is configured.\<close>

lemma SNI_default_unused:
  "RouteConnection (r\<lparr>sr_config := (sr_config r)\<lparr>src_DefaultBackend := d\<rparr>\<rparr>) conn = RouteFailed e \<Longrightarrow>
   \<exists>e'. RouteConnection r conn = RouteFailed e'"
  by (auto simp: RouteConnection_def peekClientHello_def SNIRouter_GetRoute_def Let_def
      split: prod.splits decoded.splits option.splits if_splits)

text \<open>The matcher compares suffixes without the dot, so a wildcard also matches foreign domains.\<close>

lemma SNI_matcher_foreign: "SNIMatcher_Match ''evilexample.com'' (SNIMatcher_Add ''*.example.com'' NewSNIMatcher)"
  by code_simp

text \<open>A proxied connection gives back its slot on every path.\<close>

lemma proxyToBackend_slot:
  assumes "- (2 ^ 63) \<le> b_activeConns (h b)" "b_activeConns (h b) < 2 ^ 63"
  shows "b_activeConns (snd (proxyToBackend dialErr copyErr b h) b) = b_activeConns (h b)"
  using wrap_i64_back [OF assms]
  by (auto simp: proxyToBackend_def Backend_AcquireConn_def Backend_ReleaseConn_def Backend_RecordError_def split: option.split)

lemma sni_accept_bound:
  "sp_activeConns p \<le> sp_maxConns p \<Longrightarrow> sp_activeConns (snd (sni_accept p)) \<le> sp_maxConns (snd (sni_accept p))"
  by (simp add: sni_accept_def)

end
