(* ===== verification/Proxy_Protocol.thy ===== *)
theory Proxy_Protocol
  imports Bytes Go_Net Go_Strings
begin

text \<open>
  The PROXY protocol, \<^verbatim>\<open>internal/proxy/l4/proxyproto.go\<close>: the parsers and writers of both versions of
  the header and the listener that decides from whom a header is taken. An address is a \<^verbatim>\<open>net.Addr\<close>;
  bytes of an address and bytes of the input are different types, with a conversion.
\<close>

section \<open>Headers\<close>

datatype PROXYProtocolVersion = PROXYProtocolV1 | PROXYProtocolV2

type_synonym PROXYProtocolCommand = nat
type_synonym PROXYProtocolFamily = nat
type_synonym PROXYProtocolTransport = nat

abbreviation (input) PROXYCommandProxy :: PROXYProtocolCommand where "PROXYCommandProxy \<equiv> 1"
abbreviation (input) PROXYCommandLocal :: PROXYProtocolCommand where "PROXYCommandLocal \<equiv> 0"
abbreviation (input) PROXYAFUnspec :: PROXYProtocolFamily where "PROXYAFUnspec \<equiv> 0"
abbreviation (input) PROXYAFInet :: PROXYProtocolFamily where "PROXYAFInet \<equiv> 16"
abbreviation (input) PROXYAFInet6 :: PROXYProtocolFamily where "PROXYAFInet6 \<equiv> 32"
abbreviation (input) PROXYAFUnix :: PROXYProtocolFamily where "PROXYAFUnix \<equiv> 48"
abbreviation (input) PROXYTransportUnspec :: PROXYProtocolTransport where "PROXYTransportUnspec \<equiv> 0"
abbreviation (input) PROXYTransportStream :: PROXYProtocolTransport where "PROXYTransportStream \<equiv> 1"
abbreviation (input) PROXYTransportDgram :: PROXYProtocolTransport where "PROXYTransportDgram \<equiv> 2"

datatype NetAddr = TCPAddr IP int | UDPAddr IP int | OtherAddr string

record PROXYTLV =
  tlv_Type :: nat
  tlv_Value :: bytes

record PROXYHeader =
  ph_Version :: PROXYProtocolVersion
  ph_Command :: PROXYProtocolCommand
  ph_Family :: PROXYProtocolFamily
  ph_Transport :: PROXYProtocolTransport
  ph_SourceAddr :: "NetAddr option"
  ph_DestAddr :: "NetAddr option"
  ph_TLVs :: "PROXYTLV list"

record PROXYProtocolConfig =
  ppc_AcceptV1 :: bool
  ppc_AcceptV2 :: bool
  ppc_SendV1 :: bool
  ppc_SendV2 :: bool
  ppc_AllowLocal :: bool
  ppc_OverrideTo :: string
  ppc_TrustedNetworks :: "string list"

definition DefaultPROXYProtocolConfig :: PROXYProtocolConfig where
  "DefaultPROXYProtocolConfig = \<lparr> ppc_AcceptV1 = True, ppc_AcceptV2 = True, ppc_SendV1 = False, ppc_SendV2 = False,
     ppc_AllowLocal = True, ppc_OverrideTo = '''', ppc_TrustedNetworks = [] \<rparr>"

definition ip_of_bytes :: "bytes \<Rightarrow> IP" where
  "ip_of_bytes b = map (\<lambda>c. of_nat (of_char c)) b"

definition bytes_of_ip :: "IP \<Rightarrow> bytes" where
  "bytes_of_ip ip = map (\<lambda>b. char_of (unat b)) ip"

section \<open>Standard library\<close>

text \<open>\<^verbatim>\<open>bytes.Cut\<close> at a carriage return and a line feed.\<close>

fun cut_crlf :: "bytes \<Rightarrow> (bytes \<times> bytes) option" where
  "cut_crlf (a # b # r) =
     (if a = CHR 0x0D \<and> b = CHR 0x0A then Some ([], r)
      else case cut_crlf (b # r) of None \<Rightarrow> None | Some (l, r') \<Rightarrow> Some (a # l, r'))"
| "cut_crlf r = None"

abbreviation crlf :: bytes where
  "crlf \<equiv> [CHR 0x0D, CHR 0x0A]"

section \<open>Parsing\<close>

text \<open>A parser returns the header and the remaining input.\<close>

definition v2_signature :: bytes where
  "v2_signature = [CHR 0x0D, CHR 0x0A, CHR 0x0D, CHR 0x0A, CHR 0x00, CHR 0x0D, CHR 0x0A, CHR 0x51,
                   CHR 0x55, CHR 0x49, CHR 0x54, CHR 0x0A]"

definition isPROXYProtocolV1 :: "bytes \<Rightarrow> bool" where
  "isPROXYProtocolV1 data = (length data \<ge> 5 \<and> take 5 data = ''PROXY'')"

definition isPROXYProtocolV2 :: "bytes \<Rightarrow> bool" where
  "isPROXYProtocolV2 data = (length data \<ge> 12 \<and> take 12 data = v2_signature)"

definition IsPROXYProtocol :: "bytes \<Rightarrow> bool" where
  "IsPROXYProtocol data = (isPROXYProtocolV1 data \<or> isPROXYProtocolV2 data)"

definition v1_protocol :: "string \<Rightarrow> (PROXYProtocolFamily \<times> PROXYProtocolTransport) option" where
  "v1_protocol p =
     (if p = ''TCP4'' then Some (PROXYAFInet, PROXYTransportStream)
      else if p = ''TCP6'' then Some (PROXYAFInet6, PROXYTransportStream)
      else if p = ''UDP4'' then Some (PROXYAFInet, PROXYTransportDgram)
      else if p = ''UDP6'' then Some (PROXYAFInet6, PROXYTransportDgram)
      else None)"

definition new_header :: "PROXYProtocolVersion \<Rightarrow> PROXYProtocolCommand \<Rightarrow> PROXYProtocolFamily \<Rightarrow> PROXYProtocolTransport \<Rightarrow> PROXYHeader" where
  "new_header v c f t = \<lparr> ph_Version = v, ph_Command = c, ph_Family = f, ph_Transport = t, ph_SourceAddr = None, ph_DestAddr = None, ph_TLVs = [] \<rparr>"

definition parseV1 :: "bytes \<Rightarrow> (PROXYHeader \<times> bytes) decoded" where
  "parseV1 data =
     (case cut_crlf data of
        None \<Rightarrow> Malformed ''incomplete PROXY v1 header''
      | Some (line, remaining) \<Rightarrow>
          (let parts = split_on CHR '' '' line
           in if length parts < 2 then Malformed ''invalid PROXY v1 header''
              else if parts ! 1 = ''UNKNOWN''
              then Decoded (new_header PROXYProtocolV1 PROXYCommandProxy PROXYAFUnspec PROXYTransportUnspec, remaining)
              else case v1_protocol (parts ! 1) of
                     None \<Rightarrow> Malformed (''unknown protocol: '' @ parts ! 1)
                   | Some (fam, trp) \<Rightarrow>
                       if length parts \<noteq> 6 then Malformed ''invalid PROXY v1 header format''
                       else case Atoi (parts ! 4) of
                         None \<Rightarrow> Malformed (''invalid source port: '' @ parts ! 4)
                       | Some srcPort \<Rightarrow>
                         (case Atoi (parts ! 5) of
                            None \<Rightarrow> Malformed (''invalid destination port: '' @ parts ! 5)
                          | Some dstPort \<Rightarrow>
                            if srcPort < 0 \<or> srcPort > 65535 \<or> dstPort < 0 \<or> dstPort > 65535
                            then Malformed ''port out of valid range 0-65535''
                            else case (ParseIP (parts ! 2), ParseIP (parts ! 3)) of
                                   (Some srcIP, Some dstIP) \<Rightarrow>
                                     Decoded ((new_header PROXYProtocolV1 PROXYCommandProxy fam trp)
                                        \<lparr> ph_SourceAddr := Some (if trp = PROXYTransportDgram then UDPAddr srcIP srcPort else TCPAddr srcIP srcPort),
                                          ph_DestAddr := Some (if trp = PROXYTransportDgram then UDPAddr dstIP dstPort else TCPAddr dstIP dstPort) \<rparr>,
                                        remaining)
                                 | _ \<Rightarrow> Malformed ''invalid IP address'')))"

function parseTLVs :: "bytes \<Rightarrow> nat \<Rightarrow> PROXYTLV list decoded" where
  "parseTLVs data offset =
     (if offset \<ge> length data \<or> offset + 3 > length data then Decoded []
      else bind_decoded (byte_at data offset) (\<lambda>tlvType.
           bind_decoded (Uint16_at data (offset + 1)) (\<lambda>tlvLen.
             if offset + 3 + tlvLen > length data then Decoded []
             else bind_decoded (slice data (offset + 3) (offset + 3 + tlvLen)) (\<lambda>value.
                  bind_decoded (parseTLVs data (offset + (3 + tlvLen))) (\<lambda>tlvs.
                    Decoded (\<lparr> tlv_Type = tlvType, tlv_Value = value \<rparr> # tlvs))))))"
  by auto
termination
  by (relation "measure (\<lambda>(data, offset). length data - offset)") auto

declare parseTLVs.simps [simp del]

text \<open>The addresses and ports of a block with addresses of \<open>n\<close> bytes, and the records behind them.\<close>

definition parse_addresses :: "nat \<Rightarrow> bytes \<Rightarrow> PROXYHeader \<Rightarrow> PROXYHeader decoded" where
  "parse_addresses n addrData header =
     bind_decoded (slice addrData 0 n) (\<lambda>src.
     bind_decoded (slice addrData n (2 * n)) (\<lambda>dst.
     bind_decoded (Uint16_at addrData (2 * n)) (\<lambda>srcPort.
     bind_decoded (Uint16_at addrData (2 * n + 2)) (\<lambda>dstPort.
       let mk = (if ph_Transport header = PROXYTransportStream then TCPAddr else UDPAddr);
           header = header\<lparr> ph_SourceAddr := Some (mk (ip_of_bytes src) (int srcPort)),
                            ph_DestAddr := Some (mk (ip_of_bytes dst) (int dstPort)) \<rparr>
       in if length addrData > 2 * n + 4
          then bind_decoded (slice_from addrData (2 * n + 4)) (\<lambda>rest.
               bind_decoded (parseTLVs rest 0) (\<lambda>tlvs. Decoded (header\<lparr>ph_TLVs := tlvs\<rparr>)))
          else Decoded header))))"

text \<open>\<^verbatim>\<open>16+length\<close> is computed in \<^verbatim>\<open>uint16\<close> in the two slice expressions.\<close>

definition parseV2 :: "PROXYProtocolConfig \<Rightarrow> bytes \<Rightarrow> (PROXYHeader \<times> bytes) decoded" where
  "parseV2 config data =
     (if length data < 16 then Malformed ''data too short for PROXY v2 header''
      else bind_decoded (byte_at data 12) (\<lambda>verCmd.
        let command = verCmd mod 16
        in if command \<noteq> PROXYCommandProxy \<and> command \<noteq> PROXYCommandLocal then Malformed ''invalid command''
           else if command = PROXYCommandLocal \<and> \<not> ppc_AllowLocal config then Malformed ''local command not allowed''
           else bind_decoded (byte_at data 13) (\<lambda>famTrans.
             let header = new_header PROXYProtocolV2 command (famTrans div 16 * 16) (famTrans mod 16)
             in bind_decoded (Uint16_at data 14) (\<lambda>len.
                if length data < 16 + len then Malformed ''incomplete PROXY v2 header''
                else bind_decoded (slice16 data 16 len) (\<lambda>addrData.
                     bind_decoded (slice_from data ((16 + len) mod 65536)) (\<lambda>remaining.
                       if ph_Family header = PROXYAFInet then
                         (if length addrData < 12 then Malformed ''insufficient data for IPv4''
                          else bind_decoded (parse_addresses 4 addrData header) (\<lambda>h. Decoded (h, remaining)))
                       else if ph_Family header = PROXYAFInet6 then
                         (if length addrData < 36 then Malformed ''insufficient data for IPv6''
                          else bind_decoded (parse_addresses 16 addrData header) (\<lambda>h. Decoded (h, remaining)))
                       else if ph_Family header = PROXYAFUnix \<and> length addrData < 216 then Malformed ''insufficient data for UNIX''
                       else Decoded (header, remaining)))))))"

definition Parse_proxy :: "PROXYProtocolConfig \<Rightarrow> bytes \<Rightarrow> (PROXYHeader \<times> bytes) decoded" where
  "Parse_proxy config data =
     (if length data < 5 then Malformed ''data too short''
      else if isPROXYProtocolV2 data then
        (if \<not> ppc_AcceptV2 config then Malformed ''proxy protocol v2 not accepted'' else parseV2 config data)
      else if isPROXYProtocolV1 data then
        (if \<not> ppc_AcceptV1 config then Malformed ''proxy protocol v1 not accepted'' else parseV1 data)
      else Malformed ''not a PROXY protocol header'')"

section \<open>Writing\<close>

text \<open>The bytes that are written and flushed.\<close>

definition WriteV1 :: "NetAddr \<Rightarrow> NetAddr \<Rightarrow> bytes" where
  "WriteV1 srcAddr dstAddr =
     (case (srcAddr, dstAddr) of
        (TCPAddr srcIP srcPort, TCPAddr dstIP dstPort) \<Rightarrow>
          ''PROXY '' @ (if To4 srcIP \<noteq> None then ''TCP4'' else ''TCP6'') @ '' '' @ IP_String srcIP @ '' '' @ IP_String dstIP @ '' '' @
          int_dec srcPort @ '' '' @ int_dec dstPort @ crlf
      | _ \<Rightarrow> ''PROXY UNKNOWN'' @ crlf)"




definition FormatPROXYHeaderV1 :: "string \<Rightarrow> string \<Rightarrow> int \<Rightarrow> int \<Rightarrow> string" where
  "FormatPROXYHeaderV1 srcIP dstIP srcPort dstPort =
     ''PROXY TCP4 '' @ srcIP @ '' '' @ dstIP @ '' '' @ int_dec srcPort @ '' '' @ int_dec dstPort @ crlf"

definition PROXYProtocolVersion_String :: "PROXYHeader \<Rightarrow> string" where
  "PROXYProtocolVersion_String h = (case ph_Version h of PROXYProtocolV1 \<Rightarrow> ''1'' | PROXYProtocolV2 \<Rightarrow> ''2'')"

fun NetAddr_String :: "NetAddr \<Rightarrow> string" where
  "NetAddr_String (TCPAddr ip port) = JoinHostPort (IP_String ip) (int_dec port)"
| "NetAddr_String (UDPAddr ip port) = JoinHostPort (IP_String ip) (int_dec port)"
| "NetAddr_String (OtherAddr s) = s"

record PROXYProtocolInfo =
  ppi_Version :: string
  ppi_Command :: string
  ppi_Protocol :: string
  ppi_Source :: string
  ppi_Dest :: string

definition GetInfo :: "PROXYHeader \<Rightarrow> PROXYProtocolInfo" where
  "GetInfo h =
     \<lparr> ppi_Version = PROXYProtocolVersion_String h,
       ppi_Command = (if ph_Command h = PROXYCommandProxy then ''PROXY'' else if ph_Command h = PROXYCommandLocal then ''LOCAL'' else ''''),
       ppi_Protocol = (if ph_Family h = PROXYAFInet then (if ph_Transport h = PROXYTransportStream then ''TCP4'' else ''UDP4'')
                       else if ph_Family h = PROXYAFInet6 then (if ph_Transport h = PROXYTransportStream then ''TCP6'' else ''UDP6'')
                       else ''''),
       ppi_Source = (case ph_SourceAddr h of None \<Rightarrow> '''' | Some a \<Rightarrow> NetAddr_String a),
       ppi_Dest = (case ph_DestAddr h of None \<Rightarrow> '''' | Some a \<Rightarrow> NetAddr_String a) \<rparr>"

section \<open>The listener\<close>

record bufferedConn =
  bfc_Conn :: bytes
  bfc_buffer :: bytes
  bfc_offset :: nat

definition bufferedConn_Read :: "nat \<Rightarrow> nat \<Rightarrow> bufferedConn \<Rightarrow> bytes \<times> bufferedConn" where
  "bufferedConn_Read k n c =
     (if bfc_offset c < length (bfc_buffer c)
      then let p = take k (drop (bfc_offset c) (bfc_buffer c)) in (p, c\<lparr>bfc_offset := bfc_offset c + length p\<rparr>)
      else let (p, s) = Conn_Read k n (bfc_Conn c) in (p, c\<lparr>bfc_Conn := s\<rparr>))"

definition bfc_pending :: "bufferedConn \<Rightarrow> bytes" where
  "bfc_pending c = drop (bfc_offset c) (bfc_buffer c) @ bfc_Conn c"

interpretation buf: connection bufferedConn_Read bfc_pending
proof
  fix k n c
  show "fst (bufferedConn_Read k n c) @ bfc_pending (snd (bufferedConn_Read k n c)) = bfc_pending c"
    by (auto simp: bufferedConn_Read_def bfc_pending_def Let_def split_beta Conn_Read_def min_def)
      (metis append_take_drop_id drop_drop add.commute)
qed (auto simp: bufferedConn_Read_def bfc_pending_def Let_def split_beta Conn_Read_def)

record PROXYListener =
  pl_config :: PROXYProtocolConfig
  pl_trustedNets :: "IPNet list"
  pl_trustedReady :: bool

definition initTrustedNets :: "PROXYListener \<Rightarrow> PROXYListener" where
  "initTrustedNets l =
     (if ppc_TrustedNetworks (pl_config l) = [] then l
      else let nets = pl_trustedNets l @ map snd (List.map_filter ParseCIDR (ppc_TrustedNetworks (pl_config l)))
           in l\<lparr>pl_trustedNets := nets, pl_trustedReady := length nets > 0\<rparr>)"

definition NewPROXYListener :: "PROXYProtocolConfig option \<Rightarrow> PROXYListener" where
  "NewPROXYListener config =
     initTrustedNets \<lparr> pl_config = (case config of None \<Rightarrow> DefaultPROXYProtocolConfig | Some c \<Rightarrow> c),
                       pl_trustedNets = [], pl_trustedReady = False \<rparr>"

definition isTrustedSource :: "PROXYListener \<Rightarrow> NetAddr \<Rightarrow> bool" where
  "isTrustedSource l remoteAddr =
     (pl_trustedReady l \<and>
      (case SplitHostPort (NetAddr_String remoteAddr) of
         None \<Rightarrow> False
       | Some (ip, _) \<Rightarrow>
           (case ParseIP ip of None \<Rightarrow> False | Some a \<Rightarrow> \<exists>ipnet \<in> set (pl_trustedNets l). IPNet_Contains ipnet a)))"

text \<open>An accepted connection: as it came, with its bytes put back, or with a header.\<close>

datatype Accepted = AsIs bytes | Unread bufferedConn | PROXYConn bufferedConn PROXYHeader | AcceptError | AcceptPanics

definition PROXYListener_Accept :: "PROXYListener \<Rightarrow> NetAddr \<Rightarrow> nat \<Rightarrow> bytes \<Rightarrow> Accepted" where
  "PROXYListener_Accept l remoteAddr n conn =
     (if pl_trustedReady l \<and> \<not> isTrustedSource l remoteAddr then AsIs conn
      else let (data, rest) = Conn_Read 256 n conn
           in if data = [] then AcceptError
              else case Parse_proxy (pl_config l) data of
                     Malformed e \<Rightarrow> Unread \<lparr> bfc_Conn = rest, bfc_buffer = data, bfc_offset = 0 \<rparr>
                   | Panics \<Rightarrow> AcceptPanics
                   | Decoded (header, remaining) \<Rightarrow>
                       PROXYConn \<lparr> bfc_Conn = rest, bfc_buffer = remaining, bfc_offset = 0 \<rparr> header)"

text \<open>The source address that the rest of the program sees, \<open>None\<close> being a nil address.\<close>

definition OriginalSource :: "NetAddr \<Rightarrow> Accepted \<Rightarrow> NetAddr option" where
  "OriginalSource remoteAddr a = (case a of PROXYConn c h \<Rightarrow> ph_SourceAddr h | _ \<Rightarrow> Some remoteAddr)"

definition OriginalDest :: "NetAddr \<Rightarrow> Accepted \<Rightarrow> NetAddr option" where
  "OriginalDest localAddr a = (case a of PROXYConn c h \<Rightarrow> ph_DestAddr h | _ \<Rightarrow> Some localAddr)"

section \<open>Panics\<close>

lemma parseTLVs_no_panic: "parseTLVs data off \<noteq> Panics"
proof (induction data off rule: parseTLVs.induct)
  case (1 data off)
  then show ?case
    by (subst parseTLVs.simps) (auto simp: no_panic simp del: in_range Uint16_at)
qed

lemma parse_addresses_no_panic: "2 * n + 4 \<le> length d \<Longrightarrow> parse_addresses n d h \<noteq> Panics"
  by (auto simp: parse_addresses_def no_panic parseTLVs_no_panic Let_def simp del: in_range Uint16_at split: if_splits)

lemma parseV1_no_panic: "parseV1 data \<noteq> Panics"
  by (auto simp: parseV1_def Let_def split: option.split)

lemma parseV2_panics:
  assumes "parseV2 config data = Panics"
  shows "65536 \<le> length data"
proof (rule ccontr)
  assume "\<not> 65536 \<le> length data"
  then have l: "length data < 65536" by simp
  have "slice16 data 16 len = Decoded (take len (drop 16 data))" "(16 + len) mod 65536 = 16 + len" if "16 + len \<le> length data" for len
    using that l slice16_take [of 16 len data] by simp_all
  with l assms show False
    unfolding parseV2_def Let_def
    by (auto simp: no_panic parse_addresses_no_panic not_less simp del: in_range Uint16_at split: if_splits)
qed

section \<open>Round trips\<close>

text \<open>The addresses a machine can have: 4 or 16 bytes.\<close>

definition ip_ok :: "IP \<Rightarrow> bool" where
  "ip_ok ip = (length ip = 4 \<or> length ip = 16)"

definition port_ok :: "int \<Rightarrow> bool" where
  "port_ok p = (0 \<le> p \<and> p \<le> 65535)"

definition v4 :: "IP \<Rightarrow> bool" where
  "v4 ip = (To4 ip \<noteq> None)"

lemma ip_bytes [simp]: "ip_of_bytes (bytes_of_ip ip) = ip" "length (bytes_of_ip ip) = length ip" "length (ip_of_bytes b) = length b"
proof -
  have "of_nat (of_char (char_of (unat b) :: char)) = b" for b :: "8 word"
    using unat_byte [of b] by (simp add: of_char_of)
  then show "ip_of_bytes (bytes_of_ip ip) = ip" by (simp add: ip_of_bytes_def bytes_of_ip_def o_def)
qed (simp_all add: bytes_of_ip_def ip_of_bytes_def)





lemma signature_facts: "length v2_signature = 12" "take 5 v2_signature \<noteq> ''PROXY''"
  by (simp_all add: v2_signature_def)


lemma ParseIP_To16: "ip_ok ip \<Longrightarrow> ParseIP (IP_String ip) = To16 ip"
proof (cases "length ip = 4")
  case True
  then show ?thesis
    using ParseAddr_print4 [OF True] by (simp add: IP_String_def To4_def ParseIP_def To16_def o_def)
next
  case False
  moreover assume "ip_ok ip"
  ultimately show ?thesis using ParseIP_String [of ip] by (simp add: ip_ok_def To16_def)
qed

lemma int_dec_chars: "0 \<le> p \<Longrightarrow> set (int_dec p) \<subseteq> addr_chars"
  using nat_dec_addr by (simp add: int_dec_def)

lemma Atoi_int_dec: "port_ok p \<Longrightarrow> Atoi (int_dec p) = Some p"
proof -
  assume p: "port_ok p"
  let ?s = "nat_dec (nat p)"
  have s: "int_dec p = ?s" using p by (simp add: port_ok_def int_dec_def)
  have h: "hd ?s \<in> addr_chars" using nat_dec_addr [of "nat p"] nat_dec_nonempty [of "nat p"] hd_in_set by blast
  then have nh: "hd ?s \<noteq> CHR ''-''" "hd ?s \<noteq> CHR ''+''" using addr_chars_visible by metis+
  have "list_all is_digit ?s" using nat_dec_digits [of _ "nat p"] digit_char(1) by (force simp: list_all_iff)
  then show ?thesis
    using p nh unfolding s Atoi_def Let_def by (simp add: dec_val_nat_dec port_ok_def)
qed

lemma cut_crlf_line: "CHR 0x0D \<notin> set line \<Longrightarrow> cut_crlf (line @ crlf @ rest) = Some (line, rest)"
proof (induction line)
  case (Cons a line)
  obtain b r where "line @ crlf @ rest = b # r" by (cases line) auto
  with Cons show ?case by auto
qed simp


lemma v1_line:
  assumes "ip_ok a" "ip_ok b" "port_ok p" "port_ok q" "proto \<in> {''TCP4'', ''TCP6''}"
  defines "line \<equiv> ''PROXY '' @ proto @ '' '' @ IP_String a @ '' '' @ IP_String b @ '' '' @ int_dec p @ '' '' @ int_dec q"
  shows "CHR 0x0D \<notin> set line" "split_on CHR '' '' line = [''PROXY'', proto, IP_String a, IP_String b, int_dec p, int_dec q]"
proof -
  note chars = IP_String_chars [of a] IP_String_chars [of b] int_dec_chars [of p] int_dec_chars [of q] addr_chars_visible
  have pos: "0 \<le> p" "0 \<le> q" using assms(3,4) by (simp_all add: port_ok_def)
  have ns: "CHR '' '' \<notin> set (IP_String a)" "CHR '' '' \<notin> set (IP_String b)" "CHR '' '' \<notin> set (int_dec p)" "CHR '' '' \<notin> set (int_dec q)"
    using chars pos by blast+
  have nr: "CHR 0x0D \<notin> set (IP_String a)" "CHR 0x0D \<notin> set (IP_String b)" "CHR 0x0D \<notin> set (int_dec p)" "CHR 0x0D \<notin> set (int_dec q)"
    using chars pos by blast+
  show "CHR 0x0D \<notin> set line" using nr assms(5) by (auto simp: line_def)
  have "line = ''PROXY'' @ CHR '' '' # proto @ CHR '' '' # IP_String a @ CHR '' '' # IP_String b @ CHR '' '' # int_dec p @ CHR '' '' # int_dec q"
    by (simp add: line_def)
  moreover have "CHR '' '' \<notin> set ''PROXY''" "CHR '' '' \<notin> set proto" using assms(5) by auto
  ultimately show "split_on CHR '' '' line = [''PROXY'', proto, IP_String a, IP_String b, int_dec p, int_dec q]"
    using ns by (simp only: split_on_word split_on_single not_False_eq_True)
qed

lemma parseV1_written:
  assumes "ip_ok a" "ip_ok b" "port_ok p" "port_ok q"
  shows "parseV1 (WriteV1 (TCPAddr a p) (TCPAddr b q) @ rest) =
    Decoded ((new_header PROXYProtocolV1 PROXYCommandProxy (if v4 a then PROXYAFInet else PROXYAFInet6) PROXYTransportStream)
      \<lparr> ph_SourceAddr := Some (TCPAddr (the (To16 a)) p), ph_DestAddr := Some (TCPAddr (the (To16 b)) q) \<rparr>, rest)"
proof -
  define proto where "proto = (if v4 a then ''TCP4'' else ''TCP6'')"
  define line where "line = ''PROXY '' @ proto @ '' '' @ IP_String a @ '' '' @ IP_String b @ '' '' @ int_dec p @ '' '' @ int_dec q"
  have "proto \<in> {''TCP4'', ''TCP6''}" by (simp add: proto_def)
  from v1_line [OF assms this] have l: "CHR 0x0D \<notin> set line"
    "split_on CHR '' '' line = [''PROXY'', proto, IP_String a, IP_String b, int_dec p, int_dec q]"
    unfolding line_def by simp_all
  have w: "WriteV1 (TCPAddr a p) (TCPAddr b q) @ rest = line @ crlf @ rest" by (simp add: WriteV1_def line_def proto_def v4_def)
  have "ParseIP (IP_String a) = Some (the (To16 a))" "ParseIP (IP_String b) = Some (the (To16 b))"
    using ParseIP_To16 [OF assms(1)] ParseIP_To16 [OF assms(2)] assms(1,2) by (auto simp: To16_def ip_ok_def)
  moreover have "0 \<le> p \<and> p \<le> 65535" "0 \<le> q \<and> q \<le> 65535" using assms(3,4) by (simp_all add: port_ok_def)
  ultimately show ?thesis
    unfolding w parseV1_def cut_crlf_line [OF l(1)] Let_def
    using Atoi_int_dec [OF assms(3)] Atoi_int_dec [OF assms(4)]
    by (cases "v4 a") (simp_all add: l(2) proto_def v1_protocol_def)
qed




lemma remote_split:
  assumes "port_ok p"
  shows "SplitHostPort (NetAddr_String (TCPAddr ip p)) = Some (IP_String ip, int_dec p)"
proof -
  have "set (int_dec p) \<subseteq> addr_chars - {CHR '':''}"
    using nat_dec_addr [of "nat p"] nat_dec_plain [of "nat p"] assms by (auto simp: int_dec_def port_ok_def)
  moreover have "CHR ''['' \<notin> addr_chars" "CHR '']'' \<notin> addr_chars" by (simp_all add: addr_chars_def)
  ultimately show ?thesis using IP_String_chars [of ip] by (simp) (intro SplitHostPort_Join; blast)
qed

section \<open>Properties\<close>


lemma v1_signature: "isPROXYProtocolV1 (WriteV1 s d @ rest)" "\<not> isPROXYProtocolV2 (WriteV1 s d @ rest)" "5 \<le> length (WriteV1 s d @ rest)"
  by (auto simp: isPROXYProtocolV1_def isPROXYProtocolV2_def WriteV1_def v2_signature_def split: NetAddr.split)





lemma cut_crlf_SomeD: "cut_crlf data = Some (line, r) \<Longrightarrow> data = line @ crlf @ r"
  by (induction data arbitrary: line rule: cut_crlf.induct) (auto split: if_splits option.splits)

lemma parseV1_rest:
  assumes "parseV1 data = Decoded (h, r)" "isPROXYProtocolV1 data"
  shows "\<exists>hdr. data = hdr @ r \<and> IsPROXYProtocol hdr"
proof -
  obtain line where "cut_crlf data = Some (line, r)"
    using assms(1) by (auto simp: parseV1_def Let_def split: option.splits if_splits)
  from cut_crlf_SomeD [OF this] have d: "data = line @ crlf @ r" .
  have P: "data ! i \<in> set ''PROXY''" if "i < 5" for i
    using assms(2) that nth_mem [of i "take 5 data"] nth_take [of i 5 data] unfolding isPROXYProtocolV1_def by force
  have "5 \<le> length line"
  proof (rule ccontr)
    assume "\<not> 5 \<le> length line"
    then have "data ! length line \<in> set ''PROXY''" using P by simp
    then show False by (simp add: d)
  qed
  then have "isPROXYProtocolV1 (line @ crlf)" using assms(2) d by (simp add: isPROXYProtocolV1_def)
  then show ?thesis using d by (intro exI [of _ "line @ crlf"]) (simp add: IsPROXYProtocol_def)
qed

lemma slice16_Decoded: "slice16 b lo n = Decoded x \<Longrightarrow> lo \<le> (lo + n) mod 65536 \<and> (lo + n) mod 65536 \<le> length b"
  by (auto simp: slice16_def Let_def split: if_splits)

lemma parseV2_rest:
  assumes "parseV2 config data = Decoded (h, r)" "isPROXYProtocolV2 data"
  shows "\<exists>hdr. data = hdr @ r \<and> IsPROXYProtocol hdr"
proof -
  obtain len x where "slice16 data 16 len = Decoded x" "r = drop ((16 + len) mod 65536) data"
    using assms(1) unfolding parseV2_def Let_def
    by (auto simp: bind_Decoded decoded_slice simp del: in_range Uint16_at split: if_splits)
  moreover from this(1) have "16 \<le> (16 + len) mod 65536" "(16 + len) mod 65536 \<le> length data" using slice16_Decoded by blast+
  moreover define k where "k = (16 + len) mod 65536"
  ultimately have k: "16 \<le> k" "k \<le> length data" "data = take k data @ r" by simp_all
  then have "isPROXYProtocolV2 (take k data)" using assms(2) by (simp add: isPROXYProtocolV2_def)
  then show ?thesis using k(3) unfolding IsPROXYProtocol_def by blast
qed

lemma Parse_proxy_rest:
  "Parse_proxy config data = Decoded (h, r) \<Longrightarrow> \<exists>hdr. data = hdr @ r \<and> IsPROXYProtocol hdr"
  using parseV1_rest parseV2_rest by (auto simp: Parse_proxy_def split: if_splits)

lemma Parse_proxy_no_panic: "length data < 65536 \<Longrightarrow> Parse_proxy config data \<noteq> Panics"
  using parseV1_no_panic parseV2_panics [of config data] by (auto simp: Parse_proxy_def)

text \<open>
  The listener hands on the bytes of a connection: only a PROXY header at their beginning is taken off, a
  connection without a readable header or from an untrusted source keeps every byte, and parsing the
  first bytes never panics.
\<close>

theorem PROXY_accept_keeps_bytes:
  "case PROXYListener_Accept l remoteAddr n conn of
     AsIs c \<Rightarrow> c = conn
   | Unread c \<Rightarrow> bfc_pending c = conn
   | PROXYConn c h \<Rightarrow> (\<exists>hdr. conn = hdr @ bfc_pending c \<and> IsPROXYProtocol hdr)
   | AcceptError \<Rightarrow> n = 0 \<or> conn = []
   | AcceptPanics \<Rightarrow> False"
proof -
  define data rest where "data = take (min 256 n) conn" and "rest = drop (min 256 n) conn"
  have d: "conn = data @ rest" "length data < 65536" by (simp_all add: data_def rest_def)
  have e: "data = [] \<Longrightarrow> n = 0 \<or> conn = []" unfolding data_def by (auto simp: min_def split: if_splits)
  have acc: "PROXYListener_Accept l remoteAddr n conn =
    (if pl_trustedReady l \<and> \<not> isTrustedSource l remoteAddr then AsIs conn
     else if data = [] then AcceptError
     else case Parse_proxy (pl_config l) data of
            Malformed e \<Rightarrow> Unread \<lparr> bfc_Conn = rest, bfc_buffer = data, bfc_offset = 0 \<rparr>
          | Panics \<Rightarrow> AcceptPanics
          | Decoded (h, r) \<Rightarrow> PROXYConn \<lparr> bfc_Conn = rest, bfc_buffer = r, bfc_offset = 0 \<rparr> h)"
    unfolding PROXYListener_Accept_def Conn_Read_def data_def rest_def Let_def prod.case by (rule refl)
  show ?thesis
  proof (cases "Parse_proxy (pl_config l) data")
    case (Decoded hr)
    obtain h r where hr: "hr = (h, r)" by force
    with Decoded Parse_proxy_rest obtain hdr where "data = hdr @ r" "IsPROXYProtocol hdr" by blast
    then have "conn = hdr @ r @ rest" "IsPROXYProtocol hdr" using d(1) by simp_all
    then show ?thesis unfolding acc using Decoded hr e by (simp add: bfc_pending_def)
  next
    case (Malformed x)
    then show ?thesis unfolding acc using d(1) e by (simp add: bfc_pending_def)
  next
    case Panics
    then show ?thesis using Parse_proxy_no_panic [OF d(2)] by blast
  qed
qed

text \<open>
  With a usable list of trusted networks no one else can claim a source address: a connection from an
  address in none of the networks is handed on unread, and its source is the address of the peer.
\<close>

theorem PROXY_untrusted_source:
  assumes "n \<in> set (ppc_TrustedNetworks c)" "ParseCIDR n = Some r" "ip_ok ip" "port_ok port"
    and "\<forall>n \<in> set (ppc_TrustedNetworks c). \<forall>a net. ParseCIDR n = Some (a, net) \<longrightarrow> \<not> IPNet_Contains net (the (To16 ip))"
  shows "PROXYListener_Accept (NewPROXYListener (Some c)) (TCPAddr ip port) k conn = AsIs conn \<and>
    OriginalSource (TCPAddr ip port) (PROXYListener_Accept (NewPROXYListener (Some c)) (TCPAddr ip port) k conn) = Some (TCPAddr ip port)"
proof -
  let ?l = "NewPROXYListener (Some c)"
  have ne: "ppc_TrustedNetworks c \<noteq> []" using assms(1) by auto
  have nets: "pl_trustedNets ?l = map snd (List.map_filter ParseCIDR (ppc_TrustedNetworks c))" "pl_trustedReady ?l = (pl_trustedNets ?l \<noteq> [])"
    using ne by (simp_all add: NewPROXYListener_def initTrustedNets_def Let_def)
  have set: "set (pl_trustedNets ?l) = {net. \<exists>n \<in> set (ppc_TrustedNetworks c). \<exists>a. ParseCIDR n = Some (a, net)}"
    unfolding nets(1) by (force simp: List.map_filter_def image_iff)
  have ready: "pl_trustedReady ?l" unfolding nets(2) using set assms(1,2) by (cases r) force
  have "ParseIP (IP_String ip) = Some (the (To16 ip))" using ParseIP_To16 [OF assms(3)] assms(3) by (auto simp: To16_def ip_ok_def)
  then have "\<not> isTrustedSource ?l (TCPAddr ip port)"
    using assms(5) set unfolding isTrustedSource_def remote_split [OF assms(4)] by auto
  then show ?thesis using ready by (simp add: PROXYListener_Accept_def OriginalSource_def)
qed

text \<open>
  C38. Without a usable list of trusted networks, which is the default, everyone is trusted: any peer that
  sends a header of version 1 is taken for the source it claims, although the code intends that no
  header is believed then.
\<close>

theorem PROXY_default_spoofed:
  assumes "\<forall>n \<in> set (ppc_TrustedNetworks c). ParseCIDR n = None" "ppc_AcceptV1 c"
    and "ip_ok a" "ip_ok b" "port_ok p" "port_ok q"
    and "k = length (WriteV1 (TCPAddr a p) (TCPAddr b q))" "k \<le> 256"
  shows "OriginalSource remoteAddr (PROXYListener_Accept (NewPROXYListener (Some c)) remoteAddr k (WriteV1 (TCPAddr a p) (TCPAddr b q) @ conn)) =
      Some (TCPAddr (the (To16 a)) p) \<and>
    \<not> isTrustedSource (NewPROXYListener (Some c)) remoteAddr"
proof -
  let ?l = "NewPROXYListener (Some c)" and ?h = "WriteV1 (TCPAddr a p) (TCPAddr b q)"
  have "List.map_filter ParseCIDR (ppc_TrustedNetworks c) = []" using assms(1) by (simp add: List.map_filter_def filter_empty_conv)
  then have r: "\<not> pl_trustedReady ?l" "pl_config ?l = c" by (simp_all add: NewPROXYListener_def initTrustedNets_def Let_def)
  have "Conn_Read 256 k (?h @ conn) = (?h, conn)" using assms(7,8) by (simp add: Conn_Read_def min_def)
  moreover have "Parse_proxy c ?h = parseV1 ?h" using v1_signature [of "TCPAddr a p" "TCPAddr b q" "[]"] assms(2) by (simp add: Parse_proxy_def)
  moreover have "?h \<noteq> []" by (simp add: WriteV1_def)
  ultimately show ?thesis
    using r parseV1_written [OF assms(3-6), of "[]"] by (simp add: PROXYListener_Accept_def OriginalSource_def isTrustedSource_def)
qed


text \<open>A version 2 header that announces a block of at least 65520 bytes makes the parser panic, if the input is
  that long: the bound of the slice wraps around.\<close>

lemma PROXY_v2_panics:
  assumes "65520 \<le> len" "len < 65536" "length block = len"
  shows "parseV2 config (v2_signature @ [CHR 0x21, CHR 0x11] @ PutUint16 len @ block) = Panics"
proof -
  define d where "d = v2_signature @ [CHR 0x21, CHR 0x11] @ PutUint16 len @ block"
  have l: "length d = 16 + len" using assms(3) by (simp add: d_def signature_facts)
  have n: "d ! 12 = CHR 0x21" "d ! 13 = CHR 0x11" by (simp_all add: d_def v2_signature_def)
  have dr: "drop 14 d = PutUint16 len @ block" by (simp add: d_def v2_signature_def)
  have "slice16 d 16 len = Panics" using slice16_panics [of 16 len d] l assms(1,2) by simp
  then show ?thesis
    unfolding d_def [symmetric] parseV2_def Let_def using l n dr assms(2) by simp
qed

text \<open>The version field of the header is not looked at.\<close>

lemma PROXY_v2_version_unchecked:
  "parseV2 config (v2_signature @ [CHR 0x91, CHR 0x00, CHR 0x00, CHR 0x00] @ rest) =
   Decoded (new_header PROXYProtocolV2 PROXYCommandProxy PROXYAFUnspec PROXYTransportUnspec, rest)"
  by (simp add: parseV2_def v2_signature_def Let_def new_header_def Uint16_def slice16_def)

section \<open>Examples\<close>

definition peer4 :: IP where
  "peer4 = [192, 0, 2, 7]"

definition peer4' :: IP where
  "peer4' = v4InV6Prefix @ [198, 51, 100, 9]"

lemma example_addresses: "ip_ok peer4" "ip_ok peer4'" "port_ok 443" "port_ok 65535" "v4 peer4 = v4 peer4'"
  "the (To16 peer4) = v4InV6Prefix @ [192, 0, 2, 7]" "the (To16 peer4') = peer4'"
  by (simp_all add: ip_ok_def peer4_def peer4'_def port_ok_def v4_def To4_def To16_def v4InV6Prefix_def)


theorem PROXY_untrusted_source_witness:
  "PROXYListener_Accept (NewPROXYListener (Some (DefaultPROXYProtocolConfig\<lparr>ppc_TrustedNetworks := [''10.0.0.0/8'', ''x'']\<rparr>)))
     (TCPAddr peer4 443) 256 ''PROXY TCP4 1.2.3.4 5.6.7.8 1 2'' = AsIs ''PROXY TCP4 1.2.3.4 5.6.7.8 1 2''"
proof -
  let ?c = "DefaultPROXYProtocolConfig\<lparr>ppc_TrustedNetworks := [''10.0.0.0/8'', ''x'']\<rparr>"
  have n: "ParseCIDR ''10.0.0.0/8'' = Some ([0,0,0,0,0,0,0,0,0,0,255,255,10,0,0,0], \<lparr> net_IP = [10,0,0,0], net_Mask = [255,0,0,0] \<rparr>)" "ParseCIDR ''x'' = None"
    by (simp_all add: net_eval)
  have "\<forall>n \<in> set (ppc_TrustedNetworks ?c). \<forall>a net. ParseCIDR n = Some (a, net) \<longrightarrow> \<not> IPNet_Contains net (the (To16 peer4))"
    by (auto simp: n example_addresses) (simp add: net_eval)
  from PROXY_untrusted_source [OF _ n(1) example_addresses(1,3) this] show ?thesis by simp
qed

lemma example_length: "length (WriteV1 (TCPAddr peer4' 65535) (TCPAddr peer4 443)) \<le> 256"
  by (simp add: WriteV1_def net_eval peer4_def peer4'_def IP_String_def print4_def int_dec_def nat_dec.simps)

theorem PROXY_default_spoofed_witness:
  "OriginalSource (TCPAddr [203, 0, 113, 66] 4000) (PROXYListener_Accept (NewPROXYListener (Some DefaultPROXYProtocolConfig)) (TCPAddr [203, 0, 113, 66] 4000)
      (length (WriteV1 (TCPAddr peer4' 65535) (TCPAddr peer4 443))) (WriteV1 (TCPAddr peer4' 65535) (TCPAddr peer4 443) @ ''GET /'')) =
   Some (TCPAddr peer4' 65535)"
  using PROXY_default_spoofed [OF _ _ example_addresses(2,1,4,3) refl example_length, of DefaultPROXYProtocolConfig]
  by (simp add: DefaultPROXYProtocolConfig_def example_addresses)

end
