(* ===== verification/Ring_Buffer.thy ===== *)
theory Ring_Buffer
  imports Prelude "HOL-Library.Word"
begin

text \<open>
  The ring buffer of \<^verbatim>\<open>pkg/utils/ring_buffer.go\<close>: positions are \<^verbatim>\<open>uint64\<close> counters that wrap around, the
  capacity is a power of two. First the operations one after the other, as a bounded queue; then one
  producer and one consumer whose atomic loads and stores interleave.
\<close>

section \<open>Operations\<close>

record 'a RingBuffer =
  rb_buffer :: "'a list"
  rb_mask :: "64 word"
  rb_head :: "64 word"
  rb_tail :: "64 word"

text \<open>Rounding up to a power of two: the bits of \<open>x - 1\<close> are smeared to the right.\<close>

definition smear :: "nat \<Rightarrow> 64 word \<Rightarrow> 64 word" where
  "smear n x = x OR drop_bit n x"

definition round_up :: "64 word \<Rightarrow> 64 word" where
  "round_up c = smear 32 (smear 16 (smear 8 (smear 4 (smear 2 (smear 1 (c - 1)))))) + 1"

definition NewRingBuffer :: "'a \<Rightarrow> int \<Rightarrow> string + 'a RingBuffer" where
  "NewRingBuffer zero capacity =
     (if capacity \<le> 0 then Inl ''capacity must be positive''
      else let cap64 = round_up (word_of_int capacity)
           in Inr \<lparr> rb_buffer = replicate (unat cap64) zero, rb_mask = cap64 - 1, rb_head = 0, rb_tail = 0 \<rparr>)"

definition RingBuffer_Capacity :: "'a RingBuffer \<Rightarrow> nat" where
  "RingBuffer_Capacity rb = length (rb_buffer rb)"

definition RingBuffer_Len :: "'a RingBuffer \<Rightarrow> int" where
  "RingBuffer_Len rb = sint (rb_tail rb - rb_head rb)"

definition RingBuffer_IsEmpty :: "'a RingBuffer \<Rightarrow> bool" where
  "RingBuffer_IsEmpty rb = (rb_head rb = rb_tail rb)"

definition RingBuffer_IsFull :: "'a RingBuffer \<Rightarrow> bool" where
  "RingBuffer_IsFull rb = (RingBuffer_Len rb = int (length (rb_buffer rb)))"

definition slot :: "64 word \<Rightarrow> 64 word \<Rightarrow> nat" where
  "slot m pos = unat (pos AND m)"

definition RingBuffer_Push :: "'a \<Rightarrow> 'a RingBuffer \<Rightarrow> bool \<times> 'a RingBuffer" where
  "RingBuffer_Push val rb =
     (let tail = rb_tail rb; head = rb_head rb
      in if unat (tail - head) \<ge> length (rb_buffer rb) then (False, rb)
         else (True, rb\<lparr>rb_buffer := (rb_buffer rb)[slot (rb_mask rb) tail := val], rb_tail := tail + 1\<rparr>))"

definition RingBuffer_Pop :: "'a RingBuffer \<Rightarrow> 'a option \<times> 'a RingBuffer" where
  "RingBuffer_Pop rb =
     (let head = rb_head rb; tail = rb_tail rb
      in if head = tail then (None, rb)
         else (Some (rb_buffer rb ! slot (rb_mask rb) head), rb\<lparr>rb_head := head + 1\<rparr>))"

definition RingBuffer_Snapshot :: "'a RingBuffer \<Rightarrow> 'a list" where
  "RingBuffer_Snapshot rb =
     map (\<lambda>i. rb_buffer rb ! slot (rb_mask rb) (rb_head rb + of_nat i)) [0..<nat (RingBuffer_Len rb)]"

definition RingBuffer_Reset :: "'a RingBuffer \<Rightarrow> 'a RingBuffer" where
  "RingBuffer_Reset rb = rb\<lparr>rb_head := 0, rb_tail := 0\<rparr>"

section \<open>Rounding\<close>

lemma bit_smear: "bit (smear n x) i \<longleftrightarrow> bit x i \<or> bit x (n + i)"
  by (simp add: smear_def bit_simps)

lemma smear_step:
  assumes "\<forall>i. bit y i \<longleftrightarrow> (\<exists>j<n. bit x (i + j))"
  shows "\<forall>i. bit (smear n y) i \<longleftrightarrow> (\<exists>j<2 * n. bit x (i + j))"
proof
  fix i
  have "(\<exists>j<n. bit x (i + j)) \<or> (\<exists>j<n. bit x (n + i + j)) \<longleftrightarrow> (\<exists>j<2 * n. bit x (i + j))" (is "?l = ?r")
  proof
    assume ?l
    then show ?r
    proof
      assume "\<exists>j<n. bit x (n + i + j)"
      then obtain j where "j < n" "bit x (i + (n + j))" by (auto simp: ac_simps)
      then show ?r by (intro exI [of _ "n + j"]) simp
    qed (metis less_imp_le mult_2 trans_less_add1)
  next
    assume ?r
    then obtain j where j: "j < 2 * n" "bit x (i + j)" by blast
    show ?l
    proof (cases "j < n")
      case False
      then have "bit x (n + i + (j - n))" "j - n < n" using j by (simp_all add: ac_simps)
      then show ?l by blast
    qed (use j in blast)
  qed
  then show "bit (smear n y) i \<longleftrightarrow> (\<exists>j<2 * n. bit x (i + j))" unfolding bit_smear using assms by simp
qed

lemma smear_all:
  "bit (smear 32 (smear 16 (smear 8 (smear 4 (smear 2 (smear 1 x)))))) i \<longleftrightarrow> (\<exists>j\<ge>i. bit x j)"
proof -
  have 1: "\<forall>i. bit x i \<longleftrightarrow> (\<exists>j<1. bit x (i + j))" by simp
  note 2 = smear_step [OF smear_step [OF smear_step [OF smear_step [OF smear_step [OF smear_step [OF 1]]]]]]
  have "bit (smear 32 (smear 16 (smear 8 (smear 4 (smear 2 (smear 1 x)))))) i \<longleftrightarrow> (\<exists>j<64. bit x (i + j))"
    using 2 [rule_format, of i] by simp
  also have "\<dots> \<longleftrightarrow> (\<exists>j\<ge>i. bit x j)"
  proof
    assume "\<exists>j\<ge>i. bit x j"
    then obtain j where j: "j \<ge> i" "bit x j" by blast
    then have "j < 64" using bit_imp_le_length [of x j] by simp
    with j show "\<exists>j<64. bit x (i + j)" by (intro exI [of _ "j - i"]) simp
  qed (use le_add1 in blast)
  finally show ?thesis .
qed

lemma int_highest_bit:
  assumes "0 < (y :: int)"
  obtains h where "bit y h" "\<forall>j>h. \<not> bit y j" "2 ^ h \<le> y" "y < 2 ^ (h + 1)"
proof -
  have n: "y < 2 ^ nat y"   proof -
    have "int (nat y) < int (2 ^ nat y)" by (simp only: of_nat_less_iff less_exp)
    then show ?thesis using assms by simp
  qed
  have below: "y < 2 ^ m \<Longrightarrow> \<not> bit y m'" if "m \<le> m'" for m m'
    using that assms take_bit_int_eq_self [of y m] by (metis bit_take_bit_iff less_imp_le not_le)
  define h where "h = (LEAST m. y < 2 ^ (m + 1))"
  have ex: "y < 2 ^ (nat y + 1)" by (rule less_le_trans [OF n]) simp
  have up: "y < 2 ^ (h + 1)" unfolding h_def using ex by (rule LeastI)
  have lo: "2 ^ h \<le> y"
  proof (cases h)
    case 0
    then show ?thesis using assms by simp
  next
    case (Suc m)
    then show ?thesis using not_less_Least [of m "\<lambda>m. y < 2 ^ (m + 1)"] by (simp add: h_def)
  qed
  have "bit y h"
  proof (rule ccontr)
    assume "\<not> bit y h"
    then have "take_bit (Suc h) y = take_bit h y" by (intro bit_eqI) (auto simp: bit_take_bit_iff less_Suc_eq)
    moreover have "take_bit (Suc h) y = y" using up assms by (intro take_bit_int_eq_self) simp_all
    moreover have "take_bit h y < 2 ^ h" by (rule take_bit_int_less_exp)
    ultimately show False using lo by simp
  qed
  then show ?thesis using that up lo below [of "h + 1"] by simp
qed

text \<open>The result is the least power of two that is not below the capacity.\<close>

lemma round_up_pow2:
  assumes "1 \<le> c" "c \<le> 2 ^ 62"
  shows "\<exists>k\<le>62. round_up (word_of_int c) = 2 ^ k \<and> c \<le> 2 ^ k \<and> (k = 0 \<or> 2 ^ (k - 1) < c)"
proof (cases "c = 1")
  case True
  then show ?thesis by (intro exI [of _ 0]) (simp add: round_up_def smear_def)
next
  case False
  then obtain h where h: "bit (c - 1) h" "\<forall>j>h. \<not> bit (c - 1) j" "2 ^ h \<le> c - 1" "c - 1 < 2 ^ (h + 1)"
    using int_highest_bit [of "c - 1"] assms(1) by (metis diff_gt_0_iff_gt order_le_imp_less_or_eq)
  define x :: "64 word" where "x = word_of_int c - 1"
  have x: "x = word_of_int (c - 1)" by (simp add: x_def)
  have "(2::int) ^ h < 2 ^ 62" using h(3) assms(2) by linarith
  then have h62: "h < 62" by (rule power_less_imp_less_exp [rotated]) simp
  have bx: "bit x j \<longleftrightarrow> j < 64 \<and> bit (c - 1) j" for j by (simp only: x bit_word_of_int_iff) simp
  have "smear 32 (smear 16 (smear 8 (smear 4 (smear 2 (smear 1 x))))) = mask (h + 1)"
  proof (rule bit_word_eqI)
    fix i assume "i < LENGTH(64)"
    have "(\<exists>j\<ge>i. bit x j) \<longleftrightarrow> i \<le> h"
    proof
      assume "\<exists>j\<ge>i. bit x j"
      then obtain j where "i \<le> j" "bit (c - 1) j" using bx by blast
      moreover from this have "\<not> h < j" using h(2) by blast
      ultimately show "i \<le> h" by simp
    next
      assume "i \<le> h"
      moreover have "bit x h" using h(1) h62 by (simp add: bx)
      ultimately show "\<exists>j\<ge>i. bit x j" by blast
    qed
    then show "bit (smear 32 (smear 16 (smear 8 (smear 4 (smear 2 (smear 1 x)))))) i = bit (mask (h + 1) :: 64 word) i"
      unfolding smear_all using \<open>i < LENGTH(64)\<close> by (simp add: bit_mask_iff less_Suc_eq_le)
  qed
  then have "round_up (word_of_int c) = 2 ^ (h + 1)" by (simp add: round_up_def x_def [symmetric] mask_eq_exp_minus_1)
  then show ?thesis using h h62 by (intro exI [of _ "h + 1"]) auto
qed

section \<open>Slots\<close>

text \<open>A buffer whose mask is one less than its length, a power of two.\<close>

definition rb_shape :: "nat \<Rightarrow> 'a RingBuffer \<Rightarrow> bool" where
  "rb_shape k rb = (k \<le> 62 \<and> length (rb_buffer rb) = 2 ^ k \<and> rb_mask rb = mask k)"

lemma slot_mod: "k \<le> 62 \<Longrightarrow> slot (mask k) (pos + of_nat i) = (unat pos + i) mod 2 ^ k"
proof -
  assume k: "k \<le> 62"
  have d: "(2 :: nat) ^ k dvd 2 ^ 64" using k by (intro le_imp_power_dvd) simp
  have "slot (mask k) (pos + of_nat i) = unat (pos + of_nat i) mod 2 ^ k"
    by (simp only: slot_def take_bit_eq_mask [symmetric] unsigned_take_bit_eq take_bit_nat_def)
  also have "unat (pos + of_nat i) = (unat pos + i) mod 2 ^ 64" by (simp add: unat_word_ariths unat_of_nat mod_add_right_eq)
  also have "(unat pos + i) mod 2 ^ 64 mod 2 ^ k = (unat pos + i) mod 2 ^ k" using d by (rule mod_mod_cancel)
  finally show ?thesis .
qed

lemma slot_range: "rb_shape k rb \<Longrightarrow> slot (rb_mask rb) pos < length (rb_buffer rb)"
  using slot_mod [of k pos 0] by (simp add: rb_shape_def)

lemma slot_inj:
  assumes "k \<le> 62" "i < 2 ^ k" "j < 2 ^ k" "slot (mask k) (pos + of_nat i) = slot (mask k) (pos + of_nat j)"
  shows "i = j"
proof -
  have le: "a = b" if "a \<le> b" "b < 2 ^ k" "(unat pos + b) mod 2 ^ k = (unat pos + a) mod 2 ^ k" for a b
  proof -
    have "2 ^ k dvd b - a" using that(1,3) mod_eq_dvd_iff_nat [of "unat pos + a" "unat pos + b" "2 ^ k"] by simp
    then show ?thesis using that(1,2) by (metis diff_is_0_eq dvd_imp_le le_antisym less_imp_diff_less neq0_conv not_le)
  qed
  have "(unat pos + i) mod 2 ^ k = (unat pos + j) mod 2 ^ k" using assms by (simp add: slot_mod)
  then show ?thesis using le [of i j] le [of j i] assms(2,3) by (metis nat_le_linear)
qed


section \<open>A bounded queue\<close>

definition rb_size :: "'a RingBuffer \<Rightarrow> nat" where
  "rb_size rb = unat (rb_tail rb - rb_head rb)"

definition rb_content :: "'a RingBuffer \<Rightarrow> 'a list" where
  "rb_content rb = map (\<lambda>i. rb_buffer rb ! slot (rb_mask rb) (rb_head rb + of_nat i)) [0..<rb_size rb]"

definition rb_inv :: "nat \<Rightarrow> 'a RingBuffer \<Rightarrow> bool" where
  "rb_inv k rb = (rb_shape k rb \<and> rb_size rb \<le> 2 ^ k)"

lemma rb_content_length [simp]: "length (rb_content rb) = rb_size rb"
  by (simp add: rb_content_def)

lemma tail_head: "rb_tail rb = rb_head rb + of_nat (rb_size rb)"
  by (simp add: rb_size_def)

lemma rb_size_room: "rb_inv k rb \<Longrightarrow> rb_size rb + 1 < 2 ^ 64"
proof -
  assume "rb_inv k rb"
  then have "rb_size rb \<le> 2 ^ k" "k \<le> 62" by (simp_all add: rb_inv_def rb_shape_def)
  moreover from this(2) have "(2 :: nat) ^ k \<le> 2 ^ 62" by (intro power_increasing) simp_all
  ultimately show ?thesis by simp
qed

text \<open>A write at the tail does not change the content, the store of the tail adds the element.\<close>

lemma write_content:
  assumes "rb_inv k rb" "rb_size rb < 2 ^ k"
  shows "rb_content (rb\<lparr>rb_buffer := (rb_buffer rb)[slot (rb_mask rb) (rb_tail rb) := v]\<rparr>) = rb_content rb"
proof -
  have m: "rb_mask rb = mask k" "k \<le> 62" using assms(1) by (simp_all add: rb_inv_def rb_shape_def)
  have "slot (rb_mask rb) (rb_tail rb) \<noteq> slot (rb_mask rb) (rb_head rb + of_nat i)" if "i < rb_size rb" for i
    using slot_inj [OF m(2), of "rb_size rb" i "rb_head rb"] that assms(2) unfolding m(1) tail_head [of rb] by auto
  then show ?thesis by (auto simp: rb_content_def rb_size_def)
qed

lemma publish_content:
  assumes "rb_inv k rb" "rb_size rb < 2 ^ k"
  shows "rb_content (rb\<lparr>rb_tail := rb_tail rb + 1\<rparr>) = rb_content rb @ [rb_buffer rb ! slot (rb_mask rb) (rb_tail rb)]"
    "rb_size (rb\<lparr>rb_tail := rb_tail rb + 1\<rparr>) = rb_size rb + 1"
proof -
  have "unat (rb_tail rb - rb_head rb + 1) = rb_size rb + 1"
    using rb_size_room [OF assms(1)] unfolding rb_size_def by (simp add: unat_word_ariths unat_of_nat)
  then show s: "rb_size (rb\<lparr>rb_tail := rb_tail rb + 1\<rparr>) = rb_size rb + 1" by (simp add: rb_size_def algebra_simps)
  show "rb_content (rb\<lparr>rb_tail := rb_tail rb + 1\<rparr>) = rb_content rb @ [rb_buffer rb ! slot (rb_mask rb) (rb_tail rb)]"
    unfolding rb_content_def s by (simp add: tail_head)
qed

lemma take_content:
  assumes "rb_inv k rb" "0 < rb_size rb"
  shows "rb_content rb = rb_buffer rb ! slot (rb_mask rb) (rb_head rb) # rb_content (rb\<lparr>rb_head := rb_head rb + 1\<rparr>)"
    "rb_size (rb\<lparr>rb_head := rb_head rb + 1\<rparr>) = rb_size rb - 1"
proof -
  have "unat (rb_tail rb - rb_head rb - 1) = rb_size rb - 1"
    using assms(2) unfolding rb_size_def by (simp add: unat_minus_one unat_gt_0)
  then show s: "rb_size (rb\<lparr>rb_head := rb_head rb + 1\<rparr>) = rb_size rb - 1" by (simp add: rb_size_def algebra_simps)
  obtain n where n: "rb_size rb = Suc n" using assms(2) gr0_conv_Suc by blast
  then have "[0..<rb_size rb] = 0 # map Suc [0..<n]" by (simp add: map_Suc_upt upt_conv_Cons del: upt_Suc)
  then show "rb_content rb = rb_buffer rb ! slot (rb_mask rb) (rb_head rb) # rb_content (rb\<lparr>rb_head := rb_head rb + 1\<rparr>)"
    unfolding rb_content_def s n by (simp add: o_def algebra_simps)
qed

lemma empty_size: "rb_head rb = rb_tail rb \<longleftrightarrow> rb_size rb = 0"
  by (auto simp: rb_size_def unat_eq_0)

text \<open>What a bounded first-in-first-out queue promises.\<close>

locale bounded_fifo =
  fixes push :: "'a \<Rightarrow> 's \<Rightarrow> bool \<times> 's" and pop :: "'s \<Rightarrow> 'a option \<times> 's" and content :: "'s \<Rightarrow> 'a list"
    and ok :: "'s \<Rightarrow> bool" and cap :: nat
  assumes push_full: "ok s \<Longrightarrow> cap \<le> length (content s) \<Longrightarrow> push v s = (False, s)"
    and push_room: "ok s \<Longrightarrow> length (content s) < cap \<Longrightarrow>
          fst (push v s) \<and> content (snd (push v s)) = content s @ [v] \<and> ok (snd (push v s))"
    and pop_spec: "ok s \<Longrightarrow>
          (case content s of [] \<Rightarrow> pop s = (None, s)
           | x # xs \<Rightarrow> fst (pop s) = Some x \<and> content (snd (pop s)) = xs \<and> ok (snd (pop s)))"
begin

lemma push_ok: "ok s \<Longrightarrow> ok (snd (push v s))"
  by (cases "length (content s) < cap") (simp_all add: push_room push_full)

lemma pop_ok: "ok s \<Longrightarrow> ok (snd (pop s))"
  using pop_spec [of s] by (cases "content s") auto

text \<open>Everything that was pushed comes out in order.\<close>

lemma push_all:
  assumes "ok s" "length (content s) + length vs \<le> cap"
  shows "content (fold (\<lambda>v s. snd (push v s)) vs s) = content s @ vs"
  using assms
proof (induction vs arbitrary: s)
  case (Cons v vs)
  then have p: "content (snd (push v s)) = content s @ [v]" "ok (snd (push v s))" using push_room [of s v] by simp_all
  with Cons.IH [of "snd (push v s)"] Cons.prems show ?case by simp
qed simp

end

lemma RingBuffer_Push_room:
  assumes "rb_inv k rb" "rb_size rb < 2 ^ k"
  shows "fst (RingBuffer_Push v rb) \<and> rb_content (snd (RingBuffer_Push v rb)) = rb_content rb @ [v] \<and> rb_inv k (snd (RingBuffer_Push v rb))"
proof -
  let ?w = "rb\<lparr>rb_buffer := (rb_buffer rb)[slot (rb_mask rb) (rb_tail rb) := v]\<rparr>"
  have len: "length (rb_buffer rb) = 2 ^ k" using assms(1) by (simp add: rb_inv_def rb_shape_def)
  have w: "rb_inv k ?w" "rb_size ?w = rb_size rb" using assms(1) by (simp_all add: rb_inv_def rb_shape_def rb_size_def)
  have "rb_buffer ?w ! slot (rb_mask ?w) (rb_tail ?w) = v" using slot_range [of k rb "rb_tail rb"] assms(1) by (simp add: rb_inv_def)
  then have "rb_content (?w\<lparr>rb_tail := rb_tail ?w + 1\<rparr>) = rb_content rb @ [v]" "rb_inv k (?w\<lparr>rb_tail := rb_tail ?w + 1\<rparr>)"
    using publish_content [OF w(1)] w assms(2) write_content [OF assms, of v] by (simp_all add: rb_inv_def rb_shape_def)
  moreover have "RingBuffer_Push v rb = (True, ?w\<lparr>rb_tail := rb_tail ?w + 1\<rparr>)"
    using assms(2) len by (simp add: RingBuffer_Push_def Let_def rb_size_def)
  ultimately show ?thesis by simp
qed

lemma RingBuffer_Pop_spec:
  assumes "rb_inv k rb"
  shows "case rb_content rb of [] \<Rightarrow> RingBuffer_Pop rb = (None, rb)
    | x # xs \<Rightarrow> fst (RingBuffer_Pop rb) = Some x \<and> rb_content (snd (RingBuffer_Pop rb)) = xs \<and> rb_inv k (snd (RingBuffer_Pop rb))"
proof (cases "rb_size rb = 0")
  case True
  then show ?thesis using empty_size [of rb] by (simp add: RingBuffer_Pop_def Let_def rb_content_def)
next
  case False
  then have "RingBuffer_Pop rb = (Some (rb_buffer rb ! slot (rb_mask rb) (rb_head rb)), rb\<lparr>rb_head := rb_head rb + 1\<rparr>)"
    using empty_size [of rb] by (simp add: RingBuffer_Pop_def Let_def)
  with take_content [OF assms] False assms show ?thesis by (simp add: rb_inv_def rb_shape_def le_diff_conv)
qed

interpretation ring: bounded_fifo RingBuffer_Push RingBuffer_Pop rb_content "rb_inv k" "2 ^ k" for k
proof
  fix s :: "'a RingBuffer" and v
  assume "rb_inv k s"
  then have len: "length (rb_buffer s) = 2 ^ k" by (simp add: rb_inv_def rb_shape_def)
  show "2 ^ k \<le> length (rb_content s) \<Longrightarrow> RingBuffer_Push v s = (False, s)"
    using len by (simp add: RingBuffer_Push_def Let_def rb_size_def)
  show "length (rb_content s) < 2 ^ k \<Longrightarrow>
      fst (RingBuffer_Push v s) \<and> rb_content (snd (RingBuffer_Push v s)) = rb_content s @ [v] \<and> rb_inv k (snd (RingBuffer_Push v s))"
    using RingBuffer_Push_room \<open>rb_inv k s\<close> by simp
qed (rule RingBuffer_Pop_spec)


lemma New_inv:
  assumes "1 \<le> c" "c \<le> 2 ^ 62"
  shows "\<exists>k rb. NewRingBuffer zero c = Inr rb \<and> rb_inv k rb \<and> rb_content rb = [] \<and> c \<le> 2 ^ k \<and> (k = 0 \<or> 2 ^ (k - 1) < c) \<and> rb_size rb = 0"
proof -
  obtain k where k: "k \<le> 62" "round_up (word_of_int c) = 2 ^ k" "c \<le> 2 ^ k" "k = 0 \<or> 2 ^ (k - 1) < c"
    using round_up_pow2 [OF assms] by blast
  have "(2 :: nat) ^ k < 2 ^ 64" using k(1) by (intro power_strict_increasing) simp_all
  then have "unat (of_nat (2 ^ k) :: 64 word) = 2 ^ k" by (simp only: unat_of_nat) simp
  then have "unat (2 ^ k :: 64 word) = 2 ^ k" by simp
  then show ?thesis
    using k assms(1)
    by (intro exI [of _ k]) (simp add: NewRingBuffer_def Let_def rb_inv_def rb_shape_def rb_size_def rb_content_def mask_eq_exp_minus_1)
qed

section \<open>One producer and one consumer\<close>

text \<open>
  Between the atomic operations of \<^verbatim>\<open>Push\<close> the producer holds what it loaded, likewise the consumer. An event is one
  atomic operation of one of the two; \<open>pushed\<close> and \<open>popped\<close> record the calls that have succeeded.
\<close>

datatype 'a producer = PIdle | PTail "64 word" 'a | PChecked "64 word" 'a | PWritten "64 word" 'a

datatype 'a consumer = CIdle | CHead "64 word" | CReady "64 word" | CRead "64 word" 'a

record 'a spsc =
  sp_rb :: "'a RingBuffer"
  sp_producer :: "'a producer"
  sp_consumer :: "'a consumer"
  sp_pushed :: "'a list"
  sp_popped :: "'a list"

fun producer_step :: "'a \<Rightarrow> 'a spsc \<Rightarrow> 'a spsc" where
  "producer_step v s =
     (let rb = sp_rb s
      in case sp_producer s of
           PIdle \<Rightarrow> s\<lparr>sp_producer := PTail (rb_tail rb) v\<rparr>
         | PTail tail w \<Rightarrow>
             s\<lparr>sp_producer := (if unat (tail - rb_head rb) \<ge> length (rb_buffer rb) then PIdle else PChecked tail w)\<rparr>
         | PChecked tail w \<Rightarrow>
             s\<lparr>sp_rb := rb\<lparr>rb_buffer := (rb_buffer rb)[slot (rb_mask rb) tail := w]\<rparr>, sp_producer := PWritten tail w\<rparr>
         | PWritten tail w \<Rightarrow>
             s\<lparr>sp_rb := rb\<lparr>rb_tail := tail + 1\<rparr>, sp_producer := PIdle, sp_pushed := sp_pushed s @ [w]\<rparr>)"

fun consumer_step :: "'a spsc \<Rightarrow> 'a spsc" where
  "consumer_step s =
     (let rb = sp_rb s
      in case sp_consumer s of
           CIdle \<Rightarrow> s\<lparr>sp_consumer := CHead (rb_head rb)\<rparr>
         | CHead head \<Rightarrow> s\<lparr>sp_consumer := (if head = rb_tail rb then CIdle else CReady head)\<rparr>
         | CReady head \<Rightarrow> s\<lparr>sp_consumer := CRead head (rb_buffer rb ! slot (rb_mask rb) head)\<rparr>
         | CRead head v \<Rightarrow>
             s\<lparr>sp_rb := rb\<lparr>rb_head := head + 1\<rparr>, sp_consumer := CIdle, sp_popped := sp_popped s @ [v]\<rparr>)"

datatype 'a spsc_event = Produce 'a | Consume

fun spsc_step :: "'a spsc_event \<Rightarrow> 'a spsc \<Rightarrow> 'a spsc" where
  "spsc_step (Produce v) s = producer_step v s"
| "spsc_step Consume s = consumer_step s"

definition spsc_init :: "'a RingBuffer \<Rightarrow> 'a spsc" where
  "spsc_init rb = \<lparr> sp_rb = rb, sp_producer = PIdle, sp_consumer = CIdle, sp_pushed = [], sp_popped = [] \<rparr>"

definition producer_ok :: "nat \<Rightarrow> 'a RingBuffer \<Rightarrow> 'a producer \<Rightarrow> bool" where
  "producer_ok k rb p =
     (case p of PIdle \<Rightarrow> True
      | PTail t v \<Rightarrow> t = rb_tail rb
      | PChecked t v \<Rightarrow> t = rb_tail rb \<and> rb_size rb < 2 ^ k
      | PWritten t v \<Rightarrow> t = rb_tail rb \<and> rb_size rb < 2 ^ k \<and> rb_buffer rb ! slot (rb_mask rb) t = v)"

definition consumer_ok :: "'a RingBuffer \<Rightarrow> 'a consumer \<Rightarrow> bool" where
  "consumer_ok rb c =
     (case c of CIdle \<Rightarrow> True
      | CHead h \<Rightarrow> h = rb_head rb
      | CReady h \<Rightarrow> h = rb_head rb \<and> 0 < rb_size rb
      | CRead h v \<Rightarrow> h = rb_head rb \<and> 0 < rb_size rb \<and> rb_buffer rb ! slot (rb_mask rb) h = v)"

definition spsc_inv :: "nat \<Rightarrow> 'a spsc \<Rightarrow> bool" where
  "spsc_inv k s = (rb_inv k (sp_rb s) \<and> sp_pushed s = sp_popped s @ rb_content (sp_rb s) \<and>
     producer_ok k (sp_rb s) (sp_producer s) \<and> consumer_ok (sp_rb s) (sp_consumer s))"

lemma rb_inv_write [simp]: "rb_inv k (rb\<lparr>rb_buffer := (rb_buffer rb)[i := v]\<rparr>) = rb_inv k rb" "rb_size (rb\<lparr>rb_buffer := b\<rparr>) = rb_size rb"
  by (simp_all add: rb_inv_def rb_shape_def rb_size_def)

lemma write_head:
  assumes "rb_inv k rb" "rb_size rb < 2 ^ k" "0 < rb_size rb"
  shows "(rb_buffer rb)[slot (rb_mask rb) (rb_tail rb) := v] ! slot (rb_mask rb) (rb_head rb) = rb_buffer rb ! slot (rb_mask rb) (rb_head rb)"
proof -
  have m: "rb_mask rb = mask k" "k \<le> 62" using assms(1) by (simp_all add: rb_inv_def rb_shape_def)
  have "slot (rb_mask rb) (rb_tail rb) \<noteq> slot (rb_mask rb) (rb_head rb)"
    using slot_inj [OF m(2), of "rb_size rb" 0 "rb_head rb"] assms(2,3) unfolding m(1) tail_head [of rb] by auto
  then show ?thesis by simp
qed

lemma consumer_ok_publish:
  "rb_inv k rb \<Longrightarrow> rb_size rb < 2 ^ k \<Longrightarrow> consumer_ok rb c \<Longrightarrow> consumer_ok (rb\<lparr>rb_tail := rb_tail rb + 1\<rparr>) c"
  by (auto simp: consumer_ok_def publish_content split: consumer.splits)

lemma consumer_ok_write:
  "rb_inv k rb \<Longrightarrow> rb_size rb < 2 ^ k \<Longrightarrow> consumer_ok rb c \<Longrightarrow>
   consumer_ok (rb\<lparr>rb_buffer := (rb_buffer rb)[slot (rb_mask rb) (rb_tail rb) := v]\<rparr>) c"
  by (auto simp: consumer_ok_def write_head split: consumer.splits)

lemma producer_ok_take:
  "rb_inv k rb \<Longrightarrow> 0 < rb_size rb \<Longrightarrow> producer_ok k rb p \<Longrightarrow> producer_ok k (rb\<lparr>rb_head := rb_head rb + 1\<rparr>) p"
  by (auto simp: producer_ok_def take_content split: producer.splits)

lemma producer_step_inv:
  assumes "spsc_inv k s" shows "spsc_inv k (producer_step v s)"
proof -
  define rb where "rb = sp_rb s"
  have inv: "rb_inv k rb" "sp_pushed s = sp_popped s @ rb_content rb" "producer_ok k rb (sp_producer s)" "consumer_ok rb (sp_consumer s)"
    using assms by (simp_all add: spsc_inv_def rb_def)
  have len: "length (rb_buffer rb) = 2 ^ k" "slot (rb_mask rb) (rb_tail rb) < length (rb_buffer rb)"
    using inv(1) slot_range [of k rb] by (simp_all add: rb_inv_def rb_shape_def)
  show ?thesis
  proof (cases "sp_producer s")
    case PIdle
    then show ?thesis using inv by (simp add: spsc_inv_def rb_def [symmetric] producer_ok_def Let_def)
  next
    case (PTail t w)
    then show ?thesis using inv len by (simp add: spsc_inv_def rb_def [symmetric] producer_ok_def Let_def rb_size_def)
  next
    case (PChecked t w)
    then have "t = rb_tail rb" "rb_size rb < 2 ^ k" using inv(3) by (simp_all add: producer_ok_def)
    with PChecked show ?thesis
      using inv len(2) write_content [OF inv(1), of w] consumer_ok_write [OF inv(1), of "sp_consumer s" w]
      by (simp add: spsc_inv_def rb_def [symmetric] producer_ok_def Let_def)
  next
    case (PWritten t w)
    then have w: "t = rb_tail rb" "rb_size rb < 2 ^ k" "rb_buffer rb ! slot (rb_mask rb) t = w" using inv(3) by (auto simp: producer_ok_def)
    have "rb_inv k (rb\<lparr>rb_tail := rb_tail rb + 1\<rparr>)"
      using inv(1) w(2) publish_content(2) [OF inv(1) w(2)] by (simp add: rb_inv_def rb_shape_def)
    with PWritten w show ?thesis
      using inv publish_content(1) [OF inv(1) w(2)] consumer_ok_publish [OF inv(1) w(2) inv(4)]
      by (simp add: spsc_inv_def rb_def [symmetric] producer_ok_def Let_def)
  qed
qed

lemma consumer_step_inv:
  assumes "spsc_inv k s" shows "spsc_inv k (consumer_step s)"
proof -
  define rb where "rb = sp_rb s"
  have inv: "rb_inv k rb" "sp_pushed s = sp_popped s @ rb_content rb" "producer_ok k rb (sp_producer s)" "consumer_ok rb (sp_consumer s)"
    using assms by (simp_all add: spsc_inv_def rb_def)
  show ?thesis
  proof (cases "sp_consumer s")
    case (CRead h w)
    then have w: "h = rb_head rb" "0 < rb_size rb" "rb_buffer rb ! slot (rb_mask rb) h = w" using inv(4) by (auto simp: consumer_ok_def)
    have "rb_inv k (rb\<lparr>rb_head := rb_head rb + 1\<rparr>)"
      using inv(1) w(2) take_content(2) [OF inv(1) w(2)] by (simp add: rb_inv_def rb_shape_def le_diff_conv)
    with CRead w show ?thesis
      using inv take_content(1) [OF inv(1) w(2)] producer_ok_take [OF inv(1) w(2) inv(3)]
      by (simp add: spsc_inv_def rb_def [symmetric] consumer_ok_def Let_def)
  qed (use inv empty_size [of rb] in \<open>simp_all add: spsc_inv_def rb_def [symmetric] consumer_ok_def Let_def\<close>)
qed

text \<open>
  C18. The ring buffer is a first-in-first-out queue for one producer and one consumer: however their atomic
  operations interleave, what has been popped is what was pushed first, in order, without loss or
  repetition, and never more than the capacity lies in between. The capacity is the least power of
  two that is not below the requested one.
\<close>

theorem RingBuffer_SPSC:
  assumes "1 \<le> c" "c \<le> 2 ^ 62" "NewRingBuffer zero c = Inr rb"
  shows "\<exists>rest k. sp_pushed (fold spsc_step es (spsc_init rb)) = sp_popped (fold spsc_step es (spsc_init rb)) @ rest \<and>
    length rest \<le> RingBuffer_Capacity rb \<and> int (RingBuffer_Capacity rb) = 2 ^ k \<and> c \<le> 2 ^ k \<and> (k = 0 \<or> 2 ^ (k - 1) < c)"
proof -
  obtain k where k: "rb_inv k rb" "rb_content rb = []" "c \<le> 2 ^ k" "k = 0 \<or> 2 ^ (k - 1) < c" using New_inv [OF assms(1,2), of zero] assms(3) by auto
  have "spsc_inv k (fold spsc_step es s)" if "spsc_inv k s" for s
    using that
  proof (induction es arbitrary: s)
    case (Cons e es)
    then show ?case by (cases e) (simp_all add: producer_step_inv consumer_step_inv del: producer_step.simps consumer_step.simps)
  qed simp
  moreover have "spsc_inv k (spsc_init rb)" using k by (simp add: spsc_inv_def spsc_init_def producer_ok_def consumer_ok_def)
  ultimately have "spsc_inv k (fold spsc_step es (spsc_init rb))" by blast
  moreover have "RingBuffer_Capacity rb = 2 ^ k" using k(1) by (simp add: rb_inv_def rb_shape_def RingBuffer_Capacity_def)
  ultimately show ?thesis
    using k(3,4) by (intro exI [of _ "rb_content (sp_rb (fold spsc_step es (spsc_init rb)))"] exI [of _ k]) (simp add: spsc_inv_def rb_inv_def)
qed

text \<open>A buffer for three elements has room for four; the consumer starts while the producer is in its first call.\<close>

definition spsc_example :: "nat spsc_event list" where
  "spsc_example = [Produce 5, Consume, Produce 5, Produce 5, Consume, Produce 5, Consume, Produce 6, Consume, Consume, Produce 6, Consume]"

theorem RingBuffer_SPSC_witness:
  "case NewRingBuffer (0 :: nat) 3 of
     Inl e \<Rightarrow> False
   | Inr rb \<Rightarrow> RingBuffer_Capacity rb = 4 \<and> sp_popped (fold spsc_step spsc_example (spsc_init rb)) = [5] \<and>
       (\<exists>rest. sp_pushed (fold spsc_step spsc_example (spsc_init rb)) = sp_popped (fold spsc_step spsc_example (spsc_init rb)) @ rest)"
proof -
  let ?rb = "\<lparr> rb_buffer = [0, 0, 0, 0 :: nat], rb_mask = 3, rb_head = 0, rb_tail = 0 \<rparr>"
  have rb: "NewRingBuffer (0 :: nat) 3 = Inr ?rb" by code_simp
  have "sp_popped (fold spsc_step spsc_example (spsc_init ?rb)) = [5]" by code_simp
  then show ?thesis unfolding rb using RingBuffer_SPSC [OF _ _ rb, of spsc_example] by (auto simp: RingBuffer_Capacity_def)
qed

end
