(* ===== verification/Health.thy ===== *)
theory Health
  imports Go_Net Go_Strings Backend
begin

text \<open>
  Active health checking, \<^verbatim>\<open>internal/health/health.go\<close>: the probes as far as they do not leave the program,
  the guard on the addresses that are probed, and the counting of results with its effect on the state of the
  backend. What the network or a command answers to a probe is an argument.
\<close>

section \<open>Checks\<close>

datatype Status = StatusUnknown | StatusHealthy | StatusUnhealthy

fun Status_String :: "Status \<Rightarrow> string" where
  "Status_String StatusHealthy = ''healthy''"
| "Status_String StatusUnhealthy = ''unhealthy''"
| "Status_String StatusUnknown = ''unknown''"

record HCheck =
  hc_Type :: string
  hc_Interval :: int
  hc_Timeout :: int
  hc_Path :: string
  hc_Method :: string
  hc_ExpectedStatus :: int
  hc_Headers :: "(string, string) gomap"
  hc_Command :: string
  hc_Args :: "string list"
  hc_HealthyThreshold :: int
  hc_UnhealthyThreshold :: int

definition DefaultCheck :: HCheck where
  "DefaultCheck = \<lparr> hc_Type = ''tcp'', hc_Interval = 10000000000, hc_Timeout = 5000000000, hc_Path = ''/health'', hc_Method = ''GET'',
     hc_ExpectedStatus = 200, hc_Headers = [], hc_Command = '''', hc_Args = [], hc_HealthyThreshold = 2, hc_UnhealthyThreshold = 3 \<rparr>"

record Result =
  res_Healthy :: bool
  res_Error :: string

abbreviation passed_check :: Result where
  "passed_check \<equiv> \<lparr> res_Healthy = True, res_Error = '''' \<rparr>"

abbreviation failed_check :: "string \<Rightarrow> Result" where
  "failed_check e \<equiv> \<lparr> res_Healthy = False, res_Error = e \<rparr>"

section \<open>The guard\<close>

definition isInternalAddress :: "string \<Rightarrow> bool" where
  "isInternalAddress host =
     (host \<in> {''169.254.169.254'', ''metadata.google.internal'', ''metadata.google'', ''100.100.100.200'', ''fd00:ec2::254'', ''0.0.0.0''} \<or>
      HasPrefix host ''169.254.'' \<or>
      (case ParseIP host of
         None \<Rightarrow> False
       | Some ip \<Rightarrow> length ip = 16 \<and> ip ! 0 = 0xfe \<and> (ip ! 1) AND 0xc0 = 0x80))"

text \<open>\<^verbatim>\<open>IsLinkLocalUnicast\<close> and \<^verbatim>\<open>IsUnspecified\<close> of \<^verbatim>\<open>net.IP\<close>.\<close>

definition IsLinkLocalUnicast :: "IP \<Rightarrow> bool" where
  "IsLinkLocalUnicast ip =
     (case To4 ip of
        Some ip4 \<Rightarrow> ip4 ! 0 = 169 \<and> ip4 ! 1 = 254
      | None \<Rightarrow> length ip = 16 \<and> ip ! 0 = 0xfe \<and> (ip ! 1) AND 0xc0 = 0x80)"

definition IsUnspecified :: "IP \<Rightarrow> bool" where
  "IsUnspecified ip = (IP_Equal ip (v4InV6Prefix @ [0, 0, 0, 0]) \<or> IP_Equal ip (replicate 16 0))"

definition addr_host :: "string \<Rightarrow> string" where
  "addr_host address = (case SplitHostPort address of Some (host, _) \<Rightarrow> host | None \<Rightarrow> address)"

text \<open>True is the refusal.\<close>

definition guardHealthDial :: "string \<Rightarrow> bool" where
  "guardHealthDial address =
     (let host = addr_host address
      in isInternalAddress host \<or>
         (case ParseIP host of None \<Rightarrow> False | Some ip \<Rightarrow> IsLinkLocalUnicast ip \<or> IsUnspecified ip))"

section \<open>Probes\<close>

text \<open>The answers: the status code of an HTTP request, code and \<^verbatim>\<open>Grpc-Status\<close> of a gRPC request over TLS and
  without, whether the connection and the command succeed.\<close>

record Answers =
  ans_http :: "int option"
  ans_grpc :: "(int \<times> string) option"
  ans_grpc_plain :: "(int \<times> string) option"
  ans_dial :: bool
  ans_exec :: bool

definition checkHTTP :: "Answers \<Rightarrow> Backend \<Rightarrow> HCheck \<Rightarrow> Result" where
  "checkHTTP ans b config =
     (if isInternalAddress (addr_host (b_Address b)) then failed_check ''internal/private address (SSRF protection)''
      else case ans_http ans of
             None \<Rightarrow> failed_check ''request failed''
           | Some code \<Rightarrow>
               if hc_ExpectedStatus config \<noteq> 0
               then (if code \<noteq> hc_ExpectedStatus config then failed_check ''unexpected status code'' else passed_check)
               else (if code < 200 \<or> code \<ge> 300 then failed_check ''unexpected status code'' else passed_check))"

definition checkGRPC :: "Answers \<Rightarrow> Backend \<Rightarrow> HCheck \<Rightarrow> Result" where
  "checkGRPC ans b config =
     (case (case ans_grpc ans of None \<Rightarrow> ans_grpc_plain ans | Some r \<Rightarrow> Some r) of
        None \<Rightarrow> failed_check ''grpc health check failed''
      | Some (code, grpcStatus) \<Rightarrow>
          if grpcStatus \<noteq> '''' \<and> grpcStatus \<noteq> ''0'' then failed_check (''grpc health check returned status: '' @ grpcStatus)
          else if code = 200 then passed_check
          else failed_check ''grpc health check HTTP status'')"

text \<open>\<^verbatim>\<open>strings.ReplaceAll\<close> for a pattern that is not empty.\<close>

definition resolveExecTemplate :: "string \<Rightarrow> string \<Rightarrow> string \<Rightarrow> string \<Rightarrow> string" where
  "resolveExecTemplate s address host port =
     (if \<not> has_infix ''{{'' s then s
      else replace_all ''{{.Port}}'' port (replace_all ''{{.Host}}'' host (replace_all ''{{.Address}}'' address s)))"

definition truncateString :: "string \<Rightarrow> nat \<Rightarrow> string" where
  "truncateString s maxLen = (if length s \<le> maxLen then s else take maxLen s @ ''...'')"

definition checkExec :: "Answers \<Rightarrow> Backend \<Rightarrow> HCheck \<Rightarrow> Result" where
  "checkExec ans b config =
     (if hc_Command config = '''' then failed_check ''exec health check: no command specified''
      else case SplitHostPort (b_Address b) of
             None \<Rightarrow> failed_check ''exec health check: invalid backend address''
           | Some (host, port) \<Rightarrow>
               if \<not> HasPrefix (resolveExecTemplate (hc_Command config) (b_Address b) host port) ''/''
               then failed_check ''exec health check: command must be an absolute path''
               else if ans_exec ans then passed_check else failed_check ''exec health check failed'')"

definition checkTCP :: "Answers \<Rightarrow> Backend \<Rightarrow> HCheck \<Rightarrow> Result" where
  "checkTCP ans b config = (if ans_dial ans then passed_check else failed_check ''dial failed'')"

definition probe_backend :: "Answers \<Rightarrow> Backend \<Rightarrow> HCheck \<Rightarrow> Result" where
  "probe_backend ans b config =
     (if hc_Type config \<in> {''http'', ''https''} then checkHTTP ans b config
      else if hc_Type config = ''tcp'' then checkTCP ans b config
      else if hc_Type config = ''grpc'' then checkGRPC ans b config
      else if hc_Type config = ''exec'' then checkExec ans b config
      else failed_check (''unknown health check type: '' @ hc_Type config))"

section \<open>Counting results\<close>

record checkState =
  cks_backend :: bref
  cks_config :: HCheck
  cks_status :: Status
  cks_consecutiveOK :: int
  cks_consecutiveFail :: int
  cks_lastResult :: "Result option"

definition transition_if :: "State \<Rightarrow> Backend \<Rightarrow> Backend" where
  "transition_if s b = (if CanTransitionTo (b_state b) s then snd (Backend_TransitionState b s) else b)"

definition performCheck :: "Answers \<Rightarrow> int \<Rightarrow> checkState \<Rightarrow> heap \<Rightarrow> checkState \<times> heap" where
  "performCheck ans now st h =
     (let config = cks_config st;
          b = cks_backend st;
          result = probe_backend ans (h b) config;
          st = st\<lparr>cks_lastResult := Some result\<rparr>;
          (st, be) =
            (if res_Healthy result then
               (let st = st\<lparr>cks_consecutiveOK := cks_consecutiveOK st + 1, cks_consecutiveFail := 0\<rparr>
                in if cks_status st \<noteq> StatusHealthy \<and> cks_consecutiveOK st \<ge> hc_HealthyThreshold config
                   then (st\<lparr>cks_status := StatusHealthy\<rparr>, transition_if StateUp (h b))
                   else (st, h b))
             else
               (let st = st\<lparr>cks_consecutiveFail := cks_consecutiveFail st + 1, cks_consecutiveOK := 0\<rparr>
                in if cks_status st \<noteq> StatusUnhealthy \<and> cks_consecutiveFail st \<ge> hc_UnhealthyThreshold config
                   then (st\<lparr>cks_status := StatusUnhealthy\<rparr>, transition_if StateDown (h b))
                   else (st, h b)))
      in (st, h(b := Backend_RecordHealthCheck now be (res_Healthy result))))"

section \<open>The checker\<close>

type_synonym Checker = "(string, checkState) gomap"

definition Checker_Register :: "heap \<Rightarrow> bref option \<Rightarrow> HCheck option \<Rightarrow> Checker \<Rightarrow> string option \<times> Checker" where
  "Checker_Register h b config c =
     (case b of
        None \<Rightarrow> (Some ''backend cannot be nil'', c)
      | Some b \<Rightarrow>
          if map_of c (b_ID (h b)) \<noteq> None then (Some (''backend '' @ b_ID (h b) @ '' is already registered''), c)
          else (None, AList.update (b_ID (h b))
                 \<lparr> cks_backend = b, cks_config = (case config of None \<Rightarrow> DefaultCheck | Some x \<Rightarrow> x), cks_status = StatusUnknown,
                   cks_consecutiveOK = 0, cks_consecutiveFail = 0, cks_lastResult = None \<rparr> c))"

definition Checker_Unregister :: "string \<Rightarrow> Checker \<Rightarrow> Checker" where
  "Checker_Unregister i c = AList.delete i c"

definition Checker_GetStatus :: "string \<Rightarrow> Checker \<Rightarrow> Status" where
  "Checker_GetStatus i c = (case map_of c i of Some st \<Rightarrow> cks_status st | None \<Rightarrow> StatusUnknown)"

definition Checker_GetResult :: "string \<Rightarrow> Checker \<Rightarrow> Result option" where
  "Checker_GetResult i c = (case map_of c i of Some st \<Rightarrow> cks_lastResult st | None \<Rightarrow> None)"

definition Checker_ListStatuses :: "Checker \<Rightarrow> (string \<times> Status) list" where
  "Checker_ListStatuses c = map (\<lambda>(i, st). (i, cks_status st)) c"

definition Checker_CountHealthy :: "Checker \<Rightarrow> nat" where
  "Checker_CountHealthy c = length (filter (\<lambda>(i, st). cks_status st = StatusHealthy) c)"

definition Checker_CountUnhealthy :: "Checker \<Rightarrow> nat" where
  "Checker_CountUnhealthy c = length (filter (\<lambda>(i, st). cks_status st = StatusUnhealthy) c)"

text \<open>A tick of the loop of a registered backend.\<close>

definition Checker_tick :: "string \<Rightarrow> Answers \<Rightarrow> int \<Rightarrow> Checker \<times> heap \<Rightarrow> Checker \<times> heap" where
  "Checker_tick i ans now ch =
     (case ch of (c, h) \<Rightarrow>
        case map_of c i of
          None \<Rightarrow> (c, h)
        | Some st \<Rightarrow> (let (st', h') = performCheck ans now st h in (AList.update i st' c, h')))"

section \<open>Which results decide\<close>

text \<open>The results of a run of checks, the latest first, and the length of the run of equal results at its head.\<close>

fun streak :: "bool \<Rightarrow> bool list \<Rightarrow> nat" where
  "streak r [] = 0"
| "streak r (x # xs) = (if x = r then Suc (streak r xs) else 0)"

text \<open>The reference: the most recent check that completed enough equal results in a row decides.\<close>

fun verdict :: "int \<Rightarrow> int \<Rightarrow> bool list \<Rightarrow> Status" where
  "verdict ht ut [] = StatusUnknown"
| "verdict ht ut (x # xs) =
     (if x \<and> int (streak True (x # xs)) \<ge> ht then StatusHealthy
      else if \<not> x \<and> int (streak False (x # xs)) \<ge> ut then StatusUnhealthy
      else verdict ht ut xs)"

fun perform_all :: "(Answers \<times> int) list \<Rightarrow> checkState \<times> heap \<Rightarrow> checkState \<times> heap" where
  "perform_all [] s = s"
| "perform_all ((ans, now) # cs) s = perform_all cs (case s of (st, h) \<Rightarrow> performCheck ans now st h)"

text \<open>The results of the checks, the latest first.\<close>

fun results_of :: "(Answers \<times> int) list \<Rightarrow> checkState \<times> heap \<Rightarrow> bool list" where
  "results_of [] s = []"
| "results_of ((ans, now) # cs) s =
     results_of cs (case s of (st, h) \<Rightarrow> performCheck ans now st h) @
     [res_Healthy (probe_backend ans (snd s (cks_backend (fst s))) (cks_config (fst s)))]"

definition counts :: "bool list \<Rightarrow> checkState \<Rightarrow> bool" where
  "counts rs st = (cks_status st = verdict (hc_HealthyThreshold (cks_config st)) (hc_UnhealthyThreshold (cks_config st)) rs \<and>
     cks_consecutiveOK st = int (streak True rs) \<and> cks_consecutiveFail st = int (streak False rs))"

lemma performCheck_config [simp]:
  "cks_config (fst (performCheck ans now st h)) = cks_config st" "cks_backend (fst (performCheck ans now st h)) = cks_backend st"
  by (simp_all add: performCheck_def Let_def split_beta)

lemma performCheck_counts:
  assumes "counts rs st"
  shows "counts (res_Healthy (probe_backend ans (h (cks_backend st)) (cks_config st)) # rs) (fst (performCheck ans now st h))"
  using assms by (simp add: counts_def performCheck_def Let_def split_beta)

lemma perform_all_counts:
  assumes "counts rs st"
  shows "counts (results_of cs (st, h) @ rs) (fst (perform_all cs (st, h)))"
  using assms
proof (induction cs arbitrary: rs st h)
  case (Cons c cs)
  obtain ans now where c: "c = (ans, now)" by force
  obtain st' h' where p: "performCheck ans now st h = (st', h')" by force
  from performCheck_counts [OF Cons.prems, of ans h now] Cons.IH [of _ st' h'] show ?case by (simp add: c p)
qed simp

lemma verdict_Unhealthy_stays:
  "verdict ht ut rs = StatusHealthy \<Longrightarrow> \<forall>i \<le> length xs. int (streak False (drop i xs @ rs)) < ut \<Longrightarrow> verdict ht ut (xs @ rs) = StatusHealthy"
proof (induction xs)
  case (Cons x xs)
  from Cons.prems(2) have "\<forall>i \<le> length xs. int (streak False (drop i xs @ rs)) < ut" by (metis Suc_le_mono drop_Suc_Cons length_Cons)
  moreover have "int (streak False ((x # xs) @ rs)) < ut" using Cons.prems(2) by (metis drop0 le0)
  ultimately show ?case using Cons.IH Cons.prems(1) by auto
qed simp

section \<open>The guard refuses\<close>

lemma guard_host:
  assumes "set port \<subseteq> addr_chars - {CHR '':''}"
  shows "addr_host (JoinHostPort (IP_String ip) port) = IP_String ip"
proof -
  have "CHR ''['' \<notin> addr_chars" "CHR '']'' \<notin> addr_chars" by (simp_all add: addr_chars_def)
  then have "SplitHostPort (JoinHostPort (IP_String ip) port) = Some (IP_String ip, port)"
    using assms IP_String_chars [of ip] by (intro SplitHostPort_Join) blast+
  then show ?thesis by (simp add: addr_host_def)
qed


section \<open>Properties\<close>

lemma failing_check:
  assumes "cks_status st = StatusUnhealthy" "\<not> res_Healthy (probe_backend ans (h (cks_backend st)) (cks_config st))"
  shows "cks_status (fst (performCheck ans now st h)) = StatusUnhealthy"
    "b_state (snd (performCheck ans now st h) x) = b_state (h x)"
  using assms by (auto simp: performCheck_def Let_def split_beta Backend_RecordHealthCheck_def)

lemma failing_checks:
  assumes "cks_status st = StatusUnhealthy" "True \<notin> set (results_of cs (st, h))"
  shows "cks_status (fst (perform_all cs (st, h))) = StatusUnhealthy \<and> b_state (snd (perform_all cs (st, h)) x) = b_state (h x)"
  using assms
proof (induction cs arbitrary: st h)
  case (Cons c cs)
  obtain ans now where c: "c = (ans, now)" by force
  obtain st' h' where p: "performCheck ans now st h = (st', h')" by force
  have "\<not> res_Healthy (probe_backend ans (h (cks_backend st)) (cks_config st))" "True \<notin> set (results_of cs (st', h'))"
    using Cons.prems(2) by (auto simp: c p)
  with failing_check [OF Cons.prems(1), of ans h now] Cons.IH [of st' h'] p show ?case by (simp add: c)
qed simp

text \<open>
  C19. The status of a backend is decided by runs of results: after any sequence of checks since its
  registration it is healthy or unhealthy according to the last time the threshold of equal results in a
  row was reached, so a single result against the trend never changes it.
\<close>

theorem Health_verdict:
  assumes "Checker_Register h0 (Some b) (Some config) [] = (None, c)" "map_of c i = Some st"
  shows "cks_status (fst (perform_all cs (st, h))) =
    verdict (hc_HealthyThreshold config) (hc_UnhealthyThreshold config) (results_of cs (st, h))"
proof -
  have st: "counts [] st" "cks_config st = config" using assms by (auto simp: Checker_Register_def counts_def split: if_splits)
  have "cks_config (fst (perform_all cs (st, h))) = cks_config st" for cs
  proof (induction cs arbitrary: st h)
    case (Cons c cs)
    obtain ans now where c: "c = (ans, now)" by force
    obtain st' h' where p: "performCheck ans now st h = (st', h')" by force
    from Cons.IH [of st' h'] performCheck_config(1) [of ans now st h] show ?case by (simp add: c p)
  qed simp
  with perform_all_counts [OF st(1), of cs h] st(2) show ?thesis by (simp add: counts_def)
qed


text \<open>
  A backend that is enabled by hand while its checks fail stays up: the checker only acts when its own
  status changes, so no number of further failed checks takes the backend out of rotation.
\<close>

theorem Health_enabled_stays_up:
  assumes "cks_status st = StatusUnhealthy" "b_state (h (cks_backend st)) = StateUp" "True \<notin> set (results_of cs (st, h))"
  shows "b_state (snd (perform_all cs (st, h)) (cks_backend st)) = StateUp"
  using failing_checks [OF assms(1,3), of "cks_backend st"] assms(2) by simp

text \<open>
  No health check connects to a link-local or unspecified address: the guard of the dialler refuses every such
  address in the form in which the resolved address is given to it.
\<close>

theorem Health_guard_refuses:
  assumes "length ip = 16" "IsLinkLocalUnicast ip \<or> IsUnspecified ip" "set port \<subseteq> addr_chars - {CHR '':''}"
  shows "guardHealthDial (JoinHostPort (IP_String ip) port)"
  using guard_host [OF assms(3), of ip] ParseIP_String [OF assms(1)] assms(2) by (simp add: guardHealthDial_def)

section \<open>Examples\<close>

definition example_answers :: "bool \<Rightarrow> Answers" where
  "example_answers ok = \<lparr> ans_http = None, ans_grpc = None, ans_grpc_plain = None, ans_dial = ok, ans_exec = False \<rparr>"

definition example_checked :: "Status \<Rightarrow> checkState" where
  "example_checked s = \<lparr> cks_backend = 1, cks_config = DefaultCheck, cks_status = s, cks_consecutiveOK = 0, cks_consecutiveFail = 0, cks_lastResult = None \<rparr>"

definition example_heap :: "State \<Rightarrow> heap" where
  "example_heap s = (\<lambda>_. Backend_SetState (NewBackend ''b'' ''10.0.0.1:80'') s)"

theorem Health_verdict_witness:
  "cks_status (fst (perform_all (map (\<lambda>ok. (example_answers ok, 0)) [False, True, True, False, False]) (example_checked StatusUnknown, example_heap StateUp))) = StatusHealthy"
proof -
  have r: "Checker_Register (example_heap StateUp) (Some 1) (Some DefaultCheck) [] = (None, [(''b'', example_checked StatusUnknown)])"
    by (simp add: Checker_Register_def example_checked_def example_heap_def Backend_SetState_def NewBackend_sel)
  from Health_verdict [OF r, of "''b''"] show ?thesis
    by (simp add: example_checked_def example_answers_def probe_backend_def checkTCP_def DefaultCheck_def performCheck_def Let_def)
qed


theorem Health_enabled_stays_up_witness:
  "b_state (snd (perform_all [(example_answers False, 0), (example_answers False, 1)] (example_checked StatusUnhealthy, example_heap StateUp)) 1) = StateUp"
proof -
  have "True \<notin> set (results_of [(example_answers False, 0), (example_answers False, 1)] (example_checked StatusUnhealthy, example_heap StateUp))"
    by (simp add: example_checked_def example_answers_def probe_backend_def checkTCP_def DefaultCheck_def performCheck_def Let_def)
  from Health_enabled_stays_up [OF _ _ this] show ?thesis
    by (simp add: example_checked_def example_heap_def Backend_SetState_def del: perform_all.simps)
qed

theorem Health_guard_refuses_witness:
  "guardHealthDial (JoinHostPort (IP_String (v4InV6Prefix @ [169, 254, 169, 254])) ''80'')"
  by (rule Health_guard_refuses) (auto simp: v4InV6Prefix_def IsLinkLocalUnicast_def To4_def addr_chars_def)

end
