(* ===== verification/Passive_Health.thy ===== *)
theory Passive_Health
  imports Health
begin

text \<open>
  Passive health checking, \<^verbatim>\<open>internal/health/passive.go\<close>: a ring of recent results per backend, the rules
  that mark a backend unhealthy from its traffic and the recovery after a cooldown. Time is an argument,
  the callbacks are a history.
\<close>

section \<open>The sliding window\<close>

record PassiveHealthConfig =
  phc_ErrorRateThreshold :: rat
  phc_WindowSize :: int
  phc_MinRequests :: int
  phc_CooldownPeriod :: int
  phc_ConsecutiveErrors :: int
  phc_EvalInterval :: int


record requestResult =
  rr_success :: bool
  rr_timestamp :: int

record SlidingWindow =
  sw_results :: "requestResult list"
  sw_size :: nat
  sw_head :: nat
  sw_count :: nat

definition NewSlidingWindow :: "int \<Rightarrow> SlidingWindow" where
  "NewSlidingWindow capacity =
     (let n = (if capacity \<le> 0 then 1024 else nat capacity)
      in \<lparr> sw_results = replicate n \<lparr> rr_success = False, rr_timestamp = 0 \<rparr>, sw_size = n, sw_head = 0, sw_count = 0 \<rparr>)"

definition SlidingWindow_Record :: "bool \<Rightarrow> int \<Rightarrow> SlidingWindow \<Rightarrow> SlidingWindow" where
  "SlidingWindow_Record success ts sw =
     sw\<lparr> sw_results := (sw_results sw)[sw_head sw := \<lparr> rr_success = success, rr_timestamp = ts \<rparr>],
         sw_head := (sw_head sw + 1) mod sw_size sw,
         sw_count := (if sw_count sw < sw_size sw then sw_count sw + 1 else sw_count sw) \<rparr>"

text \<open>The loop of \<^verbatim>\<open>Stats\<close>: \<open>n\<close> entries are left, \<open>i\<close> have been read.\<close>

primrec stats_loop :: "nat \<Rightarrow> nat \<Rightarrow> int \<Rightarrow> SlidingWindow \<Rightarrow> nat \<times> nat" where
  "stats_loop 0 i cutoff sw = (0, 0)"
| "stats_loop (Suc n) i cutoff sw =
     (let r = sw_results sw ! ((sw_head sw + sw_size sw - 1 - i) mod sw_size sw)
      in if rr_timestamp r < cutoff then (0, 0)
         else let (tot, failures) = stats_loop n (i + 1) cutoff sw
              in (tot + 1, if rr_success r then failures else failures + 1))"

definition SlidingWindow_Stats :: "int \<Rightarrow> int \<Rightarrow> SlidingWindow \<Rightarrow> nat \<times> nat \<times> rat" where
  "SlidingWindow_Stats windowSize now sw =
     (let (tot, failures) = stats_loop (sw_count sw) 0 (now - windowSize) sw
      in (tot, failures, if tot > 0 then fl64 (of_nat failures / of_nat tot) else 0))"

definition SlidingWindow_Reset :: "SlidingWindow \<Rightarrow> SlidingWindow" where
  "SlidingWindow_Reset sw = sw\<lparr>sw_head := 0, sw_count := 0\<rparr>"

section \<open>The checker\<close>

record backendState =
  bst_window :: SlidingWindow
  bst_status :: Status
  bst_consecutiveFails :: int
  bst_unhealthySince :: "int option"

datatype passive_call = OnBackendUnhealthy string | OnBackendRecovered string

record PassiveChecker =
  pc_config :: PassiveHealthConfig
  pc_backends :: "(string, backendState) gomap"
  pc_calls :: "passive_call list"


definition new_backendState :: backendState where
  "new_backendState = \<lparr> bst_window = NewSlidingWindow 1024, bst_status = StatusHealthy, bst_consecutiveFails = 0, bst_unhealthySince = None \<rparr>"

definition getOrCreateBackend :: "string \<Rightarrow> PassiveChecker \<Rightarrow> backendState" where
  "getOrCreateBackend addr pc = (case map_of (pc_backends pc) addr of Some bs \<Rightarrow> bs | None \<Rightarrow> new_backendState)"

definition put_backend :: "string \<Rightarrow> backendState \<Rightarrow> PassiveChecker \<Rightarrow> PassiveChecker" where
  "put_backend addr bs pc = pc\<lparr>pc_backends := AList.update addr bs (pc_backends pc)\<rparr>"

definition RecordSuccess :: "string \<Rightarrow> int \<Rightarrow> PassiveChecker \<Rightarrow> PassiveChecker" where
  "RecordSuccess addr now pc =
     (let bs = getOrCreateBackend addr pc
      in put_backend addr (bs\<lparr>bst_window := SlidingWindow_Record True now (bst_window bs), bst_consecutiveFails := 0\<rparr>) pc)"

definition markUnhealthy :: "string \<Rightarrow> int \<Rightarrow> PassiveChecker \<Rightarrow> PassiveChecker" where
  "markUnhealthy addr now pc =
     (let bs = getOrCreateBackend addr pc
      in if bst_status bs = StatusUnhealthy then pc
         else (put_backend addr (bs\<lparr>bst_status := StatusUnhealthy, bst_unhealthySince := Some now\<rparr>) pc)
                \<lparr>pc_calls := pc_calls pc @ [OnBackendUnhealthy addr]\<rparr>)"

definition RecordFailure :: "string \<Rightarrow> int \<Rightarrow> PassiveChecker \<Rightarrow> PassiveChecker" where
  "RecordFailure addr now pc =
     (let bs = getOrCreateBackend addr pc;
          consec = bst_consecutiveFails bs + 1;
          pc' = put_backend addr (bs\<lparr>bst_window := SlidingWindow_Record False now (bst_window bs), bst_consecutiveFails := consec\<rparr>) pc
      in if consec \<ge> phc_ConsecutiveErrors (pc_config pc) then markUnhealthy addr now pc' else pc')"

definition RecordResult :: "string \<Rightarrow> int \<Rightarrow> bool \<Rightarrow> int \<Rightarrow> PassiveChecker \<Rightarrow> PassiveChecker" where
  "RecordResult addr statusCode err now pc =
     (if err \<or> statusCode \<ge> 500 then RecordFailure addr now pc else RecordSuccess addr now pc)"




record BackendPassiveStats =
  bps_Status :: Status
  bps_TotalRequests :: nat
  bps_Failures :: nat
  bps_ErrorRate :: rat
  bps_ConsecutiveFailures :: int
  bps_UnhealthySince :: "int option"

definition GetStats :: "string \<Rightarrow> int \<Rightarrow> PassiveChecker \<Rightarrow> BackendPassiveStats option" where
  "GetStats addr now pc =
     (case map_of (pc_backends pc) addr of
        None \<Rightarrow> None
      | Some bs \<Rightarrow>
          (case SlidingWindow_Stats (phc_WindowSize (pc_config pc)) now (bst_window bs) of
             (tot, failures, errorRate) \<Rightarrow>
               Some \<lparr> bps_Status = bst_status bs, bps_TotalRequests = tot, bps_Failures = failures, bps_ErrorRate = errorRate,
                      bps_ConsecutiveFailures = bst_consecutiveFails bs, bps_UnhealthySince = bst_unhealthySince bs \<rparr>))"



definition ListBackends :: "PassiveChecker \<Rightarrow> string list" where
  "ListBackends pc = map fst (pc_backends pc)"

section \<open>The window as a list\<close>

text \<open>The entries of the ring, the latest first.\<close>

definition window_entries :: "SlidingWindow \<Rightarrow> requestResult list" where
  "window_entries sw = map (\<lambda>i. sw_results sw ! ((sw_head sw + sw_size sw - 1 - i) mod sw_size sw)) [0..<sw_count sw]"

definition window_ok :: "SlidingWindow \<Rightarrow> bool" where
  "window_ok sw = (0 < sw_size sw \<and> length (sw_results sw) = sw_size sw \<and> sw_head sw < sw_size sw \<and> sw_count sw \<le> sw_size sw)"

lemma ring_index:
  fixes h i n :: nat
  assumes "0 < n" "h < n" "i < n"
  shows "(((h + 1) mod n) + n - 1 - i) mod n = (if i = 0 then h else (h + n - 1 - (i - 1)) mod n)"
proof (cases "h + 1 = n")
  case True
  then have "n - Suc i < n" using assms by simp
  show ?thesis
  proof (cases i)
    case (Suc j)
    have "h + n - 1 - j = (n - Suc (Suc j)) + n" using True Suc assms by simp
    then have "(h + n - 1 - j) mod n = (n - Suc (Suc j)) mod n" by (simp only: mod_add_self2)
    moreover have "(n - Suc (Suc j)) mod n = n - Suc (Suc j)" using assms(1) by (intro mod_less) simp
    ultimately show ?thesis using True Suc assms by simp
  qed (use True assms in simp)
next
  case False
  then have "(h + 1) mod n = h + 1" using assms by simp
  then show ?thesis using assms by (cases i) simp_all
qed

lemma ring_index_other:
  fixes h i n :: nat
  assumes "0 < n" "h < n" "i < n" "0 < i"
  shows "(((h + 1) mod n) + n - 1 - i) mod n \<noteq> h"
proof -
  have "(h + n - 1 - (i - 1)) mod n \<noteq> h"
  proof (cases "i \<le> h")
    case True
    then have "h + n - 1 - (i - 1) = (h - i) + n" using assms by simp
    then have "(h + n - 1 - (i - 1)) mod n = (h - i) mod n" by (simp only: mod_add_self2)
    moreover have "(h - i) mod n = h - i" using assms(2) by (intro mod_less) simp
    ultimately show ?thesis using True assms by linarith
  next
    case False
    then have "h + n - 1 - (i - 1) = h + n - i" "h + n - i < n" using assms by simp_all
    then show ?thesis using assms by simp
  qed
  then show ?thesis using ring_index [OF assms(1-3)] assms(4) by simp
qed

lemma Record_entries:
  assumes "window_ok sw"
  shows "window_entries (SlidingWindow_Record s ts sw) = take (sw_size sw) (\<lparr> rr_success = s, rr_timestamp = ts \<rparr> # window_entries sw)"
    "window_ok (SlidingWindow_Record s ts sw)"
proof -
  let ?n = "sw_size sw" and ?h = "sw_head sw" and ?r = "\<lparr> rr_success = s, rr_timestamp = ts \<rparr>"
  have ok: "0 < ?n" "length (sw_results sw) = ?n" "?h < ?n" "sw_count sw \<le> ?n" using assms by (auto simp: window_ok_def)
  show "window_ok (SlidingWindow_Record s ts sw)" using ok by (simp add: window_ok_def SlidingWindow_Record_def)
  show "window_entries (SlidingWindow_Record s ts sw) = take ?n (?r # window_entries sw)"
  proof (rule nth_equalityI)
    show "length (window_entries (SlidingWindow_Record s ts sw)) = length (take ?n (?r # window_entries sw))"
      using ok by (simp add: window_entries_def SlidingWindow_Record_def)
    fix i assume i: "i < length (window_entries (SlidingWindow_Record s ts sw))"
    then have "i < ?n" "i < Suc (sw_count sw)" using ok by (auto simp: window_entries_def SlidingWindow_Record_def split: if_splits)
    then show "window_entries (SlidingWindow_Record s ts sw) ! i = take ?n (?r # window_entries sw) ! i"
      using i ok ring_index [OF ok(1,3), of i] ring_index_other [OF ok(1,3), of i]
      by (cases i) (simp_all add: window_entries_def SlidingWindow_Record_def)
  qed
qed


lemma New_entries: "window_ok (NewSlidingWindow c)" "window_entries (NewSlidingWindow c) = []" "sw_size (NewSlidingWindow 1024) = 1024"
  by (simp_all add: window_ok_def window_entries_def NewSlidingWindow_def Let_def)

lemma Reset_entries: "window_ok sw \<Longrightarrow> window_ok (SlidingWindow_Reset sw)" "window_entries (SlidingWindow_Reset sw) = []" "sw_size (SlidingWindow_Reset sw) = sw_size sw"
  by (simp_all add: window_ok_def window_entries_def SlidingWindow_Reset_def)

lemma Record_size [simp]: "sw_size (SlidingWindow_Record s ts sw) = sw_size sw"
  by (simp add: SlidingWindow_Record_def)

definition recent :: "int \<Rightarrow> requestResult list \<Rightarrow> requestResult list" where
  "recent cutoff rs = takeWhile (\<lambda>r. cutoff \<le> rr_timestamp r) rs"

lemma stats_loop_recent:
  "stats_loop n i cutoff sw =
     (let rs = recent cutoff (map (\<lambda>i. sw_results sw ! ((sw_head sw + sw_size sw - 1 - i) mod sw_size sw)) [i..<i + n])
      in (length rs, length (filter (\<lambda>r. \<not> rr_success r) rs)))"
proof (induction n arbitrary: i)
  case (Suc n)
  have "[i..<i + Suc n] = i # [Suc i..<Suc i + n]" by (simp add: upt_conv_Cons)
  with Suc [of "Suc i"] show ?case by (simp add: recent_def Let_def split_beta)
qed (simp add: recent_def)

lemma Stats_recent:
  "SlidingWindow_Stats w now sw =
     (let rs = recent (now - w) (window_entries sw); f = length (filter (\<lambda>r. \<not> rr_success r) rs)
      in (length rs, f, if rs = [] then 0 else fl64 (of_nat f / of_nat (length rs))))"
  using stats_loop_recent [of "sw_count sw" 0 "now - w" sw] by (simp add: SlidingWindow_Stats_def window_entries_def Let_def)

text \<open>While time does not run backwards, the entries read are all those in the window of time.\<close>

lemma recent_filter: "sorted_wrt (\<lambda>r s. rr_timestamp s \<le> rr_timestamp r) rs \<Longrightarrow> recent cutoff rs = filter (\<lambda>r. cutoff \<le> rr_timestamp r) rs"
proof (induction rs)
  case (Cons r rs)
  show ?case
  proof (cases "cutoff \<le> rr_timestamp r")
    case False
    with Cons.prems have "filter (\<lambda>r. cutoff \<le> rr_timestamp r) rs = []" by (force simp: filter_empty_conv)
    with False show ?thesis by (simp add: recent_def)
  qed (use Cons in \<open>simp add: recent_def\<close>)
qed (simp add: recent_def)

section \<open>Histories\<close>









lemma get_calls [simp]: "getOrCreateBackend a (pc\<lparr>pc_calls := cs\<rparr>) = getOrCreateBackend a pc"
  by (simp add: getOrCreateBackend_def)

lemma put_calls [simp]: "pc_calls (put_backend a bs pc) = pc_calls pc" "pc_config (put_backend a bs pc) = pc_config pc"
  by (simp_all add: put_backend_def)






section \<open>Properties\<close>

text \<open>
  The error rate is that of the recent requests: after any sequence of results with times that do not run
  backwards, \<^verbatim>\<open>Stats\<close> counts exactly those of the last \<open>n\<close> results that lie in the window of time.
\<close>

theorem SlidingWindow_counts:
  assumes "0 < n" "sorted (map snd rs)"
  shows "SlidingWindow_Stats w now (fold (\<lambda>(s, t). SlidingWindow_Record s t) rs (NewSlidingWindow n)) =
    (let hits = filter (\<lambda>r. now - w \<le> snd r) (drop (length rs - nat n) rs); f = length (filter (\<lambda>r. \<not> fst r) hits)
     in (length hits, f, if hits = [] then 0 else fl64 (of_nat f / of_nat (length hits))))"
proof -
  define mk where "mk = (\<lambda>(s, t). \<lparr> rr_success = s, rr_timestamp = t \<rparr>)"
  have ent: "window_ok sw \<Longrightarrow> window_entries (fold (\<lambda>(s, t). SlidingWindow_Record s t) rs sw) = take (sw_size sw) (map mk (rev rs) @ window_entries sw) \<and>
      window_ok (fold (\<lambda>(s, t). SlidingWindow_Record s t) rs sw)" for sw rs
  proof (induction rs arbitrary: sw)
    case Nil
    then show ?case by (simp add: window_entries_def window_ok_def)
  next
    case (Cons x rs)
    obtain s t where x: "x = (s, t)" by force
    from Cons.IH [of "SlidingWindow_Record s t sw"] Record_entries [OF Cons.prems, of s t] show ?case
      by (simp add: x mk_def take_Cons' split_beta)
  qed
  have "nat n = sw_size (NewSlidingWindow n)" using assms(1) by (simp add: NewSlidingWindow_def Let_def)
  then have e: "window_entries (fold (\<lambda>(s, t). SlidingWindow_Record s t) rs (NewSlidingWindow n)) = map mk (rev (drop (length rs - nat n) rs))"
    using ent [OF New_entries(1), of rs n] New_entries(2) by (simp add: take_map take_rev)
  let ?d = "drop (length rs - nat n) rs"
  have "sorted (map snd ?d)" using assms(2) by (metis drop_map sorted_wrt_drop)
  then have "sorted_wrt (\<lambda>r s. rr_timestamp s \<le> rr_timestamp r) (map mk (rev ?d))"
    by (simp add: sorted_wrt_map sorted_wrt_rev mk_def split_beta)
  note r = recent_filter [OF this, of "now - w"]
  have f: "filter P (map mk (rev l)) = map mk (rev (filter (\<lambda>x. P (mk x)) l))" for P l by (simp add: filter_map rev_filter o_def)
  show ?thesis
    unfolding Stats_recent e r f Let_def by (simp add: mk_def split_beta)
qed

theorem SlidingWindow_counts_witness:
  "SlidingWindow_Stats 5 10 (fold (\<lambda>(s, t). SlidingWindow_Record s t) [(True, 1), (True, 7), (False, 8)] (NewSlidingWindow 4)) =
     (2, 1, fl64 (1 / 2))"
  using SlidingWindow_counts [of 4 "[(True, 1), (True, 7), (False, 8)]" 5 10] by (simp add: Let_def)



end
