(* ===== verification/Security.thy ===== *)
theory Security
  imports Go_Net Go_Strings "HOL-Library.Sublist"
begin

text \<open>
  The checks of \<^verbatim>\<open>internal/security/security.go\<close> that a request passes before it is proxied: the framing
  headers, the host, the path, and the header values of a response.
\<close>

section \<open>Slow clients\<close>

record SlowLorisProtection =
  sl_MaxHeaderBytes :: int
  sl_ReadHeaderTimeout :: int
  sl_ReadTimeout :: int
  sl_WriteTimeout :: int
  sl_IdleTimeout :: int

definition DefaultSlowLorisProtection :: SlowLorisProtection where
  "DefaultSlowLorisProtection =
     \<lparr> sl_MaxHeaderBytes = 2 ^ 20, sl_ReadHeaderTimeout = 10 * 10 ^ 9, sl_ReadTimeout = 30 * 10 ^ 9,
       sl_WriteTimeout = 30 * 10 ^ 9, sl_IdleTimeout = 120 * 10 ^ 9 \<rparr>"

text \<open>A server has the same five settings, in which zero means no limit.\<close>

definition ApplyToServer :: "SlowLorisProtection \<Rightarrow> SlowLorisProtection \<Rightarrow> SlowLorisProtection" where
  "ApplyToServer s srv =
     (let f = (\<lambda>new old. if new > 0 then new else old)
      in \<lparr> sl_MaxHeaderBytes = f (sl_MaxHeaderBytes s) (sl_MaxHeaderBytes srv),
           sl_ReadHeaderTimeout = f (sl_ReadHeaderTimeout s) (sl_ReadHeaderTimeout srv),
           sl_ReadTimeout = f (sl_ReadTimeout s) (sl_ReadTimeout srv),
           sl_WriteTimeout = f (sl_WriteTimeout s) (sl_WriteTimeout srv),
           sl_IdleTimeout = f (sl_IdleTimeout s) (sl_IdleTimeout srv) \<rparr>)"

section \<open>Header names and values\<close>

definition SanitizeHeaderValue :: "string \<Rightarrow> string" where
  "SanitizeHeaderValue v = filter (\<lambda>c. c \<noteq> CHR 0x0D \<and> c \<noteq> CHR 0x0A \<and> c \<noteq> CHR 0x00) v"

definition isTokenChar :: "char \<Rightarrow> bool" where
  "isTokenChar c =
     (if is_upper c \<or> is_lower c then True
      else if is_digit c then True
      else List.member (''!#$%&'' @ [CHR 0x27] @ ''*+-.^_'' @ [CHR 0x60] @ ''|~'') c)"

definition ValidateHeaderName :: "string \<Rightarrow> bool" where
  "ValidateHeaderName name = (name \<noteq> [] \<and> list_all isTokenChar name)"

section \<open>Hosts\<close>

definition host_char :: "char \<Rightarrow> bool" where
  "host_char c = (is_lower c \<or> is_upper c \<or> is_digit c \<or> c = CHR ''-'' \<or> c = CHR ''.'')"

definition control_char :: "char \<Rightarrow> bool" where
  "control_char c = ((of_char c :: nat) \<le> 32 \<or> c = CHR 0x7F)"

definition ValidateHostHeader :: "string \<Rightarrow> bool" where
  "ValidateHostHeader host =
     (if host = [] then False
      else if list_ex control_char host then False
      else if CHR ''@'' \<in> set host then False
      else if CHR 0x5C \<in> set host then False
      else
        (let (hostname, portStr) = (case SplitHostPort host of Some hp \<Rightarrow> hp | None \<Rightarrow> (host, []))
         in if portStr \<noteq> [] \<and> (case Atoi portStr of None \<Rightarrow> True | Some port \<Rightarrow> port < 1 \<or> port > 65535) then False
            else if hostname = [] then False
            else if HasPrefix hostname ''['' \<and> HasSuffix hostname '']''
              then ParseIP (take (length hostname - 2) (drop 1 hostname)) \<noteq> None
            else if \<not> list_all host_char hostname then False
            else \<not> (hd hostname = CHR ''.'' \<or> hd hostname = CHR ''-'' \<or> last hostname = CHR ''.'' \<or> last hostname = CHR ''-'')))"

definition ValidateContentLength :: "string \<Rightarrow> string + int" where
  "ValidateContentLength cl0 =
     (let cl = TrimSpace cl0
      in if cl = [] then Inl ''empty Content-Length value''
         else if length cl > 1 \<and> hd cl = CHR ''0'' then Inl ''Content-Length has leading zeros''
         else if \<not> list_all is_digit cl then Inl ''Content-Length contains non-digit character''
         else (case Atoi cl of
                 None \<Rightarrow> Inl ''invalid Content-Length''
               | Some n \<Rightarrow> if n < 0 then Inl ''negative Content-Length'' else Inr n))"

section \<open>Paths\<close>

definition traversal_table :: "(string \<times> string) list" where
  "traversal_table = [(''%2e'', ''.''), (''%2E'', ''.''), (''%2f'', ''/''), (''%2F'', ''/''), (''%5c'', ''/''), (''%5C'', ''/'')]"

lemma find_traversal:
  "find (\<lambda>(old, new). old \<noteq> [] \<and> HasPrefix s old) traversal_table = Some (old, new) \<Longrightarrow> length old = 3 \<and> length new = 1 \<and> new \<in> {''.'', ''/''}"
  by (auto simp: traversal_table_def split: if_splits)

lemma Replacer_skip:
  "s \<noteq> [] \<Longrightarrow> find (\<lambda>(old, new). old \<noteq> [] \<and> HasPrefix s old) table = None \<Longrightarrow> Replacer_Replace table s = hd s # Replacer_Replace table (tl s)"
  by (subst Replacer_Replace.simps) simp

lemma Replacer_hit:
  "s \<noteq> [] \<Longrightarrow> find (\<lambda>(old, new). old \<noteq> [] \<and> HasPrefix s old) table = Some (old, new) \<Longrightarrow>
   Replacer_Replace table s = new @ Replacer_Replace table (drop (length old) s)"
  by (subst Replacer_Replace.simps) simp

lemma replacer_shrinks:
  "length (Replacer_Replace traversal_table s) \<le> length s \<and> (Replacer_Replace traversal_table s \<noteq> s \<longrightarrow> length (Replacer_Replace traversal_table s) < length s)"
proof (induction s rule: length_induct)
  case (1 s)
  show ?case
  proof (cases "s = []")
    case False
    show ?thesis
    proof (cases "find (\<lambda>(old, new). old \<noteq> [] \<and> HasPrefix s old) traversal_table")
      case None
      have "length (tl s) < length s" using False by simp
      with 1 have "length (Replacer_Replace traversal_table (tl s)) \<le> length (tl s) \<and>
          (Replacer_Replace traversal_table (tl s) \<noteq> tl s \<longrightarrow> length (Replacer_Replace traversal_table (tl s)) < length (tl s))" by blast
      moreover have "Replacer_Replace traversal_table s = hd s # Replacer_Replace traversal_table (tl s)"
        using False None by (rule Replacer_skip)
      ultimately show ?thesis using False by (cases s) auto
    next
      case (Some on)
      obtain old new where on: "on = (old, new)" by force
      then have l: "length old = 3" "length new = 1" using find_traversal Some by auto
      have p: "HasPrefix s old" using Some on by (auto simp: find_Some_iff)
      then have "3 \<le> length s" using l by (auto simp: HasPrefix_def min_def split: if_splits)
      then have "length (drop 3 s) < length s" by simp
      with 1 have "length (Replacer_Replace traversal_table (drop 3 s)) \<le> length (drop 3 s)" by blast
      then show ?thesis using False Some on l \<open>3 \<le> length s\<close> by (auto simp: Replacer_Replace.simps [of _ s])
    qed
  qed (simp add: Replacer_Replace.simps)
qed

text \<open>The loop ends because every round that changes the string makes it shorter.\<close>

function decode_loop :: "string \<Rightarrow> string" where
  "decode_loop s = (let next = Replacer_Replace traversal_table s in if next = s then s else decode_loop next)"
  by auto
termination
  by (relation "measure length") (use replacer_shrinks in auto)

declare decode_loop.simps [simp del]

definition decodeTraversalSequences :: "string \<Rightarrow> string" where
  "decodeTraversalSequences s = replace_all [CHR 0x5C] ''/'' (decode_loop s)"

definition SanitizePath :: "string \<Rightarrow> string" where
  "SanitizePath p =
     (if p = [] then ''/''
      else let cleaned = Clean (decodeTraversalSequences p)
           in if HasPrefix cleaned ''/'' then cleaned else CHR ''/'' # cleaned)"

section \<open>Requests\<close>

definition Header_Values :: "string \<Rightarrow> Request \<Rightarrow> string list" where
  "Header_Values key r = (case map_of (req_Header r) (CanonicalMIMEHeaderKey key) of None \<Rightarrow> [] | Some vs \<Rightarrow> vs)"

definition ErrConflictingHeaders :: string where
  "ErrConflictingHeaders = ''security: conflicting Content-Length and Transfer-Encoding headers''"

definition ErrDuplicateContentLen :: string where
  "ErrDuplicateContentLen = ''security: duplicate Content-Length headers with different values''"

definition ErrMalformedContentLen :: string where
  "ErrMalformedContentLen = ''security: malformed Content-Length value''"

definition ErrNegativeContentLen :: string where
  "ErrNegativeContentLen = ''security: negative Content-Length value''"

definition ErrHTTP10TransferEnc :: string where
  "ErrHTTP10TransferEnc = ''security: Transfer-Encoding is not allowed in HTTP/1.0''"

definition ErrChunkedNotFinal :: string where
  "ErrChunkedNotFinal = ''security: chunked is not the final Transfer-Encoding''"

definition ErrInvalidTransferEnc :: string where
  "ErrInvalidTransferEnc = ''security: invalid Transfer-Encoding value''"

fun check_lengths :: "int \<Rightarrow> string list \<Rightarrow> string option" where
  "check_lengths firstVal [] = None"
| "check_lengths firstVal (part # parts) =
     (case Atoi (TrimSpace part) of
        None \<Rightarrow> Some ErrMalformedContentLen
      | Some n \<Rightarrow>
          if n < 0 then Some ErrNegativeContentLen
          else if firstVal = -1 then check_lengths n parts
          else if n \<noteq> firstVal then Some ErrDuplicateContentLen
          else check_lengths firstVal parts)"

definition comma_parts :: "string list \<Rightarrow> string list" where
  "comma_parts vs = concat (map (split_on CHR '','') vs)"

definition encodings :: "string list \<Rightarrow> string list" where
  "encodings te = filter (\<lambda>e. e \<noteq> []) (map (\<lambda>part. TrimSpace (map to_lower part)) (comma_parts te))"

definition allowedEncodings :: "string list" where
  "allowedEncodings = [''chunked'', ''identity'', ''gzip'', ''compress'', ''deflate'']"

definition check_encodings :: "string list \<Rightarrow> string option" where
  "check_encodings encs =
     (if list_ex (\<lambda>e. e \<notin> set allowedEncodings) encs then Some ErrInvalidTransferEnc
      else if list_ex (\<lambda>e. e = ''chunked'') (butlast encs) then Some ErrChunkedNotFinal
      else None)"

text \<open>
  The answer is an error or the request with its path cleaned. The argument \<open>http11\<close> is the result of
  \<^verbatim>\<open>r.ProtoAtLeast(1, 1)\<close>.
\<close>

definition ValidateRequest :: "bool \<Rightarrow> Request \<Rightarrow> string + Request" where
  "ValidateRequest http11 r =
     (let cl = Header_Values ''Content-Length'' r; te = Header_Values ''Transfer-Encoding'' r
      in if cl \<noteq> [] \<and> te \<noteq> [] then Inl ErrConflictingHeaders
         else case (if cl \<noteq> [] then check_lengths (-1) (comma_parts cl) else None) of
           Some e \<Rightarrow> Inl e
         | None \<Rightarrow>
             if te \<noteq> [] \<and> \<not> http11 then Inl ErrHTTP10TransferEnc
             else case (if te \<noteq> [] then check_encodings (encodings te) else None) of
               Some e \<Rightarrow> Inl e
             | None \<Rightarrow>
                 if req_Host r \<noteq> [] \<and> \<not> ValidateHostHeader (req_Host r) then Inl ''invalid Host header''
                 else Inr (r\<lparr>req_URL_Path := SanitizePath (req_URL_Path r)\<rparr>))"

section \<open>Clean paths\<close>

lemma HasPrefix_iff: "HasPrefix s p \<longleftrightarrow> prefix p s"
  by (auto simp: HasPrefix_def prefix_def) (metis append_take_drop_id)

lemma traversal_chars: "p \<in> fst ` set traversal_table \<Longrightarrow> CHR ''.'' \<notin> set p \<and> CHR ''/'' \<notin> set p \<and> CHR 0x5C \<notin> set p \<and> p \<noteq> []"
  by (auto simp: traversal_table_def)

lemma Replacer_fixed:
  assumes "Replacer_Replace traversal_table s = s"
  shows "fst ` set traversal_table \<inter> {p. sublist p s} = {}"
  using assms
proof (induction s rule: length_induct)
  case (1 s)
  show ?case
  proof (cases s)
    case Nil
    then show ?thesis by (auto simp: traversal_table_def)
  next
    case (Cons c t)
    have f: "find (\<lambda>(old, new). old \<noteq> [] \<and> HasPrefix s old) traversal_table = None"
    proof (rule ccontr)
      assume "find (\<lambda>(old, new). old \<noteq> [] \<and> HasPrefix s old) traversal_table \<noteq> None"
      then obtain old new where on: "find (\<lambda>(old, new). old \<noteq> [] \<and> HasPrefix s old) traversal_table = Some (old, new)" by auto
      then have l: "length old = 3" "length new = 1" and "HasPrefix s old" using find_traversal by (auto simp: find_Some_iff)
      then have "3 \<le> length s" by (auto simp: HasPrefix_iff dest: prefix_length_le)
      moreover have "s \<noteq> []" using Cons by simp
      then have "Replacer_Replace traversal_table s = new @ Replacer_Replace traversal_table (drop 3 s)"
        using Replacer_hit [OF _ on] l(1) by simp
      then have "length (Replacer_Replace traversal_table s) = 1 + length (Replacer_Replace traversal_table (drop 3 s))"
        using l(2) by (simp only: length_append)
      then have "length s = 1 + length (Replacer_Replace traversal_table (drop 3 s))" unfolding 1(2) .
      moreover have "length (Replacer_Replace traversal_table (drop 3 s)) \<le> length (drop 3 s)" using replacer_shrinks by blast
      ultimately show False using length_drop [of 3 s] by linarith
    qed
    then have "Replacer_Replace traversal_table t = t" using 1(2) Cons Replacer_skip [OF _ f] by simp
    with 1(1) Cons have t: "fst ` set traversal_table \<inter> {p. sublist p t} = {}" by simp
    have "\<not> prefix p s" if "p \<in> fst ` set traversal_table" for p
      using f that traversal_chars [OF that] by (force simp: find_None_iff HasPrefix_iff)
    with t show ?thesis by (auto simp: Cons sublist_Cons_right)
  qed
qed

lemma decode_fixed: "Replacer_Replace traversal_table (decode_loop s) = decode_loop s"
  by (induction s rule: decode_loop.induct) (metis decode_loop.simps)

lemma Replacer_id: "fst ` set traversal_table \<inter> {p. sublist p s} = {} \<Longrightarrow> Replacer_Replace traversal_table s = s"
proof (induction s)
  case (Cons c t)
  then have "\<not> prefix p (c # t)" if "p \<in> fst ` set traversal_table" for p using that by (auto simp: sublist_Cons_right)
  then have "find (\<lambda>(old, new). old \<noteq> [] \<and> HasPrefix (c # t) old) traversal_table = None"
    by (force simp: find_None_iff HasPrefix_iff)
  moreover have "Replacer_Replace traversal_table t = t" using Cons by (auto simp: sublist_Cons_right)
  ultimately show ?case using Replacer_skip [of "c # t" traversal_table] by simp
qed (simp add: Replacer_Replace.simps)

lemma replace_char: "replace_all [c] [d] s = map (\<lambda>x. if x = c then d else x) s"
  by (induction s) (simp_all add: replace_all.simps [of _ _ "_ # _"] replace_all.simps [of _ _ "[]"] HasPrefix_def)

lemma sublist_map_same:
  assumes "sublist p (map f s)" "\<And>x. f x \<in> set p \<Longrightarrow> f x = x"
  shows "sublist p s"
proof -
  obtain a b where "map f s = a @ p @ b" using assms(1) by (auto simp: sublist_def)
  then obtain a' t where t: "s = a' @ t" "map f t = p @ b" by (metis map_eq_append_conv)
  then obtain p' b' where "t = p' @ b'" "map f p' = p" by (metis map_eq_append_conv)
  with t have s: "s = a' @ p' @ b'" "map f p' = p" by simp_all
  then have "map f p' = map (\<lambda>x. x) p'" using assms(2) by (intro map_cong) auto
  then have "p' = p" using s(2) by simp
  with s(1) show ?thesis by auto
qed

lemma split_on_prefix: "split_on c s = q # qs \<Longrightarrow> prefix q s"
proof (induction s arbitrary: q qs)
  case (Cons y s)
  obtain r rs where "split_on c s = r # rs" using split_on_nonempty [of c s] by (cases "split_on c s") auto
  with Cons show ?case by (cases "y = c") auto
qed simp

lemma split_on_sublist: "p \<in> set (split_on c s) \<Longrightarrow> sublist p s"
proof (induction s arbitrary: p)
  case (Cons x s)
  obtain q qs where q: "split_on c s = q # qs" using split_on_nonempty [of c s] by (cases "split_on c s") auto
  then have "prefix (x # q) (x # s)" using split_on_prefix by simp
  with Cons q show ?case by (auto simp: sublist_Cons_right split: if_splits)
qed simp

text \<open>What a cleaned path is made of.\<close>

definition plain_segment :: "string \<Rightarrow> bool" where
  "plain_segment p \<longleftrightarrow> p \<notin> {[], ''.'', ''..''} \<and> set p \<inter> {CHR ''/'', CHR 0x5C} = {} \<and> fst ` set traversal_table \<inter> {q. sublist q p} = {}"

lemma decoded_plain:
  "fst ` set traversal_table \<inter> {p. sublist p (decodeTraversalSequences s)} = {}" "CHR 0x5C \<notin> set (decodeTraversalSequences s)"
proof -
  have "sublist p (decode_loop s)" if "sublist p (decodeTraversalSequences s)" "p \<in> fst ` set traversal_table" for p
    using that traversal_chars [OF that(2)] unfolding decodeTraversalSequences_def replace_char
    by (elim sublist_map_same) (auto split: if_splits)
  with Replacer_fixed [OF decode_fixed, of s]
  show "fst ` set traversal_table \<inter> {p. sublist p (decodeTraversalSequences s)} = {}" by blast
  show "CHR 0x5C \<notin> set (decodeTraversalSequences s)" by (auto simp: decodeTraversalSequences_def replace_char)
qed

lemma Clean_segments:
  assumes "p = CHR ''/'' # q"
  obtains segs where "Clean p = CHR ''/'' # join_with CHR ''/'' segs" "set segs \<inter> {[], ''.'', ''..''} = {}" "set segs \<subseteq> set (split_on CHR ''/'' p)"
proof
  let ?segs = "rev (foldl (clean_step True) [] (split_on CHR ''/'' p))"
  show "Clean p = CHR ''/'' # join_with CHR ''/'' ?segs" using assms by (simp add: Clean_def)
  show "set ?segs \<inter> {[], ''.'', ''..''} = {}" "set ?segs \<subseteq> set (split_on CHR ''/'' p)"
    using clean_fold [of "[]" "split_on CHR ''/'' p"] by auto
qed

lemma sublist_join:
  assumes "sublist p (join_with c segs)" "c \<notin> set p" "p \<noteq> []"
  shows "\<exists>s \<in> set segs. sublist p s"
  using assms
proof (induction c segs rule: join_with.induct)
  case (3 c a b ps)
  obtain u v where uv: "a @ c # join_with c (b # ps) = u @ p @ v" using 3(2) by (auto simp: sublist_def)
  then consider us where "a @ us = u" "c # join_with c (b # ps) = us @ p @ v"
    | us where "a = u @ us" "us @ c # join_with c (b # ps) = p @ v" by (auto simp: append_eq_append_conv2)
  then show ?case
  proof cases
    case 1
    then have "sublist p (join_with c (b # ps))"
      using 3(3,4) by (cases us) (auto simp: sublist_def Cons_eq_append_conv)
    with 3 show ?thesis by auto
  next
    case 2
    from 2(2) 3(3) obtain w where "us = p @ w" by (auto simp: append_eq_append_conv2 Cons_eq_append_conv append_eq_Cons_conv)
    with 2(1) show ?thesis by auto
  qed
qed auto

lemma plain_fold: "\<forall>p \<in> set segs. plain_segment p \<Longrightarrow> foldl (clean_step True) out segs = rev segs @ out"
  by (induction segs arbitrary: out) (auto simp: clean_step_def plain_segment_def)

text \<open>A path of plain segments is left as it is.\<close>

lemma Clean_plain: "\<forall>p \<in> set segs. plain_segment p \<Longrightarrow> Clean (CHR ''/'' # join_with CHR ''/'' segs) = CHR ''/'' # join_with CHR ''/'' segs"
proof (cases "segs = []")
  case False
  assume p: "\<forall>p \<in> set segs. plain_segment p"
  then have "split_on CHR ''/'' (join_with CHR ''/'' segs) = segs" using False by (intro split_join) (auto simp: plain_segment_def)
  then show ?thesis using plain_fold [OF p, of "[]"] by (simp add: Clean_def clean_step_def [of _ _ "[]"])
qed (simp add: Clean_def clean_step_def)

lemma decode_plain:
  assumes "\<forall>p \<in> set segs. plain_segment p"
  shows "decodeTraversalSequences (CHR ''/'' # join_with CHR ''/'' segs) = CHR ''/'' # join_with CHR ''/'' segs"
proof -
  let ?s = "CHR ''/'' # join_with CHR ''/'' segs"
  have "fst ` set traversal_table \<inter> {p. sublist p ?s} = {}"
  proof -
    have False if "p \<in> fst ` set traversal_table" "sublist p ?s" for p
    proof -
      note c = traversal_chars [OF that(1)]
      have "sublist p (join_with CHR ''/'' segs)" using that(2) c by (cases p) (auto simp: sublist_Cons_right)
      then obtain s where "s \<in> set segs" "sublist p s" using sublist_join c by blast
      with assms that(1) show False by (auto simp: plain_segment_def)
    qed
    then show ?thesis by blast
  qed
  then have "decode_loop ?s = ?s" using Replacer_id by (simp add: decode_loop.simps [of ?s])
  moreover have "CHR 0x5C \<notin> set (join_with CHR ''/'' segs)"
    using assms by (induction "CHR ''/''" segs rule: join_with.induct) (auto simp: plain_segment_def)
  then have "map (\<lambda>x. if x = CHR 0x5C then CHR ''/'' else x) ?s = map (\<lambda>x. x) ?s" by (intro map_cong) auto
  ultimately show ?thesis by (simp add: decodeTraversalSequences_def replace_char)
qed

section \<open>Properties\<close>

text \<open>
  No traversal survives: a path that starts with a slash once its encodings are resolved becomes a slash
  and plain segments, none of them a dot, two dots or empty and none with a backslash or an encoded dot,
  slash or backslash; and cleaning it again changes nothing.
\<close>

theorem SanitizePath_plain:
  assumes "HasPrefix (decodeTraversalSequences p) ''/''"
  shows "\<exists>segs. SanitizePath p = CHR ''/'' # join_with CHR ''/'' segs \<and> list_all plain_segment segs \<and>
    SanitizePath (SanitizePath p) = SanitizePath p"
proof -
  obtain q where q: "decodeTraversalSequences p = CHR ''/'' # q"
    using assms by (cases "decodeTraversalSequences p") (auto simp: HasPrefix_def)
  obtain segs where segs: "Clean (decodeTraversalSequences p) = CHR ''/'' # join_with CHR ''/'' segs"
      "set segs \<inter> {[], ''.'', ''..''} = {}" "set segs \<subseteq> set (split_on CHR ''/'' (decodeTraversalSequences p))"
    using Clean_segments [OF q] by metis
  have "p \<noteq> []" using q by (auto simp: decodeTraversalSequences_def decode_loop.simps Replacer_Replace.simps replace_all.simps)
  with segs(1) have s: "SanitizePath p = CHR ''/'' # join_with CHR ''/'' segs" by (simp add: SanitizePath_def HasPrefix_def)
  have plain: "\<forall>s \<in> set segs. plain_segment s"
  proof
    fix s assume "s \<in> set segs"
    then have sp: "s \<in> set (split_on CHR ''/'' (decodeTraversalSequences p))" "s \<notin> {[], ''.'', ''..''}" using segs by auto
    then have sub: "sublist s (decodeTraversalSequences p)" using split_on_sublist by blast
    have "CHR 0x5C \<notin> set s" using decoded_plain(2) set_mono_sublist [OF sub] by blast
    moreover have "\<not> sublist t s" if "t \<in> fst ` set traversal_table" for t
      using decoded_plain(1) [of p] that sublist_order.order.trans [OF _ sub] by blast
    ultimately show "plain_segment s" using sp split_on_no_sep [OF sp(1)] by (auto simp: plain_segment_def)
  qed
  then have "SanitizePath (SanitizePath p) = SanitizePath p"
    unfolding s by (simp add: SanitizePath_def decode_plain Clean_plain HasPrefix_def)
  with s plain show ?thesis by (auto simp: list_all_iff)
qed

theorem SanitizePath_plain_witness:
  "HasPrefix (decodeTraversalSequences ''/a/%2e%2E/b'') ''/'' \<and> SanitizePath (SanitizePath ''/a/%2e%2E/b'') = SanitizePath ''/a/%2e%2E/b''"
proof -
  have "decode_loop ''/a/%2e%2E/b'' = ''/a/../b''"
    by (simp add: decode_loop.simps [of "''/a/%2e%2E/b''"] decode_loop.simps [of "''/a/../b''"] Replacer_Replace.simps traversal_table_def HasPrefix_def)
  then have "HasPrefix (decodeTraversalSequences ''/a/%2e%2E/b'') ''/''" by (simp add: decodeTraversalSequences_def replace_char HasPrefix_def)
  with SanitizePath_plain [OF this] show ?thesis by blast
qed

text \<open>
  One round of the loop is all there is: what a replacement writes is no part of another sequence. A
  percent sign that is itself encoded is therefore never resolved.
\<close>

lemma Replacer_prefix:
  "prefix u (Replacer_Replace traversal_table s) \<Longrightarrow> CHR ''.'' \<notin> set u \<Longrightarrow> CHR ''/'' \<notin> set u \<Longrightarrow> prefix u s"
proof (induction u arbitrary: s)
  case (Cons x u)
  have ne: "s \<noteq> []" using Cons.prems(1) by (cases s) (auto simp: Replacer_Replace.simps)
  show ?case
  proof (cases "find (\<lambda>(old, new). old \<noteq> [] \<and> HasPrefix s old) traversal_table")
    case None
    then show ?thesis using Cons ne Replacer_skip [OF ne None] by (cases s) auto
  next
    case (Some on)
    obtain old new where on: "on = (old, new)" by force
    with Some have "new \<in> {''.'', ''/''}" using find_traversal by blast
    then show ?thesis using Cons.prems Replacer_hit [OF ne Some [unfolded on]] by auto
  qed
qed simp

lemma decode_single_round: "decode_loop s = Replacer_Replace traversal_table s"
proof -
  have "fst ` set traversal_table \<inter> {p. sublist p (Replacer_Replace traversal_table s)} = {}"
  proof (induction s rule: length_induct)
    case (1 s)
    show ?case
    proof (cases "s = []")
      case False
      show ?thesis
      proof (cases "find (\<lambda>(old, new). old \<noteq> [] \<and> HasPrefix s old) traversal_table")
        case None
        then have "\<not> prefix p s" if "p \<in> fst ` set traversal_table" for p
          using that traversal_chars [OF that] by (force simp: find_None_iff HasPrefix_iff)
        then have "\<not> prefix p (Replacer_Replace traversal_table s)" if "p \<in> fst ` set traversal_table" for p
          using that Replacer_prefix [of p s] traversal_chars [OF that] by blast
        moreover have "fst ` set traversal_table \<inter> {p. sublist p (Replacer_Replace traversal_table (tl s))} = {}" using 1 False by simp
        ultimately show ?thesis using Replacer_skip [OF False None] by (auto simp: sublist_Cons_right)
      next
        case (Some on)
        obtain old new where on: "on = (old, new)" by force
        with Some have "length old = 3" and new: "new \<in> {''.'', ''/''}" using find_traversal by blast+
        moreover have "fst ` set traversal_table \<inter> {p. sublist p (Replacer_Replace traversal_table (drop 3 s))} = {}" using 1 False by simp
        moreover have "\<not> prefix p (new @ xs)" if "p \<in> fst ` set traversal_table" for p xs
          using new traversal_chars [OF that] by (cases p) auto
        ultimately have "\<not> sublist p (Replacer_Replace traversal_table s)" if "p \<in> fst ` set traversal_table" for p
          using that Replacer_hit [OF False Some [unfolded on]] by (metis IntI empty_iff insertE mem_Collect_eq singletonD append_Cons append_Nil sublist_Cons_right)
        then show ?thesis by blast
      qed
    qed (auto simp: Replacer_Replace.simps traversal_table_def)
  qed
  then have "Replacer_Replace traversal_table (Replacer_Replace traversal_table s) = Replacer_Replace traversal_table s" by (rule Replacer_id)
  then show ?thesis by (metis decode_loop.simps)
qed

lemma SanitizePath_double_encoding: "SanitizePath ''/a/%252e%252e/b'' = ''/a/%252e%252e/b''"
  by (simp add: SanitizePath_def decodeTraversalSequences_def decode_single_round Replacer_Replace.simps traversal_table_def HasPrefix_def replace_char
      Clean_def clean_step_def)

text \<open>A path that does not start with a slash keeps the dots at its front.\<close>

lemma SanitizePath_relative: "SanitizePath ''../etc'' = ''/../etc''"
  by (simp add: SanitizePath_def decodeTraversalSequences_def decode_single_round Replacer_Replace.simps traversal_table_def HasPrefix_def replace_char
      Clean_def clean_step_def)

text \<open>An IPv6 address in brackets is a valid host, but not with a port.\<close>

lemma ValidateHostHeader_ipv6: "ValidateHostHeader ''[::1]'' \<and> \<not> ValidateHostHeader ''[::1]:80''"
proof -
  have "ParseIP ''::1'' \<noteq> None" by (simp add: net_eval)
  moreover have "SplitHostPort ''[::1]:80'' = Some (''::1'', ''80'')" "SplitHostPort ''[::1]'' = None" by code_simp+
  ultimately show ?thesis by (simp add: ValidateHostHeader_def control_char_def HasPrefix_def HasSuffix_def host_char_def is_lower_def is_upper_def is_digit_def)
qed

text \<open>What a well-framed request is: one length or one coding, and no two readings of either.\<close>

definition well_framed :: "bool \<Rightarrow> Request \<Rightarrow> bool" where
  "well_framed http11 r \<longleftrightarrow>
     (let cl = Header_Values ''Content-Length'' r; te = Header_Values ''Transfer-Encoding'' r; encs = encodings te
      in (cl = [] \<or> te = []) \<and>
         (\<exists>n \<ge> 0. \<forall>part \<in> set (comma_parts cl). Atoi (TrimSpace part) = Some n) \<and>
         (te \<noteq> [] \<longrightarrow> http11) \<and> set encs \<subseteq> set allowedEncodings \<and> (\<forall>i < length encs. encs ! i = ''chunked'' \<longrightarrow> i = length encs - 1))"

lemma check_lengths_same: "0 \<le> n \<Longrightarrow> check_lengths n ps = None \<longleftrightarrow> (\<forall>p \<in> set ps. Atoi (TrimSpace p) = Some n)"
  by (induction ps) (auto split: option.splits)

lemma check_lengths_first: "check_lengths (-1) ps = None \<longleftrightarrow> (\<exists>n \<ge> 0. \<forall>p \<in> set ps. Atoi (TrimSpace p) = Some n)"
proof (cases ps)
  case (Cons p qs)
  show ?thesis
  proof (cases "Atoi (TrimSpace p)")
    case (Some n)
    then show ?thesis using check_lengths_same [of n qs] by (auto simp: Cons)
  qed (simp add: Cons)
qed auto

lemma butlast_nth_iff: "list_ex P (butlast xs) \<longleftrightarrow> (\<exists>i < length xs. P (xs ! i) \<and> i \<noteq> length xs - 1)"
proof -
  have "i < length xs - 1 \<longleftrightarrow> i < length xs \<and> i \<noteq> length xs - 1" for i by auto
  then show ?thesis by (metis (no_types, lifting) length_butlast list_ex_length nth_butlast)
qed

lemma check_encodings_iff:
  "check_encodings encs = None \<longleftrightarrow> set encs \<subseteq> set allowedEncodings \<and> (\<forall>i < length encs. encs ! i = ''chunked'' \<longrightarrow> i = length encs - 1)"
  unfolding check_encodings_def butlast_nth_iff by (auto simp: list_ex_iff)

text \<open>
  C30. A request is proxied exactly if its framing has one reading: it does not have both a length and a
  transfer coding, all lengths it gives are the same number, it has a coding only in HTTP/1.1, every coding is
  known and chunked is the last one; and if its host, when there is one, is valid. It is proxied with the
  cleaned path and otherwise as it came.
\<close>

theorem ValidateRequest_accepts:
  "ValidateRequest http11 r = Inr r' \<longleftrightarrow>
     well_framed http11 r \<and> (req_Host r = [] \<or> ValidateHostHeader (req_Host r)) \<and> r' = r\<lparr>req_URL_Path := SanitizePath (req_URL_Path r)\<rparr>"
proof -
  let ?cl = "Header_Values ''Content-Length'' r" and ?te = "Header_Values ''Transfer-Encoding'' r"
  have cl: "(if ?cl \<noteq> [] then check_lengths (-1) (comma_parts ?cl) else None) = None \<longleftrightarrow>
      (\<exists>n \<ge> 0. \<forall>part \<in> set (comma_parts ?cl). Atoi (TrimSpace part) = Some n)"
    by (auto simp: check_lengths_first comma_parts_def)
  have te: "(if ?te \<noteq> [] then check_encodings (encodings ?te) else None) = None \<longleftrightarrow>
      set (encodings ?te) \<subseteq> set allowedEncodings \<and> (\<forall>i < length (encodings ?te). encodings ?te ! i = ''chunked'' \<longrightarrow> i = length (encodings ?te) - 1)"
    by (simp add: check_encodings_iff) (simp add: encodings_def comma_parts_def)
  show ?thesis
    unfolding ValidateRequest_def well_framed_def Let_def cl [symmetric] te [symmetric] by (auto split: option.split)
qed

end
