(* ===== verification/Chain.thy ===== *)
theory Chain
  imports Prelude
begin

text \<open>
  The chain of middleware, \<^verbatim>\<open>internal/middleware/chain.go\<close>: a list that is sorted by priority when a handler
  is built, with the sorted list kept until the next change. The type of handlers is a parameter.
\<close>

record 'h Middleware =
  mw_Name :: string
  mw_Priority :: int
  mw_Wrap :: "'h \<Rightarrow> 'h"

record 'h Chain =
  ch_middlewares :: "'h Middleware list"
  ch_sorted :: "'h Middleware list option"

definition NewChain :: "'h Chain" where
  "NewChain = \<lparr> ch_middlewares = [], ch_sorted = None \<rparr>"

definition Chain_Use :: "'h Middleware option \<Rightarrow> 'h Chain \<Rightarrow> 'h Chain" where
  "Chain_Use mw c = (case mw of None \<Rightarrow> c | Some m \<Rightarrow> c\<lparr>ch_middlewares := ch_middlewares c @ [m], ch_sorted := None\<rparr>)"

text \<open>\<^verbatim>\<open>sort.SliceStable\<close> keeps the order of equal priorities, as \<^const>\<open>sort_key\<close> does.\<close>

definition sortedMiddlewares :: "'h Chain \<Rightarrow> 'h Middleware list \<times> 'h Chain" where
  "sortedMiddlewares c =
     (case ch_sorted c of
        Some s \<Rightarrow> (s, c)
      | None \<Rightarrow> let s = sort_key mw_Priority (ch_middlewares c) in (s, c\<lparr>ch_sorted := Some s\<rparr>))"

text \<open>The wrapping loop runs from the last middleware to the first.\<close>

definition Chain_Then :: "'h \<Rightarrow> 'h Chain \<Rightarrow> 'h \<times> 'h Chain" where
  "Chain_Then handler c = (let (sorted, c') = sortedMiddlewares c in (foldl (\<lambda>result mw. mw_Wrap mw result) handler (rev sorted), c'))"

definition Chain_Clone :: "'h Chain \<Rightarrow> 'h Chain" where
  "Chain_Clone c = \<lparr> ch_middlewares = ch_middlewares c, ch_sorted = None \<rparr>"

definition Chain_Len :: "'h Chain \<Rightarrow> nat" where
  "Chain_Len c = length (ch_middlewares c)"

definition Chain_Middlewares :: "'h Chain \<Rightarrow> 'h Middleware list" where
  "Chain_Middlewares c = ch_middlewares c"

definition Chain_Remove :: "string \<Rightarrow> 'h Chain \<Rightarrow> 'h Chain" where
  "Chain_Remove name c = c\<lparr>ch_middlewares := filter (\<lambda>mw. mw_Name mw \<noteq> name) (ch_middlewares c), ch_sorted := None\<rparr>"

definition Chain_Get :: "string \<Rightarrow> 'h Chain \<Rightarrow> 'h Middleware option" where
  "Chain_Get name c = find (\<lambda>mw. mw_Name mw = name) (ch_middlewares c)"

definition Chain_Clear :: "'h Chain \<Rightarrow> 'h Chain" where
  "Chain_Clear c = c\<lparr>ch_middlewares := [], ch_sorted := None\<rparr>"

section \<open>The kept order\<close>

datatype 'h chain_op = CUse "'h Middleware option" | CRemove string | CClear | CClone | CThen 'h

fun chain_step :: "'h chain_op \<Rightarrow> 'h Chain \<Rightarrow> 'h Chain" where
  "chain_step (CUse mw) c = Chain_Use mw c"
| "chain_step (CRemove name) c = Chain_Remove name c"
| "chain_step CClear c = Chain_Clear c"
| "chain_step CClone c = Chain_Clone c"
| "chain_step (CThen h) c = snd (Chain_Then h c)"

text \<open>The same operations on a list.\<close>

fun list_step :: "'h chain_op \<Rightarrow> 'h Middleware list \<Rightarrow> 'h Middleware list" where
  "list_step (CUse mw) ms = (case mw of None \<Rightarrow> ms | Some m \<Rightarrow> ms @ [m])"
| "list_step (CRemove name) ms = filter (\<lambda>mw. mw_Name mw \<noteq> name) ms"
| "list_step CClear ms = []"
| "list_step CClone ms = ms"
| "list_step (CThen h) ms = ms"

definition chain_ok :: "'h Chain \<Rightarrow> bool" where
  "chain_ok c \<longleftrightarrow> ch_sorted c \<in> {None, Some (sort_key mw_Priority (ch_middlewares c))}"

lemma chain_step_ok:
  "chain_ok c \<Longrightarrow> chain_ok (chain_step e c) \<and> ch_middlewares (chain_step e c) = list_step e (ch_middlewares c)"
  by (cases e) (auto simp: chain_ok_def Chain_Use_def Chain_Remove_def Chain_Clear_def Chain_Clone_def Chain_Then_def sortedMiddlewares_def
      Let_def split: option.split)

lemma Then_ok: "chain_ok c \<Longrightarrow> fst (Chain_Then h c) = foldr mw_Wrap (sort_key mw_Priority (ch_middlewares c)) h"
  by (auto simp: chain_ok_def Chain_Then_def sortedMiddlewares_def Let_def foldl_conv_foldr)

section \<open>Properties\<close>

text \<open>
  After any use of the chain the built handler passes through every middleware in use once, lower priorities
  outside and equal priorities in the order in which they were added; the kept order is never out of date.
\<close>

theorem Chain_Then_order:
  "fst (Chain_Then h (fold chain_step es NewChain)) = foldr mw_Wrap (sort_key mw_Priority (fold list_step es [])) h"
proof -
  have "chain_ok c \<Longrightarrow> chain_ok (fold chain_step es c) \<and> ch_middlewares (fold chain_step es c) = fold list_step es (ch_middlewares c)"
    for c :: "'a Chain" and es
    by (induction es arbitrary: c) (auto simp: chain_step_ok simp del: chain_step.simps list_step.simps)
  moreover have "chain_ok (NewChain :: 'a Chain)" "ch_middlewares (NewChain :: 'a Chain) = []" by (simp_all add: NewChain_def chain_ok_def)
  ultimately show ?thesis by (metis Then_ok)
qed

end
