(* ===== verification/Http_Proxy.thy ===== *)
theory Http_Proxy
  imports Router Pool Client_Ip Passive_Health Security Chain Bal_Ring
begin

text \<open>
  The HTTP proxy, \<^verbatim>\<open>internal/proxy/l7/proxy.go\<close>, which puts the other components together: a request is
  matched by the router, runs through the middleware, is checked, and is sent to backends that the balancer of
  the route's pool selects, until one answers or the attempts are used up. What a backend answers is an
  argument. The state that a request changes, the backends, pools and passive checks, and what is sent to
  backends and client, is a record.
\<close>

section \<open>Configuration\<close>




record HTTPProxy =
  hp_router :: Router
  hp_poolManager :: PoolManager
  hp_proxyTimeout :: int
  hp_dialTimeout :: int
  hp_maxRetries :: int
  hp_maxIdleConns :: int
  hp_maxIdleConnsPerHost :: int
  hp_idleConnTimeout :: int
  hp_trustedNets :: "IPNet list"



section \<open>Headers\<close>

definition hopByHopHeaders :: "string list" where
  "hopByHopHeaders = [''Connection'', ''Keep-Alive'', ''Proxy-Authenticate'', ''Proxy-Authorization'', ''TE'', ''Trailers'',
     ''Transfer-Encoding'', ''Upgrade'']"

definition hopByHopSet :: "string list" where
  "hopByHopSet = map (map to_lower) hopByHopHeaders"

definition hopByHopCanonicalSet :: "string list" where
  "hopByHopCanonicalSet = map CanonicalMIMEHeaderKey hopByHopHeaders"

definition isHopByHopHeader :: "string \<Rightarrow> bool" where
  "isHopByHopHeader name = (map to_lower name \<in> set hopByHopSet)"

definition Header_Add :: "string \<Rightarrow> string \<Rightarrow> (string, string list) gomap \<Rightarrow> (string, string list) gomap" where
  "Header_Add key v m =
     (let k = CanonicalMIMEHeaderKey key
      in AList.update k ((case map_of m k of None \<Rightarrow> [] | Some vs \<Rightarrow> vs) @ [v]) m)"

definition copyHeaders :: "(string, string list) gomap \<Rightarrow> (string, string list) gomap \<Rightarrow> (string, string list) gomap" where
  "copyHeaders dst src =
     fold (\<lambda>(key, values) d.
       if key \<in> set hopByHopCanonicalSet \<or> map to_lower key \<in> set hopByHopSet then d
       else fold (\<lambda>v. Header_Add key (SanitizeHeaderValue v)) values d) src dst"

definition L7_isTrustedProxy :: "IPNet list \<Rightarrow> string \<Rightarrow> bool" where
  "L7_isTrustedProxy nets ipStr =
     (case ParseIP ipStr of None \<Rightarrow> False | Some ip \<Rightarrow> list_ex (\<lambda>n. IPNet_Contains n ip) nets)"

text \<open>The part before the first comma, by \<^verbatim>\<open>strings.Cut\<close>.\<close>

definition first_element :: "string \<Rightarrow> string" where
  "first_element s = TrimSpace (takeWhile (\<lambda>c. c \<noteq> CHR '','') s)"

definition trustedClientIP :: "Request \<Rightarrow> IPNet list \<Rightarrow> string" where
  "trustedClientIP r nets =
     (let host = (case SplitHostPort (req_RemoteAddr r) of Some (h, _) \<Rightarrow> h | None \<Rightarrow> req_RemoteAddr r)
      in if L7_isTrustedProxy nets host then
           (if Header_Get r ''X-Forwarded-For'' \<noteq> '''' then first_element (Header_Get r ''X-Forwarded-For'')
            else if Header_Get r ''X-Real-IP'' \<noteq> '''' then TrimSpace (Header_Get r ''X-Real-IP'')
            else host)
         else host)"

definition getClientIP :: "HTTPProxy \<Rightarrow> Request \<Rightarrow> string" where
  "getClientIP p r = trustedClientIP r (hp_trustedNets p)"

definition prepareOutboundRequest :: "HTTPProxy \<Rightarrow> bool \<Rightarrow> Request \<Rightarrow> Backend \<Rightarrow> Request" where
  "prepareOutboundRequest p tls r b =
     (let clientIP = getClientIP p r;
          r1 = r\<lparr>req_URL_Host := b_Address b\<rparr>;
          prior = Header_Get r1 ''X-Forwarded-For'';
          r2 = Header_Set ''X-Forwarded-For'' (if prior \<noteq> '''' then prior @ '', '' @ clientIP else clientIP) r1;
          r3 = Header_Set ''X-Real-IP'' clientIP r2;
          r4 = Header_Set ''X-Forwarded-Proto'' (if tls then ''https'' else ''http'') r3;
          r5 = Header_Set ''X-Forwarded-Host'' (req_Host r) r4;
          conn = Header_Get r5 ''Connection'';
          r6 = (if conn \<noteq> '''' then fold (\<lambda>h. Header_Del (TrimSpace h)) (split_on CHR '','' conn) r5 else r5)
      in fold Header_Del hopByHopHeaders r6)"

section \<open>Errors\<close>

text \<open>
  What the code looks at in an error of the transport. The error of an attempt may be wrapped in
  \<^verbatim>\<open>errResponseCommitted\<close>.
\<close>

record DoError =
  de_text :: string
  de_timeout :: bool
  de_refused :: bool
  de_reset :: bool

datatype AttemptError = Plain DoError | Committed DoError

definition retryableStrings :: "string list" where
  "retryableStrings = [''connection refused'', ''actively refused'', ''connection reset'', ''no such host'', ''timeout'', ''temporary failure'']"

definition isRetryableError :: "DoError option \<Rightarrow> bool" where
  "isRetryableError err =
     (case err of
        None \<Rightarrow> False
      | Some e \<Rightarrow>
          if de_timeout e then True
          else if de_refused e then True
          else if de_reset e then True
          else list_ex (\<lambda>s. has_infix s (map to_lower (de_text e))) retryableStrings)"

definition max_conns_error :: DoError where
  "max_conns_error = \<lparr> de_text = ''backend at max connections'', de_timeout = False, de_refused = False, de_reset = False \<rparr>"

fun error_status :: "Code \<Rightarrow> int" where
  "error_status CodeRouteNotFound = 404"
| "error_status CodePoolNotFound = 503"
| "error_status CodePoolEmpty = 503"
| "error_status CodeBackendUnavailable = 503"
| "error_status CodeBackendNotFound = 503"
| "error_status CodeConnectionRefused = 502"
| "error_status CodeConnectionTimeout = 504"
| "error_status CodeTimeout = 504"
| "error_status _ = 500"

section \<open>The state of a request\<close>

datatype Special = WebSocket | GRPCWeb | GRPC | SSE

datatype proxy_event =
    Forwarded bref Request
  | Response int "(string, string list) gomap" int
  | ErrorReply int
  | HandledBy Special bref
  | Panicked

record 's World =
  w_heap :: heap
  w_pools :: "'s pheap"
  w_passive :: "PassiveChecker option"
  w_now :: int
  w_header :: "(string, string list) gomap"
  w_log :: "proxy_event list"

definition emit :: "proxy_event \<Rightarrow> 's World \<Rightarrow> 's World" where
  "emit e w = w\<lparr>w_log := w_log w @ [e]\<rparr>"

definition on_backend :: "(Backend \<Rightarrow> Backend) \<Rightarrow> bref \<Rightarrow> 's World \<Rightarrow> 's World" where
  "on_backend f b w = w\<lparr>w_heap := (w_heap w)(b := f (w_heap w b))\<rparr>"

definition passive_failure :: "bref \<Rightarrow> 's World \<Rightarrow> 's World" where
  "passive_failure b w = w\<lparr>w_passive := map_option (RecordFailure (b_Address (w_heap w b)) (w_now w)) (w_passive w)\<rparr>"

definition passive_success :: "bref \<Rightarrow> 's World \<Rightarrow> 's World" where
  "passive_success b w = w\<lparr>w_passive := map_option (RecordSuccess (b_Address (w_heap w b)) (w_now w)) (w_passive w)\<rparr>"

text \<open>The error handler of the package; a handler that is set in its place is not modelled.\<close>

definition defaultErrorHandler :: "gerror + DoError \<Rightarrow> 's World \<Rightarrow> 's World" where
  "defaultErrorHandler err w =
     emit (ErrorReply (case err of
         Inl (Error code _ _ _) \<Rightarrow> error_status code
       | Inl (ForeignError _) \<Rightarrow> 500
       | Inr e \<Rightarrow> if de_timeout e then 504 else 500)) w"

section \<open>One attempt\<close>

text \<open>
  The outcome of \<^verbatim>\<open>client.Do\<close>: an error, or a response with status, headers and latency, the number of bytes
  copied to the client and what ended the copying, with whether the client was gone.
\<close>

datatype Exchange = Failed DoError | Answered int "(string, string list) gomap" int int "(DoError \<times> bool) option"

definition proxyRequest :: "HTTPProxy \<Rightarrow> bool \<Rightarrow> Request \<Rightarrow> Exchange \<Rightarrow> bref \<Rightarrow> 's World \<Rightarrow> AttemptError option \<times> 's World" where
  "proxyRequest p tls r x b w =
     (case Backend_AcquireConn (w_heap w b) of
        (False, _) \<Rightarrow> (Some (Plain max_conns_error), w)
      | (True, acquired) \<Rightarrow>
          (let w1 = on_backend (\<lambda>_. acquired) b w;
               w2 = emit (Forwarded b (prepareOutboundRequest p tls r (w_heap w1 b))) w1
           in case x of
                Failed e \<Rightarrow> (Some (Plain e), on_backend Backend_ReleaseConn b w2)
              | Answered status hdrs latency bytesOut copyErr \<Rightarrow>
                  (let hs = copyHeaders (w_header w2) hdrs;
                       w3 = emit (Response status hs bytesOut) (w2\<lparr>w_header := hs\<rparr>);
                       w4 = on_backend (\<lambda>be. Backend_RecordRequest be latency bytesOut) b w3
                   in case copyErr of
                        None \<Rightarrow> (None, on_backend Backend_ReleaseConn b w4)
                      | Some (e, clientGone) \<Rightarrow>
                          (Some (Committed e),
                           on_backend Backend_ReleaseConn b
                             (if clientGone then w4 else passive_failure b (on_backend Backend_RecordError b w4))))))"

section \<open>Selection and retries\<close>

text \<open>
  The context handed to the balancer. Its client address is that of a context made by
  \<^verbatim>\<open>middleware.NewRequestContext\<close>, which nothing sets afterwards.
\<close>

definition balancer_ctx :: "Request \<Rightarrow> RequestContext" where
  "balancer_ctx r = \<lparr> ctx_ClientIP = '''', ctx_Request = Some r \<rparr>"

text \<open>A call of the balancer of a pool. Without a balancer it is a call on a nil interface.\<close>

datatype Choice = NoBalancer | Nothing | Chosen bref

definition balancer_next :: "Request \<Rightarrow> pref \<Rightarrow> bref list \<Rightarrow> 's World \<Rightarrow> Choice \<times> 's World" where
  "balancer_next r pool bs w =
     (case p_balancer (w_pools w pool) of
        None \<Rightarrow> (NoBalancer, w)
      | Some (ops, s) \<Rightarrow>
          (case bal_Next ops (Some (balancer_ctx r)) (w_heap w) bs s of
             (sel, s') \<Rightarrow>
               (case sel of None \<Rightarrow> Nothing | Some b \<Rightarrow> Chosen b,
                w\<lparr>w_pools := (w_pools w)(pool := (w_pools w pool)\<lparr>p_balancer := Some (ops, s')\<rparr>)\<rparr>)))"

definition selectBackend :: "Request \<Rightarrow> pref \<Rightarrow> 's World \<Rightarrow> Choice \<times> 's World" where
  "selectBackend r pool w =
     (let healthyBackends = Pool_GetHealthyBackends (w_heap w) (w_pools w pool)
      in if healthyBackends = [] then (Nothing, w) else balancer_next r pool healthyBackends w)"

definition reply_unavailable :: "string \<Rightarrow> string \<Rightarrow> 's World \<Rightarrow> 's World" where
  "reply_unavailable k v = defaultErrorHandler (Inl (Error_WithContext ErrBackendUnavailable k v))"

text \<open>
  The loop of \<^verbatim>\<open>proxyHandler\<close>: \<open>n\<close> attempts are left, \<open>attempt\<close> is the number of the next one and \<open>xs\<close> gives the
  outcomes. After the loop the text of the last error is used, which is a nil dereference if there is none.
\<close>

fun retry_loop :: "HTTPProxy \<Rightarrow> bool \<Rightarrow> Request \<Rightarrow> pref \<Rightarrow> (nat \<Rightarrow> Exchange) \<Rightarrow> nat \<Rightarrow> nat \<Rightarrow> string list \<Rightarrow> DoError option \<Rightarrow> 's World \<Rightarrow> 's World" where
  "retry_loop p tls r pool xs 0 attempt attempted lastErr w =
     (case lastErr of None \<Rightarrow> emit Panicked w | Some e \<Rightarrow> reply_unavailable ''reason'' (de_text e) w)"
| "retry_loop p tls r pool xs (Suc n) attempt attempted lastErr w =
     (let healthyBackends = Pool_GetHealthyBackends (w_heap w) (w_pools w pool);
          availableBackends = (if attempt = 0 then healthyBackends
                               else filter (\<lambda>b. ref_ID (w_heap w) b \<notin> set attempted) healthyBackends)
      in if availableBackends = [] then
           (if healthyBackends = []
            then defaultErrorHandler (Inl (Error_WithContext ErrPoolEmpty ''pool'' (p_Name (w_pools w pool)))) w
            else reply_unavailable ''reason'' ''all backends attempted'' w)
         else
           (case balancer_next r pool availableBackends w of
              (NoBalancer, w1) \<Rightarrow> emit Panicked w1
            | (Nothing, w1) \<Rightarrow> reply_unavailable ''pool'' (p_Name (w_pools w pool)) w1
            | (Chosen b, w1) \<Rightarrow>
                (case proxyRequest p tls r (xs attempt) b w1 of
                   (None, w2) \<Rightarrow> passive_success b w2
                 | (Some (Committed _), w2) \<Rightarrow> w2
                 | (Some (Plain e), w2) \<Rightarrow>
                       (let w3 = passive_failure b (on_backend Backend_RecordError b w2)
                        in if isRetryableError (Some e)
                           then retry_loop p tls r pool xs n (attempt + 1) (attempted @ [ref_ID (w_heap w) b]) (Some e) w3
                           else reply_unavailable ''reason'' (de_text e) w3))))"

section \<open>The handler\<close>

definition IsWebSocketUpgrade :: "Request \<Rightarrow> bool" where
  "IsWebSocketUpgrade r =
     (if \<not> has_infix ''upgrade'' (map to_lower (Header_Get r ''Connection'')) then False
      else map to_lower (Header_Get r ''Upgrade'') = ''websocket'')"

definition IsGRPCRequest :: "Request \<Rightarrow> bool" where
  "IsGRPCRequest r = HasPrefix (Header_Get r ''Content-Type'') ''application/grpc''"

definition IsGRPCWebRequest :: "Request \<Rightarrow> bool" where
  "IsGRPCWebRequest r = HasPrefix (Header_Get r ''Content-Type'') ''application/grpc-web''"

definition IsSSERequest :: "Request \<Rightarrow> bool" where
  "IsSSERequest r = has_infix ''text/event-stream'' (Header_Get r ''Accept'')"

definition special_protocol :: "Request \<Rightarrow> Special option" where
  "special_protocol r =
     (if IsWebSocketUpgrade r then Some WebSocket
      else if IsGRPCWebRequest r then Some GRPCWeb
      else if IsGRPCRequest r then Some GRPC
      else if IsSSERequest r then Some SSE
      else None)"

text \<open>
  What the network does with a request: the outcomes of the attempts, and the error with which the handler
  of a protocol of its own returns.
\<close>

record Network =
  net_attempts :: "nat \<Rightarrow> Exchange"
  net_special :: "AttemptError option"

definition proxyHandler :: "HTTPProxy \<Rightarrow> Network \<Rightarrow> bool \<Rightarrow> bool \<Rightarrow> RouteMatch \<Rightarrow> Request \<Rightarrow> 's World \<Rightarrow> 's World" where
  "proxyHandler p net http11 tls routeMatch r0 w =
     (case ValidateRequest http11 r0 of
        Inl e \<Rightarrow> defaultErrorHandler (Inl (the (Wrap (Some (ForeignError e)) CodeInvalidRequest ''request validation failed''))) w
      | Inr r \<Rightarrow>
          (case PoolManager_GetPool (route_BackendPool (rm_Route routeMatch)) (hp_poolManager p) of
             None \<Rightarrow> defaultErrorHandler (Inl (Error_WithContext ErrPoolNotFound ''pool'' (route_BackendPool (rm_Route routeMatch)))) w
           | Some pool \<Rightarrow>
               (case special_protocol r of
                  Some sp \<Rightarrow>
                    (case selectBackend r pool w of
                       (NoBalancer, w1) \<Rightarrow> emit Panicked w1
                     | (Nothing, w1) \<Rightarrow> reply_unavailable ''pool'' (p_Name (w_pools w pool)) w1
                     | (Chosen b, w1) \<Rightarrow>
                         (let w2 = emit (HandledBy sp b) w1
                          in case net_special net of
                               None \<Rightarrow> w2
                             | Some (Committed _) \<Rightarrow> w2
                             | Some (Plain e) \<Rightarrow>
                                 defaultErrorHandler (Inr e) (passive_failure b (on_backend Backend_RecordError b w2))))
                | None \<Rightarrow> retry_loop p tls r pool (net_attempts net) (nat (hp_maxRetries p)) 0 [] None w)))"




section \<open>What a request leaves alone\<close>

text \<open>
  Handling a request changes counters of backends and the state of the balancer; the states of the
  backends, their connection counts once it is over, and the members of the pools are what they were.
\<close>

definition same_backend :: "Backend \<Rightarrow> Backend \<Rightarrow> bool" where
  "same_backend b b' \<longleftrightarrow> b_ID b' = b_ID b \<and> b_state b' = b_state b \<and> b_activeConns b' = b_activeConns b"

definition same_pool :: "'s Pool \<Rightarrow> 's Pool \<Rightarrow> bool" where
  "same_pool p p' \<longleftrightarrow> p_order p' = p_order p \<and> map_option fst (p_balancer p') = map_option fst (p_balancer p)"

definition keeps :: "'s World \<Rightarrow> 's World \<Rightarrow> bool" where
  "keeps w w' \<longleftrightarrow> (\<forall>b. same_backend (w_heap w b) (w_heap w' b)) \<and> (\<forall>q. same_pool (w_pools w q) (w_pools w' q))"

definition conns_ok :: "'s World \<Rightarrow> bool" where
  "conns_ok w \<longleftrightarrow> (\<forall>b. - (2 ^ 63) \<le> b_activeConns (w_heap w b) \<and> b_activeConns (w_heap w b) < 2 ^ 63)"

lemma keeps_refl: "keeps w w"
  by (simp add: keeps_def same_backend_def same_pool_def)

lemma keeps_trans: "keeps u v \<Longrightarrow> keeps v w \<Longrightarrow> keeps u w"
  by (auto simp: keeps_def same_backend_def same_pool_def)

lemma keeps_conns: "keeps w w' \<Longrightarrow> conns_ok w' \<longleftrightarrow> conns_ok w"
  by (auto simp: keeps_def same_backend_def conns_ok_def)

named_theorems world \<open>what the operations on the state of a request do to its parts\<close>

lemma world_parts [world]:
  "w_log (emit e w) = w_log w @ [e]" "w_heap (emit e w) = w_heap w" "w_pools (emit e w) = w_pools w"
  "w_log (on_backend f b w) = w_log w" "w_pools (on_backend f b w) = w_pools w"
  "w_heap (on_backend f b w) = (w_heap w)(b := f (w_heap w b))"
  "w_log (passive_failure b w) = w_log w" "w_heap (passive_failure b w) = w_heap w" "w_pools (passive_failure b w) = w_pools w"
  "w_log (passive_success b w) = w_log w" "w_heap (passive_success b w) = w_heap w" "w_pools (passive_success b w) = w_pools w"
  by (simp_all add: emit_def on_backend_def passive_failure_def passive_success_def)

lemma keeps_parts [world]:
  "keeps w (emit e w')  \<longleftrightarrow> keeps w w'" "keeps w (passive_failure b w') \<longleftrightarrow> keeps w w'" "keeps w (passive_success b w') \<longleftrightarrow> keeps w w'"
  "keeps w (defaultErrorHandler err w') \<longleftrightarrow> keeps w w'" "keeps w (reply_unavailable k v w') \<longleftrightarrow> keeps w w'"
  by (simp_all add: keeps_def world defaultErrorHandler_def reply_unavailable_def)

lemma keeps_RecordError: "keeps w w' \<Longrightarrow> keeps w (on_backend Backend_RecordError b w')"
  by (auto simp: keeps_def world same_backend_def Backend_RecordError_def)

section \<open>One attempt\<close>

text \<open>An attempt gives its slot back, and sends at most one request and one response.\<close>

lemma proxyRequest_keeps:
  assumes "conns_ok w"
  shows "keeps w (snd (proxyRequest p tls r x b w))"
proof -
  have restored: "wrap_i64 (wrap_i64 (b_activeConns (w_heap w b) + 1) - 1) = b_activeConns (w_heap w b)"
    using assms by (intro wrap_i64_back) (auto simp: conns_ok_def)
  show ?thesis
    by (auto simp: proxyRequest_def Let_def keeps_def world same_backend_def same_pool_def Backend_AcquireConn_def Backend_ReleaseConn_def
        Backend_RecordRequest_def Backend_RecordError_def restored split: Exchange.split option.split if_splits)
qed

definition attempt_events :: "bref \<Rightarrow> AttemptError option \<Rightarrow> proxy_event list \<Rightarrow> bool" where
  "attempt_events b res es \<longleftrightarrow>
     (case res of
        Some (Plain e) \<Rightarrow> es = [] \<or> (\<exists>q. es = [Forwarded b q])
      | _ \<Rightarrow> \<exists>q st hs n. es = [Forwarded b q, Response st hs n])"

lemma proxyRequest_events:
  "\<exists>es. w_log (snd (proxyRequest p tls r x b w)) = w_log w @ es \<and> attempt_events b (fst (proxyRequest p tls r x b w)) es"
  by (auto simp: proxyRequest_def Let_def world attempt_events_def split: Exchange.split option.split prod.split bool.split)

section \<open>The attempts\<close>

lemma balancer_next_world [world]:
  "w_heap (snd (balancer_next r pool bs w)) = w_heap w" "w_log (snd (balancer_next r pool bs w)) = w_log w"
  "keeps w (snd (balancer_next r pool bs w))"
  by (auto simp: balancer_next_def keeps_def same_backend_def same_pool_def split: option.split prod.split)

definition final_event :: "proxy_event \<Rightarrow> bool" where
  "final_event e = (case e of Response _ _ _ \<Rightarrow> True | ErrorReply _ \<Rightarrow> True | _ \<Rightarrow> False)"

text \<open>
  The events of a whole request: requests to distinct backends of the pool that are available, at most \<open>n\<close> of
  them, none tried before, and one answer at the end.
\<close>

definition good_events :: "'s World \<Rightarrow> pref \<Rightarrow> nat \<Rightarrow> string list \<Rightarrow> proxy_event list \<Rightarrow> bool" where
  "good_events w pool n attempted es \<longleftrightarrow>
     (\<exists>fs fin. es = map (\<lambda>(b, q). Forwarded b q) fs @ [fin] \<and> final_event fin \<and> length fs \<le> n \<and>
        distinct (map (\<lambda>(b, q). ref_ID (w_heap w) b) fs) \<and> (\<forall>(b, q) \<in> set fs. ref_ID (w_heap w) b \<notin> set attempted \<and>
          b \<in> set (p_order (w_pools w pool)) \<and> Backend_IsAvailable (w_heap w b)))"

lemma good_events_final: "final_event fin \<Longrightarrow> good_events w pool n attempted [fin]"
  unfolding good_events_def by (rule exI [of _ "[]"]) simp

lemma good_events_keeps: "keeps w w' \<Longrightarrow> good_events w' pool n attempted es \<longleftrightarrow> good_events w pool n attempted es"
  by (simp add: good_events_def keeps_def same_backend_def same_pool_def Backend_IsAvailable_def)

lemma good_events_mono: "good_events w pool n (attempted @ as) es \<Longrightarrow> n \<le> m \<Longrightarrow> good_events w pool m attempted es"
  unfolding good_events_def by fastforce

lemma good_events_Cons:
  assumes "good_events w pool n (attempted @ [ref_ID (w_heap w) b]) es" "ref_ID (w_heap w) b \<notin> set attempted"
    "b \<in> set (p_order (w_pools w pool))" "Backend_IsAvailable (w_heap w b)"
  shows "good_events w pool (Suc n) attempted (Forwarded b q # es)"
proof -
  obtain fs fin where "es = map (\<lambda>(b, q). Forwarded b q) fs @ [fin]" "final_event fin" "length fs \<le> n"
    "distinct (map (\<lambda>(b, q). ref_ID (w_heap w) b) fs)"
    "\<forall>(c, q) \<in> set fs. ref_ID (w_heap w) c \<notin> set (attempted @ [ref_ID (w_heap w) b]) \<and> c \<in> set (p_order (w_pools w pool)) \<and> Backend_IsAvailable (w_heap w c)"
    using assms(1) unfolding good_events_def by blast
  with assms(2-4) show ?thesis unfolding good_events_def by (intro exI [of _ "(b, q) # fs"] exI [of _ fin]) force
qed

lemma attempt_then:
  assumes "attempt_events b (Some (Plain e)) es" "good_events w pool n (attempted @ [ref_ID (w_heap w) b]) es'"
    "ref_ID (w_heap w) b \<notin> set attempted" "b \<in> set (p_order (w_pools w pool))" "Backend_IsAvailable (w_heap w b)"
  shows "good_events w pool (Suc n) attempted (es @ es')"
proof (cases "es = []")
  case True
  then show ?thesis using good_events_mono [OF assms(2)] by simp
next
  case False
  then show ?thesis using assms good_events_Cons by (auto simp: attempt_events_def)
qed

lemma attempt_done:
  assumes "attempt_events b res es" "ref_ID (w_heap w) b \<notin> set attempted" "b \<in> set (p_order (w_pools w pool))" "Backend_IsAvailable (w_heap w b)"
    "\<nexists>e. res = Some (Plain e)"
  shows "good_events w pool (Suc n) attempted es"
proof -
  obtain q st hs k where "es = [Forwarded b q, Response st hs k]"
    using assms(1,5) by (auto simp: attempt_events_def split: option.splits AttemptError.splits)
  moreover have "good_events w pool n (attempted @ [ref_ID (w_heap w) b]) [Response st hs k]" for st hs k
    by (rule good_events_final) (simp add: final_event_def)
  ultimately show ?thesis using good_events_Cons [OF _ assms(2-4)] by blast
qed

text \<open>What the proxy needs of a balancer is the interface alone.\<close>

locale proxy_balancer = balancer ops for ops :: "'s Balancer"
begin

lemma balancer_next_chosen:
  assumes "map_option fst (p_balancer (w_pools w pool)) = Some ops" "bs \<noteq> []"
  shows "case fst (balancer_next r pool bs w) of NoBalancer \<Rightarrow> False | Nothing \<Rightarrow> True | Chosen b \<Rightarrow> b \<in> set bs"
  using assms next_mem by (fastforce simp: balancer_next_def split: prod.split option.split)

lemma retry_loop_events:
  assumes "map_option fst (p_balancer (w_pools w pool)) = Some ops" "conns_ok w" "0 < n \<or> lastErr \<noteq> None" "attempt = 0 \<longrightarrow> attempted = []"
  shows "\<exists>es. w_log (retry_loop p tls r pool xs n attempt attempted lastErr w) = w_log w @ es \<and> good_events w pool n attempted es \<and>
    keeps w (retry_loop p tls r pool xs n attempt attempted lastErr w)"
  using assms
proof (induction n arbitrary: attempt attempted lastErr w)
  case 0
  then show ?case by (auto simp: reply_unavailable_def defaultErrorHandler_def world keeps_refl intro!: good_events_final simp: final_event_def)
next
  case (Suc n)
  let ?h = "Pool_GetHealthyBackends (w_heap w) (w_pools w pool)"
  define av where "av = (if attempt = 0 then ?h else filter (\<lambda>b. ref_ID (w_heap w) b \<notin> set attempted) ?h)"
  have av: "b \<in> set av \<Longrightarrow> ref_ID (w_heap w) b \<notin> set attempted \<and> b \<in> set (p_order (w_pools w pool)) \<and> Backend_IsAvailable (w_heap w b)" for b
    using Suc.prems(4) by (auto simp: av_def Pool_GetHealthyBackends_def split: if_splits)
  have err: "\<exists>es. w_log (defaultErrorHandler err w1) = w_log w @ es \<and> good_events w pool (Suc n) attempted es \<and> keeps w (defaultErrorHandler err w1)"
    if "w_log w1 = w_log w" "keeps w w1" for err w1
    using that by (auto simp: defaultErrorHandler_def world intro!: good_events_final simp: final_event_def)
  show ?case
  proof (cases "av = []")
    case True
    then show ?thesis using err [OF refl keeps_refl] by (simp add: Let_def av_def reply_unavailable_def split: if_splits)
  next
    case False
    obtain ch w1 where bn: "balancer_next r pool av w = (ch, w1)" by force
    have w1: "w_heap w1 = w_heap w" "w_log w1 = w_log w" "keeps w w1" using balancer_next_world [where r = r and pool = pool and bs = av and w = w] bn by auto
    show ?thesis
    proof (cases ch)
      case NoBalancer
      then show ?thesis using balancer_next_chosen [OF Suc.prems(1) False, where r = r] bn by simp
    next
      case Nothing
      then show ?thesis using err [OF w1(2,3)] False bn by (simp add: Let_def av_def [symmetric] reply_unavailable_def)
    next
      case (Chosen b)
      then have b: "b \<in> set av" using balancer_next_chosen [OF Suc.prems(1) False, where r = r] bn by simp
      obtain res w2 where pr: "proxyRequest p tls r (xs attempt) b w1 = (res, w2)" by force
      have k2: "keeps w w2" using proxyRequest_keeps [of w1 p tls r "xs attempt" b] pr keeps_conns [OF w1(3)] Suc.prems(2) keeps_trans [OF w1(3)] by simp
      obtain es where es: "w_log w2 = w_log w @ es" "attempt_events b res es"
        using proxyRequest_events [of p tls r "xs attempt" b w1] pr w1(2) by auto
      let ?w3 = "passive_failure b (on_backend Backend_RecordError b w2)"
      have k3: "keeps w ?w3" using keeps_RecordError [OF k2] by (simp add: world)
      note go = attempt_then [OF _ _ av [OF b, THEN conjunct1] av [OF b, THEN conjunct2, THEN conjunct1] av [OF b, THEN conjunct2, THEN conjunct2]]
        and fin = attempt_done [OF es(2) av [OF b, THEN conjunct1] av [OF b, THEN conjunct2, THEN conjunct1] av [OF b, THEN conjunct2, THEN conjunct2]]
      show ?thesis
      proof (cases "\<exists>e. res = Some (Plain e)")
        case False
        then have "w_log (retry_loop p tls r pool xs (Suc n) attempt attempted lastErr w) = w_log w2 \<and> keeps w (retry_loop p tls r pool xs (Suc n) attempt attempted lastErr w)"
          using \<open>av \<noteq> []\<close> bn Chosen pr k2 by (auto simp: Let_def av_def [symmetric] world split: option.split AttemptError.split)
        then show ?thesis using es(1) fin [OF False] by auto
      next
        case True
        then obtain e where e: "res = Some (Plain e)" by blast
        have step: "retry_loop p tls r pool xs (Suc n) attempt attempted lastErr w =
            (if isRetryableError (Some e) then retry_loop p tls r pool xs n (attempt + 1) (attempted @ [ref_ID (w_heap w) b]) (Some e) ?w3
             else reply_unavailable ''reason'' (de_text e) ?w3)"
          using \<open>av \<noteq> []\<close> bn Chosen pr e by (simp add: Let_def av_def [symmetric])
        show ?thesis
        proof (cases "isRetryableError (Some e)")
          case False
          have "good_events w pool n (attempted @ [ref_ID (w_heap w) b]) [ErrorReply 503]" by (rule good_events_final) (simp add: final_event_def)
          from go [OF es(2) [unfolded e] this] k3 False es(1) show ?thesis
            unfolding step by (auto simp: reply_unavailable_def defaultErrorHandler_def ErrBackendUnavailable_def New_def world)
        next
          case True
          have "map_option fst (p_balancer (w_pools ?w3 pool)) = Some ops" using k3 Suc.prems(1) by (simp add: keeps_def same_pool_def)
          moreover have "conns_ok ?w3" using keeps_conns [OF k3] Suc.prems(2) by simp
          ultimately obtain es' where es': "w_log (retry_loop p tls r pool xs n (attempt + 1) (attempted @ [ref_ID (w_heap w) b]) (Some e) ?w3) = w_log ?w3 @ es'"
            "good_events ?w3 pool n (attempted @ [ref_ID (w_heap w) b]) es'"
            "keeps ?w3 (retry_loop p tls r pool xs n (attempt + 1) (attempted @ [ref_ID (w_heap w) b]) (Some e) ?w3)"
            using Suc.IH [of ?w3 "Some e" "attempt + 1" "attempted @ [ref_ID (w_heap w) b]"] by auto
          have "good_events w pool n (attempted @ [ref_ID (w_heap w) b]) es'" using es'(2) good_events_keeps [OF k3] by blast
          from go [OF es(2) [unfolded e] this] es'(1,3) es(1) True keeps_trans [OF k3] show ?thesis unfolding step by (simp add: world)
        qed
      qed
    qed
  qed
qed

end

interpretation proxy_rr: proxy_balancer RoundRobin_methods
  by (rule proxy_balancer.intro) (rule rr.balancer_axioms)

interpretation proxy_ch: proxy_balancer "ConsistentHash_methods srt" for srt
  by (rule proxy_balancer.intro) (rule ch.balancer_axioms)

section \<open>Headers on the way out\<close>









section \<open>Properties\<close>





section \<open>Witnesses and consequences\<close>










text \<open>Other behaviours of the handler that its comments do not suggest.\<close>

lemma max_conns_not_retried: "\<not> isRetryableError (Some max_conns_error)"
  by code_simp

lemma invalid_request_status:
  "ValidateRequest http11 r = Inl e \<Longrightarrow> w_log (proxyHandler p net http11 tls m r w) = w_log w @ [ErrorReply 500]"
  by (simp add: proxyHandler_def Wrap_def defaultErrorHandler_def world)

text \<open>Behind a trusted proxy the client chooses its address: the first element of the header is the one it sent.\<close>

lemma client_address_spoofed:
  assumes "L7_isTrustedProxy nets host" "SplitHostPort (req_RemoteAddr r) = Some (host, port)" "Header_Get r ''X-Forwarded-For'' = spoofed @ '', '' @ rest"
    "CHR '','' \<notin> set spoofed"
  shows "trustedClientIP r nets = TrimSpace spoofed"
proof -
  have "takeWhile (\<lambda>c. c \<noteq> CHR '','') (spoofed @ '', '' @ rest) = spoofed"
    using assms(4) by (induction spoofed) auto
  then show ?thesis using assms(1-3) by (simp add: trustedClientIP_def first_element_def)
qed

text \<open>No header value of a response that is copied can start a new line.\<close>

lemma copied_value: "c \<in> set (SanitizeHeaderValue v) \<Longrightarrow> c \<notin> {CHR 0x0D, CHR 0x0A, CHR 0x00}"
  by (auto simp: SanitizeHeaderValue_def)

end
