(* ===== verification/Dist_State.thy ===== *)
theory Dist_State
  imports Backend
begin

text \<open>
  Shared state of the cluster nodes, \<^verbatim>\<open>internal/cluster/state.go\<close>: the health of backends and the session
  table, exchanged between nodes and merged by the latest time stamp. The JSON encoding and the HMAC are
  parameters, and so is the time. A nil pointer in a received map is \<open>None\<close>; an operation that dereferences it
  panics.
\<close>

section \<open>State and messages\<close>

record HealthStatus =
  hs_BackendAddr :: string
  hs_Healthy :: bool
  hs_LastCheck :: int
  hs_Latency :: int
  hs_CheckerNodeID :: string
  hs_Timestamp :: int

record SessionEntry =
  se_Key :: string
  se_BackendAddr :: string
  se_Expires :: int
  se_Timestamp :: int

datatype StateMessageType = StateMessageHealth | StateMessageSession | StateMessageFull | StateMessageOther string

record StateMessage =
  stm_Type :: StateMessageType
  stm_SenderID :: string
  stm_Health :: "(string, HealthStatus option) gomap option"
  stm_Sessions :: "(string, SessionEntry option) gomap option"
  stm_Timestamp :: int
  stm_HMAC :: string

record DistributedStateConfig =
  dsc_NodeID :: string
  dsc_SyncInterval :: int
  dsc_SessionDefaultTTL :: int
  dsc_MaxSessionEntries :: int
  dsc_HMACKey :: string

definition DefaultDistributedStateConfig :: DistributedStateConfig where
  "DefaultDistributedStateConfig = \<lparr> dsc_NodeID = [], dsc_SyncInterval = 30 * 10 ^ 9, dsc_SessionDefaultTTL = 30 * 60 * 10 ^ 9,
     dsc_MaxSessionEntries = 100000, dsc_HMACKey = [] \<rparr>"

text \<open>The messages handed to \<^verbatim>\<open>Broadcast\<close> are kept as a history; \<open>ds_sync\<close> says whether a transport is set.\<close>

record DistributedState =
  ds_config :: DistributedStateConfig
  ds_healthState :: "(string, HealthStatus) gomap"
  ds_sessionState :: "(string, SessionEntry) gomap"
  ds_sync :: bool
  ds_sent :: "StateMessage list"

definition NewDistributedState :: "DistributedStateConfig option \<Rightarrow> DistributedState" where
  "NewDistributedState config =
     (let c = (case config of None \<Rightarrow> DefaultDistributedStateConfig | Some c \<Rightarrow> c)
      in \<lparr> ds_config = (if dsc_SessionDefaultTTL c \<le> 0 then c\<lparr>dsc_SessionDefaultTTL := 30 * 60 * 10 ^ 9\<rparr> else c),
           ds_healthState = [], ds_sessionState = [], ds_sync = False, ds_sent = [] \<rparr>)"

definition SetSync :: "bool \<Rightarrow> DistributedState \<Rightarrow> DistributedState" where
  "SetSync s ds = ds\<lparr>ds_sync := s\<rparr>"

section \<open>Authentication\<close>

definition computeStateHMAC :: "(StateMessage \<Rightarrow> string option) \<Rightarrow> (string \<Rightarrow> string \<Rightarrow> string) \<Rightarrow> StateMessage \<Rightarrow> string \<Rightarrow> string" where
  "computeStateHMAC marshal hmac msg key =
     (case marshal (msg\<lparr>stm_HMAC := []\<rparr>) of None \<Rightarrow> [] | Some data \<Rightarrow> hmac key data)"

definition attachHMAC :: "(StateMessage \<Rightarrow> string option) \<Rightarrow> (string \<Rightarrow> string \<Rightarrow> string) \<Rightarrow> DistributedState \<Rightarrow> StateMessage \<Rightarrow> StateMessage" where
  "attachHMAC marshal hmac ds msg =
     (if dsc_HMACKey (ds_config ds) = [] then msg
      else msg\<lparr>stm_HMAC := computeStateHMAC marshal hmac msg (dsc_HMACKey (ds_config ds))\<rparr>)"

definition verifyHMAC :: "(StateMessage \<Rightarrow> string option) \<Rightarrow> (string \<Rightarrow> string \<Rightarrow> string) \<Rightarrow> DistributedState \<Rightarrow> StateMessage \<Rightarrow> bool" where
  "verifyHMAC marshal hmac ds msg =
     (if dsc_HMACKey (ds_config ds) = [] then True
      else if stm_HMAC msg = [] then False
      else stm_HMAC msg = computeStateHMAC marshal hmac msg (dsc_HMACKey (ds_config ds)))"

section \<open>Merging\<close>

text \<open>Both merges run over the received map in some order and keep the entry with the later time stamp.\<close>

definition merge_entry :: "('e \<Rightarrow> int) \<Rightarrow> string \<Rightarrow> 'e \<Rightarrow> (string, 'e) gomap \<Rightarrow> (string, 'e) gomap" where
  "merge_entry ts k e m =
     (case map_of m k of
        None \<Rightarrow> AList.update k e m
      | Some existing \<Rightarrow> if ts e > ts existing then AList.update k e m else m)"

fun merge_map :: "('e \<Rightarrow> int) \<Rightarrow> (string \<times> 'e option) list \<Rightarrow> (string, 'e) gomap \<Rightarrow> (string, 'e) gomap option" where
  "merge_map ts [] m = Some m"
| "merge_map ts ((k, None) # es) m = None"
| "merge_map ts ((k, Some e) # es) m = merge_map ts es (merge_entry ts k e m)"

definition MergeHealthStatus :: "(string, HealthStatus option) gomap \<Rightarrow> DistributedState \<Rightarrow> DistributedState option" where
  "MergeHealthStatus incoming ds =
     map_option (\<lambda>h. ds\<lparr>ds_healthState := h\<rparr>) (merge_map hs_Timestamp incoming (ds_healthState ds))"

text \<open>The scan for the oldest entry, and the loop that deletes it while there are too many.\<close>

definition older :: "(string \<times> SessionEntry) option \<Rightarrow> string \<times> SessionEntry \<Rightarrow> (string \<times> SessionEntry) option" where
  "older best x = (case best of None \<Rightarrow> Some x | Some b \<Rightarrow> if se_Timestamp (snd x) < se_Timestamp (snd b) then Some x else best)"

definition oldest_entry :: "(string, SessionEntry) gomap \<Rightarrow> (string \<times> SessionEntry) option" where
  "oldest_entry m = foldl older None m"

definition oldest_key :: "(string, SessionEntry) gomap \<Rightarrow> string" where
  "oldest_key m = (case oldest_entry m of None \<Rightarrow> [] | Some (k, _) \<Rightarrow> k)"

partial_function (option) limit_loop :: "int \<Rightarrow> (string, SessionEntry) gomap \<Rightarrow> (string, SessionEntry) gomap option" where
  "limit_loop mx m =
     (if int (length m) > mx
      then limit_loop mx (if oldest_key m \<noteq> [] then AList.delete (oldest_key m) m else m)
      else Some m)"

definition enforceSessionLimit :: "DistributedState \<Rightarrow> DistributedState option" where
  "enforceSessionLimit ds =
     (if dsc_MaxSessionEntries (ds_config ds) \<le> 0 then Some ds
      else map_option (\<lambda>m. ds\<lparr>ds_sessionState := m\<rparr>) (limit_loop (dsc_MaxSessionEntries (ds_config ds)) (ds_sessionState ds)))"

definition MergeSessions :: "(string, SessionEntry option) gomap \<Rightarrow> DistributedState \<Rightarrow> DistributedState option" where
  "MergeSessions incoming ds =
     Option.bind (merge_map se_Timestamp incoming (ds_sessionState ds)) (\<lambda>m. enforceSessionLimit (ds\<lparr>ds_sessionState := m\<rparr>))"

section \<open>Reading\<close>

definition GetHealthStatus :: "string \<Rightarrow> DistributedState \<Rightarrow> HealthStatus option" where
  "GetHealthStatus addr ds = map_of (ds_healthState ds) addr"

definition GetClusterHealthView :: "DistributedState \<Rightarrow> (string, HealthStatus) gomap" where
  "GetClusterHealthView ds = ds_healthState ds"

definition GetSession :: "string \<Rightarrow> int \<Rightarrow> DistributedState \<Rightarrow> string option" where
  "GetSession key now ds =
     (case map_of (ds_sessionState ds) key of
        None \<Rightarrow> None
      | Some e \<Rightarrow> if now > se_Expires e then None else Some (se_BackendAddr e))"

definition GetAllSessions :: "int \<Rightarrow> DistributedState \<Rightarrow> (string, SessionEntry) gomap" where
  "GetAllSessions now ds = filter (\<lambda>(k, e). now < se_Expires e) (ds_sessionState ds)"

definition HealthCount :: "DistributedState \<Rightarrow> nat" where
  "HealthCount ds = length (ds_healthState ds)"

definition SessionCount :: "DistributedState \<Rightarrow> nat" where
  "SessionCount ds = length (ds_sessionState ds)"

definition cleanupExpiredSessions :: "int \<Rightarrow> DistributedState \<Rightarrow> DistributedState" where
  "cleanupExpiredSessions now ds = ds\<lparr>ds_sessionState := filter (\<lambda>(k, e). \<not> now > se_Expires e) (ds_sessionState ds)\<rparr>"

section \<open>Sending and receiving\<close>

abbreviation (input) entries :: "(string, 'e) gomap \<Rightarrow> (string, 'e option) gomap" where
  "entries m \<equiv> map (\<lambda>(k, e). (k, Some e)) m"

text \<open>A message that cannot be encoded is not sent.\<close>

definition broadcast_msg :: "(StateMessage \<Rightarrow> string option) \<Rightarrow> (string \<Rightarrow> string \<Rightarrow> string) \<Rightarrow> StateMessageType \<Rightarrow>
    (string, HealthStatus option) gomap option \<Rightarrow> (string, SessionEntry option) gomap option \<Rightarrow> int \<Rightarrow> DistributedState \<Rightarrow> DistributedState" where
  "broadcast_msg marshal hmac ty health sessions now ds =
     (if \<not> ds_sync ds then ds
      else let msg = attachHMAC marshal hmac ds \<lparr> stm_Type = ty, stm_SenderID = dsc_NodeID (ds_config ds), stm_Health = health,
                       stm_Sessions = sessions, stm_Timestamp = now, stm_HMAC = [] \<rparr>
           in case marshal msg of None \<Rightarrow> ds | Some _ \<Rightarrow> ds\<lparr>ds_sent := ds_sent ds @ [msg]\<rparr>)"

definition broadcastHealth where
  "broadcastHealth marshal hmac health now ds = broadcast_msg marshal hmac StateMessageHealth (Some (entries health)) None now ds"

definition broadcastSessions where
  "broadcastSessions marshal hmac sessions now ds = broadcast_msg marshal hmac StateMessageSession None (Some (entries sessions)) now ds"

definition broadcastFullState where
  "broadcastFullState marshal hmac now ds =
     broadcast_msg marshal hmac StateMessageFull (Some (entries (GetClusterHealthView ds))) (Some (entries (GetAllSessions now ds))) now ds"

definition PropagateHealthStatus where
  "PropagateHealthStatus marshal hmac backendAddr healthy latency now ds =
     (let status = \<lparr> hs_BackendAddr = backendAddr, hs_Healthy = healthy, hs_LastCheck = now, hs_Latency = latency,
                     hs_CheckerNodeID = dsc_NodeID (ds_config ds), hs_Timestamp = now \<rparr>
      in broadcastHealth marshal hmac [(backendAddr, status)] now (ds\<lparr>ds_healthState := AList.update backendAddr status (ds_healthState ds)\<rparr>))"

definition PropagateSession where
  "PropagateSession marshal hmac key backendAddr expires now ds =
     (let entry = \<lparr> se_Key = key, se_BackendAddr = backendAddr,
                    se_Expires = (if expires = zero_time then now + dsc_SessionDefaultTTL (ds_config ds) else expires), se_Timestamp = now \<rparr>
      in map_option (broadcastSessions marshal hmac [(key, entry)] now)
           (enforceSessionLimit (ds\<lparr>ds_sessionState := AList.update key entry (ds_sessionState ds)\<rparr>)))"

definition merge_health_opt :: "(string, HealthStatus option) gomap option \<Rightarrow> DistributedState \<Rightarrow> DistributedState option" where
  "merge_health_opt h ds = (case h of None \<Rightarrow> Some ds | Some m \<Rightarrow> MergeHealthStatus m ds)"

definition merge_sessions_opt :: "(string, SessionEntry option) gomap option \<Rightarrow> DistributedState \<Rightarrow> DistributedState option" where
  "merge_sessions_opt s ds = (case s of None \<Rightarrow> Some ds | Some m \<Rightarrow> MergeSessions m ds)"

text \<open>The argument is the message that the data decodes to.\<close>

definition handleIncoming :: "(StateMessage \<Rightarrow> string option) \<Rightarrow> (string \<Rightarrow> string \<Rightarrow> string) \<Rightarrow> StateMessage option \<Rightarrow> DistributedState \<Rightarrow> DistributedState option" where
  "handleIncoming marshal hmac decoded ds =
     (case decoded of
        None \<Rightarrow> Some ds
      | Some msg \<Rightarrow>
          if stm_SenderID msg = dsc_NodeID (ds_config ds) then Some ds
          else if \<not> verifyHMAC marshal hmac ds msg then Some ds
          else (case stm_Type msg of
                  StateMessageHealth \<Rightarrow> merge_health_opt (stm_Health msg) ds
                | StateMessageSession \<Rightarrow> merge_sessions_opt (stm_Sessions msg) ds
                | StateMessageFull \<Rightarrow> Option.bind (merge_health_opt (stm_Health msg) ds) (merge_sessions_opt (stm_Sessions msg))
                | StateMessageOther _ \<Rightarrow> Some ds))"

definition Serialize where
  "Serialize marshal hmac now ds =
     attachHMAC marshal hmac ds \<lparr> stm_Type = StateMessageFull, stm_SenderID = dsc_NodeID (ds_config ds),
       stm_Health = Some (entries (GetClusterHealthView ds)), stm_Sessions = Some (entries (GetAllSessions now ds)), stm_Timestamp = now, stm_HMAC = [] \<rparr>"

definition ErrInvalidHMAC :: string where
  "ErrInvalidHMAC = ''cluster: state message HMAC verification failed''"

definition Deserialize where
  "Deserialize marshal hmac decoded ds =
     (case decoded of
        None \<Rightarrow> Some (Some ''json'', ds)
      | Some msg \<Rightarrow>
          if \<not> verifyHMAC marshal hmac ds msg then Some (Some ErrInvalidHMAC, ds)
          else map_option (Pair None) (Option.bind (merge_health_opt (stm_Health msg) ds) (merge_sessions_opt (stm_Sessions msg))))"

section \<open>The latest entry wins\<close>

definition merge_all :: "('e \<Rightarrow> int) \<Rightarrow> (string \<times> 'e) list \<Rightarrow> (string, 'e) gomap \<Rightarrow> (string, 'e) gomap" where
  "merge_all ts es m = fold (\<lambda>(k, e). merge_entry ts k e) es m"

lemma merge_map_entries: "merge_map ts (entries es) m = Some (merge_all ts es m)"
  by (induction es arbitrary: m) (auto simp: merge_all_def)

lemma merge_map_None: "merge_map ts es m = None \<longleftrightarrow> None \<in> snd ` set es"
  by (induction ts es m rule: merge_map.induct) auto

lemma merge_all_append: "merge_all ts (es @ fs) m = merge_all ts fs (merge_all ts es m)"
  by (simp add: merge_all_def)

text \<open>What is found after a merge, in terms of all entries that were merged.\<close>

lemma merged_lookup:
  "case map_of (merge_all ts es []) k of
     None \<Rightarrow> k \<notin> fst ` set es
   | Some e \<Rightarrow> (k, e) \<in> set es \<and> (\<forall>e'. (k, e') \<in> set es \<longrightarrow> ts e' \<le> ts e)"
proof (induction es rule: rev_induct)
  case (snoc x es)
  obtain k' e' where x: "x = (k', e')" by force
  have step: "merge_all ts (es @ [x]) [] = merge_entry ts k' e' (merge_all ts es [])" by (simp add: merge_all_def x)
  show ?case
  proof (cases "k = k'")
    case True
    then show ?thesis using snoc unfolding step
      by (cases "map_of (merge_all ts es []) k") (force simp: x merge_entry_def gomap)+
  next
    case False
    then have "map_of (merge_entry ts k' e' m) k = map_of m k" for m by (auto simp: merge_entry_def gomap split: option.split)
    then show ?thesis using snoc False unfolding step by (cases "map_of (merge_all ts es []) k") (auto simp: x)
  qed
qed (simp add: merge_all_def)

definition stamped :: "('e \<Rightarrow> int) \<Rightarrow> (string \<times> 'e) list \<Rightarrow> bool" where
  "stamped ts es \<longleftrightarrow> (\<forall>k e e'. (k, e) \<in> set es \<longrightarrow> (k, e') \<in> set es \<longrightarrow> ts e = ts e' \<longrightarrow> e = e')"

lemma merged_determined:
  assumes "set es = set fs" "stamped ts es"
  shows "map_of (merge_all ts es []) k = map_of (merge_all ts fs []) k"
proof (cases "map_of (merge_all ts es []) k")
  case None
  then have "k \<notin> fst ` set fs" using merged_lookup [where ts = ts and es = es and k = k] assms(1) by simp
  then show ?thesis using None merged_lookup [where ts = ts and es = fs and k = k] by (auto split: option.splits) force
next
  case (Some e)
  then have e: "(k, e) \<in> set es" "\<forall>e'. (k, e') \<in> set es \<longrightarrow> ts e' \<le> ts e" using merged_lookup [where ts = ts and es = es and k = k] by simp_all
  then have "k \<in> fst ` set fs" using assms(1) by force
  then obtain f where f: "map_of (merge_all ts fs []) k = Some f" using merged_lookup [where ts = ts and es = fs and k = k] by (cases "map_of (merge_all ts fs []) k") auto
  then have "(k, f) \<in> set es" "\<forall>e'. (k, e') \<in> set es \<longrightarrow> ts e' \<le> ts f" using merged_lookup [where ts = ts and es = fs and k = k] assms(1) by simp_all
  with e assms(2) have "f = e" unfolding stamped_def by (meson order_antisym)
  with Some f show ?thesis by simp
qed

section \<open>The session limit\<close>

lemma older_fold:
  "\<exists>x. foldl older (Some b) m = Some x \<and> x \<in> insert b (set m) \<and> (\<forall>y \<in> insert b (set m). se_Timestamp (snd x) \<le> se_Timestamp (snd y))"
proof (induction m arbitrary: b)
  case (Cons a m)
  show ?case
  proof (cases "se_Timestamp (snd a) < se_Timestamp (snd b)")
    case True
    then show ?thesis using Cons.IH [of a] by (auto simp: older_def)
  next
    case False
    then show ?thesis using Cons.IH [of b] by (auto simp: older_def)
  qed
qed simp

lemma oldest_key_spec:
  assumes "m \<noteq> []"
  obtains e where "(oldest_key m, e) \<in> set m" "\<forall>(k', e') \<in> set m. se_Timestamp e \<le> se_Timestamp e'"
proof -
  obtain b m' where m: "m = b # m'" using assms by (cases m) auto
  obtain k e where "oldest_entry m = Some (k, e)" "(k, e) \<in> set m" "\<forall>(k', e') \<in> set m. se_Timestamp e \<le> se_Timestamp e'"
    using older_fold [of b m'] by (auto simp: oldest_entry_def m older_def [of None] split_beta)
  then show ?thesis using that by (simp add: oldest_key_def)
qed

text \<open>Deleting the oldest entries ends with the newest ones, if every key is a real one.\<close>

definition newest_of :: "(string, SessionEntry) gomap \<Rightarrow> (string, SessionEntry) gomap \<Rightarrow> bool" where
  "newest_of m m' \<longleftrightarrow> set m' \<subseteq> set m \<and> (\<forall>x \<in> set m'. \<forall>y \<in> set m - set m'. se_Timestamp (snd y) \<le> se_Timestamp (snd x))"

lemma limit_loop_returns:
  assumes "gomap_wf m" "[] \<notin> fst ` set m" "0 \<le> mx"
  shows "\<exists>m'. limit_loop mx m = Some m' \<and> gomap_wf m' \<and> int (length m') \<le> mx \<and> newest_of m m' \<and> (int (length m) \<le> mx \<longrightarrow> m' = m)"
  using assms
proof (induction m rule: length_induct)
  case (1 m)
  show ?case
  proof (cases "int (length m) > mx")
    case False
    then show ?thesis using 1 by (simp add: limit_loop.simps newest_of_def)
  next
    case True
    then have "m \<noteq> []" using 1(4) by auto
    then obtain e where e: "(oldest_key m, e) \<in> set m" "\<forall>(k', e') \<in> set m. se_Timestamp e \<le> se_Timestamp e'" using oldest_key_spec by blast
    then have ne: "oldest_key m \<noteq> []" using 1(3) by force
    let ?d = "AList.delete (oldest_key m) m"
    have "length ?d < length m" using e(1) length_delete_key [of m "oldest_key m"] 1(2) by force
    then obtain m' where m': "limit_loop mx ?d = Some m'" "gomap_wf m'" "int (length m') \<le> mx" "newest_of ?d m'"
      using 1(1) [rule_format, of ?d] 1(2-4) by (auto simp: gomap)
    have "set ?d \<subseteq> set m" by (rule set_delete_subset)
    have old: "x \<in> set m \<Longrightarrow> x \<notin> set ?d \<Longrightarrow> x = (oldest_key m, e)" for x
      using 1(2) e(1) by (cases x) (auto simp: AList.delete_eq dest: eq_key_imp_eq_value)
    have "newest_of m m'" unfolding newest_of_def
    proof (intro conjI ballI)
      show "set m' \<subseteq> set m" using m'(4) \<open>set ?d \<subseteq> set m\<close> by (auto simp: newest_of_def)
      fix x assume x: "x \<in> set m'"
      then have "x \<in> set m" using m'(4) \<open>set ?d \<subseteq> set m\<close> by (auto simp: newest_of_def)
      fix y assume y: "y \<in> set m - set m'"
      show "se_Timestamp (snd y) \<le> se_Timestamp (snd x)"
      proof (cases "y \<in> set ?d")
        case True
        then show ?thesis using y x m'(4) by (auto simp: newest_of_def)
      next
        case False
        then have "y = (oldest_key m, e)" using y old by blast
        then show ?thesis using e(2) \<open>x \<in> set m\<close> by (cases x) auto
      qed
    qed
    with m' True ne show ?thesis by (auto simp: limit_loop.simps [of mx m])
  qed
qed

text \<open>An empty key at the front of the order is never deleted, and the loop does not end.\<close>

lemma limit_loop_hangs: "int (length m) > mx \<Longrightarrow> oldest_key m = [] \<Longrightarrow> limit_loop mx m = None"
proof (rule ccontr)
  assume a: "int (length m) > mx" "oldest_key m = []" and "limit_loop mx m \<noteq> None"
  then obtain y where "limit_loop mx m = Some y" by blast
  then have "\<not> (int (length m) > mx \<and> oldest_key m = [])"
    by (rule limit_loop.raw_induct [rotated]) (auto split: if_splits)
  with a show False by blast
qed

section \<open>Properties\<close>

text \<open>Health messages that arrive at a node one after the other.\<close>

definition deliver :: "(string, HealthStatus) gomap list \<Rightarrow> DistributedState \<Rightarrow> DistributedState option" where
  "deliver ms ds = foldl (\<lambda>o_ds m. Option.bind o_ds (MergeHealthStatus (entries m))) (Some ds) ms"

lemma deliver_merge: "deliver ms ds = Some (ds\<lparr>ds_healthState := merge_all hs_Timestamp (concat ms) (ds_healthState ds)\<rparr>)"
proof (induction ms rule: rev_induct)
  case (snoc m ms)
  then show ?case by (simp add: deliver_def MergeHealthStatus_def merge_map_entries merge_all_append)
qed (simp add: deliver_def merge_all_def)

text \<open>
  C31. Nodes agree on the health of every backend once they have received the same reports, in whatever order,
  repeated or grouped differently, if no two different reports about a backend have the same time stamp.
\<close>

theorem DistState_converges:
  assumes "set (concat ms) = set (concat ms')" and "stamped hs_Timestamp (concat ms)"
  shows "map_option (GetHealthStatus addr) (deliver ms (NewDistributedState c)) = map_option (GetHealthStatus addr) (deliver ms' (NewDistributedState c'))"
  using merged_determined [OF assms] by (simp add: deliver_merge GetHealthStatus_def NewDistributedState_def Let_def)

definition example_report :: "bool \<Rightarrow> int \<Rightarrow> HealthStatus" where
  "example_report ok t = \<lparr> hs_BackendAddr = ''a'', hs_Healthy = ok, hs_LastCheck = t, hs_Latency = 0, hs_CheckerNodeID = ''n'', hs_Timestamp = t \<rparr>"

theorem DistState_converges_witness:
  "map_option (GetHealthStatus ''a'') (deliver [[(''a'', example_report True 1)], [(''a'', example_report False 2)]] (NewDistributedState None)) =
   map_option (GetHealthStatus ''a'') (deliver [[(''a'', example_report False 2)], [(''a'', example_report True 1)], [(''a'', example_report False 2)]] (NewDistributedState None))"
  by (rule DistState_converges) (auto simp: stamped_def example_report_def)

text \<open>With the same time stamp the order decides, and two nodes can disagree for good.\<close>

lemma DistState_tie_diverges:
  "map_option (GetHealthStatus ''a'') (deliver [[(''a'', example_report True 1)], [(''a'', example_report False 1)]] (NewDistributedState None)) \<noteq>
   map_option (GetHealthStatus ''a'') (deliver [[(''a'', example_report False 1)], [(''a'', example_report True 1)]] (NewDistributedState None))"
  by (simp add: deliver_merge GetHealthStatus_def NewDistributedState_def Let_def merge_all_def merge_entry_def example_report_def)

text \<open>
  C32. Merging sessions returns, and leaves at most the configured number of entries, which are the newest ones,
  if neither the table nor the message has an entry with an empty key or a nil entry.
\<close>

theorem DistState_session_limit:
  assumes "gomap_wf (ds_sessionState ds)" "[] \<notin> fst ` set (ds_sessionState ds)" "[] \<notin> fst ` set es" "0 < dsc_MaxSessionEntries (ds_config ds)"
  shows "\<exists>ds'. MergeSessions (entries es) ds = Some ds' \<and> int (SessionCount ds') \<le> dsc_MaxSessionEntries (ds_config ds) \<and>
    newest_of (merge_all se_Timestamp es (ds_sessionState ds)) (ds_sessionState ds')"
proof -
  have "gomap_wf (merge_all se_Timestamp es m) \<and> fst ` set (merge_all se_Timestamp es m) = fst ` set m \<union> fst ` set es" if "gomap_wf m" for m
    using that
  proof (induction es arbitrary: m)
    case (Cons x es)
    obtain k e where x: "x = (k, e)" by force
    have "gomap_wf (merge_entry se_Timestamp k e m) \<and> fst ` set (merge_entry se_Timestamp k e m) = insert k (fst ` set m)"
      using Cons.prems by (auto simp: merge_entry_def gomap split: option.split dest: map_of_SomeD) (force dest: map_of_SomeD)+
    with Cons.IH [of "merge_entry se_Timestamp k e m"] show ?case by (auto simp: x merge_all_def)
  qed (simp add: merge_all_def)
  from this [OF assms(1)] assms(2,3) have "gomap_wf (merge_all se_Timestamp es (ds_sessionState ds))" "[] \<notin> fst ` set (merge_all se_Timestamp es (ds_sessionState ds))"
    by auto
  from limit_loop_returns [OF this, of "dsc_MaxSessionEntries (ds_config ds)"] assms(4) show ?thesis
    by (auto simp: MergeSessions_def merge_map_entries enforceSessionLimit_def SessionCount_def)
qed

definition example_session :: "string \<Rightarrow> int \<Rightarrow> SessionEntry" where
  "example_session k t = \<lparr> se_Key = k, se_BackendAddr = ''b'', se_Expires = 100, se_Timestamp = t \<rparr>"

definition small_state :: "(string, SessionEntry) gomap \<Rightarrow> DistributedState" where
  "small_state m = (NewDistributedState (Some (DefaultDistributedStateConfig\<lparr>dsc_MaxSessionEntries := 1\<rparr>)))\<lparr>ds_sessionState := m\<rparr>"

theorem DistState_session_limit_witness:
  "\<exists>ds'. MergeSessions (entries [(''k'', example_session ''k'' 5)]) (small_state [(''j'', example_session ''j'' 1)]) = Some ds' \<and> int (SessionCount ds') \<le> 1"
  using DistState_session_limit [of "small_state [(''j'', example_session ''j'' 1)]" "[(''k'', example_session ''k'' 5)]"]
  by (auto simp: small_state_def NewDistributedState_def Let_def DefaultDistributedStateConfig_def)

text \<open>
  C36. A session with an empty key, once it is the oldest of a full table, keeps the node in its loop: no call
  that adds a session returns any more, and the lock of the table is held.
\<close>

theorem DistState_empty_key_hangs:
  assumes "0 < dsc_MaxSessionEntries (ds_config ds)" "int (length (AList.update key e (ds_sessionState ds))) > dsc_MaxSessionEntries (ds_config ds)"
    and "e = \<lparr> se_Key = key, se_BackendAddr = addr, se_Expires = expires, se_Timestamp = now \<rparr>" and "expires \<noteq> zero_time"
    and "oldest_key (AList.update key e (ds_sessionState ds)) = []"
  shows "PropagateSession marshal hmac key addr expires now ds = None"
  using assms limit_loop_hangs [OF assms(2,5)] by (simp add: PropagateSession_def enforceSessionLimit_def)

theorem DistState_empty_key_hangs_witness:
  "PropagateSession Map.empty (\<lambda>k d. d) ''k'' ''b'' 100 5 (small_state [([], example_session [] 1)]) = None"
  by (rule DistState_empty_key_hangs [where e = "example_session ''k'' 5"])
    (simp_all add: small_state_def NewDistributedState_def Let_def DefaultDistributedStateConfig_def example_session_def zero_time_def oldest_key_def oldest_entry_def older_def)

text \<open>A message with a null entry makes the receiver panic.\<close>

lemma DistState_null_entry_panics:
  "dsc_HMACKey (ds_config ds) = [] \<Longrightarrow> stm_SenderID msg \<noteq> dsc_NodeID (ds_config ds) \<Longrightarrow> stm_Type msg = StateMessageHealth \<Longrightarrow>
   stm_Health msg = Some [(k, None)] \<Longrightarrow> handleIncoming marshal hmac (Some msg) ds = None"
  by (simp add: handleIncoming_def verifyHMAC_def merge_health_opt_def MergeHealthStatus_def)

text \<open>With a key, only messages that carry the code computed with it change the state.\<close>

lemma DistState_forged_dropped:
  "dsc_HMACKey (ds_config ds) \<noteq> [] \<Longrightarrow> stm_HMAC msg \<noteq> computeStateHMAC marshal hmac msg (dsc_HMACKey (ds_config ds)) \<Longrightarrow>
   handleIncoming marshal hmac (Some msg) ds = Some ds"
  by (simp add: handleIncoming_def verifyHMAC_def)

end
