(* ===== verification/Go_Time.thy ===== *)
theory Go_Time
  imports Http
begin

text \<open>
  \<^verbatim>\<open>time.ParseDuration\<close>: a sign and numbers with units, the fractions in \<^verbatim>\<open>float64\<close>. A duration is a number of
  nanoseconds.
\<close>

fun leadingInt :: "nat \<Rightarrow> string \<Rightarrow> (nat \<times> string) option" where
  "leadingInt x [] = Some (x, [])"
| "leadingInt x (c # cs) =
     (if \<not> is_digit c then Some (x, c # cs)
      else if x > 2 ^ 63 div 10 then None
      else let y = 10 * x + (of_char c - 48) in if y > 2 ^ 63 then None else leadingInt y cs)"

text \<open>The digits after the point; those that no longer fit are skipped.\<close>

fun leadingFraction :: "bool \<Rightarrow> nat \<Rightarrow> rat \<Rightarrow> string \<Rightarrow> nat \<times> rat \<times> string" where
  "leadingFraction overflow x scale [] = (x, scale, [])"
| "leadingFraction overflow x scale (c # cs) =
     (if \<not> is_digit c then (x, scale, c # cs)
      else if overflow then leadingFraction True x scale cs
      else if x > (2 ^ 63 - 1) div 10 then leadingFraction True x scale cs
      else let y = 10 * x + (of_char c - 48)
           in if y > 2 ^ 63 then leadingFraction True x scale cs
              else leadingFraction False y (fl64 (scale * 10)) cs)"

definition unitMap :: "(string, nat) gomap" where
  "unitMap = [(''ns'', 1), (''us'', 1000), ([CHR 0xC2, CHR 0xB5, CHR ''s''], 1000), ([CHR 0xCE, CHR 0xBC, CHR ''s''], 1000),
     (''ms'', 10 ^ 6), (''s'', 10 ^ 9), (''m'', 60 * 10 ^ 9), (''h'', 3600 * 10 ^ 9)]"

lemma leadingInt_length: "leadingInt x s = Some (v, r) \<Longrightarrow> length r \<le> length s"
  by (induction x s rule: leadingInt.induct) (auto simp: Let_def split: if_splits)

lemma leadingFraction_length: "leadingFraction ov x sc s = (v, sc', r) \<Longrightarrow> length r \<le> length s"
  by (induction ov x sc s rule: leadingFraction.induct) (auto simp: Let_def le_Suc_eq split: if_splits)

text \<open>The loop over the parts of a duration, with the sum so far.\<close>

definition unit_char :: "char \<Rightarrow> bool" where
  "unit_char c = (\<not> (c = CHR ''.'' \<or> is_digit c))"

definition fraction_part :: "string \<Rightarrow> nat \<times> rat \<times> string \<times> bool" where
  "fraction_part s =
     (if s \<noteq> [] \<and> hd s = CHR ''.''
      then (case leadingFraction False 0 1 (tl s) of (f, scale, r) \<Rightarrow> (f, scale, r, length r \<noteq> length (tl s)))
      else (0, 1, s, False))"

lemma fraction_part_length: "fraction_part s = (f, sc, r, post) \<Longrightarrow> length r \<le> length s"
  by (cases s) (auto simp: fraction_part_def split: if_splits prod.splits dest!: leadingFraction_length)

lemma dropWhile_shorter: "takeWhile P s \<noteq> [] \<Longrightarrow> length (dropWhile P s) < length s"
  by (cases s) (auto simp: length_dropWhile_le le_imp_less_Suc split: if_splits)

function duration_parts :: "nat \<Rightarrow> string \<Rightarrow> nat option" where
  "duration_parts d s =
     (if s = [] then Some d
      else if \<not> (hd s = CHR ''.'' \<or> is_digit (hd s)) then None
      else case leadingInt 0 s of
        None \<Rightarrow> None
      | Some (v, s1) \<Rightarrow>
          (case fraction_part s1 of (f, scale, s2, post) \<Rightarrow>
             if length s1 = length s \<and> \<not> post then None
             else let u = takeWhile unit_char s2; s3 = dropWhile unit_char s2
                  in if u = [] then None
                     else case map_of unitMap u of
                       None \<Rightarrow> None
                     | Some unit \<Rightarrow>
                         if v > 2 ^ 63 div unit then None
                         else let w = v * unit + (if f > 0 then nat (trunc_rat (fl64 (fl64 (of_nat f) * fl64 (of_nat unit / scale)))) else 0)
                              in if w > 2 ^ 63 then None
                                 else if d + w > 2 ^ 63 then None
                                 else duration_parts (d + w) s3))"
  by auto
termination
proof (relation "measure (\<lambda>(d, s). length s)", simp, clarsimp)
  fix s v b f sc r post
  assume "leadingInt 0 s = Some (v, b)" "(f, sc, r, post) = fraction_part b" "takeWhile unit_char r \<noteq> []"
  then show "length (dropWhile unit_char r) < length s"
    using leadingInt_length [of 0 s v b] fraction_part_length [of b f sc r post] dropWhile_shorter [of unit_char r] by simp
qed

declare duration_parts.simps [simp del]

definition ParseDuration :: "string \<Rightarrow> int option" where
  "ParseDuration s0 =
     (let neg = (s0 \<noteq> [] \<and> hd s0 = CHR ''-'');
          s = (if s0 \<noteq> [] \<and> (hd s0 = CHR ''-'' \<or> hd s0 = CHR ''+'') then tl s0 else s0)
      in if s = ''0'' then Some 0
         else if s = [] then None
         else case duration_parts 0 s of
           None \<Rightarrow> None
         | Some d \<Rightarrow> if neg then Some (- int d) else if d > 2 ^ 63 - 1 then None else Some (int d))"

lemma ParseDuration_range: "ParseDuration s = Some d \<Longrightarrow> - (2 ^ 63) \<le> d \<and> d < 2 ^ 63"
proof -
  have "d0 \<le> 2 ^ 63 \<Longrightarrow> duration_parts d0 s = Some d1 \<Longrightarrow> d1 \<le> 2 ^ 63" for d0 s d1
    by (induction d0 s rule: duration_parts.induct)
      (subst (asm) (2) duration_parts.simps, auto simp: Let_def split: if_splits option.splits prod.splits)
  from this [of 0] show "ParseDuration s = Some d \<Longrightarrow> - (2 ^ 63) \<le> d \<and> d < 2 ^ 63"
    by (force simp: ParseDuration_def Let_def split: if_splits option.splits)
qed

end
