(* ===== verification/Spec2Isabelle.thy ===== *)
theory Spec2Isabelle
  imports Prelude GoLib Fast_Rand Errors Backend Backend_Conc Http Balancer Bal_Random Bal_Least Bal_WRR
    Hash_Ring Bal_Ring Bal_Maglev Bal_Rendezvous Bal_Sticky Pool Radix_Trie Router Raft Raft_Cluster Raft_Membership Gossip_Wire Gossip
    Circuit_Breaker Lru Go_Net Cidr Ip_Acl Client_Ip Bal_IpHash Bal_Response Rate_Limit Bytes Sni Proxy_Protocol
    Ring_Buffer Health Passive_Health Go_Strings Security Chain Http_Proxy Dist_State Go_Time
begin

text \<open>
  OpenLoadBalancer: a verification development of the request distribution core.
\<close>

end
